(* ===== verification/Continuum_Prelude.thy ===== *)
theory Continuum_Prelude
  imports Complex_Main "HOL-Library.AList" "HOL-Library.List_Lexorder"
    "HOL-Library.Product_Lexorder" "HOL-Library.Multiset"
begin

text \<open>
  The vocabulary every component of the development shares: exceptions as values of a sum
  type with its bind, the two loops of a validator (\<open>mapE\<close> over a list, \<open>foldE\<close> with an
  accumulator), Python strings as lists of code points, dynamically typed Python values, and
  insertion-ordered dictionaries as association lists.

  Python strings are sequences of Unicode code points, so \<open>pystr\<close> is \<open>nat list\<close>;
  \<open>lit ''abc''\<close> is the ASCII literal.  A surrogate code point is a legal member of a Python
  string and makes \<open>encode("utf-8")\<close> raise, which several validators depend on.
\<close>

section \<open>Automation\<close>

named_theorems model_defs "definitions unfolded when a model function is evaluated"
named_theorems err_simps "simplification of exception-carrying computations"

section \<open>Exceptions as values\<close>

datatype py_error =
    ValueError string
  | KeyError
  | IndexError
  | TypeError
  | OverflowError
  | WriterClaimError string
  | OperationError string
  | RuntimeError string
  | WorkerRetryLeaseLost string
  | IntegrityError

definition bindE :: "'e + 'a \<Rightarrow> ('a \<Rightarrow> 'e + 'b) \<Rightarrow> 'e + 'b" where
  "bindE m f = (case m of Inl e \<Rightarrow> Inl e | Inr x \<Rightarrow> f x)"

text \<open>A guard of the source, \<open>if not ok: raise err\<close>.\<close>

definition ensure :: "bool \<Rightarrow> 'e \<Rightarrow> 'e + unit" where
  "ensure ok err = (if ok then Inr () else Inl err)"

definition isOk :: "'e + 'a \<Rightarrow> bool" where
  "isOk m = (case m of Inl e \<Rightarrow> False | Inr x \<Rightarrow> True)"

lemma bindE_simps [simp]:
  "bindE (Inl e) f = Inl e" "bindE (Inr x) f = f x"
  by (simp_all add: bindE_def)

lemma bindE_Inr_iff [simp]:
  "bindE m f = Inr y \<longleftrightarrow> (\<exists>x. m = Inr x \<and> f x = Inr y)"
  by (cases m) auto

lemma bindE_Inl_iff:
  "bindE m f = Inl e \<longleftrightarrow> m = Inl e \<or> (\<exists>x. m = Inr x \<and> f x = Inl e)"
  by (cases m) auto

lemma bindE_Inr [simp]: "bindE m Inr = m"
  by (cases m) auto

lemma bindE_cong [fundef_cong]:
  "m = n \<Longrightarrow> (\<And>v. n = Inr v \<Longrightarrow> f v = g v) \<Longrightarrow> bindE m f = bindE n g"
  by (cases n) auto

lemma bindE_assoc: "bindE (bindE m f) g = bindE m (\<lambda>x. bindE (f x) g)"
  by (cases m) auto

lemma ensure_Inr [simp]: "ensure ok err = Inr u \<longleftrightarrow> ok"
  by (simp add: ensure_def)

lemma ensure_Inl [simp]: "ensure ok err = Inl e \<longleftrightarrow> \<not> ok \<and> e = err"
  by (auto simp: ensure_def)

lemma ensure_simps [simp]: "ensure True err = Inr ()" "ensure False err = Inl err"
  by (simp_all add: ensure_def)

lemma isOk_simps [simp]: "isOk (Inr x)" "\<not> isOk (Inl e)"
  by (simp_all add: isOk_def)

lemma isOk_iff: "isOk m \<longleftrightarrow> (\<exists>x. m = Inr x)"
  by (cases m) auto

lemma isOk_bindE [simp]: "isOk (bindE m f) \<longleftrightarrow> (\<exists>x. m = Inr x \<and> isOk (f x))"
  by (cases m) auto

lemma isOk_ensure [simp]: "isOk (ensure ok err) = ok"
  by (simp add: isOk_def ensure_def)

section \<open>The two loops of a validator\<close>

text \<open>\<open>mapE\<close> is \<open>[f(x) for x in xs]\<close>, \<open>foldE\<close> is \<open>for x in xs: state = f(state, x)\<close>;
  both stop at the first exception.\<close>

fun mapE :: "('a \<Rightarrow> 'e + 'b) \<Rightarrow> 'a list \<Rightarrow> 'e + 'b list" where
  "mapE f [] = Inr []"
| "mapE f (x # xs) = bindE (f x) (\<lambda>y. bindE (mapE f xs) (\<lambda>ys. Inr (y # ys)))"

fun foldE :: "('s \<Rightarrow> 'a \<Rightarrow> 'e + 's) \<Rightarrow> 's \<Rightarrow> 'a list \<Rightarrow> 'e + 's" where
  "foldE f s [] = Inr s"
| "foldE f s (x # xs) = bindE (f s x) (\<lambda>s'. foldE f s' xs)"

lemma mapE_cong [fundef_cong]:
  assumes "xs = ys" and "\<And>x. x \<in> set ys \<Longrightarrow> f x = g x"
  shows "mapE f xs = mapE g ys"
  unfolding assms(1) using assms(2) by (induction ys) auto

lemma foldE_cong [fundef_cong]:
  assumes "s = t" "xs = ys" and "\<And>x s. x \<in> set ys \<Longrightarrow> f s x = g s x"
  shows "foldE f s xs = foldE g t ys"
  unfolding assms(1,2) using assms(3) by (induction ys arbitrary: t) (auto intro: bindE_cong)

lemma mapE_Inr_iff:
  "mapE f xs = Inr ys \<longleftrightarrow> list_all2 (\<lambda>x y. f x = Inr y) xs ys"
  by (induction xs arbitrary: ys) (auto simp: list_all2_Cons1)

lemma mapE_memD: "mapE f xs = Inr ys \<Longrightarrow> x \<in> set xs \<Longrightarrow> \<exists>y\<in>set ys. f x = Inr y"
  by (induction xs arbitrary: ys) auto

lemma mapE_length: "mapE f xs = Inr ys \<Longrightarrow> length ys = length xs"
  by (simp add: mapE_Inr_iff list_all2_lengthD)

lemma mapE_append:
  "mapE f (xs @ ys) = bindE (mapE f xs) (\<lambda>us. bindE (mapE f ys) (\<lambda>vs. Inr (us @ vs)))"
  by (induction xs) (auto simp: bindE_assoc)

lemma mapE_isOk: "isOk (mapE f xs) \<longleftrightarrow> (\<forall>x\<in>set xs. isOk (f x))"
  by (induction xs) (auto simp: isOk_iff)

lemma foldE_append: "foldE f s (xs @ ys) = bindE (foldE f s xs) (\<lambda>t. foldE f t ys)"
  by (induction xs arbitrary: s) (auto simp: bindE_assoc)

lemma foldE_snoc: "foldE f s (xs @ [x]) = bindE (foldE f s xs) (\<lambda>t. f t x)"
  by (simp add: foldE_append bindE_def split: sum.splits)

lemma foldE_memD: "foldE f s xs = Inr t \<Longrightarrow> x \<in> set xs \<Longrightarrow> \<exists>u v. f u x = Inr v"
  by (induction xs arbitrary: s) auto

lemma foldE_snoc_Inr:
  "foldE f s (xs @ [x]) = Inr t \<longleftrightarrow> (\<exists>u. foldE f s xs = Inr u \<and> f u x = Inr t)"
  by (simp add: foldE_snoc)

text \<open>An invariant of the loop body is an invariant of the loop.\<close>

lemma foldE_invariant:
  assumes "foldE f s xs = Inr t" and "P s"
    and "\<And>s x t. x \<in> set xs \<Longrightarrow> P s \<Longrightarrow> f s x = Inr t \<Longrightarrow> P t"
  shows "P t"
  using assms
proof (induction xs arbitrary: s)
  case (Cons x xs)
  then obtain u where u: "f s x = Inr u" and rest: "foldE f u xs = Inr t" by auto
  have "P u" using Cons.prems(2) u by (rule Cons.prems(3) [rotated]) simp
  then show ?case using Cons.IH [OF rest] Cons.prems(3) by (meson list.set_intros(2))
qed simp

text \<open>An invariant that relates the state to the prefix already read.\<close>

lemma foldE_prefix_invariant:
  assumes run: "foldE f s xs = Inr t" and base: "P s []"
    and step: "\<And>s p x t. P s p \<Longrightarrow> x \<in> set xs \<Longrightarrow> f s x = Inr t \<Longrightarrow> P t (p @ [x])"
  shows "P t xs"
  using run step
proof (induction xs arbitrary: t rule: rev_induct)
  case Nil
  then show ?case using base by simp
next
  case (snoc x xs)
  then obtain u where u: "foldE f s xs = Inr u" "f u x = Inr t"
    by (auto simp: foldE_snoc_Inr)
  have "P u xs" by (rule snoc.IH [OF u(1)]) (use snoc.prems(2) in auto)
  then show ?case by (rule snoc.prems(2)) (use u in auto)
qed

section \<open>Strings\<close>

type_synonym pystr = "nat list"

definition lit :: "string \<Rightarrow> pystr" where
  "lit s = map of_char s"

lemma lit_inject [simp]: "lit s = lit t \<longleftrightarrow> s = t"
  unfolding lit_def by (rule inj_map_eq_map) (simp add: inj_def)

lemma lit_length [simp]: "length (lit s) = length s"
  by (simp add: lit_def)

lemma lit_Nil_iff [simp]: "lit s = [] \<longleftrightarrow> s = []" "[] = lit s \<longleftrightarrow> s = []"
  by (auto simp: lit_def)

text \<open>\<open>str.isspace\<close> of one code point: the white space \<open>str.strip\<close> removes.\<close>

definition py_space :: "nat \<Rightarrow> bool" where
  "py_space c \<longleftrightarrow> 9 \<le> c \<and> c \<le> 13 \<or> 28 \<le> c \<and> c \<le> 32 \<or> c = 0x85 \<or> c = 0xA0 \<or> c = 0x1680
     \<or> 0x2000 \<le> c \<and> c \<le> 0x200A \<or> c = 0x2028 \<or> c = 0x2029 \<or> c = 0x202F \<or> c = 0x205F \<or> c = 0x3000"

definition py_lstrip :: "pystr \<Rightarrow> pystr" where
  "py_lstrip s = dropWhile py_space s"

definition py_strip :: "pystr \<Rightarrow> pystr" where
  "py_strip s = rev (dropWhile py_space (rev (dropWhile py_space s)))"

definition surrogate :: "nat \<Rightarrow> bool" where
  "surrogate c \<longleftrightarrow> 0xD800 \<le> c \<and> c \<le> 0xDFFF"

definition utf8_ok :: "pystr \<Rightarrow> bool" where
  "utf8_ok s = list_all (\<lambda>c. \<not> surrogate c) s"

text \<open>The UTF-8 bytes of one code point and of a string (\<open>value.encode("utf-8")\<close> where it
  does not raise).\<close>

definition utf8_char :: "nat \<Rightarrow> nat list" where
  "utf8_char c =
     (if c < 0x80 then [c]
      else if c < 0x800 then [0xC0 + c div 64, 0x80 + c mod 64]
      else if c < 0x10000 then [0xE0 + c div 4096, 0x80 + c div 64 mod 64, 0x80 + c mod 64]
      else [0xF0 + c div 262144, 0x80 + c div 4096 mod 64, 0x80 + c div 64 mod 64, 0x80 + c mod 64])"

definition utf8 :: "pystr \<Rightarrow> nat list" where
  "utf8 s = concat (map utf8_char s)"

definition utf8_size :: "pystr \<Rightarrow> nat" where
  "utf8_size s = length (utf8 s)"

definition ascii_str :: "pystr \<Rightarrow> bool" where
  "ascii_str s = list_all (\<lambda>c. c < 128) s"

lemma utf8_simps [simp]: "utf8 [] = []" "utf8 (c # s) = utf8_char c @ utf8 s"
  by (simp_all add: utf8_def)

lemma utf8_append [simp]: "utf8 (s @ t) = utf8 s @ utf8 t"
  by (simp add: utf8_def)

lemma utf8_char_length: "1 \<le> length (utf8_char c)" "length (utf8_char c) \<le> 4"
  by (auto simp: utf8_char_def)

lemma utf8_size_bounds: "length s \<le> utf8_size s" "utf8_size s \<le> 4 * length s"
proof (induction s)
  case (Cons c s)
  { case 1 then show ?case using Cons.IH utf8_char_length(1) [of c] by (simp add: utf8_size_def) }
  { case 2 then show ?case using Cons.IH utf8_char_length(2) [of c] by (simp add: utf8_size_def) }
qed (simp_all add: utf8_size_def)

lemma utf8_ascii: "ascii_str s \<Longrightarrow> utf8 s = s"
  by (induction s) (auto simp: ascii_str_def utf8_char_def)

section \<open>Dynamically typed values\<close>

text \<open>
  A finite float is given by its shortest decimal representation (sign, digits, exponent),
  the one \<open>repr\<close> prints and the JSON writer emits; \<open>POther\<close> stands for every object that is not
  plain JSON (a tuple, a set, an instance of a class, a subclass of \<open>dict\<close> or \<open>list\<close>).
\<close>

datatype pyfloat = FDec bool nat int | FInf bool | FNan

datatype pyval =
    PNone
  | PBool bool
  | PInt int
  | PFloat pyfloat
  | PStr pystr
  | PList "pyval list"
  | PDict "(pyval \<times> pyval) list"
  | POther nat

fun finite_float :: "pyfloat \<Rightarrow> bool" where
  "finite_float (FDec _ _ _) = True"
| "finite_float _ = False"

fun is_str :: "pyval \<Rightarrow> bool" where
  "is_str (PStr _) = True" | "is_str _ = False"

fun is_dict :: "pyval \<Rightarrow> bool" where
  "is_dict (PDict _) = True" | "is_dict _ = False"

fun is_list :: "pyval \<Rightarrow> bool" where
  "is_list (PList _) = True" | "is_list _ = False"

fun as_str :: "pyval \<Rightarrow> pystr option" where
  "as_str (PStr s) = Some s" | "as_str _ = None"

fun as_int :: "pyval \<Rightarrow> int option" where
  "as_int (PInt i) = Some i" | "as_int _ = None"

fun as_bool :: "pyval \<Rightarrow> bool option" where
  "as_bool (PBool b) = Some b" | "as_bool _ = None"

fun as_list :: "pyval \<Rightarrow> pyval list option" where
  "as_list (PList vs) = Some vs" | "as_list _ = None"

fun entries :: "pyval \<Rightarrow> (pyval \<times> pyval) list" where
  "entries (PDict kvs) = kvs" | "entries _ = []"

text \<open>\<open>d.get(key)\<close>: \<open>None\<close> where the key is absent, as Python's default.\<close>

definition dget :: "pyval \<Rightarrow> string \<Rightarrow> pyval option" where
  "dget d k = map_of (entries d) (PStr (lit k))"

definition dget_or :: "pyval \<Rightarrow> string \<Rightarrow> pyval \<Rightarrow> pyval" where
  "dget_or d k v = (case dget d k of None \<Rightarrow> v | Some x \<Rightarrow> x)"

text \<open>\<open>d[key]\<close>.\<close>

definition getitem :: "pyval \<Rightarrow> string \<Rightarrow> py_error + pyval" where
  "getitem d k = (case dget d k of None \<Rightarrow> Inl KeyError | Some x \<Rightarrow> Inr x)"

text \<open>\<open>set(d) == {k1, ..., kn}\<close>: exactly these keys.\<close>

definition has_keys :: "pyval \<Rightarrow> string list \<Rightarrow> bool" where
  "has_keys d ks \<longleftrightarrow> (case d of PDict kvs \<Rightarrow>
      list_all (\<lambda>kv. list_ex (\<lambda>k. fst kv = PStr (lit k)) ks) kvs
      \<and> list_all (\<lambda>k. list_ex (\<lambda>kv. fst kv = PStr (lit k)) kvs) ks | _ \<Rightarrow> False)"

definition mkdict :: "(string \<times> pyval) list \<Rightarrow> pyval" where
  "mkdict kvs = PDict (map (\<lambda>(k, v). (PStr (lit k), v)) kvs)"

lemma has_keys_dget: "has_keys d ks \<Longrightarrow> k \<in> set ks \<Longrightarrow> dget d k \<noteq> None"
proof (cases d)
  case (PDict kvs)
  moreover assume "has_keys d ks" "k \<in> set ks"
  ultimately obtain kv where "kv \<in> set kvs" "fst kv = PStr (lit k)"
    by (auto simp: has_keys_def list_all_iff list_ex_iff)
  then have "PStr (lit k) \<in> fst ` set kvs" by (metis imageI)
  with PDict show ?thesis by (simp add: dget_def map_of_eq_None_iff)
qed (auto simp: has_keys_def)

lemma has_keys_dict: "has_keys d ks \<Longrightarrow> is_dict d"
  by (cases d) (auto simp: has_keys_def)

lemma dget_mkdict [simp]: "dget (mkdict kvs) k = map_of kvs k"
  by (induction kvs) (auto simp: mkdict_def dget_def)

lemma getitem_Inr [simp]: "getitem d k = Inr v \<longleftrightarrow> dget d k = Some v"
  by (auto simp: getitem_def split: option.splits)

section \<open>Insertion-ordered dictionaries\<close>

text \<open>
  A Python \<open>dict\<close> whose iteration order matters is an association list; \<open>AList.update\<close> keeps
  the position of an existing key and appends a new one at the end, as Python does.
\<close>

type_synonym ('k, 'v) odict = "('k \<times> 'v) list"

abbreviation oget :: "('k, 'v) odict \<Rightarrow> 'k \<Rightarrow> 'v option" where
  "oget \<equiv> map_of"

abbreviation oset :: "'k \<Rightarrow> 'v \<Rightarrow> ('k, 'v) odict \<Rightarrow> ('k, 'v) odict" where
  "oset \<equiv> AList.update"

lemma oget_oset [simp]: "oget (oset k v d) k' = (if k' = k then Some v else oget d k')"
  by (simp add: update_conv')

lemma dom_oset [simp]: "fst ` set (oset k v d) = insert k (fst ` set d)"
  by (auto simp: dom_update [symmetric] dom_map_of_conv_image_fst [symmetric] update_conv')

lemma distinct_oset [simp]: "distinct (map fst d) \<Longrightarrow> distinct (map fst (oset k v d))"
  by (rule distinct_update)

lemma in_set_oset: "kv \<in> set (oset k v d) \<Longrightarrow> kv = (k, v) \<or> kv \<in> set d"
  by (induction d) (auto split: if_splits)

lemma oset_new: "oget d k = None \<Longrightarrow> oset k v d = d @ [(k, v)]"
  by (induction d) (auto split: if_splits)

section \<open>Lists\<close>

lemma dropWhile_hd: "s \<noteq> [] \<Longrightarrow> \<not> P (hd s) \<Longrightarrow> dropWhile P s = s"
  by (cases s) auto

lemma find_SomeD: "find P xs = Some x \<Longrightarrow> x \<in> set xs \<and> P x"
  by (induction xs) (auto split: if_splits)

lemma find_None_all: "find P xs = None \<longleftrightarrow> (\<forall>x\<in>set xs. \<not> P x)"
  by (induction xs) auto

lemma find_append_Some: "find P xs = Some x \<Longrightarrow> find P (xs @ ys) = Some x"
  by (induction xs) auto

lemma find_snoc: "find P xs = None \<Longrightarrow> find P (xs @ [x]) = (if P x then Some x else None)"
  by (induction xs) (auto split: if_splits)

lemma sum_list_take_le:
  fixes xs :: "nat list"
  shows "sum_list (take n xs) \<le> sum_list xs"
  by (metis append_take_drop_id le_add1 sum_list_append)

lemma sum_list_drop_le:
  fixes xs :: "nat list"
  shows "sum_list (drop n xs) \<le> sum_list xs"
  by (metis append_take_drop_id le_add2 sum_list_append)

lemma sum_list_sort: "sum_list (map f (sort_key g xs)) = (sum_list (map f xs) :: nat)"
  by (metis mset_map mset_sort sum_mset_sum_list)

end
