(* ===== verification/Text_Budget.thy ===== *)
theory Text_Budget
  imports Continuum_Prelude
begin

text \<open>
  The text arithmetic of \<open>core/store.py\<close> and \<open>core/tool_outputs.py\<close>: the planning token
  estimate, truncation to a token budget, the overlapping chunks of an ingested book and the exact,
  non-overlapping slices of a preserved tool output.
\<close>

definition estimate_tokens :: "pystr \<Rightarrow> nat" where
  "estimate_tokens s = (if s \<noteq> [] then max 1 (length s div 4) else 0)"

text \<open>\<open>text[a:b]\<close> for non-negative bounds, and \<open>str.rfind(sub, lo, hi)\<close> as the position or -1.\<close>

definition slice :: "pystr \<Rightarrow> nat \<Rightarrow> nat \<Rightarrow> pystr" where
  "slice s a b = take (b - a) (drop a s)"

definition rfind :: "pystr \<Rightarrow> pystr \<Rightarrow> nat \<Rightarrow> nat \<Rightarrow> int" where
  "rfind sub s lo hi =
     (case find (\<lambda>i. take (length sub) (drop i s) = sub) (rev [lo..<Suc (min hi (length s)) - length sub]) of
        None \<Rightarrow> -1 | Some i \<Rightarrow> int i)"

definition py_rstrip :: "pystr \<Rightarrow> pystr" where
  "py_rstrip s = rev (dropWhile py_space (rev s))"

definition truncate_to_token_budget :: "pystr \<Rightarrow> int \<Rightarrow> pystr \<times> bool" where
  "truncate_to_token_budget s budget =
     (if s = [] \<or> budget \<le> 0 then ([], s \<noteq> [])
      else if int (estimate_tokens s) \<le> budget then (s, False)
      else let limit = nat (max 1 (budget * 4)); suffix = lit ''...''
           in if limit \<le> length suffix then (take limit suffix, True)
              else (py_rstrip (take (limit - length suffix) s) @ suffix, True))"

section \<open>The chunks of a book\<close>

text \<open>Where the chunk that starts at \<open>start\<close> ends: at a paragraph break in the second half of the
  window, if there is one.\<close>

definition chunk_end :: "pystr \<Rightarrow> nat \<Rightarrow> nat \<Rightarrow> nat" where
  "chunk_end s max_chars start =
     (let e = min (length s) (start + max_chars)
      in if e < length s
         then let split_at = rfind [10, 10] s start e
              in if split_at > int (start + max_chars div 2) then nat split_at else e
         else e)"

text \<open>The loop may run forever (an overlap of at least half a window can move the start
  backwards), so it is a partial function: \<open>None\<close> is a loop that does not end.\<close>

partial_function (option) chunk_loop ::
  "pystr \<Rightarrow> nat \<Rightarrow> nat \<Rightarrow> nat \<Rightarrow> pystr list \<Rightarrow> pystr list option" where
  "chunk_loop s max_chars overlap start chunks =
     (if start < length s
      then let e = chunk_end s max_chars start;
               chunk = py_strip (slice s start e);
               chunks' = (if chunk \<noteq> [] then chunks @ [chunk] else chunks)
           in if length s \<le> e then Some chunks'
              else chunk_loop s max_chars overlap (e - overlap) chunks'
      else Some chunks)"

definition chunk_text :: "pystr \<Rightarrow> nat \<Rightarrow> nat \<Rightarrow> pystr list option" where
  "chunk_text s max_chars overlap =
     (if length s \<le> max_chars then Some [s] else chunk_loop s max_chars overlap 0 [])"

section \<open>The slices of a preserved tool output\<close>

definition tool_slice_end :: "pystr \<Rightarrow> nat \<Rightarrow> nat" where
  "tool_slice_end s start =
     (let e = min (length s) (start + 4096)
      in if e < length s
         then let lo = max start (e - 256);
                  split = max (max (rfind [32] s lo e) (rfind [10] s lo e)) (rfind [9] s lo e)
              in if int start \<le> split then nat split + 1 else e
         else e)"

lemma rfind_bounds:
  assumes "rfind sub s lo hi = int i"
  shows "lo \<le> i" "i + length sub \<le> hi" "take (length sub) (drop i s) = sub"
proof -
  let ?P = "\<lambda>i. take (length sub) (drop i s) = sub"
  let ?xs = "rev [lo..<Suc (min hi (length s)) - length sub]"
  from assms have "find ?P ?xs = Some i"
    by (simp add: rfind_def split: option.splits)
  then have "i \<in> set ?xs" "?P i" using find_SomeD by force+
  then show "lo \<le> i" "i + length sub \<le> hi" "?P i" by auto
qed

lemma rfind_cases: "rfind sub s lo hi = -1 \<or> (\<exists>i. rfind sub s lo hi = int i)"
  by (simp add: rfind_def split: option.splits)

lemma tool_slice_end_gt: "start < length s \<Longrightarrow> start < tool_slice_end s start"
  by (auto simp: tool_slice_end_def Let_def)

function tool_slices :: "pystr \<Rightarrow> nat \<Rightarrow> pystr list" where
  "tool_slices s start =
     (if start < length s
      then slice s start (tool_slice_end s start) # tool_slices s (tool_slice_end s start)
      else [])"
  by pat_completeness auto
termination
  by (relation "measure (\<lambda>(s, start). length s - start)")
     (auto intro!: diff_less_mono2 tool_slice_end_gt)

declare tool_slices.simps [simp del]

section \<open>Lemmas\<close>

lemma slice_append:
  assumes "a \<le> b"
  shows "slice s a b @ drop b s = drop a s"
proof -
  have "drop b s = drop (b - a) (drop a s)" using assms by simp
  then show ?thesis by (simp only: slice_def append_take_drop_id)
qed

lemma slice_length: "length (slice s a b) = min (b - a) (length s - a)"
  by (simp add: slice_def)

lemma rfind_less: "rfind [c] s lo hi < int hi \<or> hi = 0"
  using rfind_cases [of "[c]" s lo hi] rfind_bounds(2) [of "[c]" s lo hi] by fastforce

lemma tool_slice_end_le: "tool_slice_end s start \<le> min (length s) (start + 4096)"
proof -
  define e where "e = min (length s) (start + 4096)"
  define lo where "lo = max start (e - 256)"
  define split where "split = max (max (rfind [32] s lo e) (rfind [10] s lo e)) (rfind [9] s lo e)"
  have "rfind [c] s lo e < int e \<or> rfind [c] s lo e = -1" for c
    using rfind_cases [of "[c]" s lo e] rfind_bounds(2) [of "[c]" s lo e] by fastforce
  then have "split < int e \<or> split = -1" unfolding split_def by (simp add: max_def)
  then have "int start \<le> split \<Longrightarrow> nat split + 1 \<le> e" by linarith
  moreover have "tool_slice_end s start
      = (if e < length s then if int start \<le> split then nat split + 1 else e else e)"
    by (simp add: tool_slice_end_def Let_def e_def lo_def split_def)
  ultimately show ?thesis by (simp add: e_def split: if_splits)
qed

lemma py_rstrip_length: "length (py_rstrip s) \<le> length s"
  using length_dropWhile_le [of py_space "rev s"] by (simp add: py_rstrip_def)

lemma py_strip_length: "length (py_strip s) \<le> length s"
  by (metis py_strip_def length_dropWhile_le length_rev order_trans)

lemma concat_tool_slices: "concat (tool_slices s start) = drop start s"
proof (induction s start rule: tool_slices.induct)
  case (1 s start)
  show ?case
  proof (cases "start < length s")
    case True
    then have "start \<le> tool_slice_end s start" using tool_slice_end_gt by (simp add: less_imp_le)
    with 1 True show ?thesis
      by (simp add: tool_slices.simps [of s start] slice_append)
  next
    case False
    then show ?thesis by (simp add: tool_slices.simps [of s start])
  qed
qed

lemma tool_slices_bounds: "x \<in> set (tool_slices s start) \<Longrightarrow> x \<noteq> [] \<and> length x \<le> 4096"
proof (induction s start rule: tool_slices.induct)
  case (1 s start)
  show ?case
  proof (cases "start < length s")
    case True
    have "0 < length (slice s start (tool_slice_end s start))"
      "length (slice s start (tool_slice_end s start)) \<le> 4096"
      using tool_slice_end_gt [OF True] tool_slice_end_le [of s start] True
      by (auto simp: slice_length)
    then have "slice s start (tool_slice_end s start) \<noteq> []" by auto
    with 1 True show ?thesis
      using \<open>length (slice s start (tool_slice_end s start)) \<le> 4096\<close>
      by (auto simp: tool_slices.simps [of s start])
  next
    case False
    with 1 show ?thesis by (simp add: tool_slices.simps [of s start])
  qed
qed

text \<open>The windows of a book: each starts no later than where the last one ended (so nothing between
  them is lost), is not empty, is at most \<open>m\<close> long, and the last one ends with the text.\<close>

fun spans_cover :: "nat \<Rightarrow> nat \<Rightarrow> nat \<Rightarrow> (nat \<times> nat) list \<Rightarrow> bool" where
  "spans_cover pos n m [] \<longleftrightarrow> pos = n"
| "spans_cover pos n m ((a, b) # r) \<longleftrightarrow> a \<le> pos \<and> a < b \<and> b \<le> n \<and> b - a \<le> m \<and> spans_cover b n m r"

lemma spans_cover_mono: "spans_cover pos n m r \<Longrightarrow> pos \<le> pos' \<Longrightarrow> r \<noteq> [] \<Longrightarrow> spans_cover pos' n m r"
  by (cases r) auto

lemma chunk_end_bounds:
  assumes "start < length s" "0 < m"
  shows "start < chunk_end s m start" "chunk_end s m start \<le> length s"
    "chunk_end s m start \<le> start + m"
    "chunk_end s m start < length s \<Longrightarrow> start + m div 2 < chunk_end s m start"
proof -
  define e where "e = min (length s) (start + m)"
  define sp where "sp = rfind [10, 10] s start e"
  have sp: "sp = -1 \<or> (\<exists>i. sp = int i \<and> i + 2 \<le> e)"
    using rfind_cases [of "[10, 10]" s start e] rfind_bounds(2) [of "[10, 10]" s start e]
    unfolding sp_def by fastforce
  have ce: "chunk_end s m start
      = (if e < length s then if int (start + m div 2) < sp then nat sp else e else e)"
    by (simp add: chunk_end_def Let_def e_def sp_def)
  show "start < chunk_end s m start" "chunk_end s m start \<le> length s"
    "chunk_end s m start \<le> start + m"
    using ce sp assms unfolding e_def by (auto split: if_splits)
  show "chunk_end s m start < length s \<Longrightarrow> start + m div 2 < chunk_end s m start"
    using ce sp assms unfolding e_def by (auto split: if_splits)
qed

lemma chunk_loop_spans:
  assumes "overlap \<le> m div 2" "0 < m" "start < length s"
  shows "\<exists>spans. spans \<noteq> [] \<and> spans_cover start (length s) m spans \<and>
     chunk_loop s m overlap start cs
       = Some (cs @ filter (\<lambda>x. x \<noteq> []) (map (\<lambda>(a, b). py_strip (slice s a b)) spans))"
  using assms(3)
proof (induction "length s - start" arbitrary: start cs rule: less_induct)
  case less
  let ?e = "chunk_end s m start"
  let ?chunk = "py_strip (slice s start ?e)"
  let ?cs = "if ?chunk \<noteq> [] then cs @ [?chunk] else cs"
  note ce = chunk_end_bounds [OF less.prems assms(2)]
  show ?case
  proof (cases "length s \<le> ?e")
    case True
    then have "chunk_loop s m overlap start cs = Some ?cs"
      using less.prems by (simp add: chunk_loop.simps Let_def)
    then show ?thesis using True less.prems ce by (intro exI [of _ "[(start, ?e)]"]) auto
  next
    case False
    then have prog: "start < ?e - overlap" using ce(4) assms(1) by linarith
    have "length s - (?e - overlap) < length s - start" using prog less.prems by linarith
    moreover have lt: "?e - overlap < length s" using False by linarith
    ultimately obtain spans where spans: "spans \<noteq> []" "spans_cover (?e - overlap) (length s) m spans"
      "chunk_loop s m overlap (?e - overlap) ?cs
         = Some (?cs @ filter (\<lambda>x. x \<noteq> []) (map (\<lambda>(a, b). py_strip (slice s a b)) spans))"
      using less.hyps by meson
    have "chunk_loop s m overlap start cs = chunk_loop s m overlap (?e - overlap) ?cs"
      using less.prems False by (simp add: chunk_loop.simps [of s m overlap start] Let_def)
    moreover have "spans_cover ?e (length s) m spans"
      using spans_cover_mono [OF spans(2) _ spans(1)] by simp
    ultimately show ?thesis
      using spans(3) ce by (intro exI [of _ "(start, ?e) # spans"]) auto
  qed
qed

lemma py_strip_Nil [simp]: "py_strip [] = []"
  by (simp add: py_strip_def)

section \<open>Properties\<close>

text \<open>C38 A preserved tool output is stored without loss: the indexed slices, in order, concatenate to
  exactly the approved text, and each slice is non-empty and at most 4096 characters long.\<close>

theorem tool_slices_exact:
  "concat (tool_slices s 0) = s \<and> list_all (\<lambda>x. x \<noteq> [] \<and> length x \<le> 4096) (tool_slices s 0)"
  using concat_tool_slices [of s 0] tool_slices_bounds [of _ s 0] by (simp add: list_all_iff)

text \<open>Truncation never exceeds its token budget, reports exactly when it dropped text, and leaves a
  fitting text unchanged.\<close>

lemma truncate_fits_budget:
  "int (estimate_tokens (fst (truncate_to_token_budget s b))) \<le> max 0 b \<and>
   snd (truncate_to_token_budget s b) = (s \<noteq> [] \<and> (b \<le> 0 \<or> b < int (estimate_tokens s))) \<and>
   (if snd (truncate_to_token_budget s b) then True else fst (truncate_to_token_budget s b) = s)"
proof (cases "s = [] \<or> b \<le> 0 \<or> int (estimate_tokens s) \<le> b")
  case True
  then show ?thesis by (auto simp: truncate_to_token_budget_def estimate_tokens_def)
next
  case False
  let ?r = "py_rstrip (take (nat (b * 4) - 3) s) @ lit ''...''"
  have big: "\<not> nat (max 1 (b * 4)) \<le> length (lit ''...'')" "nat (max 1 (b * 4)) = nat (b * 4)"
    using False by auto
  then have t: "truncate_to_token_budget s b = (?r, True)"
    using False by (simp add: truncate_to_token_budget_def Let_def numeral_3_eq_3)
  have "length ?r \<le> nat (b * 4)"
    using py_rstrip_length [of "take (nat (b * 4) - 3) s"] big(1) unfolding big(2) by simp linarith
  then have "int (length ?r) \<le> b * 4" using False by linarith
  then have "int (length ?r) div 4 \<le> b" by arith
  then have "int (length ?r div 4) \<le> b" by (simp only: zdiv_int of_nat_numeral)
  then show ?thesis using t False by (auto simp: estimate_tokens_def max_def split: if_splits)
qed

text \<open>C40 The chunker of ingested books terminates and loses no text: when the overlap is at most half
  the window, it returns the non-empty stripped windows of a cover of the whole text in which
  consecutive windows leave no gap and none is longer than the window size.\<close>

theorem chunk_text_covers:
  assumes "overlap \<le> m div 2" "0 < m" "m < length s"
  shows "\<exists>spans. spans_cover 0 (length s) m spans \<and>
    chunk_text s m overlap
      = Some (filter (\<lambda>x. x \<noteq> []) (map (\<lambda>(a, b). py_strip (slice s a b)) spans))"
proof -
  have "0 < length s" using assms(3) by linarith
  from chunk_loop_spans [OF assms(1,2) this, of "[]"] assms(3) show ?thesis
    by (auto simp: chunk_text_def)
qed

theorem chunk_text_covers_witness:
  "\<exists>spans. spans_cover 0 (length (lit ''ab cd'')) 4 spans \<and>
    chunk_text (lit ''ab cd'') 4 2
      = Some (filter (\<lambda>x. x \<noteq> []) (map (\<lambda>(a, b). py_strip (slice (lit ''ab cd'') a b)) spans))"
  by (rule chunk_text_covers) simp_all

end
