(* ===== verification/Py_Json.thy ===== *)
theory Py_Json
  imports Continuum_Prelude
begin

text \<open>
  The compact JSON writer the program hashes, measures and stores with
  (\<open>json.dumps\<close> with separators \<open>","\<close> and \<open>":"\<close>) and the JSON reader
  (\<open>json.loads\<close>).  A decimal literal reads as the float with that shortest representation, which is
  exact for every text the writer produced.
\<close>

section \<open>Numbers\<close>

fun dec_nat :: "nat \<Rightarrow> pystr" where
  "dec_nat n = (if n < 10 then [48 + n] else dec_nat (n div 10) @ [48 + n mod 10])"

declare dec_nat.simps [simp del]

definition dec_int :: "int \<Rightarrow> pystr" where
  "dec_int i = (if i < 0 then 45 # dec_nat (nat (- i)) else dec_nat (nat i))"

text \<open>\<open>float.__repr__\<close> from the shortest digits and the decimal point position.\<close>

definition float_repr :: "bool \<Rightarrow> nat \<Rightarrow> int \<Rightarrow> pystr" where
  "float_repr neg m e =
     (let ds = dec_nat m; n = int (length ds); pt = n + e; sign = (if neg then [45] else []) in
      if -4 < pt \<and> pt \<le> 16 then
        sign @ (if pt \<le> 0 then lit ''0.'' @ replicate (nat (- pt)) 48 @ ds
                else if n \<le> pt then ds @ replicate (nat (pt - n)) 48 @ lit ''.0''
                else take (nat pt) ds @ lit ''.'' @ drop (nat pt) ds)
      else
        sign @ take 1 ds @ (if n > 1 then 46 # drop 1 ds else []) @ lit ''e''
        @ (if pt - 1 < 0 then lit ''-'' else lit ''+'')
        @ (let x = dec_nat (nat \<bar>pt - 1\<bar>) in if length x < 2 then 48 # x else x))"

section \<open>Strings\<close>

definition hex_digit :: "nat \<Rightarrow> nat" where
  "hex_digit d = (if d < 10 then 48 + d else 87 + d)"

definition u_escape :: "nat \<Rightarrow> pystr" where
  "u_escape c = [92, 117, hex_digit (c div 4096), hex_digit (c div 256 mod 16),
                 hex_digit (c div 16 mod 16), hex_digit (c mod 16)]"

definition escape_char :: "bool \<Rightarrow> nat \<Rightarrow> pystr" where
  "escape_char ascii c =
     (if c = 34 then [92, 34] else if c = 92 then [92, 92]
      else if c = 10 then [92, 110] else if c = 13 then [92, 114] else if c = 9 then [92, 116]
      else if c = 12 then [92, 102] else if c = 8 then [92, 98]
      else if c < 32 then u_escape c
      else if ascii \<and> 126 < c then
        (if c < 0x10000 then u_escape c
         else u_escape (0xD800 + (c - 0x10000) div 1024) @ u_escape (0xDC00 + (c - 0x10000) mod 1024))
      else [c])"

definition quote :: "bool \<Rightarrow> pystr \<Rightarrow> pystr" where
  "quote ascii s = 34 # concat (map (escape_char ascii) s) @ [34]"

section \<open>Writing\<close>

record json_opts =
  jo_ascii :: bool
  jo_sort :: bool
  jo_nan :: bool

definition join :: "pystr list \<Rightarrow> pystr" where
  "join xs = (case xs of [] \<Rightarrow> [] | y # ys \<Rightarrow> y @ concat (map (\<lambda>z. 44 # z) ys))"

definition sort_items :: "(pyval \<times> 'a) list \<Rightarrow> (pyval \<times> 'a) list" where
  "sort_items = sort_key (\<lambda>kv. case fst kv of PStr s \<Rightarrow> s | _ \<Rightarrow> [])"

text \<open>\<open>TypeError\<close> for an object the writer does not know (and for a key that is not a string:
  every caller admits string keys only), \<open>ValueError\<close> for a non-finite float.\<close>

fun dumps :: "json_opts \<Rightarrow> pyval \<Rightarrow> py_error + pystr" where
  "dumps jo PNone = Inr (lit ''null'')"
| "dumps jo (PBool b) = Inr (if b then lit ''true'' else lit ''false'')"
| "dumps jo (PInt i) = Inr (dec_int i)"
| "dumps jo (PFloat f) =
     (case f of FDec neg m e \<Rightarrow> Inr (float_repr neg m e)
      | FInf neg \<Rightarrow> if jo_nan jo then Inr (lit (if neg then ''-Infinity'' else ''Infinity''))
                   else Inl (ValueError ''Out of range float values are not JSON compliant'')
      | FNan \<Rightarrow> if jo_nan jo then Inr (lit ''NaN'')
                else Inl (ValueError ''Out of range float values are not JSON compliant''))"
| "dumps jo (PStr s) = Inr (quote (jo_ascii jo) s)"
| "dumps jo (PList vs) = bindE (mapE (dumps jo) vs) (\<lambda>xs. Inr (91 # join xs @ [93]))"
| "dumps jo (PDict kvs) =
     bindE (mapE (\<lambda>(k, v). case k of
                    PStr s \<Rightarrow> bindE (dumps jo v) (\<lambda>x. Inr (k, quote (jo_ascii jo) s @ 58 # x))
                  | _ \<Rightarrow> Inl TypeError) kvs)
           (\<lambda>xs. Inr (123 # join (map snd (if jo_sort jo then sort_items xs else xs)) @ [125]))"
| "dumps jo (POther _) = Inl TypeError"

abbreviation dump_entry :: "json_opts \<Rightarrow> pyval \<times> pyval \<Rightarrow> py_error + pyval \<times> pystr" where
  "dump_entry jo \<equiv> (\<lambda>(k, v). case k of
     PStr s \<Rightarrow> bindE (dumps jo v) (\<lambda>x. Inr (k, quote (jo_ascii jo) s @ 58 # x)) | _ \<Rightarrow> Inl TypeError)"

lemma mkdict_ok: "(\<forall>kv\<in>set kvs. isOk (dumps jo (snd kv))) \<Longrightarrow> isOk (dumps jo (mkdict kvs))"
proof -
  assume "\<forall>kv\<in>set kvs. isOk (dumps jo (snd kv))"
  then have "isOk (mapE (dump_entry jo) (map (\<lambda>(k, v). (PStr (lit k), v)) kvs))"
    unfolding mapE_isOk by (auto simp: isOk_iff)
  then show ?thesis by (auto simp: mkdict_def isOk_iff)
qed

section \<open>Reading\<close>

definition json_ws :: "nat \<Rightarrow> bool" where
  "json_ws c \<longleftrightarrow> c = 32 \<or> c = 9 \<or> c = 10 \<or> c = 13"

abbreviation skip_ws :: "pystr \<Rightarrow> pystr" where
  "skip_ws \<equiv> dropWhile json_ws"

definition digit :: "nat \<Rightarrow> bool" where
  "digit c \<longleftrightarrow> 48 \<le> c \<and> c \<le> 57"

definition hex_value :: "nat \<Rightarrow> nat option" where
  "hex_value c = (if 48 \<le> c \<and> c \<le> 57 then Some (c - 48)
     else if 97 \<le> c \<and> c \<le> 102 then Some (c - 87)
     else if 65 \<le> c \<and> c \<le> 70 then Some (c - 55) else None)"

fun hex4 :: "pystr \<Rightarrow> (nat \<times> pystr) option" where
  "hex4 (a # b # c # d # s) =
     (case (hex_value a, hex_value b, hex_value c, hex_value d) of
        (Some a, Some b, Some c, Some d) \<Rightarrow> Some (a * 4096 + b * 256 + c * 16 + d, s)
      | _ \<Rightarrow> None)"
| "hex4 _ = None"

definition simple_escape :: "nat \<Rightarrow> nat option" where
  "simple_escape c = (if c = 34 then Some 34 else if c = 92 then Some 92 else if c = 47 then Some 47
     else if c = 98 then Some 8 else if c = 102 then Some 12 else if c = 110 then Some 10
     else if c = 114 then Some 13 else if c = 116 then Some 9 else None)"

lemma hex4_length: "hex4 s = Some (n, r) \<Longrightarrow> length r < length s"
  by (cases s rule: hex4.cases) (auto split: option.splits)

text \<open>The body of a string, after its opening quote: the value and what follows the closing
  quote.  A high surrogate escape followed by a low one is one code point.\<close>

function read_string :: "pystr \<Rightarrow> (pystr \<times> pystr) option" where
  "read_string [] = None"
| "read_string (c # s) =
     (if c = 34 then Some ([], s)
      else if c < 32 then None
      else if c = 92 then
        (case s of [] \<Rightarrow> None
         | e # r \<Rightarrow>
             if e = 117 then
               (case hex4 r of None \<Rightarrow> None
                | Some (u, r1) \<Rightarrow>
                    (case (if 0xD800 \<le> u \<and> u \<le> 0xDBFF \<and> take 2 r1 = [92, 117]
                           then hex4 (drop 2 r1) else None) of
                       Some (l, r2) \<Rightarrow>
                         if 0xDC00 \<le> l \<and> l \<le> 0xDFFF
                         then map_option (\<lambda>(x, y). ((0x10000 + (u - 0xD800) * 1024 + (l - 0xDC00)) # x, y))
                                (read_string r2)
                         else map_option (\<lambda>(x, y). (u # x, y)) (read_string r1)
                     | None \<Rightarrow> map_option (\<lambda>(x, y). (u # x, y)) (read_string r1)))
             else (case simple_escape e of None \<Rightarrow> None
                   | Some v \<Rightarrow> map_option (\<lambda>(x, y). (v # x, y)) (read_string r)))
      else map_option (\<lambda>(x, y). (c # x, y)) (read_string s))"
  by pat_completeness auto
termination
  by (relation "measure length") (auto dest!: hex4_length split: if_splits)

text \<open>A number: its integer digits, then an optional fraction and exponent.\<close>

definition digits_value :: "pystr \<Rightarrow> nat" where
  "digits_value s = foldl (\<lambda>a c. a * 10 + (c - 48)) 0 s"

definition strip_zeros :: "nat list \<Rightarrow> nat list" where
  "strip_zeros s = rev (dropWhile (\<lambda>c. c = 48) (rev s))"

definition mk_float :: "bool \<Rightarrow> pystr \<Rightarrow> pystr \<Rightarrow> int \<Rightarrow> pyval" where
  "mk_float neg ip fp ex =
     (let ds = strip_zeros (ip @ fp); m = digits_value ds
      in if m = 0 then PFloat (FDec neg 0 0)
         else PFloat (FDec neg m (ex + int (length ip) - int (length ds))))"

definition read_number :: "pystr \<Rightarrow> (pyval \<times> pystr) option" where
  "read_number s =
     (let neg = (s \<noteq> [] \<and> hd s = 45); s1 = (if neg then tl s else s);
          run = takeWhile digit s1;
          ip = (if run \<noteq> [] \<and> hd run = 48 then [48] else run); r1 = drop (length ip) s1
      in if ip = [] then None
         else let frun = (if r1 \<noteq> [] \<and> hd r1 = 46 then takeWhile digit (tl r1) else []);
                  r2 = (if frun = [] then r1 else drop (Suc (length frun)) r1);
                  has_e = (r2 \<noteq> [] \<and> (hd r2 = 101 \<or> hd r2 = 69));
                  t = tl r2; esign = (t \<noteq> [] \<and> (hd t = 43 \<or> hd t = 45));
                  eneg = (t \<noteq> [] \<and> hd t = 45);
                  erun = (if has_e then takeWhile digit (if esign then tl t else t) else []);
                  r3 = (if erun = [] then r2 else drop (length erun) (if esign then tl t else t));
                  v = int (digits_value ip)
              in if frun = [] \<and> erun = []
                 then Some (PInt (if neg then - v else v), r3)
                 else Some (mk_float neg ip frun
                        (if eneg then - int (digits_value erun) else int (digits_value erun)), r3))"

definition strip_prefix :: "pystr \<Rightarrow> pystr \<Rightarrow> pystr option" where
  "strip_prefix p s = (if take (length p) s = p then Some (drop (length p) s) else None)"

definition read_word :: "pystr \<Rightarrow> (pyval \<times> pystr) option" where
  "read_word s =
     (case strip_prefix (lit ''null'') s of Some r \<Rightarrow> Some (PNone, r) | None \<Rightarrow>
      case strip_prefix (lit ''true'') s of Some r \<Rightarrow> Some (PBool True, r) | None \<Rightarrow>
      case strip_prefix (lit ''false'') s of Some r \<Rightarrow> Some (PBool False, r) | None \<Rightarrow>
      case strip_prefix (lit ''NaN'') s of Some r \<Rightarrow> Some (PFloat FNan, r) | None \<Rightarrow>
      case strip_prefix (lit ''Infinity'') s of Some r \<Rightarrow> Some (PFloat (FInf False), r) | None \<Rightarrow>
      case strip_prefix (lit ''-Infinity'') s of Some r \<Rightarrow> Some (PFloat (FInf True), r) | None \<Rightarrow> None)"

text \<open>
  The reader proper, with a fuel that bounds the calls (\<open>loads\<close> gives it twice the length of the
  text plus one).  \<open>read_items\<close> and \<open>read_members\<close> are the rest of an array or object after an
  element; a repeated key keeps the position of the first and the value of the last.
\<close>

fun read_value :: "nat \<Rightarrow> pystr \<Rightarrow> (pyval \<times> pystr) option"
and read_items :: "nat \<Rightarrow> pystr \<Rightarrow> (pyval list \<times> pystr) option"
and read_members :: "nat \<Rightarrow> pystr \<Rightarrow> ((pyval \<times> pyval) list \<times> pystr) option" where
  "read_value 0 s = None"
| "read_value (Suc n) s =
     (case s of [] \<Rightarrow> None
      | c # r \<Rightarrow>
          if c = 34 then map_option (\<lambda>(x, q). (PStr x, q)) (read_string r)
          else if c = 91 then
            (let q = skip_ws r in
             if q \<noteq> [] \<and> hd q = 93 then Some (PList [], tl q)
             else map_option (\<lambda>(vs, t). (PList vs, t)) (read_items n q))
          else if c = 123 then
            (let q = skip_ws r in
             if q \<noteq> [] \<and> hd q = 125 then Some (PDict [], tl q)
             else map_option (\<lambda>(kvs, t). (PDict (fold (\<lambda>(k, v). oset k v) kvs []), t))
                    (read_members n q))
          else (case read_word s of Some x \<Rightarrow> Some x | None \<Rightarrow> read_number s))"
| "read_items 0 s = None"
| "read_items (Suc n) s =
     (case read_value n s of None \<Rightarrow> None
      | Some (v, r) \<Rightarrow>
          (case skip_ws r of
             [] \<Rightarrow> None
           | c # q \<Rightarrow>
               if c = 93 then Some ([v], q)
               else if c = 44 then map_option (\<lambda>(vs, t). (v # vs, t)) (read_items n (skip_ws q))
               else None))"
| "read_members 0 s = None"
| "read_members (Suc n) s =
     (case s of [] \<Rightarrow> None
      | c # r \<Rightarrow>
          if c \<noteq> 34 then None
          else (case read_string r of None \<Rightarrow> None
                | Some (k, q) \<Rightarrow>
                    (case skip_ws q of [] \<Rightarrow> None
                     | d # t \<Rightarrow>
                         if d \<noteq> 58 then None
                         else (case read_value n (skip_ws t) of None \<Rightarrow> None
                               | Some (v, t') \<Rightarrow>
                                   (case skip_ws t' of [] \<Rightarrow> None
                                    | e # u \<Rightarrow>
                                        if e = 125 then Some ([(PStr k, v)], u)
                                        else if e = 44 then
                                          map_option (\<lambda>(kvs, w). ((PStr k, v) # kvs, w))
                                            (read_members n (skip_ws u))
                                        else None)))))"

definition loads :: "pystr \<Rightarrow> pyval option" where
  "loads s = (case read_value (2 * length s + 1) (skip_ws s) of
      Some (v, r) \<Rightarrow> if skip_ws r = [] then Some v else None
    | None \<Rightarrow> None)"

section \<open>The texts of the store\<close>

definition store_json :: json_opts where
  "store_json = \<lparr>jo_ascii = True, jo_sort = True, jo_nan = True\<rparr>"

definition json_loads :: "pystr option \<Rightarrow> pyval \<Rightarrow> pyval" where
  "json_loads v fallback = (case v of None \<Rightarrow> fallback | Some s \<Rightarrow>
     if s = [] then fallback else case loads s of None \<Rightarrow> fallback | Some x \<Rightarrow> x)"

text \<open>\<open>int(text)\<close> on ASCII: blanks around, a sign, digits with single underscores between them.\<close>

definition py_nat :: "pystr \<Rightarrow> nat option" where
  "py_nat u =
     (if u \<noteq> [] \<and> list_all (\<lambda>c. digit c \<or> c = 95) u \<and> hd u \<noteq> 95 \<and> last u \<noteq> 95
         \<and> successively (\<lambda>a b. a \<noteq> 95 \<or> b \<noteq> 95) u
      then Some (digits_value (filter (\<lambda>c. c \<noteq> 95) u)) else None)"

definition py_int :: "pystr \<Rightarrow> int option" where
  "py_int s = (let u = py_strip s in
     if u \<noteq> [] \<and> hd u = 45 then map_option (\<lambda>n. - int n) (py_nat (tl u))
     else if u \<noteq> [] \<and> hd u = 43 then map_option int (py_nat (tl u))
     else map_option int (py_nat u))"

end
