(* ===== verification/Packet_Budget.thy ===== *)
theory Packet_Budget
  imports Text_Budget Py_Json
begin

text \<open>
  Packets that contain their own size.  \<open>bounded_results\<close> (\<open>core/knowledge_records.py\<close>) and
  \<open>_fit_packet\<close> (\<open>core/recall.py\<close>) write an estimate of the packet's serialized length into the
  packet, at most eight times, and drop results from the end until the text fits the budget.  The
  locale \<open>self_sized\<close> is what the loop needs of a packet: writing the estimate changes the length
  by the digits of the estimate only.  It is interpreted on the JSON packets both functions build.
\<close>

section \<open>The loops\<close>

definition compact_json :: json_opts where
  "compact_json = \<lparr>jo_ascii = True, jo_sort = False, jo_nan = False\<rparr>"

lemma compact_json_simps [simp]:
  "jo_ascii compact_json" "\<not> jo_sort compact_json" "\<not> jo_nan compact_json"
  by (simp_all add: compact_json_def)

definition packet_size :: "pyval \<Rightarrow> py_error + nat" where
  "packet_size p = bindE (dumps compact_json p) (\<lambda>s. Inr (length s))"

definition dput :: "pyval \<Rightarrow> string \<Rightarrow> pyval \<Rightarrow> pyval" where
  "dput d k v = PDict (oset (PStr (lit k)) v (entries d))"

definition packet_estimate :: "pyval \<Rightarrow> pyval" where
  "packet_estimate p = dget_or (dget_or p ''budget'' PNone) ''estimated_tokens'' PNone"

definition put_estimate :: "nat \<Rightarrow> pyval \<Rightarrow> pyval" where
  "put_estimate e p =
     dput p ''budget'' (dput (dget_or p ''budget'' PNone) ''estimated_tokens'' (PInt (int e)))"

text \<open>The inner \<open>for _ in range(n)\<close> loop: the packet and the last size it computed.\<close>

fun settle :: "nat \<Rightarrow> pyval \<Rightarrow> py_error + pyval \<times> nat" where
  "settle 0 p = Inr (p, 0)"
| "settle (Suc n) p =
     bindE (packet_size p) (\<lambda>sz.
       let e = (sz + 3) div 4
       in if packet_estimate p = PInt (int e) then Inr (p, sz)
          else if n = 0 then Inr (put_estimate e p, sz)
          else settle n (put_estimate e p))"

definition results_of :: "pyval \<Rightarrow> pyval list" where
  "results_of p = (case dget p ''results'' of Some (PList vs) \<Rightarrow> vs | _ \<Rightarrow> [])"

definition int_field :: "pyval \<Rightarrow> string \<Rightarrow> int" where
  "int_field p k = (case dget p k of Some (PInt i) \<Rightarrow> i | _ \<Rightarrow> 0)"

text \<open>\<open>bounded_results\<close>: pop the last result and count it.\<close>

definition drop_result :: "pyval \<Rightarrow> pyval" where
  "drop_result p =
     (let vs = butlast (results_of p);
          p1 = dput p ''results'' (PList vs);
          p2 = dput p1 ''result_count'' (PInt (int (length vs)))
      in dput p2 ''excluded_by_budget'' (PInt (int_field p2 ''excluded_by_budget'' + 1)))"

text \<open>\<open>_fit_packet\<close>: the same, with the count in \<open>retrieval\<close> and the estimate reset.\<close>

definition drop_recall :: "pyval \<Rightarrow> pyval" where
  "drop_recall p =
     (let vs = butlast (results_of p);
          p1 = dput p ''results'' (PList vs);
          ret = dget_or p ''retrieval'' PNone;
          p2 = dput p1 ''retrieval''
                 (dput ret ''excluded_by_budget'' (PInt (int_field ret ''excluded_by_budget'' + 1)));
          p3 = dput p2 ''result_count'' (PInt (int (length vs)));
          p4 = dput p3 ''abstained'' (PBool (vs = []))
      in put_estimate 0 p4)"

lemma dget_dput [simp]: "dget (dput d k v) k' = (if k' = k then Some v else dget d k')"
  by (simp add: dget_def dput_def)

lemma dget_put_estimate: "k \<noteq> ''budget'' \<Longrightarrow> dget (put_estimate e p) k = dget p k"
  by (simp add: put_estimate_def)

lemma results_put_estimate [simp]: "results_of (put_estimate e p) = results_of p"
  by (simp add: put_estimate_def results_of_def)

lemma settle_results: "settle n p = Inr (q, sz) \<Longrightarrow> results_of q = results_of p"
  by (induction n p rule: settle.induct) (auto simp: Let_def split: if_splits)

function bounded_loop :: "nat \<Rightarrow> pyval \<Rightarrow> py_error + pyval" where
  "bounded_loop budget p =
     bindE (settle 8 p) (\<lambda>(q, sz).
       if sz \<le> budget * 4 then Inr q
       else if results_of q = [] then Inl (ValueError ''token_budget cannot hold the knowledge envelope'')
       else bounded_loop budget (drop_result q))"
  by pat_completeness auto
termination
  by (relation "measure (\<lambda>(_, p). length (results_of p))")
     (auto simp: drop_result_def results_of_def Let_def dest!: settle_results)

function fit_packet :: "pyval \<Rightarrow> nat \<Rightarrow> py_error + pyval" where
  "fit_packet p budget =
     bindE (settle 8 p) (\<lambda>(q, _).
     bindE (packet_size q) (\<lambda>sz.
       if sz \<le> budget * 4 then Inr q
       else if results_of q = [] then Inl (ValueError ''token_budget cannot hold the recall envelope'')
       else fit_packet (drop_recall q) budget))"
  by pat_completeness auto
termination
  by (relation "measure (\<lambda>(p, _). length (results_of p))")
     (auto simp: drop_recall_def results_of_def Let_def put_estimate_def dest!: settle_results)

definition bounded_packet :: "pyval list \<Rightarrow> int \<Rightarrow> (pyval \<times> pyval) list \<Rightarrow> pyval" where
  "bounded_packet records budget extra =
     fold (\<lambda>(k, v) d. dput d k v)
       [(''schema_version'', PInt 1), (''instruction_authority'', PStr (lit ''none'')),
        (''results'', PList records), (''matched_count'', PInt (int (length records))),
        (''result_count'', PInt (int (length records))), (''excluded_by_budget'', PInt 0),
        (''budget'', mkdict [(''requested_tokens'', PInt budget), (''estimated_tokens'', PInt 0),
                             (''method'', PStr (lit ''compact_ascii_json_chars_div_4''))])]
       (PDict extra)"

definition bounded_results :: "pyval list \<Rightarrow> pyval \<Rightarrow> (pyval \<times> pyval) list \<Rightarrow> py_error + pyval" where
  "bounded_results records token_budget extra =
     (case token_budget of
        PInt b \<Rightarrow> bindE (ensure (512 \<le> b \<and> b \<le> 32768)
                   (ValueError ''token_budget must be an integer from 512 to 32768'')) (\<lambda>_.
                 bounded_loop (nat b) (bounded_packet records b extra))
      | _ \<Rightarrow> Inl (ValueError ''token_budget must be an integer from 512 to 32768''))"

declare bounded_loop.simps [simp del] fit_packet.simps [simp del]

section \<open>The estimate settles\<close>

definition dec_len :: "nat \<Rightarrow> nat" where
  "dec_len n = length (dec_nat n)"

lemma dec_len_step: "dec_len n = (if n < 10 then 1 else dec_len (n div 10) + 1)"
  unfolding dec_len_def by (subst dec_nat.simps) simp

lemma dec_len_mono: "m \<le> n \<Longrightarrow> dec_len m \<le> dec_len n"
proof (induction n arbitrary: m rule: less_induct)
  case (less n)
  then show ?case
    by (cases "m < 10"; cases "n < 10")
       (simp_all add: dec_len_step [of n] dec_len_step [of m] div_le_mono)
qed

lemma dec_len_pos: "1 \<le> dec_len n"
  by (subst dec_len_step) simp

lemma dec_len_bound: "n < 10 ^ Suc k \<Longrightarrow> dec_len n \<le> Suc k"
proof (induction k arbitrary: n)
  case (Suc k)
  then have "n div 10 < 10 ^ Suc k" by simp
  with Suc.IH show ?case by (subst dec_len_step) simp
qed (subst dec_len_step, simp)

text \<open>Repeating \<open>e := ceil((B + digits e) / 4)\<close> reaches a fixed point within eight rounds: the
  sequence is monotone and from the second term on confined to seven values.\<close>

definition next_estimate :: "nat \<Rightarrow> nat \<Rightarrow> nat" where
  "next_estimate b e = (b + dec_len e + 3) div 4"

lemma next_estimate_mono: "d \<le> e \<Longrightarrow> next_estimate b d \<le> next_estimate b e"
  unfolding next_estimate_def by (intro div_le_mono add_mono dec_len_mono) auto

lemma next_estimate_range:
  assumes "e < 10 ^ 20"
  shows "(b + 4) div 4 \<le> next_estimate b e" "next_estimate b e \<le> (b + 4) div 4 + 5"
proof -
  have "dec_len e \<le> 20" using dec_len_bound [of e 19] assms by simp
  then show "(b + 4) div 4 \<le> next_estimate b e" "next_estimate b e \<le> (b + 4) div 4 + 5"
    using dec_len_pos [of e] unfolding next_estimate_def by linarith+
qed

lemma settles_pure:
  fixes e :: "nat \<Rightarrow> nat"
  assumes next_e: "\<And>i. e (Suc i) = next_estimate b (e i)" and small: "e 0 < 10 ^ 20" "b < 10 ^ 19"
  shows "\<exists>i<8. e (Suc i) = e i"
proof (rule ccontr)
  assume "\<not> ?thesis"
  then have ne: "e (Suc i) \<noteq> e i" if "i < 8" for i using that by blast
  have bnd: "e i < 10 ^ 20" for i
  proof (induction i)
    case (Suc i)
    have "(b + 4) div 4 + 5 < 10 ^ 20" using small(2) by simp
    with next_estimate_range(2) [OF Suc, of b] show ?case by (simp add: next_e)
  qed (rule small)
  note range = next_estimate_range [OF bnd, of b, folded next_e]
  show False
  proof (cases "e 0 < e 1")
    case True
    have up: "e i < e (Suc i)" if "i < 8" for i
      using that
    proof (induction i)
      case (Suc i)
      then have "e (Suc i) \<le> e (Suc (Suc i))"
        using next_estimate_mono [of "e i" "e (Suc i)" b] by (simp add: next_e)
      with ne [of "Suc i"] Suc.prems show ?case by simp
    qed (use True in simp)
    have "e 1 + i \<le> e (Suc i)" if "i < 8" for i
      using that
    proof (induction i)
      case (Suc i)
      then show ?case using up [of "Suc i"] by simp
    qed simp
    from this [of 7] range(1) [of 0] range(2) [of 7] show False by simp
  next
    case False
    have down: "e (Suc i) < e i" if "i < 8" for i
      using that
    proof (induction i)
      case (Suc i)
      then have "e (Suc (Suc i)) \<le> e (Suc i)"
        using next_estimate_mono [of "e (Suc i)" "e i" b] by (simp add: next_e)
      with ne [of "Suc i"] Suc.prems show ?case by simp
    qed (use False ne [of 0] in simp)
    have "e (Suc i) + i \<le> e 1" if "i < 8" for i
      using that
    proof (induction i)
      case (Suc i)
      then show ?case using down [of "Suc i"] by simp
    qed simp
    from this [of 7] range(1) [of 7] range(2) [of 0] show False by simp
  qed
qed

text \<open>What the loop needs of the packets it measures.\<close>

locale self_sized =
  fixes ok :: "'p \<Rightarrow> bool" and size :: "'p \<Rightarrow> nat" and est :: "'p \<Rightarrow> nat" and put :: "nat \<Rightarrow> 'p \<Rightarrow> 'p"
  assumes ok_put: "ok p \<Longrightarrow> ok (put e p)"
    and est_put: "ok p \<Longrightarrow> est (put e p) = e"
    and size_put: "ok p \<Longrightarrow> size (put e p) + dec_len (est p) = size p + dec_len e"
    and put_put: "ok p \<Longrightarrow> put e (put d p) = put e p"
begin

definition base :: "'p \<Rightarrow> nat" where
  "base p = size p - dec_len (est p)"

definition bounded :: "'p \<Rightarrow> bool" where
  "bounded p \<longleftrightarrow> ok p \<and> dec_len (est p) \<le> size p \<and> est p < 10 ^ 20 \<and> base p < 10 ^ 19"

fun iterate :: "nat \<Rightarrow> 'p \<Rightarrow> 'p \<times> nat" where
  "iterate 0 p = (p, 0)"
| "iterate (Suc n) p =
     (let e = (size p + 3) div 4
      in if est p = e then (p, size p) else if n = 0 then (put e p, size p) else iterate n (put e p))"

lemma size_base: "bounded p \<Longrightarrow> size p = base p + dec_len (est p)"
  by (simp add: bounded_def base_def)

lemma base_put: "bounded p \<Longrightarrow> base (put e p) = base p \<and> dec_len e \<le> size (put e p)"
  using size_put [of p e] est_put [of p e] by (auto simp: bounded_def base_def)

lemma bounded_put: "bounded p \<Longrightarrow> e < 10 ^ 20 \<Longrightarrow> bounded (put e p)"
  using base_put [of p e] ok_put [of p e] est_put [of p e] by (auto simp: bounded_def)

lemma next_small: "bounded p \<Longrightarrow> (size p + 3) div 4 = next_estimate (base p) (est p) \<and> (size p + 3) div 4 < 10 ^ 20"
  using next_estimate_range(2) [of "est p" "base p"] size_base [of p]
  by (auto simp: next_estimate_def bounded_def)

lemma iterate_settles:
  assumes "bounded p" "e 0 = est p" "\<And>i. e (Suc i) = next_estimate (base p) (e i)" "i < n" "e (Suc i) = e i"
  shows "\<exists>d. iterate n p = (d, size d) \<and> bounded d \<and> est d = (size d + 3) div 4 \<and> (d = p \<or> (\<exists>e < 10 ^ 20. d = put e p))"
  using assms
proof (induction n arbitrary: p e i)
  case (Suc n)
  have next_p: "(size p + 3) div 4 = e 1" "e 1 < 10 ^ 20"
    using next_small [OF Suc.prems(1)] Suc.prems(2,3) by auto
  show ?case
  proof (cases "est p = e 1")
    case True
    then show ?thesis using next_p Suc.prems(1) by (auto simp: Let_def)
  next
    case False
    then obtain j where j: "i = Suc j" using Suc.prems(2,5) by (cases i) auto
    with Suc.prems(4) have "n \<noteq> 0" "j < n" by auto
    moreover have "bounded (put (e 1) p)" using Suc.prems(1) next_p by (intro bounded_put) auto
    moreover have "base (put (e 1) p) = base p" "est (put (e 1) p) = e 1"
      using base_put [OF Suc.prems(1)] est_put Suc.prems(1) by (auto simp: bounded_def)
    ultimately obtain d where d: "iterate n (put (e 1) p) = (d, size d)" "bounded d" "est d = (size d + 3) div 4"
      "d = put (e 1) p \<or> (\<exists>e' < 10 ^ 20. d = put e' (put (e 1) p))"
      using Suc.IH [of "put (e 1) p" "\<lambda>i. e (Suc i)" j] Suc.prems(3,5) j by auto
    have "put e' (put (e 1) p) = put e' p" for e' using Suc.prems(1) by (auto simp: bounded_def put_put)
    then show ?thesis using d next_p False \<open>n \<noteq> 0\<close> by (auto simp: Let_def)
  qed
qed simp

text \<open>The final estimate is the size of the very packet that holds it.\<close>

theorem eight_rounds:
  assumes "bounded p"
  shows "\<exists>d. iterate 8 p = (d, size d) \<and> bounded d \<and> est d = (size d + 3) div 4 \<and> (d = p \<or> (\<exists>e < 10 ^ 20. d = put e p))"
proof -
  define e where "e = rec_nat (est p) (\<lambda>_. next_estimate (base p))"
  have e: "e 0 = est p" "e (Suc i) = next_estimate (base p) (e i)" for i by (simp_all add: e_def)
  obtain i where "i < 8" "e (Suc i) = e i"
    using settles_pure [of e "base p"] e assms by (auto simp: bounded_def)
  with iterate_settles [of p e i 8] assms e show ?thesis by blast
qed

end

section \<open>JSON packets\<close>

lemma join_length: "length (join xs) = sum_list (map length xs) + (length xs - 1)"
proof -
  have "length (concat (map (\<lambda>z. 44 # z) ys)) = sum_list (map length ys) + length ys" for ys :: "pystr list"
    by (induction ys) auto
  then show ?thesis by (cases xs) (auto simp: join_def)
qed

lemma dump_entry_update:
  assumes "mapE (dump_entry jo) kvs = Inr xs" "map_of kvs (PStr k) = Some v" "dumps jo w = Inr u"
  shows "\<exists>t xs'. dumps jo v = Inr t \<and> mapE (dump_entry jo) (oset (PStr k) w kvs) = Inr xs' \<and> length xs' = length xs \<and>
     sum_list (map (\<lambda>x. length (snd x)) xs') + length t = sum_list (map (\<lambda>x. length (snd x)) xs) + length u"
  using assms
proof (induction kvs arbitrary: xs)
  case (Cons kv kvs)
  obtain k' v' where kv: "kv = (k', v')" by force
  from Cons.prems(1) obtain y ys where xs: "xs = y # ys" "dump_entry jo kv = Inr y" "mapE (dump_entry jo) kvs = Inr ys"
    by auto
  show ?case
  proof (cases "k' = PStr k")
    case True
    then show ?thesis using Cons.prems kv xs by auto
  next
    case False
    then obtain t xs' where IH: "dumps jo v = Inr t" "mapE (dump_entry jo) (oset (PStr k) w kvs) = Inr xs'"
      "length xs' = length ys"
      "sum_list (map (\<lambda>x. length (snd x)) xs') + length t = sum_list (map (\<lambda>x. length (snd x)) ys) + length u"
      using Cons.IH [OF xs(3)] Cons.prems kv by auto
    moreover from IH(2) have "mapE (dump_entry jo) (oset (PStr k) w (kv # kvs)) = Inr (y # xs')"
      using False kv xs(2) by simp
    ultimately show ?thesis using xs(1)
      by (intro exI [of _ t] exI [of _ "y # xs'"]) simp
  qed
qed simp

text \<open>Replacing the value of a key changes the text by the difference of the two values.\<close>

lemma dumps_dput:
  assumes "dumps compact_json d = Inr s" "dget d k = Some v" "dumps compact_json w = Inr u"
  shows "\<exists>t s'. dumps compact_json v = Inr t \<and> dumps compact_json (dput d k w) = Inr s' \<and>
    length s' + length t = length s + length u"
proof (cases d)
  case (PDict kvs)
  from assms(1) PDict obtain xs where xs: "mapE (dump_entry compact_json) kvs = Inr xs"
    "s = 123 # join (map snd xs) @ [125]"
    by (auto)
  from dump_entry_update [OF xs(1) _ assms(3), of "lit k" v] assms(2) PDict
  obtain t xs' where "dumps compact_json v = Inr t" "mapE (dump_entry compact_json) (oset (PStr (lit k)) w kvs) = Inr xs'"
    "length xs' = length xs"
    "sum_list (map (\<lambda>x. length (snd x)) xs') + length t = sum_list (map (\<lambda>x. length (snd x)) xs) + length u"
    by (auto simp: dget_def)
  then show ?thesis using PDict xs
    by (auto simp: dput_def join_length o_def)
qed (use assms in \<open>auto simp: dget_def\<close>)

lemma dumps_nat: "dumps compact_json (PInt (int e)) = Inr (dec_nat e)"
  by (simp add: dec_int_def)

definition packet_ok :: "pyval \<Rightarrow> bool" where
  "packet_ok p \<longleftrightarrow> isOk (packet_size p) \<and> (case packet_estimate p of PInt i \<Rightarrow> 0 \<le> i | _ \<Rightarrow> False)"

definition packet_len :: "pyval \<Rightarrow> nat" where
  "packet_len p = (case packet_size p of Inr n \<Rightarrow> n | Inl _ \<Rightarrow> 0)"

definition packet_est :: "pyval \<Rightarrow> nat" where
  "packet_est p = (case packet_estimate p of PInt i \<Rightarrow> nat i | _ \<Rightarrow> 0)"

lemma packet_okE:
  assumes "packet_ok p"
  obtains s b where "dumps compact_json p = Inr s" "dget p ''budget'' = Some b"
    "dget b ''estimated_tokens'' = Some (PInt (int (packet_est p)))" "packet_len p = length s"
    "packet_estimate p = PInt (int (packet_est p))"
proof -
  from assms obtain s where s: "dumps compact_json p = Inr s" "packet_len p = length s"
    by (auto simp: packet_ok_def packet_size_def packet_len_def isOk_iff)
  from assms obtain i where i: "packet_estimate p = PInt i" "0 \<le> i"
    by (auto simp: packet_ok_def split: pyval.splits)
  then obtain b where "dget p ''budget'' = Some b" "dget b ''estimated_tokens'' = Some (PInt i)"
    by (auto simp: packet_estimate_def dget_or_def dget_def split: option.splits)
  with s i that show ?thesis by (auto simp: packet_est_def)
qed

lemma estimate_put [simp]: "packet_estimate (put_estimate e p) = PInt (int e)"
  by (simp add: packet_estimate_def put_estimate_def dget_or_def)

lemma packet_est_put [simp]: "packet_est (put_estimate e p) = e"
  by (simp add: packet_est_def)

lemma oset_oset [simp]: "oset k v (oset k w d) = oset k v d"
  by (induction d) auto

lemma dput_dput [simp]: "dput (dput d k w) k v = dput d k v"
  by (simp add: dput_def)

lemma put_estimate_twice: "put_estimate e (put_estimate d p) = put_estimate e p"
  by (simp add: put_estimate_def dget_or_def)

lemma put_estimate_size:
  assumes "packet_ok p"
  shows "packet_ok (put_estimate e p)"
    "packet_len (put_estimate e p) + dec_len (packet_est p) = packet_len p + dec_len e"
    "dec_len (packet_est p) \<le> packet_len p"
proof -
  from assms obtain s b where p: "dumps compact_json p = Inr s" "dget p ''budget'' = Some b"
    "dget b ''estimated_tokens'' = Some (PInt (int (packet_est p)))" "packet_len p = length s"
    by (rule packet_okE)
  from dumps_dput [OF p(1,2), of PNone "lit ''null''"] obtain sb where sb: "dumps compact_json b = Inr sb"
    by auto
  from dumps_dput [OF sb p(3) dumps_nat [of e]] obtain sb' where
    b': "dumps compact_json (dput b ''estimated_tokens'' (PInt (int e))) = Inr sb'"
    "length sb' + dec_len (packet_est p) = length sb + dec_len e"
    by (auto simp: dec_int_def dec_len_def)
  from dumps_dput [OF p(1,2) b'(1)] sb obtain s' where
    s': "dumps compact_json (put_estimate e p) = Inr s'" "length s' + length sb = length s + length sb'"
    using p(2) by (auto simp: put_estimate_def dget_or_def)
  show "packet_ok (put_estimate e p)"
    using s' by (simp add: packet_ok_def packet_size_def isOk_iff)
  show "packet_len (put_estimate e p) + dec_len (packet_est p) = packet_len p + dec_len e"
    using s' b' p by (simp add: packet_len_def packet_size_def)
  from dumps_dput [OF sb p(3), of "PStr []" "[34, 34]"] obtain sb2 where
    b2: "dumps compact_json (dput b ''estimated_tokens'' (PStr [])) = Inr sb2"
    "length sb2 + dec_len (packet_est p) = length sb + 2"
    by (auto simp: dec_int_def dec_len_def quote_def)
  from dumps_dput [OF p(1,2) b2(1)] sb obtain s2 where
    "dumps compact_json (dput p ''budget'' (dput b ''estimated_tokens'' (PStr []))) = Inr s2"
    "length s2 + length sb = length s + length sb2" by auto
  moreover from this(1) have "2 \<le> length s2" by (auto simp: dput_def)
  ultimately show "dec_len (packet_est p) \<le> packet_len p" using b2 p(4) by simp
qed

interpretation packet: self_sized packet_ok packet_len packet_est put_estimate
  by unfold_locales (auto intro: put_estimate_size simp: packet_est_put put_estimate_twice)

lemma settle_iterate:
  "packet_ok p \<Longrightarrow> settle n p = Inr (packet.iterate n p)"
proof (induction n arbitrary: p)
  case (Suc n)
  from Suc.prems(1) obtain s b where p: "dumps compact_json p = Inr s"
    "packet_estimate p = PInt (int (packet_est p))" "packet_len p = length s"
    by (rule packet_okE)
  then show ?case
    using Suc.IH [OF put_estimate_size(1) [OF Suc.prems(1)]] p
    by (auto simp: packet_size_def Let_def)
qed simp

section \<open>Dropping results\<close>

lemma dput_ok:
  assumes "packet_ok p" "k \<noteq> ''budget''" "dget p k = Some v" "dumps compact_json w = Inr u"
  shows "packet_ok (dput p k w)" "packet_est (dput p k w) = packet_est p"
    "\<exists>t. dumps compact_json v = Inr t \<and> packet_len (dput p k w) + length t = packet_len p + length u"
proof -
  from assms(1) obtain s b where p: "dumps compact_json p = Inr s" "packet_len p = length s" by (rule packet_okE)
  from dumps_dput [OF p(1) assms(3,4)] obtain t s' where t: "dumps compact_json v = Inr t"
    "dumps compact_json (dput p k w) = Inr s'" "length s' + length t = length s + length u" by blast
  have e: "packet_estimate (dput p k w) = packet_estimate p"
    using assms(2) by (simp add: packet_estimate_def dget_or_def)
  show "packet_ok (dput p k w)" "packet_est (dput p k w) = packet_est p"
    using t e assms(1) by (simp_all add: packet_ok_def packet_size_def packet_est_def isOk_iff)
  show "\<exists>t. dumps compact_json v = Inr t \<and> packet_len (dput p k w) + length t = packet_len p + length u"
    using t p by (simp add: packet_len_def packet_size_def)
qed

lemma dput_base:
  assumes "packet_ok p" "k \<noteq> ''budget''" "dget p k = Some v" "dumps compact_json w = Inr u"
    "dumps compact_json v = Inr t" "length u \<le> length t + n"
  shows "packet.base (dput p k w) \<le> packet.base p + n"
  using dput_ok [OF assms(1-4)] assms(5,6) by (auto simp: packet.base_def)

lemma dumps_butlast:
  assumes "dumps jo (PList vs) = Inr t"
  shows "\<exists>u. dumps jo (PList (butlast vs)) = Inr u \<and> length u \<le> length t"
proof (cases vs rule: rev_cases)
  case (snoc ws v)
  from assms snoc obtain xs x where "mapE (dumps jo) ws = Inr xs" "t = 91 # join (xs @ [x]) @ [93]"
    by (auto simp: mapE_append)
  then show ?thesis using snoc by (auto simp: join_length)
qed (use assms in auto)

lemma dec_len_int: "length (dec_int (int n)) = dec_len n"
  by (simp add: dec_int_def dec_len_def)

definition loop_inv :: "pyval list \<Rightarrow> pyval \<Rightarrow> bool" where
  "loop_inv records p \<longleftrightarrow> packet_ok p \<and> packet_est p < 10 ^ 20 \<and>
     (\<exists>k \<le> length records. dget p ''results'' = Some (PList (take k records)) \<and>
        dget p ''result_count'' = Some (PInt (int k)) \<and>
        dget p ''excluded_by_budget'' = Some (PInt (int (length records - k))) \<and>
        dget p ''matched_count'' = Some (PInt (int (length records))) \<and>
        packet.base p + 60 * k < 10 ^ 19) \<and> length records < 10 ^ 19"

lemma loop_inv_put:
  assumes "loop_inv records p" "e < 10 ^ 20"
  shows "loop_inv records (put_estimate e p)"
proof -
  have b: "packet.bounded p" using assms(1) put_estimate_size(3) [of p]
    by (auto simp: packet.bounded_def loop_inv_def)
  have "packet.base (put_estimate e p) = packet.base p" using packet.base_put [OF b] by blast
  then show ?thesis
    using assms put_estimate_size(1) [of p] by (auto simp: loop_inv_def dget_put_estimate)
qed

lemma settle_inv:
  assumes "loop_inv records p"
  shows "\<exists>q. settle 8 p = Inr (q, packet_len q) \<and> loop_inv records q \<and> packet_est q = (packet_len q + 3) div 4"
proof -
  from assms have ok: "packet_ok p" and b: "packet.bounded p"
    using put_estimate_size(3) [of p] by (auto simp: packet.bounded_def loop_inv_def)
  from packet.eight_rounds [OF b] obtain q where q: "packet.iterate 8 p = (q, packet_len q)"
    "packet_est q = (packet_len q + 3) div 4" "q = p \<or> (\<exists>e < 10 ^ 20. q = put_estimate e p)" by blast
  then have "loop_inv records q" using assms loop_inv_put by blast
  with q settle_iterate [OF ok, of 8] show ?thesis by simp
qed

lemma drop_inv:
  assumes "loop_inv records p" "results_of p \<noteq> []"
  shows "loop_inv records (drop_result p)"
proof -
  from assms obtain k where k: "k \<le> length records" "dget p ''results'' = Some (PList (take k records))"
    "dget p ''result_count'' = Some (PInt (int k))"
    "dget p ''excluded_by_budget'' = Some (PInt (int (length records - k)))"
    "dget p ''matched_count'' = Some (PInt (int (length records)))" "packet.base p + 60 * k < 10 ^ 19"
    and ok: "packet_ok p" "packet_est p < 10 ^ 20" and n: "length records < 10 ^ 19"
    by (auto simp: loop_inv_def)
  have ne: "0 < k" using assms(2) k by (cases k) (auto simp: results_of_def)
  define vs where "vs = butlast (take k records)"
  have vs: "vs = take (k - 1) records" "length vs = k - 1"
    using k(1) by (auto simp: vs_def butlast_take)
  obtain t u where t: "dumps compact_json (PList (take k records)) = Inr t"
    and u: "dumps compact_json (PList vs) = Inr u" "length u \<le> length t"
  proof -
    from dput_ok(3) [OF ok(1) _ k(2), of PNone "lit ''null''"]
    obtain t where "dumps compact_json (PList (take k records)) = Inr t" by auto
    with dumps_butlast [OF this] that show ?thesis by (auto simp: vs_def)
  qed
  define p1 where "p1 = dput p ''results'' (PList vs)"
  define p2 where "p2 = dput p1 ''result_count'' (PInt (int (k - 1)))"
  define p3 where "p3 = dput p2 ''excluded_by_budget'' (PInt (int (length records - (k - 1))))"
  have d20: "dec_len m \<le> 20" if "m < 10 ^ 19" for m using dec_len_bound [of m 19] that by simp
  have km: "k < 10 ^ 19" "k - 1 < 10 ^ 19" "length records - (k - 1) < 10 ^ 19" using k(1) n by auto
  have 1: "packet_ok p1" "packet_est p1 = packet_est p" "packet.base p1 \<le> packet.base p"
    using dput_ok(1,2) [OF ok(1) _ k(2) u(1)] dput_base [OF ok(1) _ k(2) u(1) t, of 0] u(2)
    by (simp_all add: p1_def)
  have 2: "packet_ok p2" "packet_est p2 = packet_est p" "packet.base p2 \<le> packet.base p1 + 20"
    using dput_ok(1,2) [OF 1(1), of "''result_count''" "PInt (int k)" "PInt (int (k - 1))" "dec_int (int (k - 1))"]
      dput_base [OF 1(1), of "''result_count''" "PInt (int k)" "PInt (int (k - 1))" "dec_int (int (k - 1))" "dec_int (int k)" 20]
      d20 [OF km(2)] k(3) 1(2) by (auto simp: p1_def p2_def dec_len_int simp del: of_nat_diff)
  have 3: "packet_ok p3" "packet_est p3 = packet_est p" "packet.base p3 \<le> packet.base p2 + 20"
    using dput_ok(1,2) [OF 2(1), of "''excluded_by_budget''" "PInt (int (length records - k))"
        "PInt (int (length records - (k - 1)))" "dec_int (int (length records - (k - 1)))"]
      dput_base [OF 2(1), of "''excluded_by_budget''" "PInt (int (length records - k))"
        "PInt (int (length records - (k - 1)))" "dec_int (int (length records - (k - 1)))" "dec_int (int (length records - k))" 20]
      d20 [OF km(3)] k(4) 2(2) by (auto simp: p1_def p2_def p3_def dec_len_int simp del: of_nat_diff)
  have "drop_result p = p3"
    using k ne vs by (auto simp: drop_result_def results_of_def vs_def [symmetric] Let_def p1_def p2_def p3_def
        int_field_def of_nat_diff algebra_simps)
  moreover have "loop_inv records p3"
  proof -
    have "dget p3 ''results'' = Some (PList (take (k - 1) records))"
      "dget p3 ''result_count'' = Some (PInt (int (k - 1)))"
      "dget p3 ''excluded_by_budget'' = Some (PInt (int (length records - (k - 1))))"
      "dget p3 ''matched_count'' = Some (PInt (int (length records)))"
      using k(5) vs(1) by (simp_all add: p1_def p2_def p3_def)
    moreover have "packet.base p3 + 60 * (k - 1) < 10 ^ 19"
      using 1(3) 2(3) 3(3) k(6) ne by (cases k) auto
    ultimately show ?thesis
      unfolding loop_inv_def using 3(1,2) ok(2) n k(1) by (auto intro!: exI [of _ "k - 1"])
  qed
  ultimately show ?thesis by simp
qed

text \<open>The loop returns a packet that fits and whose estimate is its own size, or fails with an
  envelope that does not fit even without results.\<close>

lemma bounded_loop_result:
  assumes "loop_inv records p"
  shows "case bounded_loop budget p of
      Inr q \<Rightarrow> loop_inv records q \<and> packet_len q \<le> 4 * budget \<and> packet_est q = (packet_len q + 3) div 4
    | Inl e \<Rightarrow> e = ValueError ''token_budget cannot hold the knowledge envelope''"
  using assms
proof (induction budget p rule: bounded_loop.induct)
  case (1 budget p)
  from settle_inv [OF 1(2)] obtain q where q: "settle 8 p = Inr (q, packet_len q)" "loop_inv records q"
    "packet_est q = (packet_len q + 3) div 4" by blast
  show ?case
  proof (cases "packet_len q \<le> budget * 4 \<or> results_of q = []")
    case True
    then show ?thesis using q by (subst bounded_loop.simps) (auto simp: algebra_simps)
  next
    case False
    then have "bounded_loop budget p = bounded_loop budget (drop_result q)"
      using q by (subst bounded_loop.simps) simp
    then show ?thesis using 1(1) [OF q(1) refl] False drop_inv [OF q(2)] by auto
  qed
qed

section \<open>Properties\<close>

lemma bounded_packet_inv:
  assumes "packet_ok (bounded_packet records b extra)"
    "packet_len (bounded_packet records b extra) + 60 * length records < 10 ^ 19"
  shows "loop_inv records (bounded_packet records b extra)"
proof -
  have "packet_est (bounded_packet records b extra) = 0"
    by (simp add: packet_est_def packet_estimate_def bounded_packet_def dget_or_def)
  then show ?thesis using assms
    by (auto simp: loop_inv_def bounded_packet_def packet.base_def intro!: exI [of _ "length records"])
qed

text \<open>C22 A bounded result packet fits its budget and describes itself truthfully: its compact ASCII JSON
  text is at most four characters per budgeted token, its \<open>estimated_tokens\<close> is the size of this very
  text divided by four and rounded up (the fixed point is reached within the eight rounds), its results
  are a prefix of the records, and the counts of results, exclusions and matches add up.  The only
  failure after the argument checks is an envelope that cannot be written or does not fit.\<close>

theorem bounded_results_fit:
  assumes "512 \<le> b" "b \<le> 32768"
    and "packet_len (bounded_packet records b extra) + 60 * length records < 10 ^ 19"
    and "packet_ok (bounded_packet records b extra)"
  shows "case bounded_results records (PInt b) extra of
      Inl e \<Rightarrow> e = ValueError ''token_budget cannot hold the knowledge envelope''
    | Inr q \<Rightarrow> packet_size q = Inr (packet_len q) \<and> packet_len q \<le> 4 * nat b
        \<and> packet_estimate q = PInt (int ((packet_len q + 3) div 4))
        \<and> results_of q = take (length (results_of q)) records
        \<and> dget q ''result_count'' = Some (PInt (int (length (results_of q))))
        \<and> dget q ''excluded_by_budget'' = Some (PInt (int (length records) - int (length (results_of q))))
        \<and> dget q ''matched_count'' = Some (PInt (int (length records)))"
proof (cases "bounded_loop (nat b) (bounded_packet records b extra)")
  case (Inl e)
  with bounded_loop_result [OF bounded_packet_inv [OF assms(4,3)], of "nat b"] assms(1,2)
  show ?thesis by (simp add: bounded_results_def)
next
  case (Inr q)
  with bounded_loop_result [OF bounded_packet_inv [OF assms(4,3)], of "nat b"]
  have q: "loop_inv records q" "packet_len q \<le> 4 * nat b" "packet_est q = (packet_len q + 3) div 4" by auto
  then have "packet_size q = Inr (packet_len q)" "packet_estimate q = PInt (int (packet_est q))"
    by (auto simp: loop_inv_def packet_ok_def isOk_iff packet_len_def packet_est_def split: pyval.splits)
  with q Inr assms(1,2) show ?thesis
    by (auto simp: bounded_results_def loop_inv_def results_of_def of_nat_diff)
qed

theorem bounded_results_fit_witness:
  "case bounded_results [] (PInt 512) [] of
      Inl e \<Rightarrow> e = ValueError ''token_budget cannot hold the knowledge envelope''
    | Inr q \<Rightarrow> packet_len q \<le> 2048 \<and> results_of q = []"
proof -
  have p: "bounded_packet [] 512 [] = mkdict
    [(''schema_version'', PInt 1), (''instruction_authority'', PStr (lit ''none'')),
     (''results'', PList []), (''matched_count'', PInt 0), (''result_count'', PInt 0), (''excluded_by_budget'', PInt 0),
     (''budget'', mkdict [(''requested_tokens'', PInt 512), (''estimated_tokens'', PInt 0),
                          (''method'', PStr (lit ''compact_ascii_json_chars_div_4''))])]"
    by (simp add: bounded_packet_def mkdict_def dput_def)
  have "packet_size (bounded_packet [] 512 []) = Inr 219"
    unfolding p by (simp add: packet_size_def mkdict_def join_length quote_def escape_char_def lit_def dec_int_def dec_nat.simps)
  then have "packet_ok (bounded_packet [] 512 [])" "packet_len (bounded_packet [] 512 []) = 219"
    by (auto simp: packet_ok_def packet_len_def packet_estimate_def p dget_or_def)
  with bounded_results_fit [of 512 "[]" "[]"] show ?thesis
    by (auto split: sum.splits)
qed

end
