(* ===== verification/Py_Hash.thy ===== *)
theory Py_Hash
  imports Continuum_Prelude "HOL-Library.Word"
begin

unbundle bit_operations_syntax

text \<open>
  \<open>hashlib.sha256(...).hexdigest()\<close>, the digest behind every content hash, fingerprint, binding
  and hash chain of the program.  The compression function works on 32-bit words with wrap-around
  addition; the digest is 64 lowercase hexadecimal digits.
\<close>

type_synonym u32 = "32 word"

definition rotr :: "nat \<Rightarrow> u32 \<Rightarrow> u32" where
  "rotr n x = drop_bit n x OR push_bit (32 - n) x"

definition sha_k :: "u32 list" where
  "sha_k = [
   1116352408,1899447441,3049323471,3921009573,961987163,1508970993,2453635748,2870763221,
   3624381080,310598401,607225278,1426881987,1925078388,2162078206,2614888103,3248222580,
   3835390401,4022224774,264347078,604807628,770255983,1249150122,1555081692,1996064986,
   2554220882,2821834349,2952996808,3210313671,3336571891,3584528711,113926993,338241895,
   666307205,773529912,1294757372,1396182291,1695183700,1986661051,2177026350,2456956037,
   2730485921,2820302411,3259730800,3345764771,3516065817,3600352804,4094571909,275423344,
   430227734,506948616,659060556,883997877,958139571,1322822218,1537002063,1747873779,
   1955562222,2024104815,2227730452,2361852424,2428436474,2756734187,3204031479,3329325298]"

definition sha_init :: "u32 list" where
  "sha_init = [1779033703,3144134277,1013904242,2773480762,1359893119,2600822924,528734635,1541459225]"

definition be_bytes :: "nat \<Rightarrow> nat \<Rightarrow> nat list" where
  "be_bytes n v = map (\<lambda>i. v div 256 ^ (n - 1 - i) mod 256) [0..<n]"

definition sha_pad :: "nat list \<Rightarrow> nat list" where
  "sha_pad m = m @ 0x80 # replicate ((119 - length m mod 64) mod 64) 0 @ be_bytes 8 (8 * length m)"

fun words_of :: "nat list \<Rightarrow> u32 list" where
  "words_of (a # b # c # d # r) = of_nat (((a * 256 + b) * 256 + c) * 256 + d) # words_of r"
| "words_of _ = []"

text \<open>The message schedule, newest word first.\<close>

fun schedule :: "nat \<Rightarrow> u32 list \<Rightarrow> u32 list" where
  "schedule 0 w = w"
| "schedule (Suc n) w =
     (let x = w ! 14; y = w ! 1;
          s0 = rotr 7 x XOR rotr 18 x XOR drop_bit 3 x;
          s1 = rotr 17 y XOR rotr 19 y XOR drop_bit 10 y
      in schedule n ((w ! 15 + s0 + w ! 6 + s1) # w))"

fun sha_round :: "u32 list \<Rightarrow> u32 \<times> u32 \<Rightarrow> u32 list" where
  "sha_round [a, b, c, d, e, f, g, h] (k, w) =
     (let s1 = rotr 6 e XOR rotr 11 e XOR rotr 25 e;
          ch = (e AND f) XOR (NOT e AND g);
          t1 = h + s1 + ch + k + w;
          s0 = rotr 2 a XOR rotr 13 a XOR rotr 22 a;
          maj = (a AND b) XOR (a AND c) XOR (b AND c)
      in [t1 + s0 + maj, a, b, c, d + t1, e, f, g])"
| "sha_round st _ = st"

definition sha_block :: "u32 list \<Rightarrow> nat list \<Rightarrow> u32 list" where
  "sha_block st blk = map2 (+) st (foldl sha_round st (zip sha_k (rev (schedule 48 (rev (words_of blk))))))"

fun sha_blocks :: "nat \<Rightarrow> u32 list \<Rightarrow> nat list \<Rightarrow> u32 list" where
  "sha_blocks 0 st m = st"
| "sha_blocks (Suc n) st m = sha_blocks n (sha_block st (take 64 m)) (drop 64 m)"

definition hex_nibble :: "nat \<Rightarrow> nat" where
  "hex_nibble d = (if d < 10 then 48 + d else 87 + d)"

definition hex_word :: "u32 \<Rightarrow> pystr" where
  "hex_word w = map (\<lambda>i. hex_nibble (unat (drop_bit (28 - 4 * i) w) mod 16)) [0..<8]"

definition sha256_bytes :: "nat list \<Rightarrow> pystr" where
  "sha256_bytes m =
     (let p = sha_pad m in concat (map hex_word (sha_blocks (length p div 64) sha_init p)))"

text \<open>\<open>hashlib.sha256(s.encode("utf-8")).hexdigest()\<close>.\<close>

definition sha256 :: "pystr \<Rightarrow> pystr" where
  "sha256 s = sha256_bytes (utf8 s)"

text \<open>\<open>re.fullmatch("[0-9a-f]{64}", s)\<close>.\<close>

definition is_hex_char :: "nat \<Rightarrow> bool" where
  "is_hex_char c \<longleftrightarrow> 48 \<le> c \<and> c \<le> 57 \<or> 97 \<le> c \<and> c \<le> 102"

definition is_hex :: "nat \<Rightarrow> pystr \<Rightarrow> bool" where
  "is_hex n s \<longleftrightarrow> length s = n \<and> list_all is_hex_char s"

section \<open>SHA-1, for the stable identifiers\<close>

fun schedule1 :: "nat \<Rightarrow> u32 list \<Rightarrow> u32 list" where
  "schedule1 0 w = w"
| "schedule1 (Suc n) w = schedule1 n (rotr 31 (w ! 2 XOR w ! 7 XOR w ! 13 XOR w ! 15) # w)"

fun sha1_round :: "u32 list \<Rightarrow> nat \<times> u32 \<Rightarrow> u32 list" where
  "sha1_round [a, b, c, d, e] (i, w) =
     (let (f, k) = (if i < 20 then ((b AND c) OR (NOT b AND d), 1518500249)
                    else if i < 40 then (b XOR c XOR d, 1859775393)
                    else if i < 60 then ((b AND c) OR (b AND d) OR (c AND d), 2400959708)
                    else (b XOR c XOR d, 3395469782))
      in [rotr 27 a + f + e + k + w, a, rotr 2 b, c, d])"
| "sha1_round st _ = st"

definition sha1_block :: "u32 list \<Rightarrow> nat list \<Rightarrow> u32 list" where
  "sha1_block st blk =
     map2 (+) st (foldl sha1_round st (zip [0..<80] (rev (schedule1 64 (rev (words_of blk))))))"

fun sha1_blocks :: "nat \<Rightarrow> u32 list \<Rightarrow> nat list \<Rightarrow> u32 list" where
  "sha1_blocks 0 st m = st"
| "sha1_blocks (Suc n) st m = sha1_blocks n (sha1_block st (take 64 m)) (drop 64 m)"

definition sha1_bytes :: "nat list \<Rightarrow> pystr" where
  "sha1_bytes m =
     (let p = sha_pad m in concat (map hex_word (sha1_blocks (length p div 64)
        [1732584193, 4023233417, 2562383102, 271733878, 3285377520] p)))"

text \<open>\<open>encode("utf-8", errors="replace")\<close> puts a question mark for a surrogate.\<close>

definition utf8_replace :: "pystr \<Rightarrow> nat list" where
  "utf8_replace s = utf8 (map (\<lambda>c. if surrogate c then 63 else c) s)"

section \<open>Every digest is 64 lowercase hexadecimal digits\<close>

lemma hex_nibble_hex: "d < 16 \<Longrightarrow> is_hex_char (hex_nibble d)"
  by (simp add: is_hex_char_def hex_nibble_def)

lemma hex_word_hex: "list_all is_hex_char (hex_word w)"
  by (simp add: hex_word_def list_all_iff hex_nibble_hex)

lemma hex_word_length [simp]: "length (hex_word w) = 8"
  by (simp add: hex_word_def)

lemma sha_round_length: "length (sha_round st kw) = length st"
  by (cases "(st, kw)" rule: sha_round.cases) (auto simp: Let_def)

lemma sha_rounds_length: "length (foldl sha_round st kws) = length st"
  by (induction kws arbitrary: st) (auto simp: sha_round_length)

lemma sha_blocks_length: "length (sha_blocks n st m) = length st"
  by (induction n arbitrary: st m) (auto simp: sha_block_def sha_rounds_length)

lemma concat_hex_words:
  "length (concat (map hex_word ws)) = 8 * length ws \<and> list_all is_hex_char (concat (map hex_word ws))"
  by (induction ws) (auto simp: hex_word_hex)

lemma sha256_bytes_hex: "is_hex 64 (sha256_bytes m)"
  using concat_hex_words [of "sha_blocks (length (sha_pad m) div 64) sha_init (sha_pad m)"]
  by (simp add: sha256_bytes_def is_hex_def Let_def sha_blocks_length sha_init_def)

lemma sha256_hex: "is_hex 64 (sha256 s)"
  by (simp add: sha256_def sha256_bytes_hex)

end
