(* ===== verification/Scroll.thy ===== *)
theory Scroll
  imports Packet_Budget Py_Hash
begin

text \<open>
  The Scroll of \<open>core/store.py\<close>: the ordered event history of a memory root and the segments the
  scribe rolls out of it.  One transaction of \<open>append_scroll_event\<close> (its deduplication, the
  sequence number, the insert and the caller's effect) and one of \<open>roll_scroll_segment\<close> (its guards
  and the segment it commits).  The tables derived from an event (graph, Cards, queue, audit log)
  are one component \<open>derived\<close>, which the two transactions change only through the functions named
  in \<open>scroll_env\<close>; so is the secret policy, which runs before anything is stored.
\<close>

section \<open>Values\<close>

text \<open>\<open>bool(v)\<close> and \<open>str(v)\<close>; \<open>rp\<close> prints a container.\<close>

fun truthy :: "pyval \<Rightarrow> bool" where
  "truthy PNone = False"
| "truthy (PBool b) = b"
| "truthy (PInt i) = (i \<noteq> 0)"
| "truthy (PFloat (FDec _ m _)) = (m \<noteq> 0)"
| "truthy (PFloat _) = True"
| "truthy (PStr s) = (s \<noteq> [])"
| "truthy (PList vs) = (vs \<noteq> [])"
| "truthy (PDict kvs) = (kvs \<noteq> [])"
| "truthy (POther _) = True"

fun py_str :: "(pyval \<Rightarrow> pystr) \<Rightarrow> pyval \<Rightarrow> pystr" where
  "py_str rp PNone = lit ''None''"
| "py_str rp (PBool b) = (if b then lit ''True'' else lit ''False'')"
| "py_str rp (PInt i) = dec_int i"
| "py_str rp (PStr s) = s"
| "py_str rp v = rp v"

definition get_truthy :: "pyval \<Rightarrow> string \<Rightarrow> pyval option" where
  "get_truthy d k = (case dget d k of Some v \<Rightarrow> if truthy v then Some v else None | None \<Rightarrow> None)"

definition dsetdefault :: "pyval \<Rightarrow> string \<Rightarrow> pyval \<Rightarrow> pyval" where
  "dsetdefault d k v = (case dget d k of None \<Rightarrow> dput d k v | Some _ \<Rightarrow> d)"

definition dpop :: "pyval \<Rightarrow> string \<Rightarrow> pyval" where
  "dpop d k = PDict (filter (\<lambda>kv. fst kv \<noteq> PStr (lit k)) (entries d))"

definition dupdate :: "pyval \<Rightarrow> pyval \<Rightarrow> pyval" where
  "dupdate d e = PDict (fold (\<lambda>(k, v). oset k v) (entries e) (entries d))"

lemma dget_empty: "dget (PDict []) k = None"
  by (simp add: dget_def)

section \<open>Visibility\<close>

definition valid_scopes :: "pystr list" where
  "valid_scopes = [lit ''global'', lit ''session'', lit ''project'', lit ''private'']"

definition normalize_visibility_scope :: "pystr \<Rightarrow> pystr \<Rightarrow> string \<Rightarrow> py_error + pystr" where
  "normalize_visibility_scope v dflt field =
     (let scope = (if v \<noteq> [] then v else dflt)
      in if scope \<in> set valid_scopes then Inr scope else Inl (ValueError (''invalid '' @ field)))"

text \<open>The (scope, project) a metadata object grants; an unknown scope is private.\<close>

definition security_context :: "(pyval \<Rightarrow> pystr) \<Rightarrow> pyval \<Rightarrow> pystr \<times> pystr" where
  "security_context rp m =
     (let project = (case get_truthy m ''project_id'' of Some v \<Rightarrow> py_str rp v | None \<Rightarrow> []);
          wanted = (case get_truthy m ''visibility_scope'' of Some v \<Rightarrow> py_str rp v
                    | None \<Rightarrow> if project \<noteq> [] then lit ''project'' else lit ''session'');
          scope = (case normalize_visibility_scope wanted (lit ''global'') ''metadata visibility_scope'' of
                     Inr s \<Rightarrow> s | Inl _ \<Rightarrow> lit ''private'');
          scope = (if project \<noteq> [] \<and> scope = lit ''global'' then lit ''project'' else scope)
      in (scope, project))"

definition nonempty :: "pystr option \<Rightarrow> bool" where
  "nonempty p = (case p of None \<Rightarrow> False | Some s \<Rightarrow> s \<noteq> [])"

definition metadata_scope_visible ::
  "(pyval \<Rightarrow> pystr) \<Rightarrow> pyval \<Rightarrow> pystr option \<Rightarrow> pystr option \<Rightarrow> pystr option \<Rightarrow> bool" where
  "metadata_scope_visible rp m candidate_session session project =
     (let (scope, cproject) = security_context rp m in
      if scope = lit ''private'' then False
      else if scope = lit ''global'' then \<not> (nonempty session \<or> nonempty project)
      else if scope = lit ''project'' then
        nonempty project \<and> cproject \<noteq> [] \<and> Some cproject = project
      else if scope = lit ''session'' then nonempty session \<and> candidate_session = session
      else False)"

text \<open>\<open>_visible_card_clause\<close> and \<open>_visible_scroll_clause\<close>, as the predicate the SQL text denotes on a
  row's scope, session and project columns.\<close>

definition visible_clause ::
  "pystr option \<Rightarrow> pystr option \<Rightarrow> pystr \<Rightarrow> pystr option \<Rightarrow> pystr option \<Rightarrow> bool" where
  "visible_clause session project row_scope row_session row_project \<longleftrightarrow>
     (nonempty project \<and> row_scope = lit ''project'' \<and> row_project = project) \<or>
     (nonempty session \<and> row_scope = lit ''session'' \<and> row_session = session) \<or>
     (\<not> nonempty project \<and> \<not> nonempty session \<and> row_scope = lit ''global'' \<and> \<not> nonempty row_project)"

definition card_row_visible ::
  "pystr option \<Rightarrow> pystr option \<Rightarrow> pystr \<Rightarrow> pystr option \<Rightarrow> pystr option \<Rightarrow> bool" where
  "card_row_visible session project row_scope row_session row_project =
     (let cproject = (if nonempty row_project then row_project else None) in
      case normalize_visibility_scope
             (if row_scope \<noteq> [] then row_scope
              else if cproject \<noteq> None then lit ''project'' else lit ''global'')
             (lit ''global'') ''card visibility_scope'' of
        Inl _ \<Rightarrow> False
      | Inr s \<Rightarrow>
          (let scope = (if cproject \<noteq> None \<and> s = lit ''global'' then lit ''project'' else s) in
           if scope = lit ''global'' then \<not> (nonempty session \<or> nonempty project)
           else if scope = lit ''project'' then nonempty project \<and> cproject = project
           else if scope = lit ''session'' then nonempty session \<and> row_session = session
           else False))"

section \<open>Events and segments\<close>

record scroll_event =
  ev_id :: pystr
  ev_session :: pystr
  ev_seq :: int
  ev_type :: pystr
  ev_role :: pystr
  ev_content :: pystr
  ev_tokens :: nat
  ev_hash :: pystr
  ev_scope :: pystr
  ev_project :: "pystr option"
  ev_metadata :: pyval
  ev_created :: pystr

record segment =
  sg_id :: pystr
  sg_session :: pystr
  sg_start :: int
  sg_end :: int
  sg_card :: pystr
  sg_tokens :: nat
  sg_hash :: pystr

record 'x db =
  events :: "scroll_event list"
  segments :: "segment list"
  derived :: 'x

record append_result =
  ar_event :: pystr
  ar_session :: pystr
  ar_seq :: int
  ar_job :: "pystr option"
  ar_dedup :: bool
  ar_card :: "pystr option"

type_synonym 'x effect = "'x db \<Rightarrow> append_result \<Rightarrow> py_error + 'x db \<times> append_result"

text \<open>What the transactions call outside the Scroll tables: the secret policy, the association
  terms and exact-memory request of a text, the writers of the derived tables, the clock and the
  configured window.\<close>

record 'x scroll_env =
  se_policy :: "pystr \<Rightarrow> pystr \<Rightarrow> pystr \<Rightarrow> pystr \<Rightarrow> pyval \<Rightarrow> py_error + pystr \<times> pystr \<times> pystr \<times> pystr \<times> pyval"
  se_repr :: "pyval \<Rightarrow> pystr"
  se_terms :: "pystr \<Rightarrow> pystr list"
  se_exact :: "pystr \<Rightarrow> pystr option"
  se_promote :: "scroll_event \<Rightarrow> pystr \<Rightarrow> 'x \<Rightarrow> py_error + 'x \<times> pystr"
  se_index :: "scroll_event \<Rightarrow> 'x \<Rightarrow> 'x \<times> pystr"
  se_exact_card :: "scroll_event \<Rightarrow> pystr \<Rightarrow> pystr \<Rightarrow> 'x \<Rightarrow> py_error + 'x \<times> pystr"
  se_scribe_job :: "scroll_event \<Rightarrow> 'x \<Rightarrow> 'x \<times> pystr"
  se_audit :: "string \<Rightarrow> pystr \<Rightarrow> 'x \<Rightarrow> 'x"
  se_segment_card :: "scroll_event list \<Rightarrow> pystr \<Rightarrow> 'x \<Rightarrow> py_error + 'x \<times> pystr"
  se_segment_jobs :: "segment \<Rightarrow> 'x \<Rightarrow> 'x"
  se_window :: int
  se_now :: pystr
  se_cutoff :: pystr

definition stable_id :: "pystr \<Rightarrow> pystr list \<Rightarrow> pystr" where
  "stable_id prefix parts =
     prefix @ lit ''_'' @ take 24 (sha1_bytes (utf8_replace
       (case parts of [] \<Rightarrow> [] | p # ps \<Rightarrow> p @ concat (map (\<lambda>q. 31 # q) ps))))"

definition session_events :: "pystr \<Rightarrow> scroll_event list \<Rightarrow> scroll_event list" where
  "session_events s es = filter (\<lambda>e. ev_session e = s) es"

definition max_seq :: "pystr \<Rightarrow> scroll_event list \<Rightarrow> int" where
  "max_seq s es = (case map ev_seq (session_events s es) of [] \<Rightarrow> 0 | x # xs \<Rightarrow> fold max xs x)"

section \<open>Appending an event\<close>

definition exact_memory_authorized :: "pystr \<Rightarrow> pyval \<Rightarrow> bool" where
  "exact_memory_authorized role m =
     (if dget m ''continuum_disable_exact_memory'' = Some (PBool True) then False
      else if role = lit ''user'' then True
      else dget m ''trusted_explicit_memory_request'' = Some (PBool True))"

definition canonical_scroll_metadata ::
  "(pyval \<Rightarrow> pystr) \<Rightarrow> pyval \<Rightarrow> pystr \<Rightarrow> pystr \<Rightarrow> pystr option \<Rightarrow> py_error + pyval" where
  "canonical_scroll_metadata rp m session scope project =
     (let c = dput m ''session_id'' (PStr session);
          wanted = (if scope \<noteq> [] then scope
                    else case get_truthy c ''visibility_scope'' of Some v \<Rightarrow> py_str rp v
                    | None \<Rightarrow> if nonempty project \<or> get_truthy c ''project_id'' \<noteq> None
                              then lit ''project'' else lit ''session'')
      in bindE (normalize_visibility_scope wanted (lit ''global'') ''scroll visibility_scope'') (\<lambda>sc.
         let c = dput c ''visibility_scope'' (PStr sc)
         in Inr (if nonempty project then dput c ''project_id'' (PStr (the project))
                 else case get_truthy c ''project_id'' of
                        Some v \<Rightarrow> dput c ''project_id'' (PStr (py_str rp v))
                      | None \<Rightarrow> dpop c ''project_id'')))"

text \<open>The scope and project column of a new event: what the caller asked for, except that a project
  event is never global and only a project-scoped one keeps its project.\<close>

definition event_scope :: "(pyval \<Rightarrow> pystr) \<Rightarrow> pyval \<Rightarrow> py_error + pystr \<times> pystr option" where
  "event_scope rp m =
     (let project = map_option (py_str rp) (get_truthy m ''project_id'')
      in bindE (case get_truthy m ''visibility_scope'' of
                  Some v \<Rightarrow> normalize_visibility_scope (py_str rp v) (lit ''global'')
                              ''scroll metadata visibility_scope''
                | None \<Rightarrow> Inr (if nonempty project then lit ''project'' else lit ''session'')) (\<lambda>s.
         let scope = (if nonempty project \<and> s = lit ''global'' then lit ''project'' else s)
         in Inr (scope, if scope = lit ''project'' then project else None)))"

definition indexed_capture :: "pyval option \<Rightarrow> bool" where
  "indexed_capture c = (case c of Some (PDict kvs) \<Rightarrow>
       dget (PDict kvs) ''large_result_policy'' = Some (PStr (lit ''index_and_link'')) | _ \<Rightarrow> False)"

definition same_capture :: "pyval option \<Rightarrow> pyval option \<Rightarrow> bool" where
  "same_capture c d =
     (case (c, d) of
        (Some (PDict x), Some (PDict y)) \<Rightarrow>
          list_all (\<lambda>k. dget_or (PDict x) k PNone = dget_or (PDict y) k PNone)
            [''large_result_policy'', ''book_id'', ''original_sha256'', ''original_bytes'']
      | _ \<Rightarrow> False)"

text \<open>One candidate of the deduplication query: the same evidence in the same scope.\<close>

definition dedupe_matches ::
  "(pyval \<Rightarrow> pystr) \<Rightarrow> pyval \<Rightarrow> pystr \<Rightarrow> pystr option \<Rightarrow> scroll_event \<Rightarrow> bool" where
  "dedupe_matches rp m scope project cand \<longleftrightarrow>
     (let c = dget m ''capture''; d = dget (ev_metadata cand) ''capture'' in
      (if indexed_capture c \<or> indexed_capture d then same_capture c d else True) \<and>
      (case get_truthy (ev_metadata cand) ''visibility_scope'' of
         Some v \<Rightarrow> py_str rp v | None \<Rightarrow> lit ''session'') = scope \<and>
      map_option (py_str rp) (get_truthy (ev_metadata cand) ''project_id'') = project)"

definition dedupe_candidates ::
  "scroll_event list \<Rightarrow> pystr \<Rightarrow> pystr \<Rightarrow> pystr \<Rightarrow> pystr \<Rightarrow> pystr \<Rightarrow> scroll_event list" where
  "dedupe_candidates es session typ role digest cutoff =
     take 25 (rev (sort_key ev_seq (filter (\<lambda>e. ev_session e = session \<and> ev_type e = typ
        \<and> ev_role e = role \<and> ev_hash e = digest \<and> cutoff \<le> ev_created e) es)))"

definition replace_event :: "scroll_event \<Rightarrow> scroll_event list \<Rightarrow> scroll_event list" where
  "replace_event e es = map (\<lambda>x. if ev_id x = ev_id e then e else x) es"

text \<open>The branch that reuses an existing event.  An exact-memory request promotes it: its metadata
  takes the new fields and its scope columns follow.\<close>

definition promoted_event :: "(pyval \<Rightarrow> pystr) \<Rightarrow> pyval \<Rightarrow> scroll_event \<Rightarrow> scroll_event" where
  "promoted_event rp meta e =
     (let pm = dput (dupdate (ev_metadata e) meta) ''exact_memory_request'' (PBool True);
          (ps, pp) = security_context rp pm
      in e\<lparr>ev_metadata := pm, ev_scope := ps, ev_project := (if pp \<noteq> [] then Some pp else None)\<rparr>)"

definition promote_existing ::
  "'x scroll_env \<Rightarrow> pyval \<Rightarrow> pystr option \<Rightarrow> scroll_event \<Rightarrow> 'x db \<Rightarrow> py_error + 'x db \<times> pystr option" where
  "promote_existing env meta exact e db =
     (case exact of
        None \<Rightarrow> Inr (db, None)
      | Some txt \<Rightarrow>
          (let e' = promoted_event (se_repr env) meta e
           in bindE (se_promote env e' txt (derived db)) (\<lambda>(x, card).
              Inr (db\<lparr>events := replace_event e' (events db), derived := x\<rparr>, Some card))))"

definition append_existing ::
  "'x scroll_env \<Rightarrow> pyval \<Rightarrow> pystr option \<Rightarrow> scroll_event \<Rightarrow> 'x effect \<Rightarrow> 'x db
     \<Rightarrow> py_error + 'x db \<times> append_result" where
  "append_existing env meta exact e effect db =
     bindE (promote_existing env meta exact e db) (\<lambda>(db1, card).
       effect (db1\<lparr>derived := se_audit env ''dedupe_scroll_event'' (ev_id e) (derived db1)\<rparr>)
         \<lparr>ar_event = ev_id e, ar_session = ev_session e, ar_seq = ev_seq e, ar_job = None,
          ar_dedup = True, ar_card = card\<rparr>)"

text \<open>The branch that inserts a new event with the next sequence number of its session.\<close>

definition new_event ::
  "'x scroll_env \<Rightarrow> pystr \<Rightarrow> pystr \<Rightarrow> pystr \<Rightarrow> pystr \<Rightarrow> pyval \<Rightarrow> pystr \<Rightarrow> pystr option
     \<Rightarrow> scroll_event list \<Rightarrow> scroll_event" where
  "new_event env session ty role content meta scope project es =
     (let seq = max_seq session es + 1; digest = sha256 content
      in \<lparr>ev_id = stable_id (lit ''evt'') [session, dec_int seq, digest],
          ev_session = session, ev_seq = seq, ev_type = ty, ev_role = role,
          ev_content = content, ev_tokens = estimate_tokens content, ev_hash = digest,
          ev_scope = scope, ev_project = (if nonempty project then project else None),
          ev_metadata = meta, ev_created = se_now env\<rparr>)"

definition append_new ::
  "'x scroll_env \<Rightarrow> pystr option \<Rightarrow> scroll_event \<Rightarrow> 'x effect \<Rightarrow> 'x db
     \<Rightarrow> py_error + 'x db \<times> append_result" where
  "append_new env exact e effect db =
     (if ev_id e \<in> ev_id ` set (events db) then Inl (OperationError ''UNIQUE constraint failed'')
      else
        (let (x1, node) = se_index env e (derived db)
         in bindE (case exact of None \<Rightarrow> Inr (x1, None)
                   | Some txt \<Rightarrow> bindE (se_exact_card env e txt node x1) (\<lambda>(x, card). Inr (x, Some card)))
              (\<lambda>(x2, card).
            let (x3, job) = se_scribe_job env e x2
            in effect (db\<lparr>events := events db @ [e],
                           derived := se_audit env ''append_scroll_event'' (ev_id e) x3\<rparr>)
                 \<lparr>ar_event = ev_id e, ar_session = ev_session e, ar_seq = ev_seq e, ar_job = Some job,
                  ar_dedup = False, ar_card = card\<rparr>)))"

text \<open>The metadata an event is stored with: defaults, canonical partition fields and terms.\<close>

definition default_metadata :: "pyval \<Rightarrow> pyval" where
  "default_metadata m = dsetdefault (dsetdefault (dsetdefault m
     ''source_type'' (PStr (lit ''scroll_event'')))
     ''trust_level'' (PStr (lit ''local_evidence_non_authoritative'')))
     ''instruction_authority'' (PStr (lit ''user_level_evidence''))"

text \<open>What is stored once the policy has run: the metadata, the scope columns and the
  exact-memory request of the content.\<close>

definition prepare_event ::
  "'x scroll_env \<Rightarrow> pystr \<Rightarrow> pystr \<Rightarrow> pystr \<Rightarrow> pyval
     \<Rightarrow> py_error + pyval \<times> pystr \<times> pystr option \<times> pystr option" where
  "prepare_event env session role content m0 =
     (let m1 = default_metadata m0;
          exact = (if exact_memory_authorized role m1 then se_exact env content else None)
      in bindE (event_scope (se_repr env) m1) (\<lambda>(scope, project).
         bindE (canonical_scroll_metadata (se_repr env) m1 session scope project) (\<lambda>m2.
         let m3 = dsetdefault m2 ''association_terms'' (PList (map PStr (se_terms env content)))
         in Inr (if exact \<noteq> None then dsetdefault m3 ''exact_memory_request'' (PBool True) else m3,
                 scope, project, exact))))"

text \<open>The event of the recent past that already holds this evidence, if deduplication is on.\<close>

definition existing_event ::
  "'x scroll_env \<Rightarrow> pystr \<Rightarrow> pystr \<Rightarrow> pystr \<Rightarrow> pystr \<Rightarrow> pyval \<Rightarrow> pystr \<Rightarrow> pystr option
     \<Rightarrow> scroll_event list \<Rightarrow> scroll_event option" where
  "existing_event env session ty role content meta scope project es =
     (if se_window env > 0 \<and> ty \<noteq> lit ''project_state''
      then find (dedupe_matches (se_repr env) meta scope project)
             (dedupe_candidates es session ty role (sha256 content) (se_cutoff env))
      else None)"

definition append_scroll_event_once ::
  "'x scroll_env \<Rightarrow> pystr \<Rightarrow> pystr \<Rightarrow> pystr \<Rightarrow> pystr \<Rightarrow> pyval \<Rightarrow> 'x effect \<Rightarrow> 'x db
     \<Rightarrow> py_error + 'x db \<times> append_result" where
  "append_scroll_event_once env session0 type0 role0 content0 meta0 effect db =
     bindE (se_policy env session0 type0 role0 content0 meta0) (\<lambda>(session, ty, role, content, m0).
     bindE (prepare_event env session role content m0) (\<lambda>(meta, scope, project, exact).
       case existing_event env session ty role content meta scope project (events db) of
         Some e \<Rightarrow> append_existing env meta exact e effect db
       | None \<Rightarrow> append_new env exact
           (new_event env session ty role content meta scope project (events db)) effect db))"

text \<open>A transaction that raises is rolled back: the database a caller sees next.\<close>

definition committed :: "'x db \<Rightarrow> py_error + 'x db \<times> 'r \<Rightarrow> 'x db" where
  "committed db r = (case r of Inl _ \<Rightarrow> db | Inr (db', _) \<Rightarrow> db')"

section \<open>Rolling a segment\<close>

definition segment_hash_material :: "scroll_event list \<Rightarrow> bool \<Rightarrow> pystr" where
  "segment_hash_material es legacy =
     (let line = (\<lambda>e. if legacy then dec_int (ev_seq e) @ lit '':'' @ ev_hash e
                      else dec_int (ev_seq e) @ lit '':'' @ ev_role e @ lit '':'' @ ev_type e
                           @ lit '':'' @ ev_hash e)
      in case map line es of [] \<Rightarrow> [] | l # ls \<Rightarrow> l @ concat (map (\<lambda>x. 10 # x) ls))"

definition frontier :: "pystr \<Rightarrow> segment list \<Rightarrow> int" where
  "frontier s sgs = (case map sg_end (filter (\<lambda>g. sg_session g = s) sgs) of
      [] \<Rightarrow> 0 | x # xs \<Rightarrow> fold max xs x)"

definition event_boundary :: "scroll_event \<Rightarrow> py_error + pystr \<times> pystr" where
  "event_boundary e =
     bindE (normalize_visibility_scope (if ev_scope e \<noteq> [] then ev_scope e else lit ''session'')
              (lit ''global'') ''scroll row visibility_scope'')
           (\<lambda>s. Inr (s, case ev_project e of None \<Rightarrow> [] | Some p \<Rightarrow> p))"

definition upsert_segment :: "segment \<Rightarrow> segment list \<Rightarrow> segment list" where
  "upsert_segment g sgs =
     (if sg_id g \<in> sg_id ` set sgs
      then map (\<lambda>x. if sg_id x = sg_id g
                    then x\<lparr>sg_card := sg_card g, sg_tokens := sg_tokens g, sg_hash := sg_hash g\<rparr> else x) sgs
      else sgs @ [g])"

text \<open>Writing the segment of complete, contiguous rows of one boundary: its Card, its row, the
  review jobs, the audit entry and the caller's effect.\<close>

definition commit_segment ::
  "'x scroll_env \<Rightarrow> pystr \<Rightarrow> int \<Rightarrow> int \<Rightarrow> scroll_event list \<Rightarrow>
     ('x db \<Rightarrow> segment \<Rightarrow> py_error + 'x db \<times> segment) \<Rightarrow> 'x db \<Rightarrow> py_error + 'x db \<times> segment" where
  "commit_segment env session start fin rows effect db =
     (let h = sha256 (segment_hash_material rows False);
          sid = stable_id (lit ''seg'') [session, dec_int start, dec_int fin, h]
      in bindE (se_segment_card env rows h (derived db)) (\<lambda>(x1, card).
         let g = \<lparr>sg_id = sid, sg_session = session, sg_start = start, sg_end = fin, sg_card = card,
                  sg_tokens = sum_list (map ev_tokens rows), sg_hash = h\<rparr>;
             x2 = se_audit env ''roll_scroll_segment'' sid (se_segment_jobs env g x1)
         in effect (db\<lparr>segments := upsert_segment g (segments db), derived := x2\<rparr>) g))"

text \<open>\<open>guard\<close> is the caller's lease check, run before the first read and before the commit;
  \<open>effect\<close> is the caller's part of the transaction.\<close>

definition roll_scroll_segment ::
  "'x scroll_env \<Rightarrow> pystr \<Rightarrow> int \<Rightarrow> int \<Rightarrow> ('x db \<Rightarrow> py_error + unit) \<Rightarrow>
     ('x db \<Rightarrow> segment \<Rightarrow> py_error + 'x db \<times> segment) \<Rightarrow> 'x db \<Rightarrow> py_error + 'x db \<times> segment" where
  "roll_scroll_segment env session start fin guard effect db =
     bindE (ensure (1 \<le> start) (ValueError ''scroll segment start_seq must be >= 1'')) (\<lambda>_.
     bindE (ensure (start \<le> fin) (ValueError ''scroll segment end_seq must be >= start_seq'')) (\<lambda>_.
     bindE (guard db) (\<lambda>_.
     bindE (ensure (fin \<le> max_seq session (events db))
              (ValueError ''scroll segment range extends beyond existing Scroll events'')) (\<lambda>_.
     bindE (ensure (start = frontier session (segments db) + 1)
              (ValueError ''scroll segment range must start at the next unrolled Scroll event'')) (\<lambda>_.
     bindE (ensure (\<not> list_ex (\<lambda>g. sg_session g = session \<and> \<not> (sg_end g < start \<or> fin < sg_start g)) (segments db))
              (ValueError ''scroll segment range overlaps existing segment'')) (\<lambda>_.
     let rows = sort_key ev_seq (filter (\<lambda>e. ev_session e = session \<and> start \<le> ev_seq e \<and> ev_seq e \<le> fin) (events db))
     in bindE (ensure (rows \<noteq> []) (ValueError ''no scroll events found for requested range'')) (\<lambda>_.
        bindE (ensure (map ev_seq rows = [start..fin])
                 (ValueError ''scroll segment range must be complete and contiguous'')) (\<lambda>_.
        bindE (mapE event_boundary rows) (\<lambda>bs.
        bindE (ensure (list_all (\<lambda>b. b = hd bs) bs)
                 (ValueError ''cannot roll mixed visibility/project Scroll range into one Card'')) (\<lambda>_.
        bindE (commit_segment env session start fin rows effect db) (\<lambda>(db2, g2).
        bindE (guard db2) (\<lambda>_. Inr (db2, g2)))))))))))))"

section \<open>Invariants\<close>

text \<open>Each session's events carry the sequence numbers 1, 2, ..., n in the order they were appended,
  and no two events share an identifier.\<close>

definition scroll_ok :: "scroll_event list \<Rightarrow> bool" where
  "scroll_ok es \<longleftrightarrow> distinct (map ev_id es) \<and>
     (\<forall>s. map ev_seq (session_events s es) = [1..int (length (session_events s es))])"

fun tiles :: "int \<Rightarrow> segment list \<Rightarrow> bool" where
  "tiles k [] \<longleftrightarrow> True"
| "tiles k (g # gs) \<longleftrightarrow> sg_start g = k \<and> k \<le> sg_end g \<and> tiles (sg_end g + 1) gs"

text \<open>The segments of a session tile a prefix of its Scroll: they start at 1 and each starts where
  the one before it ended.\<close>

definition session_segments :: "pystr \<Rightarrow> segment list \<Rightarrow> segment list" where
  "session_segments s gs = filter (\<lambda>g. sg_session g = s) gs"

definition segments_ok :: "segment list \<Rightarrow> bool" where
  "segments_ok gs \<longleftrightarrow> (\<forall>s. tiles 1 (session_segments s gs))"

text \<open>The caller's effect changes derived tables only and keeps the event of the result.\<close>

definition frames :: "'x effect \<Rightarrow> bool" where
  "frames effect \<longleftrightarrow> (\<forall>db r db' r'. effect db r = Inr (db', r') \<longrightarrow>
     events db' = events db \<and> segments db' = segments db \<and>
     ar_event r' = ar_event r \<and> ar_dedup r' = ar_dedup r)"

text \<open>What no append may change of an event that is already stored.\<close>

definition event_core :: "scroll_event \<Rightarrow> pystr \<times> pystr \<times> int \<times> pystr \<times> pystr \<times> pystr \<times> pystr \<times> pystr" where
  "event_core e = (ev_id e, ev_session e, ev_seq e, ev_type e, ev_role e, ev_content e, ev_hash e, ev_created e)"

definition segment_frames :: "('x db \<Rightarrow> segment \<Rightarrow> py_error + 'x db \<times> segment) \<Rightarrow> bool" where
  "segment_frames effect \<longleftrightarrow> (\<forall>db g db' g'. effect db g = Inr (db', g') \<longrightarrow>
     events db' = events db \<and> segments db' = segments db \<and> g' = g)"

text \<open>A memory root with no derived tables: every collaborator does nothing.\<close>

definition plain_env :: "unit scroll_env" where
  "plain_env = \<lparr>se_policy = (\<lambda>s t r c m. Inr (s, t, r, c, m)), se_repr = (\<lambda>_. []),
     se_terms = (\<lambda>_. []), se_exact = (\<lambda>_. None), se_promote = (\<lambda>_ _ x. Inr (x, [])),
     se_index = (\<lambda>_ x. (x, [])), se_exact_card = (\<lambda>_ _ _ x. Inr (x, [])),
     se_scribe_job = (\<lambda>_ x. (x, [])), se_audit = (\<lambda>_ _ x. x),
     se_segment_card = (\<lambda>_ _ x. Inr (x, [])), se_segment_jobs = (\<lambda>_ x. x),
     se_window = 120, se_now = [], se_cutoff = []\<rparr>"

definition no_effect :: "'x db \<Rightarrow> 'r \<Rightarrow> py_error + 'x db \<times> 'r" where
  "no_effect db r = Inr (db, r)"

definition plain_event :: "string \<Rightarrow> int \<Rightarrow> scroll_event" where
  "plain_event i n = \<lparr>ev_id = lit i, ev_session = lit ''s'', ev_seq = n, ev_type = lit ''note'',
     ev_role = lit ''user'', ev_content = lit i, ev_tokens = 1, ev_hash = lit i,
     ev_scope = lit ''session'', ev_project = None, ev_metadata = PDict [], ev_created = []\<rparr>"

section \<open>Lemmas\<close>

lemma framesD:
  "frames effect \<Longrightarrow> effect db r = Inr (db', r') \<Longrightarrow>
     events db' = events db \<and> segments db' = segments db \<and> ar_event r' = ar_event r \<and> ar_dedup r' = ar_dedup r"
  by (auto simp: frames_def)

lemma session_events_append:
  "session_events s (es @ [e]) = session_events s es @ (if ev_session e = s then [e] else [])"
  by (simp add: session_events_def)

lemma fold_max_upto:
  "map f xs = [1..n] \<Longrightarrow> (case map f xs of [] \<Rightarrow> 0 | x # ys \<Rightarrow> fold max ys x) = int (length xs)"
proof -
  assume m: "map f xs = [1..n]"
  show ?thesis
  proof (cases "map f xs")
    case Nil
    then show ?thesis by simp
  next
    case (Cons x ys)
    with m have "set (x # ys) = {1..n}" by (metis set_upto)
    then have "fold max ys x = Max (set [1..n])" by (metis Max.set_eq_fold set_upto)
    moreover have "1 \<le> n" using m Cons by (cases "1 \<le> n") auto
    then have "Max (set [1..n]) = n" by (intro Max_eqI) auto
    moreover have "n = int (length xs)"
      using arg_cong [OF m, of length] \<open>1 \<le> n\<close> by simp
    ultimately show ?thesis using Cons by simp
  qed
qed

lemma max_seq_ok: "scroll_ok es \<Longrightarrow> max_seq s es = int (length (session_events s es))"
  unfolding max_seq_def scroll_ok_def by (rule fold_max_upto) blast

lemma scroll_ok_append:
  assumes "scroll_ok es" "ev_id e \<notin> ev_id ` set es" "ev_seq e = max_seq (ev_session e) es + 1"
  shows "scroll_ok (es @ [e])"
proof -
  have "map ev_seq (session_events s (es @ [e])) = [1..int (length (session_events s (es @ [e])))]" for s
  proof (cases "ev_session e = s")
    case True
    let ?n = "int (length (session_events s es))"
    have "map ev_seq (session_events s (es @ [e])) = [1..?n] @ [?n + 1]"
      using assms True by (simp add: session_events_append max_seq_ok scroll_ok_def)
    also have "\<dots> = [1..?n + 1]" using upto_rec2 [of 1 "?n + 1"] by simp
    finally show ?thesis using True by (simp add: session_events_append add.commute)
  next
    case False
    then show ?thesis using assms(1) by (simp add: session_events_append scroll_ok_def)
  qed
  then show ?thesis using assms by (auto simp: scroll_ok_def)
qed

lemma replace_event_frame:
  assumes "scroll_ok es" "e \<in> set es" "ev_id e' = ev_id e" "ev_session e' = ev_session e" "ev_seq e' = ev_seq e"
  shows "scroll_ok (replace_event e' es)"
proof -
  have same: "x = e" if "x \<in> set es" "ev_id x = ev_id e" for x
    using assms(1,2) that by (auto simp: scroll_ok_def distinct_map inj_on_def)
  have ids: "map ev_id (replace_event e' es) = map ev_id es"
    using assms(3) by (auto simp: replace_event_def)
  have "session_events s (replace_event e' es)
      = map (\<lambda>x. if ev_id x = ev_id e' then e' else x) (session_events s es)" for s
    using same assms(3,4) by (induction es) (auto simp: session_events_def replace_event_def)
  then have "map ev_seq (session_events s (replace_event e' es)) = map ev_seq (session_events s es)"
    "length (session_events s (replace_event e' es)) = length (session_events s es)" for s
    using same assms by (auto simp: session_events_def)
  with assms(1) ids show ?thesis by (simp add: scroll_ok_def)
qed

lemma dedupe_candidates_set:
  "e \<in> set (dedupe_candidates es session typ role digest cutoff) \<Longrightarrow>
     e \<in> set es \<and> ev_session e = session \<and> ev_type e = typ \<and> ev_role e = role \<and> ev_hash e = digest"
  by (auto simp: dedupe_candidates_def dest!: in_set_takeD)

lemma promoted_event_frame [simp]:
  "ev_id (promoted_event rp m e) = ev_id e" "ev_session (promoted_event rp m e) = ev_session e"
  "ev_seq (promoted_event rp m e) = ev_seq e" "ev_content (promoted_event rp m e) = ev_content e"
  "ev_hash (promoted_event rp m e) = ev_hash e" "ev_type (promoted_event rp m e) = ev_type e"
  "ev_role (promoted_event rp m e) = ev_role e" "ev_created (promoted_event rp m e) = ev_created e"
  by (simp_all add: promoted_event_def Let_def split: prod.splits)

lemma new_event_fields [simp]:
  "ev_session (new_event env s t r c m sc p es) = s"
  "ev_seq (new_event env s t r c m sc p es) = max_seq s es + 1"
  "ev_type (new_event env s t r c m sc p es) = t" "ev_role (new_event env s t r c m sc p es) = r"
  "ev_content (new_event env s t r c m sc p es) = c"
  "ev_hash (new_event env s t r c m sc p es) = sha256 c"
  by (simp_all add: new_event_def Let_def)

lemma append_existing_frame:
  assumes "append_existing env meta exact e effect db = Inr (db', r)" "frames effect"
  shows "events db' = events db \<or> events db' = replace_event (promoted_event (se_repr env) meta e) (events db)"
    and "segments db' = segments db" "ar_event r = ev_id e" "ar_dedup r"
proof -
  from assms(1) obtain db1 card where pr: "promote_existing env meta exact e db = Inr (db1, card)"
    and ef: "effect (db1\<lparr>derived := se_audit env ''dedupe_scroll_event'' (ev_id e) (derived db1)\<rparr>)
         \<lparr>ar_event = ev_id e, ar_session = ev_session e, ar_seq = ev_seq e, ar_job = None,
          ar_dedup = True, ar_card = card\<rparr> = Inr (db', r)"
    by (auto simp: append_existing_def)
  have "events db1 = events db \<or> events db1 = replace_event (promoted_event (se_repr env) meta e) (events db)"
    "segments db1 = segments db"
    using pr by (auto simp: promote_existing_def Let_def split: option.splits)
  with framesD [OF assms(2) ef]
  show "events db' = events db \<or> events db' = replace_event (promoted_event (se_repr env) meta e) (events db)"
    and "segments db' = segments db" "ar_event r = ev_id e" "ar_dedup r" by auto
qed

lemma append_new_frame:
  assumes "append_new env exact e effect db = Inr (db', r)" "frames effect"
  shows "ev_id e \<notin> ev_id ` set (events db)" "events db' = events db @ [e]"
    "segments db' = segments db" "ar_event r = ev_id e" "\<not> ar_dedup r"
proof -
  from assms(1) obtain x1 r1 where new: "ev_id e \<notin> ev_id ` set (events db)"
    and ef: "effect (db\<lparr>events := events db @ [e], derived := x1\<rparr>) r1 = Inr (db', r)"
    and r1: "ar_event r1 = ev_id e" "\<not> ar_dedup r1"
    by (cases "se_index env e (derived db)")
       (auto simp: append_new_def Let_def case_prod_unfold split: if_splits)
  with framesD [OF assms(2) ef]
  show "ev_id e \<notin> ev_id ` set (events db)" "events db' = events db @ [e]"
    "segments db' = segments db" "ar_event r = ev_id e" "\<not> ar_dedup r" by auto
qed

text \<open>The two ways an append succeeds.\<close>

lemma append_cases:
  assumes "append_scroll_event_once env s0 t0 r0 c0 m0 effect db = Inr (db', r)"
  obtains (dedupe) session ty role content m meta exact scope project e where
      "se_policy env s0 t0 r0 c0 m0 = Inr (session, ty, role, content, m)"
      "existing_event env session ty role content meta scope project (events db) = Some e"
      "append_existing env meta exact e effect db = Inr (db', r)"
  | (insert) session ty role content m meta exact scope project where
      "se_policy env s0 t0 r0 c0 m0 = Inr (session, ty, role, content, m)"
      "existing_event env session ty role content meta scope project (events db) = None"
      "append_new env exact (new_event env session ty role content meta scope project (events db)) effect db
         = Inr (db', r)"
proof -
  obtain session ty role content m meta exact scope project where
    *: "se_policy env s0 t0 r0 c0 m0 = Inr (session, ty, role, content, m)"
    and **: "(case existing_event env session ty role content meta scope project (events db) of
         Some e \<Rightarrow> append_existing env meta exact e effect db
       | None \<Rightarrow> append_new env exact
           (new_event env session ty role content meta scope project (events db)) effect db) = Inr (db', r)"
    using assms by (auto simp: append_scroll_event_once_def)
  show thesis
    by (cases "existing_event env session ty role content meta scope project (events db)")
       (use * ** dedupe insert in auto)
qed

lemma frames_no_effect [simp]: "frames no_effect" "segment_frames no_effect"
  by (simp_all add: frames_def segment_frames_def no_effect_def)

lemma event_core_replace:
  assumes "scroll_ok es" "e \<in> set es" "event_core e' = event_core e"
  shows "map event_core (replace_event e' es) = map event_core es"
proof -
  have "x = e" if "x \<in> set es" "ev_id x = ev_id e" for x
    using assms(1,2) that by (auto simp: scroll_ok_def distinct_map inj_on_def)
  with assms(3) show ?thesis by (auto simp: replace_event_def event_core_def)
qed

lemma existing_event_SomeD:
  assumes "existing_event env session ty role content meta scope project es = Some e"
  shows "e \<in> set es" "ev_session e = session" "ev_type e = ty" "ev_role e = role"
    "ev_hash e = sha256 content" "dedupe_matches (se_repr env) meta scope project e"
  using assms by (auto simp: existing_event_def split: if_splits
      dest!: find_SomeD dest: dedupe_candidates_set)

lemma append_db:
  assumes "append_scroll_event_once env s0 t0 r0 c0 m0 effect db = Inr (db', r)"
    "frames effect" "scroll_ok (events db)"
  shows "scroll_ok (events db') \<and> segments db' = segments db \<and>
    (\<exists>cs. map event_core (events db') = map event_core (events db) @ cs \<and> length cs = (if ar_dedup r then 0 else 1))"
  using assms(1)
proof (cases rule: append_cases)
  case (dedupe session ty role content m meta exact scope project e)
  note fr = append_existing_frame [OF dedupe(3) assms(2)]
  note e = existing_event_SomeD [OF dedupe(2)]
  let ?e' = "promoted_event (se_repr env) meta e"
  have "scroll_ok (replace_event ?e' (events db))"
    "map event_core (replace_event ?e' (events db)) = map event_core (events db)"
    using assms(3) e(1) by (auto intro!: replace_event_frame event_core_replace simp: event_core_def)
  then show ?thesis using fr assms(3) by auto
next
  case (insert session ty role content m meta exact scope project)
  note fr = append_new_frame [OF insert(3) assms(2)]
  show ?thesis using fr assms(3) by (auto intro!: scroll_ok_append)
qed

lemma frontier_tiles:
  assumes "tiles k gs" "1 \<le> k"
  shows "k \<le> fold max (map sg_end gs) (k - 1) + 1 \<and> tiles k (gs @ [g]) =
    (sg_start g = fold max (map sg_end gs) (k - 1) + 1 \<and> sg_start g \<le> sg_end g)"
  using assms
proof (induction gs arbitrary: k)
  case (Cons h gs)
  then have k: "max (sg_end h) (k - 1) = sg_end h" "k = sg_start h" "k \<le> sg_end h" by auto
  have "sg_end h + 1 \<le> fold max (map sg_end gs) (sg_end h) + 1 \<and> tiles (sg_end h + 1) (gs @ [g]) =
    (sg_start g = fold max (map sg_end gs) (sg_end h) + 1 \<and> sg_start g \<le> sg_end g)"
    using Cons.IH [of "sg_end h + 1"] Cons.prems by simp
  with k show ?case by simp
qed auto

lemma frontier_eq:
  assumes "segments_ok gs"
  shows "frontier s gs = fold max (map sg_end (session_segments s gs)) 0"
proof -
  have "tiles 1 (session_segments s gs)" using assms by (simp add: segments_ok_def)
  then show ?thesis
    by (cases "session_segments s gs") (auto simp: frontier_def session_segments_def)
qed

lemma segments_ok_snoc:
  assumes "segments_ok gs" "sg_start g = frontier (sg_session g) gs + 1" "sg_start g \<le> sg_end g"
  shows "segments_ok (gs @ [g])"
  unfolding segments_ok_def
proof
  fix s
  show "tiles 1 (session_segments s (gs @ [g]))"
  proof (cases "sg_session g = s")
    case True
    have "tiles 1 (session_segments s gs)" using assms(1) by (simp add: segments_ok_def)
    then have "tiles 1 (session_segments s gs @ [g])"
      using frontier_tiles [of 1 "session_segments s gs" g] assms(2,3) frontier_eq [OF assms(1), of s] True
      by simp
    then show ?thesis using True by (simp add: session_segments_def)
  next
    case False
    then show ?thesis using assms(1) by (simp add: segments_ok_def session_segments_def)
  qed
qed

lemma tiles_map:
  assumes "\<And>x. sg_start (f x) = sg_start x" "\<And>x. sg_end (f x) = sg_end x"
  shows "tiles k (map f gs) = tiles k gs"
  using assms by (induction gs arbitrary: k) auto

lemma segments_ok_map:
  assumes "\<And>x. sg_start (f x) = sg_start x" "\<And>x. sg_end (f x) = sg_end x" "\<And>x. sg_session (f x) = sg_session x"
  shows "segments_ok (map f gs) = segments_ok gs"
  using assms by (simp add: segments_ok_def session_segments_def filter_map o_def tiles_map)

lemma upsert_segment_ok:
  assumes "segments_ok gs" "sg_start g = frontier (sg_session g) gs + 1" "sg_start g \<le> sg_end g"
  shows "segments_ok (upsert_segment g gs)"
proof (cases "sg_id g \<in> sg_id ` set gs")
  case True
  then have "segments_ok (upsert_segment g gs) = segments_ok gs"
    by (simp add: upsert_segment_def segments_ok_map)
  with assms show ?thesis by simp
next
  case False
  with segments_ok_snoc [OF assms] show ?thesis by (simp add: upsert_segment_def)
qed

definition segment_range :: "pystr \<Rightarrow> int \<Rightarrow> int \<Rightarrow> scroll_event list \<Rightarrow> scroll_event list" where
  "segment_range session start fin es =
     sort_key ev_seq (filter (\<lambda>e. ev_session e = session \<and> start \<le> ev_seq e \<and> ev_seq e \<le> fin) es)"

lemma roll_inversion:
  assumes "roll_scroll_segment env session start fin guard effect db = Inr (db', g)" "segment_frames effect"
  shows "1 \<le> start" "start \<le> fin" "isOk (guard db)" "isOk (guard db')"
    "start = frontier session (segments db) + 1" "events db' = events db"
    "segments db' = upsert_segment g (segments db)"
    "sg_session g = session" "sg_start g = start" "sg_end g = fin"
    "map ev_seq (segment_range session start fin (events db)) = [start..fin]"
    "\<exists>b. \<forall>e\<in>set (segment_range session start fin (events db)). event_boundary e = Inr b"
    "sg_hash g = sha256 (segment_hash_material (segment_range session start fin (events db)) False)"
    "sg_tokens g = sum_list (map ev_tokens (segment_range session start fin (events db)))"
proof -
  define rows where "rows = segment_range session start fin (events db)"
  define h where "h = sha256 (segment_hash_material rows False)"
  from assms(1) obtain bs card x1 where
    a: "1 \<le> start" "start \<le> fin" "guard db = Inr ()" "start = frontier session (segments db) + 1"
    and rows: "map ev_seq rows = [start..fin]" "mapE event_boundary rows = Inr bs" "list_all (\<lambda>b. b = hd bs) bs"
    and ef: "bindE (effect (db\<lparr>segments := upsert_segment
         \<lparr>sg_id = stable_id (lit ''seg'') [session, dec_int start, dec_int fin, h], sg_session = session,
          sg_start = start, sg_end = fin, sg_card = card, sg_tokens = sum_list (map ev_tokens rows), sg_hash = h\<rparr>
         (segments db), derived := x1\<rparr>)
         \<lparr>sg_id = stable_id (lit ''seg'') [session, dec_int start, dec_int fin, h], sg_session = session,
          sg_start = start, sg_end = fin, sg_card = card, sg_tokens = sum_list (map ev_tokens rows), sg_hash = h\<rparr>)
       (\<lambda>(db2, g2). bindE (guard db2) (\<lambda>_. Inr (db2, g2))) = Inr (db', g)"
    by (auto simp: roll_scroll_segment_def commit_segment_def Let_def rows_def h_def segment_range_def)
  from ef obtain db2 g2 where e2: "effect (db\<lparr>segments := upsert_segment
         \<lparr>sg_id = stable_id (lit ''seg'') [session, dec_int start, dec_int fin, h], sg_session = session,
          sg_start = start, sg_end = fin, sg_card = card, sg_tokens = sum_list (map ev_tokens rows), sg_hash = h\<rparr>
         (segments db), derived := x1\<rparr>)
         \<lparr>sg_id = stable_id (lit ''seg'') [session, dec_int start, dec_int fin, h], sg_session = session,
          sg_start = start, sg_end = fin, sg_card = card, sg_tokens = sum_list (map ev_tokens rows), sg_hash = h\<rparr>
       = Inr (db', g)" "guard db' = Inr ()" by auto
  from assms(2) e2(1) have f: "events db' = events db" "g =
       \<lparr>sg_id = stable_id (lit ''seg'') [session, dec_int start, dec_int fin, h], sg_session = session,
          sg_start = start, sg_end = fin, sg_card = card, sg_tokens = sum_list (map ev_tokens rows), sg_hash = h\<rparr>"
    "segments db' = upsert_segment g (segments db)"
    unfolding segment_frames_def by fastforce+
  have "event_boundary e = Inr (hd bs)" if "e \<in> set rows" for e
  proof -
    from mapE_memD [OF rows(2) that] obtain b where "b \<in> set bs" "event_boundary e = Inr b" ..
    with rows(3) show ?thesis by (auto simp: list_all_iff)
  qed
  with a f e2 rows show "1 \<le> start" "start \<le> fin" "isOk (guard db)" "isOk (guard db')"
    "start = frontier session (segments db) + 1" "events db' = events db"
    "segments db' = upsert_segment g (segments db)"
    "sg_session g = session" "sg_start g = start" "sg_end g = fin"
    "map ev_seq (segment_range session start fin (events db)) = [start..fin]"
    "\<exists>b. \<forall>e\<in>set (segment_range session start fin (events db)). event_boundary e = Inr b"
    "sg_hash g = sha256 (segment_hash_material (segment_range session start fin (events db)) False)"
    "sg_tokens g = sum_list (map ev_tokens (segment_range session start fin (events db)))"
    by (auto simp: rows_def h_def)
qed

lemma segments_ok_roll:
  assumes "roll_scroll_segment env session start fin guard effect db = Inr (db', g)"
    "segment_frames effect" "segments_ok (segments db)"
  shows "segments_ok (segments db')"
proof -
  note i = roll_inversion [OF assms(1,2)]
  show ?thesis unfolding i(7) using assms(3) by (rule upsert_segment_ok) (use i in simp_all)
qed

section \<open>Properties\<close>

text \<open>C1 A Scroll append, whichever branch it takes and even when it raises, leaves every session's
  sequence numbers consecutive from 1 and every event identifier unique, and touches no segment.\<close>

theorem append_keeps_scroll:
  assumes "scroll_ok (events db)" "frames effect"
  shows "scroll_ok (events (committed db (append_scroll_event_once env s t r c m effect db)))
    \<and> segments (committed db (append_scroll_event_once env s t r c m effect db)) = segments db"
  using append_db [OF _ assms(2,1)] assms(1)
  by (auto simp: committed_def split: sum.split)

theorem append_keeps_scroll_witness:
  "scroll_ok (events (committed \<lparr>events = [plain_event ''a'' 1, plain_event ''b'' 2], segments = [], derived = ()\<rparr>
     (append_scroll_event_once plain_env (lit ''s'') (lit ''note'') (lit ''user'') (lit ''hi'') (PDict []) no_effect
        \<lparr>events = [plain_event ''a'' 1, plain_event ''b'' 2], segments = [], derived = ()\<rparr>)))"
proof -
  have "scroll_ok [plain_event ''a'' 1, plain_event ''b'' 2]"
    by (auto simp: scroll_ok_def session_events_def plain_event_def upto.simps)
  then show ?thesis by (intro append_keeps_scroll [THEN conjunct1]) simp_all
qed

text \<open>C4 A successful append is append-only: every event stored before keeps its identifier, session,
  sequence number, kind, content, hash and time; a deduplicated append stores no event and returns one
  with the same session, kind, role and content hash, and any other append stores exactly one, at the
  end, with the next sequence number of its session and the hash of its content.\<close>

theorem append_outcome:
  assumes "append_scroll_event_once env s0 t0 r0 c0 m0 effect db = Inr (db', r)"
    and "scroll_ok (events db)" "frames effect"
    and "se_policy env s0 t0 r0 c0 m0 = Inr (session, ty, role, content, m)"
  shows "if ar_dedup r
    then map event_core (events db') = map event_core (events db) \<and>
      list_ex (\<lambda>e. ev_id e = ar_event r \<and> ev_session e = session \<and> ev_type e = ty \<and> ev_role e = role
        \<and> ev_hash e = sha256 content) (events db)
    else butlast (events db') = events db \<and> events db' \<noteq> [] \<and> ev_id (last (events db')) = ar_event r
      \<and> ar_event r \<notin> ev_id ` set (events db) \<and> ev_session (last (events db')) = session
      \<and> ev_seq (last (events db')) = max_seq session (events db) + 1
      \<and> ev_content (last (events db')) = content \<and> ev_hash (last (events db')) = sha256 content"
  using assms(1)
proof (cases rule: append_cases)
  case (dedupe session' ty' role' content' m' meta exact scope project e)
  then have eq: "session' = session" "ty' = ty" "role' = role" "content' = content" using assms(4) by auto
  note fr = append_existing_frame [OF dedupe(3) assms(3)] and e = existing_event_SomeD [OF dedupe(2)]
  have "map event_core (events db') = map event_core (events db)"
    using fr(1) event_core_replace [OF assms(2) e(1), of "promoted_event (se_repr env) meta e"]
    by (auto simp: event_core_def)
  with fr e eq show ?thesis by (auto simp: list_ex_iff)
next
  case (insert session' ty' role' content' m' meta exact scope project)
  with append_new_frame [OF insert(3) assms(3)] assms(4) show ?thesis by auto
qed

theorem append_outcome_witness:
  "\<exists>db' r. append_scroll_event_once plain_env (lit ''s'') (lit ''note'') (lit ''user'') (lit ''hi'') (PDict []) no_effect
      \<lparr>events = [], segments = [], derived = ()\<rparr> = Inr (db', r) \<and> \<not> ar_dedup r
    \<and> ev_seq (last (events db')) = 1 \<and> ev_content (last (events db')) = lit ''hi''"
proof -
  let ?db = "\<lparr>events = [], segments = [], derived = ()\<rparr>"
  let ?run = "append_scroll_event_once plain_env (lit ''s'') (lit ''note'') (lit ''user'') (lit ''hi'') (PDict []) no_effect ?db"
  have "event_scope (se_repr plain_env) (default_metadata (PDict [])) = Inr (lit ''session'', None)"
    by (simp add: event_scope_def default_metadata_def dsetdefault_def get_truthy_def nonempty_def dget_empty)
  moreover have "\<exists>m. canonical_scroll_metadata (se_repr plain_env) (default_metadata (PDict []))
      (lit ''s'') (lit ''session'') None = Inr m"
    by (simp add: canonical_scroll_metadata_def normalize_visibility_scope_def valid_scopes_def nonempty_def
        Let_def split: option.split)
  ultimately have "\<exists>m. prepare_event plain_env (lit ''s'') (lit ''user'') (lit ''hi'') (PDict [])
      = Inr (m, lit ''session'', None, None)"
    by (auto simp: prepare_event_def Let_def plain_env_def)
  then have "\<exists>db' r. ?run = Inr (db', r) \<and> \<not> ar_dedup r"
    by (auto simp: append_scroll_event_once_def plain_env_def existing_event_def dedupe_candidates_def
        append_new_def no_effect_def Let_def)
  then obtain db' r where run: "?run = Inr (db', r)" "\<not> ar_dedup r" by blast
  have "scroll_ok (events ?db)" by (simp add: scroll_ok_def session_events_def)
  then show ?thesis
    using run append_outcome [OF run(1), of "lit ''s''" "lit ''note''" "lit ''user''" "lit ''hi''" "PDict []"]
    by (auto simp: plain_env_def max_seq_def session_events_def)
qed

text \<open>C7 Rolling keeps the segments of every session a gap-free, overlap-free tiling of a prefix of its
  Scroll that starts at sequence number 1; a roll that is refused or raises changes nothing.\<close>

theorem roll_keeps_tiling:
  assumes "segments_ok (segments db)" "segment_frames effect"
  shows "segments_ok (segments (committed db (roll_scroll_segment env s start fin guard effect db)))"
  using segments_ok_roll [OF _ assms(2,1)] assms(1)
  by (auto simp: committed_def split: sum.split)

definition demo_db :: "unit db" where
  "demo_db = \<lparr>events = [plain_event ''a'' 1, plain_event ''b'' 2], segments = [], derived = ()\<rparr>"

theorem roll_keeps_tiling_witness:
  "segments_ok (segments (committed demo_db
     (roll_scroll_segment plain_env (lit ''s'') 1 2 (\<lambda>_. Inr ()) no_effect demo_db)))"
  by (rule roll_keeps_tiling) (simp_all add: demo_db_def segments_ok_def session_segments_def)

text \<open>A roll that succeeds consumed exactly the requested range: it starts right after the last rolled
  event of the session, every sequence number of the range is present once, all of its events share one
  visibility boundary, the segment's tokens and hash are those of these events in order, and the
  caller's lease held both before the first read and right before the commit.\<close>

lemma roll_exact_range:
  assumes "roll_scroll_segment env s start fin guard effect db = Inr (db', g)" "segment_frames effect"
  shows "start = frontier s (segments db) + 1 \<and> start \<le> fin \<and>
    (let rows = segment_range s start fin (events db) in
      map ev_seq rows = [start..fin] \<and>
      list_all (\<lambda>e. event_boundary e = event_boundary (hd rows)) rows \<and> isOk (event_boundary (hd rows)) \<and>
      g = \<lparr>sg_id = sg_id g, sg_session = s, sg_start = start, sg_end = fin, sg_card = sg_card g,
           sg_tokens = sum_list (map ev_tokens rows), sg_hash = sha256 (segment_hash_material rows False)\<rparr>) \<and>
    isOk (guard db) \<and> isOk (guard db') \<and> events db' = events db"
proof -
  note i = roll_inversion [OF assms]
  have ne: "segment_range s start fin (events db) \<noteq> []" using i(2,11) by auto
  obtain b where "\<forall>e\<in>set (segment_range s start fin (events db)). event_boundary e = Inr b"
    using i(12) by blast
  with i hd_in_set [OF ne] show ?thesis by (auto simp: list_all_iff Let_def)
qed

lemma roll_exact_range_witness:
  "\<exists>db' g. roll_scroll_segment plain_env (lit ''s'') 1 2 (\<lambda>_. Inr ()) no_effect demo_db = Inr (db', g)
     \<and> sg_start g = 1 \<and> sg_end g = 2 \<and> sg_tokens g = 2"
proof -
  have "\<exists>db' g. roll_scroll_segment plain_env (lit ''s'') 1 2 (\<lambda>_. Inr ()) no_effect demo_db = Inr (db', g)"
    by (simp add: roll_scroll_segment_def commit_segment_def demo_db_def plain_event_def max_seq_def session_events_def
        frontier_def upto.simps event_boundary_def normalize_visibility_scope_def valid_scopes_def
        plain_env_def no_effect_def Let_def)
  then obtain db' g where run:
    "roll_scroll_segment plain_env (lit ''s'') 1 2 (\<lambda>_. Inr ()) no_effect demo_db = Inr (db', g)" by blast
  from roll_exact_range [OF run frames_no_effect(2)]
  have "sg_start g = 1" "sg_end g = 2"
    "sg_tokens g = sum_list (map ev_tokens (segment_range (lit ''s'') 1 2 (events demo_db)))"
    by (metis segment.select_convs)+
  with run show ?thesis by (simp add: segment_range_def demo_db_def plain_event_def)
qed

text \<open>The SQL predicate that filters rows and the Python predicate that filters loaded rows agree on
  every row whose scope is one of the four and that is not a global row naming a project (no writer
  stores such a row, see \<open>event_scope_coherent\<close>).\<close>

lemma visibility_clause_agrees:
  assumes "scope \<in> set valid_scopes" "\<not> (scope = lit ''global'' \<and> nonempty row_project)"
  shows "visible_clause session project scope row_session row_project
       = card_row_visible session project scope row_session row_project"
  using assms
  by (auto simp: visible_clause_def card_row_visible_def valid_scopes_def normalize_visibility_scope_def
      nonempty_def split: option.splits)

lemma visibility_clause_agrees_witness:
  "visible_clause None (Some (lit ''p'')) (lit ''project'') None (Some (lit ''p''))
     = card_row_visible None (Some (lit ''p'')) (lit ''project'') None (Some (lit ''p''))"
  by (rule visibility_clause_agrees) (simp_all add: valid_scopes_def)

text \<open>No cross-partition disclosure: a row is visible to at most the partition it belongs to. A
  private row is never visible; a row seen with a project in force carries that project, or a session
  row of the caller's own session; and a global row is seen only by a caller without a partition.\<close>

lemma visibility_partition:
  "if card_row_visible session project scope row_session row_project
   then if nonempty project \<and> row_project = project then scope \<noteq> lit ''private''
        else if nonempty session \<and> row_session = session then scope = lit ''session''
        else \<not> nonempty session \<and> \<not> nonempty project \<and> \<not> nonempty row_project
   else True"
  by (auto simp: card_row_visible_def valid_scopes_def normalize_visibility_scope_def
      nonempty_def Let_def split: option.splits if_splits)

text \<open>The scope an append stores is coherent: it is one of the four scopes, a project column is stored
  exactly for project-scoped events, and an event that names a project is never stored as global.\<close>

lemma event_scope_coherent:
  "case event_scope rp m of Inl e \<Rightarrow> True
   | Inr (scope, project) \<Rightarrow> scope \<in> set valid_scopes \<and>
       (if scope = lit ''project'' then project = map_option (py_str rp) (get_truthy m ''project_id'')
        else project = None) \<and>
       (if nonempty (map_option (py_str rp) (get_truthy m ''project_id'')) then scope \<noteq> lit ''global'' else True)"
  by (auto simp: event_scope_def valid_scopes_def normalize_visibility_scope_def Let_def
      split: option.splits if_splits)

end
