(* ===== verification/Py_Time.thy ===== *)
theory Py_Time
  imports Continuum_Prelude
begin

text \<open>
  The part of Python's \<open>datetime\<close> the program uses: \<open>datetime.fromisoformat\<close> (the grammar
  CPython 3.11 accepts, week dates and basic formats included), conversion of an aware value to
  UTC with its overflow, \<open>isoformat\<close> of a UTC value, and the order of aware values, which is the
  order of their instants in microseconds.
\<close>

section \<open>The proleptic Gregorian calendar\<close>

definition leap :: "nat \<Rightarrow> bool" where
  "leap y \<longleftrightarrow> y mod 4 = 0 \<and> (y mod 100 \<noteq> 0 \<or> y mod 400 = 0)"

definition days_before_year :: "nat \<Rightarrow> nat" where
  "days_before_year y = (let p = y - 1 in p * 365 + p div 4 - p div 100 + p div 400)"

definition month_days :: "nat list" where
  "month_days = [0, 31, 28, 31, 30, 31, 30, 31, 31, 30, 31, 30, 31]"

definition days_in_month :: "nat \<Rightarrow> nat \<Rightarrow> nat" where
  "days_in_month y m = (if m = 2 \<and> leap y then 29 else month_days ! m)"

definition days_before_month :: "nat \<Rightarrow> nat \<Rightarrow> nat" where
  "days_before_month y m = sum_list (take m month_days) + (if m > 2 \<and> leap y then 1 else 0)"

definition ymd_to_ord :: "nat \<Rightarrow> nat \<Rightarrow> nat \<Rightarrow> nat" where
  "ymd_to_ord y m d = days_before_year y + days_before_month y m + d"

definition ord_to_ymd :: "nat \<Rightarrow> nat \<times> nat \<times> nat" where
  "ord_to_ymd ord =
     (let n = ord - 1;
          year = n div 146097 * 400 + 1; n = n mod 146097;
          n100 = n div 36524; n = n mod 36524;
          n4 = n div 1461; n = n mod 1461;
          n1 = n div 365; n = n mod 365;
          year = year + n100 * 100 + n4 * 4 + n1
      in if n1 = 4 \<or> n100 = 4 then (year - 1, 12, 31)
         else let leapyear = (n1 = 3 \<and> (n4 \<noteq> 24 \<or> n100 = 3));
                  month = (n + 50) div 32;
                  preceding = sum_list (take month month_days) + (if month > 2 \<and> leapyear then 1 else 0)
              in if preceding > n
                 then let month = month - 1;
                          preceding = preceding - (month_days ! month + (if month = 2 \<and> leapyear then 1 else 0))
                      in (year, month, n - preceding + 1)
                 else (year, month, n - preceding + 1))"

section \<open>Date-times\<close>

record civil =
  c_year :: nat
  c_month :: nat
  c_day :: nat
  c_hour :: nat
  c_minute :: nat
  c_second :: nat
  c_micro :: nat

definition civil_ok :: "civil \<Rightarrow> bool" where
  "civil_ok c \<longleftrightarrow> 1 \<le> c_year c \<and> c_year c \<le> 9999 \<and> 1 \<le> c_month c \<and> c_month c \<le> 12
     \<and> 1 \<le> c_day c \<and> c_day c \<le> days_in_month (c_year c) (c_month c)
     \<and> c_hour c \<le> 23 \<and> c_minute c \<le> 59 \<and> c_second c \<le> 59 \<and> c_micro c \<le> 999999"

text \<open>Microseconds since the (fictional) midnight before 0001-01-01.\<close>

definition micros :: "civil \<Rightarrow> int" where
  "micros c = int ((((ymd_to_ord (c_year c) (c_month c) (c_day c) * 24 + c_hour c) * 60 + c_minute c) * 60
     + c_second c) * 1000000 + c_micro c)"

definition civil_of_micros :: "nat \<Rightarrow> civil" where
  "civil_of_micros n =
     (let us = n mod 1000000; n = n div 1000000; s = n mod 60; n = n div 60;
          mi = n mod 60; n = n div 60; h = n mod 24; (y, m, d) = ord_to_ymd (n div 24)
      in \<lparr>c_year = y, c_month = m, c_day = d, c_hour = h, c_minute = mi, c_second = s, c_micro = us\<rparr>)"

definition day_micros :: int where "day_micros = 86400000000"
definition max_ord :: int where "max_ord = 3652059"

text \<open>\<open>astimezone(timezone.utc)\<close> of a value with the given offset: the identity for an offset of
  zero; \<open>OverflowError\<close> outside the years 1 to 9999.\<close>

definition to_utc :: "civil \<Rightarrow> int \<Rightarrow> py_error + civil" where
  "to_utc c off =
     (if off = 0 then Inr c
      else let i = micros c - off
           in if i < day_micros \<or> (max_ord + 1) * day_micros \<le> i then Inl OverflowError
              else Inr (civil_of_micros (nat i)))"

section \<open>Writing\<close>

text \<open>\<open>moment + timedelta(seconds=n)\<close>.\<close>

definition add_seconds :: "civil \<Rightarrow> int \<Rightarrow> py_error + civil" where
  "add_seconds c n =
     (let m = micros c + n * 1000000 in
      if m < (max_ord + 1) * day_micros then Inr (civil_of_micros (nat m)) else Inl OverflowError)"

definition dig2 :: "nat \<Rightarrow> pystr" where
  "dig2 n = [48 + n div 10, 48 + n mod 10]"

definition dig4 :: "nat \<Rightarrow> pystr" where
  "dig4 n = [48 + n div 1000, 48 + n div 100 mod 10, 48 + n div 10 mod 10, 48 + n mod 10]"

definition dig6 :: "nat \<Rightarrow> pystr" where
  "dig6 n = [48 + n div 100000, 48 + n div 10000 mod 10, 48 + n div 1000 mod 10,
             48 + n div 100 mod 10, 48 + n div 10 mod 10, 48 + n mod 10]"

text \<open>\<open>isoformat()\<close> of a UTC value.\<close>

definition isoformat :: "civil \<Rightarrow> pystr" where
  "isoformat c = dig4 (c_year c) @ [45] @ dig2 (c_month c) @ [45] @ dig2 (c_day c) @ [84]
     @ dig2 (c_hour c) @ [58] @ dig2 (c_minute c) @ [58] @ dig2 (c_second c)
     @ (if c_micro c = 0 then [] else [46] @ dig6 (c_micro c)) @ [43, 48, 48, 58, 48, 48]"

section \<open>Reading\<close>

definition is_digit :: "nat \<Rightarrow> bool" where
  "is_digit c \<longleftrightarrow> 48 \<le> c \<and> c \<le> 57"

fun digits_acc :: "nat \<Rightarrow> nat \<Rightarrow> pystr \<Rightarrow> (nat \<times> pystr) option" where
  "digits_acc a 0 s = Some (a, s)"
| "digits_acc a (Suc n) [] = None"
| "digits_acc a (Suc n) (c # s) = (if is_digit c then digits_acc (a * 10 + (c - 48)) n s else None)"

definition parse_digits :: "nat \<Rightarrow> pystr \<Rightarrow> (nat \<times> pystr) option" where
  "parse_digits n s = digits_acc 0 n s"

text \<open>Where the date ends (\<open>_find_isoformat_datetime_separator\<close>).\<close>

fun digit_run :: "pystr \<Rightarrow> nat" where
  "digit_run [] = 0" | "digit_run (c # s) = (if is_digit c then Suc (digit_run s) else 0)"

definition date_end :: "pystr \<Rightarrow> nat option" where
  "date_end s =
     (let n = length s in
      if n = 7 then Some 7
      else if s ! 4 = 45 then
        (if s ! 5 = 87 then
           (if n > 8 \<and> s ! 8 = 45 then
              (if n = 9 then None
               else if n > 10 \<and> is_digit (s ! 10) then Some 8 else Some 10)
            else Some 8)
         else Some 10)
      else if s ! 4 = 87 then
        (let idx = 7 + digit_run (drop 7 s)
         in Some (if idx < 9 then idx else if even idx then 7 else 8))
      else Some 8)"

text \<open>ISO week dates.\<close>

definition week1_monday :: "nat \<Rightarrow> nat" where
  "week1_monday y =
     (let first = ymd_to_ord y 1 1; wd = (first + 6) mod 7
      in if wd > 3 then first + 7 - wd else first - wd)"

definition iso_to_ymd :: "nat \<Rightarrow> nat \<Rightarrow> nat \<Rightarrow> (nat \<times> nat \<times> nat) option" where
  "iso_to_ymd y w d =
     (let wd = (ymd_to_ord y 1 1 + 6) mod 7;
          week_ok = (1 \<le> w \<and> w \<le> 52) \<or> (w = 53 \<and> (wd = 3 \<or> wd = 2 \<and> leap y))
      in if 1 \<le> y \<and> week_ok \<and> 1 \<le> d \<and> d \<le> 7
         then Some (ord_to_ymd (week1_monday y + (w - 1) * 7 + d - 1)) else None)"

definition parse_date :: "pystr \<Rightarrow> (nat \<times> nat \<times> nat) option" where
  "parse_date s =
     (case parse_digits 4 s of None \<Rightarrow> None | Some (y, p) \<Rightarrow>
        let sep = (p \<noteq> [] \<and> hd p = 45); p = (if sep then tl p else p) in
        if p \<noteq> [] \<and> hd p = 87 then
          (case parse_digits 2 (tl p) of None \<Rightarrow> None | Some (w, q) \<Rightarrow>
             if q = [] then iso_to_ymd y w 1
             else if sep \<and> hd q \<noteq> 45 then None
             else (case parse_digits 1 (if sep then tl q else q) of
                     None \<Rightarrow> None | Some (d, _) \<Rightarrow> iso_to_ymd y w d))
        else
          (case parse_digits 2 p of None \<Rightarrow> None | Some (m, q) \<Rightarrow>
             if sep \<and> (q = [] \<or> hd q \<noteq> 45) then None
             else (case parse_digits 2 (if sep then tl q else q) of
                     None \<Rightarrow> None | Some (d, _) \<Rightarrow> Some (y, m, d))))"

text \<open>\<open>[HH[:?MM[:?SS[{.,}fff[fff]]]]]\<close>: the components, and whether something is left over;
  \<open>zoned\<close> says that a zone designator follows the segment.\<close>

definition parse_fraction :: "pystr \<Rightarrow> bool \<Rightarrow> (nat \<times> bool) option" where
  "parse_fraction r zoned =
     (let k = min 6 (length r) in
      case parse_digits k r of None \<Rightarrow> None
      | Some (f, q) \<Rightarrow> Some (f * 10 ^ (6 - k), dropWhile is_digit q \<noteq> [] \<or> zoned))"

fun parse_hms :: "nat \<Rightarrow> bool \<Rightarrow> pystr \<Rightarrow> bool \<Rightarrow> (nat list \<times> nat \<times> bool) option" where
  "parse_hms 0 sep r zoned = map_option (\<lambda>(f, l). ([], f, l)) (parse_fraction r zoned)"
| "parse_hms (Suc n) sep r zoned =
     (case parse_digits 2 r of None \<Rightarrow> None
      | Some (v, []) \<Rightarrow> Some ([v], 0, zoned)
      | Some (v, [c]) \<Rightarrow> Some ([v], 0, True)
      | Some (v, c # q) \<Rightarrow>
          (let sep' = (if n = 2 then c = 58 else sep) in
           if sep' \<and> c = 58 then map_option (\<lambda>(vs, f, l). (v # vs, f, l)) (parse_hms n sep' q zoned)
           else if c = 46 \<or> c = 44 then map_option (\<lambda>(f, l). ([v], f, l)) (parse_fraction q zoned)
           else if \<not> sep' then map_option (\<lambda>(vs, f, l). (v # vs, f, l)) (parse_hms n sep' (c # q) zoned)
           else None))"

definition comp :: "nat list \<Rightarrow> nat \<Rightarrow> nat" where
  "comp vs i = (if i < length vs then vs ! i else 0)"

definition zone_char :: "nat \<Rightarrow> bool" where
  "zone_char c \<longleftrightarrow> c = 43 \<or> c = 45 \<or> c = 90"

text \<open>The time and its zone: \<open>None\<close> for a malformed one, no offset for a naive time.  The offset
  is in microseconds; a zone of less than a second is UTC.\<close>

definition parse_time :: "pystr \<Rightarrow> (nat list \<times> nat \<times> int option) option" where
  "parse_time s =
     (let t = takeWhile (\<lambda>c. \<not> zone_char c) s; z = dropWhile (\<lambda>c. \<not> zone_char c) s in
      case parse_hms 3 False t (z \<noteq> []) of None \<Rightarrow> None
      | Some (vs, f, l) \<Rightarrow>
          (case z of
             [] \<Rightarrow> if l then None else Some (vs, f, None)
           | c # q \<Rightarrow>
               if c = 90 then (if q = [] then Some (vs, f, Some 0) else None)
               else (case parse_hms 3 False q False of None \<Rightarrow> None
                     | Some (zs, zf, zl) \<Rightarrow>
                         if zl then None
                         else let secs = int (comp zs 0 * 3600 + comp zs 1 * 60 + comp zs 2);
                                  off = (if c = 45 then -1 else 1) * (secs * 1000000 + int zf)
                              in Some (vs, f, Some (if secs = 0 then 0 else off)))))"

text \<open>\<open>datetime.fromisoformat\<close>.\<close>

definition fromisoformat :: "pystr \<Rightarrow> (civil \<times> int option) option" where
  "fromisoformat s =
     (if length s < 7 then None
      else case date_end s of None \<Rightarrow> None | Some e \<Rightarrow>
        (case parse_date (take e s) of None \<Rightarrow> None | Some (y, m, d) \<Rightarrow>
          (case (if length s - e > 1 then parse_time (drop (Suc e) s) else Some ([], 0, None)) of
             None \<Rightarrow> None
           | Some (vs, f, off) \<Rightarrow>
               let c = \<lparr>c_year = y, c_month = m, c_day = d, c_hour = comp vs 0, c_minute = comp vs 1,
                        c_second = comp vs 2, c_micro = f\<rparr>
               in if civil_ok c \<and> (case off of None \<Rightarrow> True | Some z \<Rightarrow> \<bar>z\<bar> < day_micros)
                  then Some (c, off) else None)))"

section \<open>Reading back what is written\<close>

lemma digits_acc_cons: "is_digit c \<Longrightarrow> digits_acc a (Suc n) (c # s) = digits_acc (a * 10 + (c - 48)) n s"
  by simp

lemma is_digit_plus: "d < 10 \<Longrightarrow> is_digit (48 + d)"
  by (simp add: is_digit_def)

text \<open>Reading digit by digit: one more digit of a decimal expansion.\<close>

lemma digit_step: "n div (m * 10) * 10 + n div m mod 10 = (n::nat) div m"
  by (simp add: div_mult2_eq)

lemmas digit_steps = digit_step [of _ 1, simplified] digit_step [of _ 10, simplified]
  digit_step [of _ 100, simplified] digit_step [of _ 1000, simplified]
  digit_step [of _ 10000, simplified]

lemma digits_acc_numeral [simp]:
  "digits_acc a (numeral k) (c # s) =
     (if is_digit c then digits_acc (a * 10 + (c - 48)) (pred_numeral k) s else None)"
  by (simp add: numeral_eq_Suc)

lemma parse_dig2: "n < 100 \<Longrightarrow> parse_digits 2 (dig2 n @ s) = Some (n, s)"
  by (simp add: parse_digits_def dig2_def is_digit_plus)

lemma parse_dig4: "n < 10000 \<Longrightarrow> parse_digits 4 (dig4 n @ s) = Some (n, s)"
proof -
  assume "n < 10000"
  then have "n div 1000 < 10" by simp
  then show ?thesis
    by (simp add: parse_digits_def dig4_def is_digit_plus digit_steps)
qed

lemma parse_dig6: "n < 1000000 \<Longrightarrow> parse_digits 6 (dig6 n @ s) = Some (n, s)"
proof -
  assume "n < 1000000"
  then have "n div 100000 < 10" by simp
  then show ?thesis
    by (simp add: parse_digits_def dig6_def is_digit_plus digit_steps)
qed

lemma parse_hms_Suc_colon:
  assumes "n < 100" "q \<noteq> []" "k = 2 \<or> sep"
  shows "parse_hms (Suc k) sep (dig2 n @ 58 # q) z
     = map_option (\<lambda>(vs, f, l). (n # vs, f, l)) (parse_hms k True q z)"
proof -
  obtain a q' where "q = a # q'" using assms(2) by (cases q) auto
  then show ?thesis using assms by (auto simp: parse_dig2)
qed

lemma parse_hms_end: "n < 100 \<Longrightarrow> parse_hms (Suc k) sep (dig2 n) z = Some ([n], 0, z)"
  using parse_dig2 [of n "[]"] by simp

lemma dig6_cons: "\<exists>a b. dig6 n = a # b # tl (tl (dig6 n))"
  by (simp add: dig6_def)

lemma parse_fraction_dig6:
  assumes "n < 1000000"
  shows "parse_fraction (dig6 n) z = Some (n, z)"
proof -
  have "length (dig6 n) = 6" by (simp add: dig6_def)
  then show ?thesis using parse_dig6 [OF assms, of "[]"] by (simp add: parse_fraction_def)
qed

lemma parse_hms_fraction:
  assumes "n < 100" "f < 1000000"
  shows "parse_hms (Suc 0) True (dig2 n @ 46 # dig6 f) z = Some ([n], f, z)"
proof -
  obtain a q where q: "dig6 f = a # q" using dig6_cons by metis
  have "parse_digits 2 (dig2 n @ 46 # dig6 f) = Some (n, 46 # dig6 f)"
    using assms by (simp add: parse_dig2)
  moreover have "parse_fraction (a # q) z = Some (f, z)"
    using parse_fraction_dig6 [OF assms(2)] q by simp
  ultimately show ?thesis using q by simp
qed

definition hms_text :: "civil \<Rightarrow> pystr" where
  "hms_text c = dig2 (c_hour c) @ 58 # dig2 (c_minute c) @ 58 # dig2 (c_second c)
     @ (if c_micro c = 0 then [] else 46 # dig6 (c_micro c))"

lemma parse_hms_text:
  assumes "civil_ok c"
  shows "parse_hms 3 False (hms_text c) z
     = Some ([c_hour c, c_minute c, c_second c], c_micro c, z)"
proof -
  have small: "c_hour c < 100" "c_minute c < 100" "c_second c < 100" "c_micro c < 1000000"
    using assms by (auto simp: civil_ok_def)
  let ?r = "dig2 (c_second c) @ (if c_micro c = 0 then [] else 46 # dig6 (c_micro c))"
  have last: "parse_hms 1 True ?r z = Some ([c_second c], c_micro c, z)"
    using small parse_hms_end [of "c_second c" 0 True z] parse_hms_fraction [of "c_second c" "c_micro c" z]
    by simp
  have "?r \<noteq> []" by (simp add: dig2_def)
  then have "parse_hms 2 True (dig2 (c_minute c) @ 58 # ?r) z
      = Some ([c_minute c, c_second c], c_micro c, z)"
    using parse_hms_Suc_colon [of "c_minute c" ?r 1 True z] small last by (simp add: numeral_2_eq_2)
  moreover have "dig2 (c_minute c) @ 58 # ?r \<noteq> []" by simp
  ultimately show ?thesis
    using parse_hms_Suc_colon [of "c_hour c" "dig2 (c_minute c) @ 58 # ?r" 2 False z] small
    by (simp add: numeral_3_eq_3 hms_text_def)
qed

lemma not_zone_plus: "d < 10 \<Longrightarrow> \<not> zone_char (48 + d)"
  by (simp add: zone_char_def)

lemma dig2_no_zone: "n < 100 \<Longrightarrow> list_all (\<lambda>x. \<not> zone_char x) (dig2 n)"
  by (simp add: dig2_def not_zone_plus)

lemma dig6_no_zone: "n < 1000000 \<Longrightarrow> list_all (\<lambda>x. \<not> zone_char x) (dig6 n)"
  by (simp add: dig6_def not_zone_plus)

lemma hms_text_no_zone: "civil_ok c \<Longrightarrow> list_all (\<lambda>x. \<not> zone_char x) (hms_text c)"
  by (simp add: hms_text_def dig2_no_zone dig6_no_zone civil_ok_def) (simp add: zone_char_def)

lemma zone_split:
  assumes "list_all (\<lambda>x. \<not> zone_char x) t" "zone_char c"
  shows "takeWhile (\<lambda>c. \<not> zone_char c) (t @ c # q) = t"
    and "dropWhile (\<lambda>c. \<not> zone_char c) (t @ c # q) = c # q"
  using assms by (induction t) auto

lemma parse_time_utc:
  assumes "civil_ok c"
  shows "parse_time (hms_text c @ [43, 48, 48, 58, 48, 48])
     = Some ([c_hour c, c_minute c, c_second c], c_micro c, Some 0)"
proof -
  have z: "zone_char 43" by (simp add: zone_char_def)
  have "parse_hms 3 False [48, 48, 58, 48, 48] False = Some ([0, 0], 0, False)"
    using parse_hms_Suc_colon [of 0 "dig2 0" 2 False False] parse_hms_end [of 0 1 True False]
    by (simp add: numeral_3_eq_3 dig2_def numeral_2_eq_2)
  then show ?thesis
    using zone_split [OF hms_text_no_zone [OF assms] z, of "[48, 48, 58, 48, 48]"]
    by (simp add: parse_time_def parse_hms_text [OF assms] comp_def)
qed

lemma parse_date_iso:
  assumes "y < 10000" "m < 100" "d < 100"
  shows "parse_date (dig4 y @ [45] @ dig2 m @ [45] @ dig2 d) = Some (y, m, d)"
proof -
  have "parse_digits 4 (dig4 y @ 45 # dig2 m @ 45 # dig2 d) = Some (y, 45 # dig2 m @ 45 # dig2 d)"
    using assms by (simp add: parse_dig4)
  moreover have "parse_digits 2 (dig2 m @ 45 # dig2 d) = Some (m, 45 # dig2 d)"
    using assms by (simp add: parse_dig2)
  moreover have "parse_digits 2 (dig2 d) = Some (d, [])"
    using assms parse_dig2 [of d "[]"] by simp
  moreover have "hd (dig2 m @ 45 # dig2 d) \<noteq> 87" "dig2 m @ 45 # dig2 d \<noteq> []"
    using assms by (auto simp: dig2_def)
  ultimately show ?thesis by (simp add: parse_date_def)
qed

lemma days_in_month_le:
  assumes "m \<le> 12"
  shows "days_in_month y m \<le> 31"
proof -
  have "list_all (\<lambda>d. d \<le> 31) month_days" by (simp add: month_days_def)
  moreover have "m < length month_days" using assms by (simp add: month_days_def)
  ultimately show ?thesis by (simp add: days_in_month_def list_all_length)
qed

text \<open>The canonical text of a UTC value reads back as that value.\<close>

lemma fromisoformat_isoformat:
  assumes "civil_ok c"
  shows "fromisoformat (isoformat c) = Some (c, Some 0)"
proof -
  define D where "D = dig4 (c_year c) @ [45] @ dig2 (c_month c) @ [45] @ dig2 (c_day c)"
  define T where "T = hms_text c @ [43, 48, 48, 58, 48, 48]"
  have "days_in_month (c_year c) (c_month c) \<le> 31"
    using assms by (simp add: civil_ok_def days_in_month_le)
  then have b: "c_year c < 10000" "c_month c < 100" "c_day c < 100"
    using assms by (auto simp: civil_ok_def)
  have iso: "isoformat c = D @ 84 # T"
    by (simp add: isoformat_def D_def T_def hms_text_def)
  have len: "length D = 10" by (simp add: D_def dig4_def dig2_def)
  have "(D @ 84 # T) ! 4 = 45" "(D @ 84 # T) ! 5 \<noteq> 87"
    using b by (auto simp: D_def dig4_def dig2_def nth_Cons')
  then have "date_end (D @ 84 # T) = Some 10"
    using len by (simp add: date_end_def)
  moreover have "parse_date D = Some (c_year c, c_month c, c_day c)"
    using parse_date_iso [OF b] by (simp add: D_def)
  moreover have "parse_time T = Some ([c_hour c, c_minute c, c_second c], c_micro c, Some 0)"
    using parse_time_utc [OF assms] by (simp add: T_def)
  moreover have "T \<noteq> []" by (simp add: T_def)
  ultimately show ?thesis
    using assms len by (auto simp: fromisoformat_def iso comp_def day_micros_def Let_def civil_ok_def)
qed

lemma isoformat_no_Z:
  assumes "civil_ok c"
  shows "90 \<notin> set (isoformat c)"
proof -
  have "days_in_month (c_year c) (c_month c) \<le> 31"
    using assms by (simp add: civil_ok_def days_in_month_le)
  then have b: "c_year c < 10000" "c_month c < 100" "c_day c < 100"
    using assms by (auto simp: civil_ok_def)
  have digit: "90 \<noteq> 48 + (d::nat)" if "d < 10" for d using that by simp
  have d2: "90 \<notin> set (dig2 n)" if "n < 100" for n
    using that digit [of "n div 10"] digit [of "n mod 10"] by (auto simp: dig2_def)
  have d4: "90 \<notin> set (dig4 (c_year c))"
    using b(1) digit [of "c_year c div 1000"] digit [of "c_year c div 100 mod 10"]
      digit [of "c_year c div 10 mod 10"] digit [of "c_year c mod 10"] by (auto simp: dig4_def)
  have "90 \<notin> set (hms_text c)"
    using hms_text_no_zone [OF assms] by (auto simp: list_all_iff zone_char_def)
  then show ?thesis
    using d4 d2 [OF b(2)] d2 [OF b(3)] by (auto simp: isoformat_def hms_text_def)
qed

end
