(* ===== verification/Json_Roundtrip.thy ===== *)
theory Json_Roundtrip
  imports Py_Json
begin

text \<open>
  The canonical JSON text of a value reads back as the value: \<open>loads (dumps v)\<close> is \<open>v\<close> with the
  keys of every object in the order they were written (sorted, where the writer sorts).  For both
  settings of \<open>ensure_ascii\<close> and values without floats; the ASCII writer escapes a lone surrogate half like the
  half of a pair, so its texts are Unicode texts.
\<close>

section \<open>The values and what they read back as\<close>

fun good_json :: "pyval \<Rightarrow> bool" where
  "good_json (PFloat _) = False"
| "good_json (POther _) = False"
| "good_json (PList vs) = list_all good_json vs"
| "good_json (PDict kvs) = (distinct (map fst kvs) \<and> list_all (\<lambda>kv. is_str (fst kv) \<and> good_json (snd kv)) kvs)"
| "good_json _ = True"

fun written :: "json_opts \<Rightarrow> pyval \<Rightarrow> pyval" where
  "written jo (PList vs) = PList (map (written jo) vs)"
| "written jo (PDict kvs) =
     PDict ((if jo_sort jo then sort_items else id) (map (\<lambda>(k, v). (k, written jo v)) kvs))"
| "written jo v = v"

section \<open>Strings\<close>

lemma read_string_plain:
  "c \<noteq> 34 \<Longrightarrow> 32 \<le> c \<Longrightarrow> c \<noteq> 92 \<Longrightarrow> read_string (c # s) = map_option (\<lambda>(x, y). (c # x, y)) (read_string s)"
  by simp

lemma hex_value_digit: "d < 16 \<Longrightarrow> hex_value (hex_digit d) = Some d"
  by (auto simp: hex_value_def hex_digit_def)

text \<open>What the ASCII writer can represent: the characters of Unicode.\<close>

definition readable :: "bool \<Rightarrow> pystr \<Rightarrow> bool" where
  "readable ascii s \<longleftrightarrow> (ascii \<longrightarrow> list_all (\<lambda>c. c < 0x110000 \<and> \<not> surrogate c) s)"

fun plain_texts :: "bool \<Rightarrow> pyval \<Rightarrow> bool" where
  "plain_texts ascii (PStr s) \<longleftrightarrow> readable ascii s"
| "plain_texts ascii (PList vs) \<longleftrightarrow> list_all (plain_texts ascii) vs"
| "plain_texts ascii (PDict kvs) \<longleftrightarrow> list_all (\<lambda>kv. plain_texts ascii (fst kv) \<and> plain_texts ascii (snd kv)) kvs"
| "plain_texts ascii _ \<longleftrightarrow> True"

lemma plain_texts_False [simp]: "plain_texts False v"
  by (induction "False" v rule: plain_texts.induct) (auto simp: readable_def list_all_iff)

lemma nibbles: "(c :: nat) div 4096 * 4096 + c div 256 mod 16 * 256 + c div 16 mod 16 * 16 + c mod 16 = c"
proof -
  have sum: "x * 4096 + p * 256 + q * 16 + r = z" if "x * 16 + p = y" "y * 16 + q = w" "w * 16 + r = z"
    for x y w z p q r :: nat using that by linarith
  have "c div 4096 = c div 16 div 16 div 16" "c div 256 = c div 16 div 16"
    by (simp_all add: div_mult2_eq [symmetric])
  then show ?thesis using sum [OF div_mult_mod_eq div_mult_mod_eq div_mult_mod_eq] by simp
qed

lemma u_escape_hex:
  assumes "c < 0x10000"
  obtains h where "\<And>s. u_escape c @ s = 92 # 117 # h @ s" "\<And>s. hex4 (h @ s) = Some (c, s)"
proof
  have "c div 4096 < 16" using assms by auto
  then show "hex4 ([hex_digit (c div 4096), hex_digit (c div 256 mod 16), hex_digit (c div 16 mod 16),
      hex_digit (c mod 16)] @ s) = Some (c, s)" for s
    using nibbles [of c] by (simp add: hex_value_digit)
qed (simp add: u_escape_def)

lemma read_string_u:
  assumes "hex4 r = Some (u, r1)"
  shows "read_string (92 # 117 # r) =
    (case (if 0xD800 \<le> u \<and> u \<le> 0xDBFF \<and> take 2 r1 = [92, 117] then hex4 (drop 2 r1) else None) of
       Some (l, r2) \<Rightarrow>
         if 0xDC00 \<le> l \<and> l \<le> 0xDFFF
         then map_option (\<lambda>(x, y). ((0x10000 + (u - 0xD800) * 1024 + (l - 0xDC00)) # x, y)) (read_string r2)
         else map_option (\<lambda>(x, y). (u # x, y)) (read_string r1)
     | None \<Rightarrow> map_option (\<lambda>(x, y). (u # x, y)) (read_string r1))"
  by (subst read_string.simps(2)) (simp add: assms del: read_string.simps hex4.simps)

lemma read_string_unicode:
  assumes "c < 0x10000" "\<not> (0xD800 \<le> c \<and> c \<le> 0xDBFF)"
  shows "read_string (u_escape c @ s) = map_option (\<lambda>(x, y). (c # x, y)) (read_string s)"
proof -
  obtain h where h: "\<And>s. u_escape c @ s = 92 # 117 # h @ s" "\<And>s. hex4 (h @ s) = Some (c, s)"
    by (rule u_escape_hex [OF assms(1)]) blast
  have "(0xD800 \<le> c \<and> c \<le> 0xDBFF \<and> take 2 s = [92, 117]) = False" using assms(2) by blast
  then show ?thesis unfolding h(1) by (simp only: read_string_u [OF h(2)] if_False option.case)
qed

lemma surrogate_value:
  assumes "0x10000 \<le> (c :: nat)"
  shows "0x10000 + (0xD800 + (c - 0x10000) div 1024 - 0xD800) * 1024 + (0xDC00 + (c - 0x10000) mod 1024 - 0xDC00) = c"
  using assms by simp

lemma read_string_pair:
  assumes "0x10000 \<le> c" "c < 0x110000"
  shows "read_string (u_escape (0xD800 + (c - 0x10000) div 1024) @ u_escape (0xDC00 + (c - 0x10000) mod 1024) @ s)
    = map_option (\<lambda>(x, y). (c # x, y)) (read_string s)"
proof -
  define u l where ul: "u = 0xD800 + (c - 0x10000) div 1024" "l = 0xDC00 + (c - 0x10000) mod 1024"
  have "(c - 0x10000) div 1024 < 1024" "(c - 0x10000) mod 1024 < 1024" using assms by auto
  then have bounds: "0xD800 \<le> u" "u \<le> 0xDBFF" "0xDC00 \<le> l" "l \<le> 0xDFFF" "u < 0x10000" "l < 0x10000"
    unfolding ul by simp_all
  obtain g where g: "\<And>s. u_escape u @ s = 92 # 117 # g @ s" "\<And>s. hex4 (g @ s) = Some (u, s)"
    by (rule u_escape_hex [OF bounds(5)]) blast
  obtain h where h: "\<And>s. u_escape l @ s = 92 # 117 # h @ s" "\<And>s. hex4 (h @ s) = Some (l, s)"
    by (rule u_escape_hex [OF bounds(6)]) blast
  have "read_string (u_escape u @ u_escape l @ s)
      = map_option (\<lambda>(x, y). ((0x10000 + (u - 0xD800) * 1024 + (l - 0xDC00)) # x, y)) (read_string s)"
    using bounds(1-4) unfolding h(1) unfolding g(1)
    by (simp add: read_string_u [OF g(2)] h(2) numeral_2_eq_2 del: read_string.simps hex4.simps)
  then show ?thesis unfolding ul surrogate_value [OF assms(1)] .
qed

lemma read_string_escape:
  assumes "ascii \<longrightarrow> c < 0x110000 \<and> \<not> surrogate c"
  shows "read_string (escape_char ascii c @ s) = map_option (\<lambda>(x, y). (c # x, y)) (read_string s)"
proof -
  have "c < 32 \<Longrightarrow> read_string (u_escape c @ s) = map_option (\<lambda>(x, y). (c # x, y)) (read_string s)"
    by (rule read_string_unicode) auto
  moreover have "ascii \<Longrightarrow> 126 < c \<Longrightarrow> c < 0x10000 \<Longrightarrow>
      read_string (u_escape c @ s) = map_option (\<lambda>(x, y). (c # x, y)) (read_string s)"
    using assms by (intro read_string_unicode) (auto simp: surrogate_def)
  ultimately show ?thesis
    using assms read_string_pair [of c s] by (auto simp: escape_char_def simple_escape_def)
qed

lemma read_string_quote:
  "readable ascii s \<Longrightarrow> read_string (concat (map (escape_char ascii) s) @ 34 # r) = Some (s, r)"
proof (induction s)
  case (Cons c s)
  then have ok: "ascii \<longrightarrow> c < 0x110000 \<and> \<not> surrogate c" "readable ascii s" by (auto simp: readable_def)
  have "read_string (concat (map (escape_char ascii) (c # s)) @ 34 # r)
      = read_string (escape_char ascii c @ (concat (map (escape_char ascii) s) @ 34 # r))" by simp
  then show ?case using Cons.IH [OF ok(2)] by (simp only: read_string_escape [OF ok(1)]) simp
qed simp

section \<open>Numbers\<close>

definition ends_value :: "pystr \<Rightarrow> bool" where
  "ends_value r \<longleftrightarrow> r = [] \<or> hd r \<in> {44, 93, 125}"

lemma dec_nat_small: "n < 10 \<Longrightarrow> dec_nat n = [48 + n]"
  by (subst dec_nat.simps) simp

lemma dec_nat_large: "10 \<le> n \<Longrightarrow> dec_nat n = dec_nat (n div 10) @ [48 + n mod 10]"
  by (subst dec_nat.simps) simp

lemma dec_nat_props:
  "list_all digit (dec_nat n) \<and> dec_nat n \<noteq> [] \<and> digits_value (dec_nat n) = n \<and> (hd (dec_nat n) = 48 \<longrightarrow> n = 0)"
proof (induction n rule: less_induct)
  case (less n)
  show ?case
  proof (cases "n < 10")
    case False
    then have "n div 10 < n" "n div 10 \<noteq> 0" by auto
    with less.IH [of "n div 10"] False show ?thesis
      by (simp add: dec_nat_large digit_def digits_value_def)
  qed (simp add: dec_nat_small digit_def digits_value_def)
qed

lemmas dec_nat_digits = dec_nat_props [THEN conjunct1]
  and dec_nat_ne = dec_nat_props [THEN conjunct2, THEN conjunct1]
  and digits_value_dec = dec_nat_props [THEN conjunct2, THEN conjunct2, THEN conjunct1]
  and dec_nat_hd = dec_nat_props [THEN conjunct2, THEN conjunct2, THEN conjunct2, rule_format]

lemma takeWhile_digits: "list_all P xs \<Longrightarrow> (r \<noteq> [] \<Longrightarrow> \<not> P (hd r)) \<Longrightarrow> takeWhile P (xs @ r) = xs"
  by (induction xs) (auto simp: takeWhile_eq_Nil_iff)

lemma read_number_digits:
  assumes "takeWhile digit (d @ r) = d" "d \<noteq> []" "hd d \<noteq> 45" "hd d = 48 \<Longrightarrow> d = [48]"
    "r = [] \<or> hd r \<in> {44, 93, 125}"
  shows "read_number (d @ r) = Some (PInt (int (digits_value d)), r)"
    "read_number (45 # d @ r) = Some (PInt (- int (digits_value d)), r)"
proof -
  have ip: "(if d \<noteq> [] \<and> hd d = 48 then [48] else d) = d" using assms(4) by auto
  have r: "(r \<noteq> [] \<and> hd r = 46) = False" "(r \<noteq> [] \<and> (hd r = 101 \<or> hd r = 69)) = False"
    using assms(5) by auto
  have hd: "(d @ r \<noteq> [] \<and> hd (d @ r) = 45) = False" using assms(2,3) by simp
  have dr: "drop (length d) (d @ r) = r" by simp
  show "read_number (d @ r) = Some (PInt (int (digits_value d)), r)"
    unfolding read_number_def Let_def hd if_False assms(1) ip dr r using assms(2,5) by auto
  have neg: "(45 # d @ r \<noteq> [] \<and> hd (45 # d @ r) = 45) = True" "tl (45 # d @ r) = d @ r" by simp_all
  show "read_number (45 # d @ r) = Some (PInt (- int (digits_value d)), r)"
    unfolding read_number_def Let_def neg if_True assms(1) ip dr r using assms(2,5) by auto
qed

lemma read_number_dec:
  assumes "ends_value r"
  shows "read_number (dec_int i @ r) = Some (PInt i, r)"
proof -
  let ?n = "nat \<bar>i\<bar>"
  have d0: "dec_nat 0 = [48]" by (simp add: dec_nat_small)
  have run: "takeWhile digit (dec_nat ?n @ r) = dec_nat ?n"
    using assms by (intro takeWhile_digits dec_nat_digits) (auto simp: ends_value_def digit_def)
  moreover have "hd (dec_nat ?n) \<noteq> 45"
    using dec_nat_ne [of ?n] dec_nat_digits [of ?n] by (cases "dec_nat ?n") (auto simp: digit_def)
  moreover have "hd (dec_nat ?n) = 48 \<Longrightarrow> dec_nat ?n = [48]"
    using dec_nat_hd [of ?n] d0 by metis
  moreover have "r = [] \<or> hd r \<in> {44, 93, 125}" using assms by (simp add: ends_value_def)
  ultimately have "read_number (dec_nat ?n @ r) = Some (PInt (int ?n), r)"
    "read_number (45 # dec_nat ?n @ r) = Some (PInt (- int ?n), r)"
    using read_number_digits [of "dec_nat ?n" r] dec_nat_ne [of ?n] by (simp_all add: digits_value_dec)
  then show ?thesis by (cases "i < 0") (simp_all add: dec_int_def)
qed

section \<open>Values\<close>

text \<open>What a written value starts with decides which reader takes it.\<close>

definition starts_number :: "nat \<Rightarrow> bool" where
  "starts_number c \<longleftrightarrow> digit c \<or> c = 45"

lemma read_word_number:
  assumes "starts_number (hd s)" "s \<noteq> []" "hd s = 45 \<Longrightarrow> tl s \<noteq> [] \<and> digit (hd (tl s))"
  shows "read_word s = None"
proof -
  obtain c t where s: "s = c # t" using assms(2) by (cases s) auto
  have "c \<noteq> 110 \<and> c \<noteq> 116 \<and> c \<noteq> 102 \<and> c \<noteq> 78 \<and> c \<noteq> 73"
    using assms(1) s by (auto simp: starts_number_def digit_def)
  moreover have "c = 45 \<Longrightarrow> t \<noteq> [] \<and> hd t \<noteq> 73"
    using assms(3) s by (auto simp: digit_def)
  ultimately show ?thesis
    using s by (cases t) (auto simp: read_word_def strip_prefix_def lit_def)
qed

lemma dec_int_start: "starts_number (hd (dec_int i)) \<and> dec_int i \<noteq> [] \<and>
    (hd (dec_int i) = 45 \<longrightarrow> tl (dec_int i) \<noteq> [] \<and> digit (hd (tl (dec_int i))))"
proof -
  have "digit (hd (dec_nat n))" for n
    using dec_nat_ne [of n] dec_nat_digits [of n] by (cases "dec_nat n") auto
  moreover have "hd (dec_nat n) \<noteq> 45" for n
    using dec_nat_ne [of n] dec_nat_digits [of n] by (cases "dec_nat n") (auto simp: digit_def)
  ultimately show ?thesis using dec_nat_ne by (auto simp: dec_int_def starts_number_def)
qed

definition reads :: "pystr \<Rightarrow> pyval \<Rightarrow> bool" where
  "reads s v \<longleftrightarrow> s \<noteq> [] \<and> \<not> json_ws (hd s) \<and> hd s \<noteq> 93 \<and>
     (\<forall>n r. 2 * length s \<le> n \<longrightarrow> ends_value r \<longrightarrow> read_value n (s @ r) = Some (v, r))"

definition member :: "pystr \<Rightarrow> pyval \<times> pyval \<Rightarrow> bool" where
  "member m kv \<longleftrightarrow> (\<exists>a k x. fst kv = PStr k \<and> readable a k \<and> m = quote a k @ 58 # x \<and> reads x (snd kv))"

lemma join_simps: "join [x] = x" "join (x # y # ys) = x @ 44 # join (y # ys)"
  by (simp_all add: join_def)

lemma skip_ws_reads: "reads s v \<Longrightarrow> skip_ws (s @ r) = s @ r"
  by (cases s) (auto simp: reads_def)

lemma readsD: "reads s v \<Longrightarrow> 2 * length s \<le> n \<Longrightarrow> ends_value r \<Longrightarrow> read_value n (s @ r) = Some (v, r)"
  by (simp add: reads_def)

lemma ends_value_simps [simp]: "ends_value (44 # r)" "ends_value (93 # r)" "ends_value (125 # r)" "ends_value []"
  by (simp_all add: ends_value_def)

lemma json_ws_mark [simp]: "\<not> json_ws 44" "\<not> json_ws 93" "\<not> json_ws 125" "\<not> json_ws 58" "\<not> json_ws 34"
  by (simp_all add: json_ws_def)

lemma read_items_join:
  assumes "list_all2 reads (x # xs) vs" "2 * length (join (x # xs)) + 1 \<le> n"
  shows "read_items n (join (x # xs) @ 93 # r) = Some (vs, r)"
  using assms
proof (induction xs arbitrary: x vs n)
  case Nil
  then obtain v m where v: "vs = [v]" "reads x v" "n = Suc m" "2 * length x \<le> m"
    by (cases n) (auto simp: list_all2_Cons1 join_simps)
  then show ?case using readsD [OF v(2,4), of "93 # r"] by (simp add: join_simps)
next
  case (Cons y ys)
  from Cons.prems(1) obtain v ws where v: "vs = v # ws" "reads x v" "list_all2 reads (y # ys) ws"
    by (auto simp: list_all2_Cons1)
  from Cons.prems(2) obtain m where m: "n = Suc m" "2 * length x \<le> m" "2 * length (join (y # ys)) + 1 \<le> m"
    by (cases n) (auto simp: join_simps)
  from v(3) obtain w where "reads y w" by (auto simp: list_all2_Cons1)
  then have ws: "skip_ws (join (y # ys) @ 93 # r) = join (y # ys) @ 93 # r"
    using skip_ws_reads [of y w "(case ys of [] \<Rightarrow> [] | z # zs \<Rightarrow> 44 # join (z # zs)) @ 93 # r"]
    by (cases ys) (simp_all add: join_simps)
  show ?case
    using readsD [OF v(2) m(2), of "44 # join (y # ys) @ 93 # r"] Cons.IH [OF v(3) m(3)] v(1) m(1) ws
    by (simp add: join_simps)
qed

lemma read_members_join:
  assumes "list_all2 member (x # xs) kvs" "2 * length (join (x # xs)) + 1 \<le> n"
  shows "read_members n (join (x # xs) @ 125 # r) = Some (kvs, r)"
  using assms
proof (induction xs arbitrary: x kvs n)
  case Nil
  then obtain kv m a k t where v: "kvs = [kv]" "fst kv = PStr k" "x = quote a k @ 58 # t" "reads t (snd kv)" "readable a k"
    "n = Suc m" "2 * length t \<le> m"
    by (cases n) (auto simp: list_all2_Cons1 join_simps member_def)
  have "read_value m (t @ 125 # r) = Some (snd kv, 125 # r)" using v by (intro readsD) auto
  then show ?case using v skip_ws_reads [OF v(4), of "125 # r"]
    by (cases kv) (simp add: join_simps quote_def read_string_quote [OF v(5)] del: read_string.simps)
next
  case (Cons y ys)
  from Cons.prems(1) obtain kv ws where v: "kvs = kv # ws" "member x kv" "list_all2 member (y # ys) ws"
    by (auto simp: list_all2_Cons1)
  from v(2) obtain a k t where t: "fst kv = PStr k" "x = quote a k @ 58 # t" "reads t (snd kv)" "readable a k"
    by (auto simp: member_def)
  from Cons.prems(2) t obtain m where m: "n = Suc m" "2 * length t \<le> m" "2 * length (join (y # ys)) + 1 \<le> m"
    by (cases n) (auto simp: join_simps)
  from v(3) obtain z where z: "y = 34 # z" by (auto simp: list_all2_Cons1 member_def quote_def)
  have ws: "skip_ws (join (y # ys) @ 125 # r) = join (y # ys) @ 125 # r"
    by (cases ys) (simp_all add: join_simps z)
  have "read_value m (t @ 44 # join (y # ys) @ 125 # r) = Some (snd kv, 44 # join (y # ys) @ 125 # r)"
    using t m by (intro readsD) auto
  then show ?case
    using Cons.IH [OF v(3) m(3)] v(1) m(1) ws t skip_ws_reads [OF t(3), of "44 # join (y # ys) @ 125 # r"]
    by (cases kv) (simp add: join_simps quote_def read_string_quote [OF t(4)] del: read_string.simps)
qed

text \<open>The fuel of \<open>loads\<close> is enough: every written value is read back by \<open>read_value\<close>.\<close>

lemma fold_oset_distinct:
  "distinct (map fst (d @ kvs)) \<Longrightarrow> fold (\<lambda>(k, v). oset k v) kvs d = d @ kvs"
proof (induction kvs arbitrary: d)
  case (Cons kv kvs)
  then have "map_of d (fst kv) = None" by (auto simp: map_of_eq_None_iff)
  then show ?case using Cons by (cases kv) (simp add: oset_new)
qed simp

lemma insort_key_map: "insort_key f (g x) (map g xs) = map g (insort_key (f \<circ> g) x xs)"
  by (induction xs) auto

lemma sort_key_map: "sort_key f (map g xs) = map g (sort_key (f \<circ> g) xs)"
  by (induction xs) (simp_all add: insort_key_map comp_def)

lemma insort_key_cong: "(\<And>y. y \<in> insert x (set xs) \<Longrightarrow> f y = g y) \<Longrightarrow> insort_key f x xs = insort_key g x xs"
  by (induction xs) auto

lemma sort_key_cong: "(\<And>y. y \<in> set xs \<Longrightarrow> f y = g y) \<Longrightarrow> sort_key f xs = sort_key g xs"
proof (induction xs)
  case (Cons x xs)
  then have "sort_key f xs = sort_key g xs" by simp
  with Cons.prems show ?case using insort_key_cong [of x "sort_key g xs" f g] by simp
qed simp

lemma sort_items_all2:
  assumes "list_all2 R xs ys" "\<And>x y. R x y \<Longrightarrow> fst x = fst y"
  shows "list_all2 R (sort_items xs) (sort_items ys)"
proof -
  let ?key = "\<lambda>kv. case fst kv of PStr s \<Rightarrow> s | _ \<Rightarrow> []"
  define zs where "zs = zip xs ys"
  have zs: "xs = map fst zs" "ys = map snd zs" "\<forall>z\<in>set zs. R (fst z) (snd z)"
    using assms(1) by (auto simp: zs_def list_all2_iff)
  have "fst (fst z) = fst (snd z)" if "z \<in> set zs" for z
    using zs(3) assms(2) that by blast
  then have "sort_key (?key \<circ> fst) zs = sort_key (?key \<circ> snd) zs"
    by (intro sort_key_cong) simp
  then show ?thesis using zs
    by (auto simp: sort_items_def sort_key_map list_all2_map1 list_all2_map2 intro!: list.rel_refl_strong)
qed

lemma sort_items_distinct: "distinct (map fst (sort_items xs)) = distinct (map fst xs)"
  by (simp add: sort_items_def distinct_map)

lemma reads_wordI:
  assumes "\<And>r. read_word (s @ r) = Some (v, r)" "s \<noteq> []" "hd s \<notin> {34, 91, 123, 93}" "\<not> json_ws (hd s)"
  shows "reads s v"
proof -
  obtain c t where "s = c # t" using assms(2) by (cases s) auto
  moreover have "\<exists>m. n = Suc m" if "2 * length s \<le> n" for n
    using that assms(2) by (cases n) auto
  ultimately show ?thesis
    unfolding reads_def using assms by fastforce
qed

lemma reads_words: "reads (lit ''null'') PNone" "reads (lit ''true'') (PBool True)" "reads (lit ''false'') (PBool False)"
  by (intro reads_wordI; simp add: read_word_def strip_prefix_def lit_def json_ws_def)+

lemma written_reads:
  assumes "good_json v" "plain_texts (jo_ascii jo) v" "dumps jo v = Inr s"
  shows "reads s (written jo v)"
  using assms
proof (induction jo v arbitrary: s rule: dumps.induct)
  case (3 jo i)
  have st: "starts_number (hd (dec_int i))" "dec_int i \<noteq> []"
    "hd (dec_int i) = 45 \<longrightarrow> tl (dec_int i) \<noteq> [] \<and> digit (hd (tl (dec_int i)))"
    using dec_int_start [of i] by auto
  have "read_value n (dec_int i @ r) = Some (PInt i, r)" if n: "2 * length (dec_int i) \<le> n" "ends_value r" for n r
  proof -
    from n st(2) obtain m where m: "n = Suc m" by (cases n) auto
    obtain c t where ct: "dec_int i = c # t" using st(2) by (cases "dec_int i") auto
    have "read_word (dec_int i @ r) = None"
      using st ct by (intro read_word_number) auto
    with read_number_dec [OF n(2), of i] show ?thesis
      using m ct st(1) by (auto simp: starts_number_def digit_def)
  qed
  moreover have "\<not> json_ws (hd (dec_int i))" "hd (dec_int i) \<noteq> 93"
    using st(1) by (auto simp: starts_number_def digit_def json_ws_def)
  ultimately show ?case using 3 st(2) by (auto simp: reads_def)
next
  case (5 jo t)
  then have "readable (jo_ascii jo) t" by simp
  then have "read_value n (quote (jo_ascii jo) t @ r) = Some (PStr t, r)" if "2 * length (quote (jo_ascii jo) t) \<le> n" for n r
    using that by (cases n) (auto simp: quote_def read_string_quote simp del: read_string.simps)
  then show ?case using 5 by (auto simp: reads_def quote_def json_ws_def)
next
  case (6 jo vs)
  then obtain xs where xs: "mapE (dumps jo) vs = Inr xs" "s = 91 # join xs @ [93]" by auto
  have "list_all2 reads xs (map (written jo) vs)"
    using xs(1) 6(1,2,3) unfolding mapE_Inr_iff list_all2_map2
    by (auto simp: list_all2_conv_all_nth list_all_length)
  moreover have "read_value n (s @ r) = Some (PList (map (written jo) vs), r)"
    if "list_all2 reads xs (map (written jo) vs)" "2 * length s \<le> n" for n r
  proof -
    from that(2) xs(2) obtain m where m: "n = Suc m" by (cases n) auto
    show ?thesis
    proof (cases xs)
      case Nil
      then show ?thesis using that xs(2) m by (simp add: join_def)
    next
      case (Cons y ys)
      then have "reads y (hd (map (written jo) vs))" using that(1) by (auto simp: list_all2_Cons1)
      then have "y \<noteq> []" "\<not> json_ws (hd y)" "hd y \<noteq> 93" by (auto simp: reads_def)
      then have "skip_ws (join (y # ys) @ 93 # r) = join (y # ys) @ 93 # r" "hd (join (y # ys) @ 93 # r) \<noteq> 93"
        by (cases y; cases ys; simp add: join_simps)+
      then show ?thesis
        using read_items_join [of y ys "map (written jo) vs" m r] that xs(2) m Cons by (simp add: Let_def)
    qed
  qed
  ultimately show ?case using xs(2) by (auto simp: reads_def json_ws_def)
next
  case (7 jo kvs)
  define ent where "ent = (\<lambda>(k, v). (k :: pyval, written jo v))"
  define sorted_by where "sorted_by = (if jo_sort jo then sort_items else (\<lambda>l. l) :: (pyval \<times> pyval) list \<Rightarrow> _)"
  define R where "R = (\<lambda>m kv. fst m = fst kv \<and> member (snd m) kv)"
  from 7(4) obtain xs where xs: "mapE (dump_entry jo) kvs = Inr xs"
    "s = 123 # join (map snd (if jo_sort jo then sort_items xs else xs)) @ [125]" by auto
  have "R m (ent kv)" if kvm: "kv \<in> set kvs" "dump_entry jo kv = Inr m" for kv m
  proof -
    obtain k v where kv: "kv = (k, v)" by force
    with 7(2,3) kvm(1) have good: "is_str k" "good_json v" "plain_texts (jo_ascii jo) k" "plain_texts (jo_ascii jo) v"
      by (auto simp: list_all_iff)
    then obtain t x where "k = PStr t" "dumps jo v = Inr x" "m = (k, quote (jo_ascii jo) t @ 58 # x)"
      using kvm(2) kv by (cases k) auto
    with 7(1) [of kv k v t x] kvm(1) kv good show ?thesis
      by (auto simp: R_def ent_def member_def)
  qed
  then have "list_all2 R xs (map ent kvs)"
    using xs(1) by (auto simp: mapE_Inr_iff list_all2_conv_all_nth)
  then have "list_all2 R (if jo_sort jo then sort_items xs else xs) (sorted_by (map ent kvs))"
    by (auto simp: sorted_by_def R_def intro: sort_items_all2)
  then have mem: "list_all2 member (map snd (if jo_sort jo then sort_items xs else xs)) (sorted_by (map ent kvs))"
    by (auto simp: list_all2_map1 R_def elim: list_all2_mono)
  have "fst (ent kv) = fst kv" for kv by (cases kv) (simp add: ent_def)
  then have "map fst (map ent kvs) = map fst kvs" by simp
  then have dist: "distinct (map fst (sorted_by (map ent kvs)))"
    using 7(2) sort_items_distinct [of "map ent kvs"] by (simp add: sorted_by_def del: map_map)
  have w: "written jo (PDict kvs) = PDict (sorted_by (map ent kvs))"
    by (simp add: sorted_by_def ent_def)
  have "read_value n (s @ r) = Some (written jo (PDict kvs), r)" if n: "2 * length s \<le> n" for n r
  proof -
    from n xs(2) obtain m where m: "n = Suc m" by (cases n) auto
    show ?thesis
    proof (cases "map snd (if jo_sort jo then sort_items xs else xs)")
      case Nil
      then show ?thesis using mem xs(2) m w by (simp add: join_def)
    next
      case (Cons y ys)
      with mem obtain z where "y = 34 # z" by (auto simp: list_all2_Cons1 member_def quote_def)
      then have h: "skip_ws (join (y # ys) @ 125 # r) = join (y # ys) @ 125 # r" "hd (join (y # ys) @ 125 # r) \<noteq> 125"
        by (cases ys; simp add: join_simps)+
      have "read_members m (join (y # ys) @ 125 # r) = Some (sorted_by (map ent kvs), r)"
        using read_members_join [of y ys "sorted_by (map ent kvs)" m r] mem Cons n m xs(2) by simp
      then show ?thesis using Cons xs(2) m w h fold_oset_distinct [of "[]"] dist by (simp add: Let_def)
    qed
  qed
  then show ?case using xs(2) by (auto simp: reads_def json_ws_def)
qed (auto simp: reads_words)

section \<open>Properties\<close>

text \<open>The text of a value reads back as the value as written.\<close>

lemma loads_dumps_plain:
  assumes "good_json v" "plain_texts (jo_ascii jo) v" "dumps jo v = Inr s"
  shows "loads s = Some (written jo v)"
proof -
  have r: "reads s (written jo v)" using assms by (rule written_reads)
  then have "skip_ws s = s" using skip_ws_reads [OF r, of "[]"] by simp
  moreover have "read_value (2 * length s + 1) (s @ []) = Some (written jo v, [])"
    using r by (intro readsD) auto
  ultimately show ?thesis by (simp add: loads_def)
qed

lemma loads_dumps: "good_json v \<Longrightarrow> \<not> jo_ascii jo \<Longrightarrow> dumps jo v = Inr s \<Longrightarrow> loads s = Some (written jo v)"
  by (rule loads_dumps_plain) simp_all

section \<open>Objects\<close>

lemma is_dict_written [simp]: "is_dict (written jo v) = is_dict v"
  by (cases v) auto

lemma map_of_map_snd: "map_of (map (\<lambda>(k, v). (k, f v)) kvs) k = map_option f (map_of kvs k)"
  by (induction kvs) auto

lemma dget_written:
  assumes "good_json v"
  shows "dget (written jo v) k = map_option (written jo) (dget v k)"
proof (cases v)
  case (PDict kvs)
  let ?l = "map (\<lambda>(k, v). (k, written jo v)) kvs"
  have "map fst ?l = map fst kvs" by (induction kvs) auto
  with assms PDict have "distinct (map fst ?l)" by (simp del: map_map)
  then have "map_of (sort_items ?l) = map_of ?l"
    by (subst map_of_inject_set) (simp_all add: sort_items_distinct, simp add: sort_items_def)
  with PDict show ?thesis by (simp add: dget_def map_of_map_snd)
qed (auto simp: dget_def)

lemma has_keys_written: "has_keys (written jo v) ks = has_keys v ks"
  by (cases v) (auto simp: has_keys_def list_all_iff list_ex_iff sort_items_def case_prod_unfold)

end
