(* ===== verification/Knowledge_Records.thy ===== *)
theory Knowledge_Records
  imports Scroll Py_Time Json_Roundtrip "HOL-Library.Multiset"
begin

text \<open>
  Typed evidence records on the Scroll (\<open>core/knowledge_records.py\<close>): the bounds of a plain value,
  the canonical envelope text, decoding a stored row, the complete read of a project's records and
  the append that decodes what it has just captured and runs the caller's validator in the same
  transaction.
\<close>

section \<open>Argument checks\<close>

definition require_text :: "pyval \<Rightarrow> string \<Rightarrow> nat \<Rightarrow> py_error + pystr" where
  "require_text value name max_chars =
     (case value of
        PStr s \<Rightarrow>
          bindE (ensure (py_strip s \<noteq> [] \<and> length s \<le> max_chars)
                   (ValueError (name @ '' must contain nonempty bounded text''))) (\<lambda>_.
          bindE (ensure (utf8_ok s) (ValueError (name @ '' must be valid UTF-8 text''))) (\<lambda>_.
          bindE (ensure (0 \<notin> set s) (ValueError (name @ '' must not contain NUL''))) (\<lambda>_. Inr s)))
      | _ \<Rightarrow> Inl (ValueError (name @ '' must contain nonempty bounded text'')))"

definition replace_Z :: "pystr \<Rightarrow> pystr" where
  "replace_Z s = concat (map (\<lambda>c. if c = 90 then lit ''+00:00'' else [c]) s)"

text \<open>The instant a timestamp denotes, and its canonical text.\<close>

definition read_instant :: "pystr \<Rightarrow> string \<Rightarrow> py_error + civil" where
  "read_instant s name =
     (let bad = Inl (ValueError (name @ '' must be an ISO-8601 timestamp with UTC offset''))
      in case fromisoformat (replace_Z s) of
           Some (c, Some off) \<Rightarrow> (case to_utc c off of Inr u \<Rightarrow> Inr u | Inl _ \<Rightarrow> bad)
         | _ \<Rightarrow> bad)"

definition require_timestamp :: "pyval \<Rightarrow> string \<Rightarrow> py_error + pystr" where
  "require_timestamp value name =
     bindE (require_text value name 64) (\<lambda>s. bindE (read_instant s name) (\<lambda>u. Inr (isoformat u)))"

text \<open>\<open>datetime.fromisoformat\<close> of a canonical text, as the instant it is compared by.\<close>

definition instant :: "pyval \<Rightarrow> string \<Rightarrow> py_error + pystr \<times> int" where
  "instant value name =
     bindE (require_text value name 64) (\<lambda>s. bindE (read_instant s name) (\<lambda>u. Inr (isoformat u, micros u)))"

definition ident_char :: "nat \<Rightarrow> bool" where
  "ident_char c \<longleftrightarrow> 48 \<le> c \<and> c \<le> 57 \<or> 65 \<le> c \<and> c \<le> 90 \<or> 97 \<le> c \<and> c \<le> 122"

text \<open>\<open>[A-Za-z0-9][A-Za-z0-9_.:-]{0,127}\<close>\<close>

definition is_identifier :: "pystr \<Rightarrow> bool" where
  "is_identifier s \<longleftrightarrow> s \<noteq> [] \<and> ident_char (hd s) \<and> length s \<le> 128 \<and>
     list_all (\<lambda>c. ident_char c \<or> c \<in> {95, 46, 58, 45}) (tl s)"

definition require_identifier :: "pyval \<Rightarrow> string \<Rightarrow> py_error + pystr" where
  "require_identifier value name =
     (case value of
        PStr s \<Rightarrow> if is_identifier s then Inr s
                  else Inl (ValueError (name @ '' must be a portable identifier of at most 128 characters''))
      | _ \<Rightarrow> Inl (ValueError (name @ '' must be a portable identifier of at most 128 characters'')))"

section \<open>Plain values and their text\<close>

definition max_record_bytes :: nat where
  "max_record_bytes = 65536"

text \<open>\<open>_plain\<close>: the number of values visited so far is threaded through the traversal.\<close>

definition plain_bounds :: "nat \<Rightarrow> nat \<Rightarrow> py_error + unit" where
  "plain_bounds depth visited =
     ensure (depth \<le> 16 \<and> Suc visited \<le> 16384) (ValueError ''knowledge structure exceeds its bounds'')"

definition plain_leaf :: "pyval \<Rightarrow> py_error + unit" where
  "plain_leaf v =
     (case v of
        PStr s \<Rightarrow>
          bindE (ensure (length s \<le> max_record_bytes) (ValueError ''knowledge text exceeds its bounds'')) (\<lambda>_.
          ensure (utf8_ok s) (ValueError ''knowledge text must be valid UTF-8''))
      | PInt i \<Rightarrow> ensure (\<bar>i\<bar> \<le> 2 ^ 63 - 1) (ValueError ''knowledge integer exceeds its bounds'')
      | PFloat f \<Rightarrow> ensure (finite_float f) (ValueError ''knowledge must contain only bounded plain JSON values'')
      | POther _ \<Rightarrow> Inl (ValueError ''knowledge must contain only bounded plain JSON values'')
      | _ \<Rightarrow> Inr ())"

fun plain :: "nat \<Rightarrow> nat \<Rightarrow> pyval \<Rightarrow> py_error + nat" where
  "plain depth visited (PDict kvs) =
     bindE (plain_bounds depth visited) (\<lambda>_.
     bindE (ensure (length kvs \<le> 4096 \<and> list_all (is_str \<circ> fst) kvs)
              (ValueError ''knowledge object must have bounded string keys'')) (\<lambda>_.
       foldE (\<lambda>n (k, v). bindE (plain (Suc depth) n k) (\<lambda>m. plain (Suc depth) m v)) (Suc visited) kvs))"
| "plain depth visited (PList vs) =
     bindE (plain_bounds depth visited) (\<lambda>_.
     bindE (ensure (length vs \<le> 4096) (ValueError ''knowledge must contain only bounded plain JSON values''))
           (\<lambda>_. foldE (\<lambda>n v. plain (Suc depth) n v) (Suc visited) vs))"
| "plain depth visited v = bindE (plain_bounds depth visited) (\<lambda>_. bindE (plain_leaf v) (\<lambda>_. Inr (Suc visited)))"

definition canonical_json :: json_opts where
  "canonical_json = \<lparr>jo_ascii = False, jo_sort = True, jo_nan = False\<rparr>"

definition encode_record :: "pyval \<Rightarrow> py_error + pystr" where
  "encode_record v =
     bindE (plain 0 0 v) (\<lambda>_.
     bindE (dumps canonical_json v) (\<lambda>s.
     bindE (ensure (utf8_ok s) (ValueError ''surrogates not allowed'')) (\<lambda>_.
     bindE (ensure (utf8_size s \<le> max_record_bytes) (ValueError ''knowledge record exceeds 65536 UTF-8 bytes''))
           (\<lambda>_. Inr s))))"

text \<open>\<open>==\<close> on plain values: \<open>bool\<close> and \<open>int\<close> compare by number, a dictionary as a set of entries.\<close>

function (sequential) py_eq :: "pyval \<Rightarrow> pyval \<Rightarrow> bool" where
  "py_eq (PInt i) (PBool b) = (i = (if b then 1 else 0))"
| "py_eq (PBool b) (PInt i) = (i = (if b then 1 else 0))"
| "py_eq (PList xs) (PList ys) = (length xs = length ys \<and> list_all (\<lambda>(x, y). py_eq x y) (zip xs ys))"
| "py_eq (PDict xs) (PDict ys) = (length xs = length ys \<and>
     list_all (\<lambda>(k, v). case map_of ys k of None \<Rightarrow> False | Some w \<Rightarrow> py_eq v w) xs)"
| "py_eq v w = (v = w)"
  by pat_completeness auto
termination
proof (relation "measure (\<lambda>(v, _). size v)")
  fix xs ys :: "pyval list" and z x y
  assume "z \<in> set (zip xs ys)" "(x, y) = z"
  then have "x \<in> set xs" by (auto dest: set_zip_leftD)
  then have "size x \<le> size_list size xs" by (rule size_list_estimation') simp
  then show "((x, y), PList xs, PList ys) \<in> measure (\<lambda>(v, _). size v)" by simp
next
  fix xs ys :: "(pyval \<times> pyval) list" and z k v w
  assume "z \<in> set xs" "(k, v) = z"
  then have "size v \<le> size_list (size_prod size size) xs"
    by (intro size_list_estimation' [of z]) auto
  then show "((v, w), PDict xs, PDict ys) \<in> measure (\<lambda>(v, _). size v)" by simp
qed simp

section \<open>Records\<close>

record krec =
  kr_id :: pystr
  kr_session :: pystr
  kr_project :: pystr
  kr_recorded :: pystr
  kr_kind :: pystr
  kr_payload :: pyval
  kr_hash :: pystr
  kr_order :: int

definition knowledge_schema :: pystr where "knowledge_schema = lit ''continuum.knowledge.v1''"
definition knowledge_event :: pystr where "knowledge_event = lit ''knowledge_record''"

definition kinds :: "pystr list" where
  "kinds = map lit [''temporal_fact'', ''project_file'', ''project_knowledge'', ''analysis_asset'',
     ''analysis_finding'', ''media_annotation'', ''notebook_entry'', ''experience'', ''procedure'',
     ''procedure_review'', ''handoff'', ''handoff_transition'', ''collection'', ''collection_revision'',
     ''shared_knowledge'', ''workspace_decision'']"

text \<open>The collaborators: the secret scanner, the canonical form of a project identifier, the reader
  of cited sources, the nonce generator and the Scroll.\<close>

record 'x know_env =
  ke_scroll :: "'x scroll_env"
  ke_scan_value :: "string \<Rightarrow> pyval \<Rightarrow> bool"
  ke_scan_text :: "pystr \<Rightarrow> bool"
  ke_project :: "pystr \<Rightarrow> py_error + pystr option"
  ke_source :: "pystr \<Rightarrow> pyval \<Rightarrow> pyval \<Rightarrow> pyval \<Rightarrow> int \<Rightarrow> int \<Rightarrow> py_error + pyval"
  ke_nonce :: pystr

definition project_scope :: "'x know_env \<Rightarrow> pyval \<Rightarrow> py_error + pystr" where
  "project_scope env p =
     bindE (require_text p ''project_id'' 256) (\<lambda>s.
     bindE (ke_project env s) (\<lambda>c.
       if nonempty c then Inr (the c) else Inl (ValueError ''project_id is required'')))"

definition malformed :: "py_error + 'r" where
  "malformed = Inl (ValueError ''stored knowledge record is malformed'')"

text \<open>\<open>_decode\<close> of a row and its rowid.\<close>

definition decode_row :: "'x know_env \<Rightarrow> pystr \<Rightarrow> int \<times> scroll_event \<Rightarrow> py_error + krec" where
  "decode_row env project row =
     (let (order, e) = row; txt = ev_content e in
      if \<not> utf8_ok txt \<or> max_record_bytes < utf8_size txt then malformed
      else case loads txt of
        None \<Rightarrow> malformed
      | Some v \<Rightarrow>
          if has_keys v [''schema'', ''kind'', ''project_id'', ''nonce'', ''payload'']
             \<and> dget v ''schema'' = Some (PStr knowledge_schema)
             \<and> (case dget v ''kind'' of Some (PStr k) \<Rightarrow> k \<in> set kinds | _ \<Rightarrow> False)
             \<and> dget v ''project_id'' = Some (PStr project)
             \<and> (case dget v ''nonce'' of Some (PStr n) \<Rightarrow> is_hex 32 n | _ \<Rightarrow> False)
             \<and> (case dget v ''payload'' of Some p \<Rightarrow> is_dict p | _ \<Rightarrow> False)
             \<and> is_dict (ev_metadata e)
             \<and> dget (ev_metadata e) ''knowledge_schema'' = Some (PStr knowledge_schema)
             \<and> metadata_scope_visible (se_repr (ke_scroll env)) (ev_metadata e) (Some (ev_session e)) None (Some project)
             \<and> ev_hash e = sha256 txt
             \<and> isOk (encode_record v)
          then (case require_timestamp (PStr (ev_created e)) ''stored recorded_at'' of
                  Inl _ \<Rightarrow> malformed
                | Inr when \<Rightarrow> Inr \<lparr>kr_id = ev_id e, kr_session = ev_session e, kr_project = project,
                    kr_recorded = when, kr_kind = the (as_str (dget_or v ''kind'' PNone)),
                    kr_payload = dget_or v ''payload'' PNone, kr_hash = ev_hash e, kr_order = order\<rparr>)
          else malformed)"

text \<open>The rows of the table with their rowids: nothing deletes a Scroll event, so the n-th event
  inserted has rowid n.\<close>

definition numbered :: "scroll_event list \<Rightarrow> (int \<times> scroll_event) list" where
  "numbered es = zip [1..int (length es)] es"

definition knowledge_rows :: "pystr \<Rightarrow> scroll_event list \<Rightarrow> (int \<times> scroll_event) list" where
  "knowledge_rows project es =
     sort_key (\<lambda>r. ev_created (snd r))
       (filter (\<lambda>(_, e). ev_type e = knowledge_event \<and> ev_scope e = lit ''project'' \<and> ev_project e = Some project)
          (numbered es))"

definition read_all :: "'x know_env \<Rightarrow> pystr \<Rightarrow> nat \<Rightarrow> scroll_event list \<Rightarrow> py_error + krec list" where
  "read_all env project limit es =
     (let rows = knowledge_rows project es in
      if limit < length rows then Inl (ValueError ''project knowledge exceeds the requested read bound'')
      else mapE (decode_row env project) rows)"

definition read_records ::
  "'x know_env \<Rightarrow> pyval \<Rightarrow> pyval list option \<Rightarrow> pyval \<Rightarrow> 'x db \<Rightarrow> py_error + krec list" where
  "read_records env project_id wanted max_records db =
     bindE (project_scope env project_id) (\<lambda>project.
     bindE (case max_records of
              PInt n \<Rightarrow> bindE (ensure (1 \<le> n \<and> n \<le> 100000)
                 (ValueError ''max_records must be an integer from 1 to 100000'')) (\<lambda>_. Inr (nat n))
            | _ \<Rightarrow> Inl (ValueError ''max_records must be an integer from 1 to 100000'')) (\<lambda>limit.
     bindE (ensure (case wanted of None \<Rightarrow> True
              | Some ks \<Rightarrow> list_all (\<lambda>k. case k of PStr s \<Rightarrow> s \<in> set kinds | _ \<Rightarrow> False) ks)
              (ValueError ''unsupported knowledge kind'')) (\<lambda>_.
     bindE (read_all env project limit (events db)) (\<lambda>rs.
       Inr (case wanted of None \<Rightarrow> rs
            | Some ks \<Rightarrow> filter (\<lambda>r. PStr (kr_kind r) \<in> set ks) rs)))))"

text \<open>The read the modules use: some kinds, with the default bound.\<close>

definition read_kinds :: "'x know_env \<Rightarrow> pyval \<Rightarrow> pystr list \<Rightarrow> 'x db \<Rightarrow> py_error + krec list" where
  "read_kinds env project_id ks db = read_records env project_id (Some (map PStr ks)) (PInt 10000) db"

section \<open>Appending a record\<close>

type_synonym 'x validator = "'x db \<Rightarrow> krec \<Rightarrow> py_error + unit"

definition knowledge_envelope :: "'x know_env \<Rightarrow> pystr \<Rightarrow> pystr \<Rightarrow> pyval \<Rightarrow> pyval" where
  "knowledge_envelope env project kind payload =
     mkdict [(''schema'', PStr knowledge_schema), (''kind'', PStr kind), (''project_id'', PStr project),
             (''nonce'', PStr (ke_nonce env)), (''payload'', payload)]"

definition captured_record :: "'x know_env \<Rightarrow> pystr \<Rightarrow> pystr \<Rightarrow> 'x db \<Rightarrow> py_error + krec" where
  "captured_record env project i db =
     (case find (\<lambda>(_, e). ev_id e = i) (numbered (events db)) of
        None \<Rightarrow> Inl (ValueError ''knowledge capture is missing'')
      | Some row \<Rightarrow> decode_row env project row)"

text \<open>The part of the transaction that runs after the event is inserted.\<close>

definition record_effect ::
  "'x know_env \<Rightarrow> pystr \<Rightarrow> pystr \<Rightarrow> pyval \<Rightarrow> 'x validator \<Rightarrow> 'x effect" where
  "record_effect env project kind payload validate db r =
     bindE (captured_record env project (ar_event r) db) (\<lambda>rec.
     bindE (ensure (py_eq (kr_payload rec) payload \<and> kr_kind rec = kind)
              (ValueError ''knowledge capture changed the structured evidence'')) (\<lambda>_.
     bindE (validate db rec) (\<lambda>_. Inr (db, r))))"

definition knowledge_metadata :: "pystr \<Rightarrow> pyval" where
  "knowledge_metadata project =
     mkdict [(''project_id'', PStr project), (''visibility_scope'', PStr (lit ''project'')),
             (''knowledge_schema'', PStr knowledge_schema), (''instruction_authority'', PStr (lit ''none'')),
             (''trust_level'', PStr (lit ''recorded_claim_not_verified_truth''))]"

definition append_record ::
  "'x know_env \<Rightarrow> pyval \<Rightarrow> pyval \<Rightarrow> pystr \<Rightarrow> pyval \<Rightarrow> 'x validator \<Rightarrow> 'x db \<Rightarrow> py_error + 'x db \<times> krec" where
  "append_record env project_id session_id kind payload validate db =
     bindE (project_scope env project_id) (\<lambda>project.
     bindE (require_text session_id ''session_id'' 256) (\<lambda>session.
     bindE (ensure (kind \<in> set kinds \<and> is_dict payload) (ValueError ''unsupported knowledge record'')) (\<lambda>_.
     let envelope = knowledge_envelope env project kind payload in
     bindE (encode_record envelope) (\<lambda>txt.
     bindE (ensure (\<not> ke_scan_value env ''knowledge'' envelope \<and> \<not> ke_scan_text env txt)
              (ValueError ''credential-like material is not permitted in knowledge records'')) (\<lambda>_.
     bindE (append_scroll_event_once (ke_scroll env) session knowledge_event (lit ''agent'') txt
              (knowledge_metadata project) (record_effect env project kind payload validate) db) (\<lambda>(db', r).
     bindE (captured_record env project (ar_event r) db') (\<lambda>rec. Inr (db', rec))))))))"

section \<open>Evidence\<close>

definition evidence_item :: "'x know_env \<Rightarrow> pystr \<Rightarrow> (pyval \<times> pyval) list \<times> pyval list \<Rightarrow> pyval \<Rightarrow>
    py_error + (pyval \<times> pyval) list \<times> pyval list" where
  "evidence_item env project acc item =
     (let (seen, out) = acc in
      bindE (ensure (has_keys item [''kind'', ''id'', ''content_hash''] \<and> list_all (is_str \<circ> snd) (entries item))
               (ValueError ''evidence must contain exact source citations'')) (\<lambda>_.
      let k = dget_or item ''kind'' PNone; i = dget_or item ''id'' PNone; h = dget_or item ''content_hash'' PNone in
      bindE (ensure ((k, i) \<notin> set seen) (ValueError ''evidence citations must be unique'')) (\<lambda>_.
      bindE (ke_source env project k i h 0 1) (\<lambda>found.
      bindE (ensure (case dget found ''found'' of Some b \<Rightarrow> truthy b | None \<Rightarrow> False)
               (ValueError ''evidence source is unavailable or changed'')) (\<lambda>_.
        Inr ((k, i) # seen, out @ [item]))))))"

definition validate_evidence :: "'x know_env \<Rightarrow> pyval \<Rightarrow> pyval \<Rightarrow> py_error + pyval list" where
  "validate_evidence env project_id evidence =
     bindE (project_scope env project_id) (\<lambda>project.
       case evidence of
         PNone \<Rightarrow> Inr []
       | PList items \<Rightarrow>
           bindE (ensure (length items \<le> 16)
                    (ValueError ''evidence must be an array of at most 16 exact source citations'')) (\<lambda>_.
           bindE (foldE (evidence_item env project) ([], []) items) (\<lambda>(_, out). Inr out))
       | _ \<Rightarrow> Inl (ValueError ''evidence must be an array of at most 16 exact source citations''))"

section \<open>Lemmas\<close>

lemma require_text_Inr:
  "require_text v name n = Inr s \<longleftrightarrow> v = PStr s \<and> py_strip s \<noteq> [] \<and> length s \<le> n \<and> utf8_ok s \<and> 0 \<notin> set s"
  by (cases v) (auto simp: require_text_def)

lemma require_identifier_Inr: "require_identifier v name = Inr s \<longleftrightarrow> v = PStr s \<and> is_identifier s"
  by (cases v) (auto simp: require_identifier_def)

lemma project_scope_Inr:
  "project_scope env p = Inr q \<Longrightarrow> q \<noteq> []"
  by (auto simp: project_scope_def nonempty_def split: if_splits option.splits)

lemma numbered_snoc: "numbered (es @ [e]) = numbered es @ [(int (length es) + 1, e)]"
proof -
  have "[1..int (length (es @ [e]))] = [1..int (length es)] @ [int (length es) + 1]"
    using upto_rec2 [of 1 "int (length es) + 1"] by (simp add: add.commute)
  then show ?thesis unfolding numbered_def by simp
qed

lemma numbered_snd: "map snd (numbered es) = es"
  by (simp add: numbered_def)

lemma numbered_distinct: "distinct (map fst (numbered es))"
  by (simp add: numbered_def)

text \<open>The policy lets a knowledge capture through or raises; it does not rewrite its kind, role or
  metadata (they hold a fixed vocabulary and a canonical project identifier).\<close>

definition policy_passes :: "'x know_env \<Rightarrow> bool" where
  "policy_passes env \<longleftrightarrow> (\<forall>s c project. case se_policy (ke_scroll env) s knowledge_event (lit ''agent'') c
        (knowledge_metadata project) of
      Inl _ \<Rightarrow> True
    | Inr (s', ty, role, c', m) \<Rightarrow> ty = knowledge_event \<and> role = lit ''agent'' \<and> m = knowledge_metadata project)"

lemma policy_passesD:
  assumes "policy_passes env"
    "se_policy (ke_scroll env) s knowledge_event (lit ''agent'') c (knowledge_metadata project) = Inr (s', t', r', c', m')"
  shows "t' = knowledge_event \<and> r' = lit ''agent'' \<and> m' = knowledge_metadata project"
  using assms(1) [unfolded policy_passes_def, THEN spec [of _ s], THEN spec [of _ c], THEN spec [of _ project]] assms(2)
  by simp

lemma prepare_knowledge:
  assumes "project \<noteq> []"
  shows "\<exists>meta. prepare_event env session (lit ''agent'') content (knowledge_metadata project)
     = Inr (meta, lit ''project'', Some project, None) \<and> is_dict meta \<and>
     dget meta ''visibility_scope'' = Some (PStr (lit ''project'')) \<and> dget meta ''project_id'' = Some (PStr project) \<and>
     dget meta ''knowledge_schema'' = Some (PStr knowledge_schema)"
proof -
  let ?m = "default_metadata (knowledge_metadata project)"
  have get: "dget ?m ''project_id'' = Some (PStr project)" "dget ?m ''visibility_scope'' = Some (PStr (lit ''project''))"
    "dget ?m ''trusted_explicit_memory_request'' = None" "dget ?m ''knowledge_schema'' = Some (PStr knowledge_schema)"
    by (simp_all add: default_metadata_def dsetdefault_def knowledge_metadata_def)
  have "event_scope (se_repr env) ?m = Inr (lit ''project'', Some project)"
    using assms get by (simp add: event_scope_def get_truthy_def normalize_visibility_scope_def valid_scopes_def)
  moreover obtain c where "canonical_scroll_metadata (se_repr env) ?m session (lit ''project'') (Some project) = Inr c"
    and c: "dget c ''visibility_scope'' = Some (PStr (lit ''project''))" "dget c ''project_id'' = Some (PStr project)"
      "dget c ''knowledge_schema'' = Some (PStr knowledge_schema)" "is_dict c"
    using assms get
    by (simp add: canonical_scroll_metadata_def normalize_visibility_scope_def valid_scopes_def Let_def nonempty_def
        dput_def [of _ "''project_id''"])
       (simp add: dput_def [of _ "''project_id''", symmetric])
  moreover have "\<not> exact_memory_authorized (lit ''agent'') ?m"
    using get by (simp add: exact_memory_authorized_def)
  moreover have "is_dict (dsetdefault c ''association_terms'' v)" for v
    using c(4) by (auto simp: dsetdefault_def dput_def split: option.splits)
  ultimately show ?thesis by (auto simp: prepare_event_def Let_def dsetdefault_def split: option.splits)
qed

lemma record_effect_Inr:
  "record_effect env project kind payload validate db r = Inr (db', r') \<longleftrightarrow>
     (\<exists>rec. captured_record env project (ar_event r) db = Inr rec \<and> py_eq (kr_payload rec) payload \<and>
       kr_kind rec = kind \<and> validate db rec = Inr () \<and> db' = db \<and> r' = r)"
  by (auto simp: record_effect_def)

lemma frames_record_effect [simp]: "frames (record_effect env project kind payload validate)"
  by (auto simp: frames_def record_effect_Inr)

text \<open>What a successful append did: it stored one event, or found its text already stored, and the
  validator accepted the very database that was committed.\<close>

lemma append_record_inversion:
  assumes "append_record env pid sid kind payload validate db = Inr (db', rec)" "policy_passes env"
  obtains project and r :: append_result where "project_scope env pid = Inr project"
    "captured_record env project (ar_event r) db' = Inr rec"
    "py_eq (kr_payload rec) payload" "kr_kind rec = kind" "validate db' rec = Inr ()" "kind \<in> set kinds"
    "events db' = events db \<and> ar_dedup r \<or>
     (\<exists>e. events db' = events db @ [e] \<and> ev_id e \<notin> ev_id ` set (events db) \<and> ev_id e = ar_event r
        \<and> ev_type e = knowledge_event \<and> ev_scope e = lit ''project'' \<and> ev_project e = Some project)"
    "segments db' = segments db"
proof -
  from assms(1) obtain project session body r where p: "project_scope env pid = Inr project"
    "kind \<in> set kinds"
    and app: "append_scroll_event_once (ke_scroll env) session knowledge_event (lit ''agent'') body
       (knowledge_metadata project) (record_effect env project kind payload validate) db = Inr (db', r)"
    and cap: "captured_record env project (ar_event r) db' = Inr rec"
    by (auto simp: append_record_def Let_def)
  from app obtain session' content where
    pol: "se_policy (ke_scroll env) session knowledge_event (lit ''agent'') body (knowledge_metadata project)
       = Inr (session', knowledge_event, lit ''agent'', content, knowledge_metadata project)"
  proof -
    from app obtain s' t' r' c' m' where
      "se_policy (ke_scroll env) session knowledge_event (lit ''agent'') body (knowledge_metadata project)
       = Inr (s', t', r', c', m')" by (auto simp: append_scroll_event_once_def)
    with policy_passesD [OF assms(2) this] that show ?thesis by simp
  qed
  have "project \<noteq> []" using p(1) by (rule project_scope_Inr)
  from prepare_knowledge [OF this, of "ke_scroll env" session' content] obtain meta where
    "prepare_event (ke_scroll env) session' (lit ''agent'') content (knowledge_metadata project)
      = Inr (meta, lit ''project'', Some project, None)" by blast
  with app pol have app': "(case existing_event (ke_scroll env) session' knowledge_event (lit ''agent'') content meta
        (lit ''project'') (Some project) (events db) of
       Some e \<Rightarrow> append_existing (ke_scroll env) meta None e (record_effect env project kind payload validate) db
     | None \<Rightarrow> append_new (ke_scroll env) None (new_event (ke_scroll env) session' knowledge_event (lit ''agent'') content meta
         (lit ''project'') (Some project) (events db)) (record_effect env project kind payload validate) db) = Inr (db', r)"
    (is "?app")
    by (simp add: append_scroll_event_once_def)
  obtain dbx rx where ef: "record_effect env project kind payload validate dbx rx = Inr (db', r)"
    using app' by (auto simp: append_existing_def append_new_def Let_def case_prod_unfold
        split: option.splits if_splits)
  with cap have v: "py_eq (kr_payload rec) payload" "kr_kind rec = kind" "validate db' rec = Inr ()"
    by (auto simp: record_effect_Inr)
  have ev: "(events db' = events db \<and> ar_dedup r \<or>
     (\<exists>e. events db' = events db @ [e] \<and> ev_id e \<notin> ev_id ` set (events db) \<and> ev_id e = ar_event r
        \<and> ev_type e = knowledge_event \<and> ev_scope e = lit ''project'' \<and> ev_project e = Some project))
     \<and> segments db' = segments db"
  proof (cases "existing_event (ke_scroll env) session' knowledge_event (lit ''agent'') content meta
        (lit ''project'') (Some project) (events db)")
    case None
    define e where "e = new_event (ke_scroll env) session' knowledge_event (lit ''agent'') content meta
         (lit ''project'') (Some project) (events db)"
    from None app' have "append_new (ke_scroll env) None e (record_effect env project kind payload validate) db
      = Inr (db', r)" by (simp add: e_def)
    note fr = append_new_frame [OF this frames_record_effect]
    have "ev_type e = knowledge_event" "ev_scope e = lit ''project''" "ev_project e = Some project"
      using \<open>project \<noteq> []\<close> by (simp_all add: e_def new_event_def Let_def nonempty_def)
    with fr show ?thesis by auto
  next
    case (Some e)
    with app' have ex: "append_existing (ke_scroll env) meta None e (record_effect env project kind payload validate) db
      = Inr (db', r)" by simp
    then have "events db' = events db"
      by (auto simp: append_existing_def promote_existing_def record_effect_Inr)
    with append_existing_frame [OF ex] show ?thesis by simp
  qed
  show thesis by (rule that [of project r]) (use p cap v ev in auto)
qed

lemma mapE_map: "mapE f xs = Inr ys \<Longrightarrow> ys = map (\<lambda>x. projr (f x)) xs"
  by (induction xs arbitrary: ys) auto

lemma mapE_origin: "mapE f xs = Inr ys \<Longrightarrow> y \<in> set ys \<Longrightarrow> \<exists>x\<in>set xs. f x = Inr y"
  by (induction xs arbitrary: ys) auto

lemma mapE_filter: "mapE f xs = Inr ys \<Longrightarrow> mapE f (filter Q xs) = Inr (map (\<lambda>x. projr (f x)) (filter Q xs))"
  by (induction xs arbitrary: ys) auto

lemma mapE_subset: "isOk (mapE f xs) \<Longrightarrow> set ys \<subseteq> set xs \<Longrightarrow> isOk (mapE f ys)"
  by (auto simp: mapE_isOk)

lemma knowledge_rows_filter:
  "filter Q (knowledge_rows q es) = sort_key (\<lambda>r. ev_created (snd r)) (filter Q
     (filter (\<lambda>(_, e). ev_type e = knowledge_event \<and> ev_scope e = lit ''project'' \<and> ev_project e = Some q)
        (numbered es)))"
  by (simp only: knowledge_rows_def filter_sort)

lemma knowledge_rows_snoc_filter:
  "\<not> Q (int (length es) + 1, e) \<Longrightarrow> filter Q (knowledge_rows q (es @ [e])) = filter Q (knowledge_rows q es)"
  by (simp only: knowledge_rows_filter numbered_snoc filter_append) simp

lemma knowledge_rows_snoc_set:
  "set (knowledge_rows q (es @ [e])) = set (knowledge_rows q es) \<union>
     (if ev_type e = knowledge_event \<and> ev_scope e = lit ''project'' \<and> ev_project e = Some q
      then {(int (length es) + 1, e)} else {})"
  by (auto simp: knowledge_rows_def numbered_snoc)

lemma knowledge_rows_other:
  "ev_project e \<noteq> Some q \<Longrightarrow> knowledge_rows q (es @ [e]) = knowledge_rows q es"
  by (simp add: knowledge_rows_def numbered_snoc)

lemma read_all_Inr:
  "read_all env q limit es = Inr rs \<longleftrightarrow>
     length (knowledge_rows q es) \<le> limit \<and> mapE (decode_row env q) (knowledge_rows q es) = Inr rs"
  by (auto simp: read_all_def Let_def)

lemma read_kinds_Inr:
  "read_kinds env pid ks db = Inr rs \<longleftrightarrow> (\<exists>project all. project_scope env pid = Inr project \<and>
     set ks \<subseteq> set kinds \<and> read_all env project 10000 (events db) = Inr all \<and>
     rs = filter (\<lambda>r. kr_kind r \<in> set ks) all)"
  by (auto simp: read_kinds_def read_records_def list_all_iff image_iff intro!: filter_cong)

text \<open>Appending an event that decodes to another kind leaves the records of the given kinds as they
  were, in the same order.\<close>

lemma read_all_other_kind:
  assumes "read_all env q limit (es @ [e]) = Inr rs'" "length (knowledge_rows q es) \<le> limit"
    and "\<And>r. decode_row env q (int (length es) + 1, e) = Inr r \<Longrightarrow> \<not> Q r"
  shows "\<exists>rs. read_all env q limit es = Inr rs \<and> filter Q rs' = filter Q rs"
proof -
  let ?d = "decode_row env q" and ?rows = "knowledge_rows q es" and ?rows' = "knowledge_rows q (es @ [e])"
  from assms(1) have m': "mapE ?d ?rows' = Inr rs'" by (simp add: read_all_Inr)
  have "isOk (mapE ?d ?rows)"
    by (rule mapE_subset [of _ ?rows']) (auto simp: m' knowledge_rows_snoc_set)
  then obtain rs where m: "mapE ?d ?rows = Inr rs" by (auto simp: isOk_iff)
  show ?thesis
  proof (cases "(int (length es) + 1, e) \<in> set ?rows'")
    case False
    then have "?rows' = ?rows"
      by (auto simp: knowledge_rows_def numbered_snoc)
    with m' m assms(2) show ?thesis by (auto simp: read_all_Inr)
  next
    case True
    from mapE_memD [OF m' True] obtain r where r: "?d (int (length es) + 1, e) = Inr r" by blast
    let ?g = "\<lambda>x. projr (?d x)"
    have "filter Q rs' = map ?g (filter (Q \<circ> ?g) ?rows')" by (simp add: mapE_map [OF m'] filter_map)
    also have "\<dots> = map ?g (filter (Q \<circ> ?g) ?rows)"
      using assms(3) [OF r] r by (simp add: knowledge_rows_snoc_filter)
    also have "\<dots> = filter Q rs" by (simp add: mapE_map [OF m] filter_map)
    finally show ?thesis using m assms(2) by (auto simp: read_all_Inr)
  qed
qed

text \<open>The row the record of an append was decoded from.\<close>

lemma captured_snoc:
  assumes "captured_record env q (ev_id e) (db\<lparr>events := es @ [e]\<rparr>) = Inr r" "ev_id e \<notin> ev_id ` set es"
  shows "decode_row env q (int (length es) + 1, e) = Inr r"
proof -
  have "ev_id x \<noteq> ev_id e" if "(i, x) \<in> set (numbered es)" for i x
    using assms(2) that unfolding numbered_def by (metis imageI set_zip_rightD)
  then have "find (\<lambda>(_, x). ev_id x = ev_id e) (numbered es) = None"
    by (auto simp: find_None_all)
  then have "find (\<lambda>(_, x). ev_id x = ev_id e) (numbered es @ [(int (length es) + 1, e)])
     = Some (int (length es) + 1, e)"
    by (simp add: find_snoc)
  with assms(1) show ?thesis by (simp add: captured_record_def numbered_snoc)
qed

section \<open>What an append adds to a read\<close>

lemma decode_row_order: "decode_row env q (i, e) = Inr r \<Longrightarrow> kr_order r = i"
  by (auto simp: decode_row_def malformed_def Let_def split: option.splits if_splits sum.splits)

lemma read_all_order:
  assumes "read_all env q n es = Inr rs" "r \<in> set rs"
  shows "kr_order r \<le> int (length es)" "\<exists>row\<in>set (knowledge_rows q es). decode_row env q row = Inr r"
proof -
  from assms obtain row where row: "row \<in> set (knowledge_rows q es)" "decode_row env q row = Inr r"
    using mapE_origin by (fastforce simp: read_all_Inr)
  then show "\<exists>row\<in>set (knowledge_rows q es). decode_row env q row = Inr r" by blast
  obtain i e where ie: "row = (i, e)" by force
  with row(1) have "i \<in> set [1..int (length es)]"
    by (auto simp: knowledge_rows_def numbered_def dest: set_zip_leftD)
  then show "kr_order r \<le> int (length es)" using decode_row_order [of env q i e r] row(2) ie by simp
qed

lemma py_eq_dget:
  assumes "py_eq v w" "is_dict w" "dget v k = Some x"
  shows "\<exists>y. dget w k = Some y \<and> py_eq x y"
proof -
  obtain ys where w: "w = PDict ys" using assms(2) by (cases w) auto
  obtain xs where v: "v = PDict xs" "(PStr (lit k), x) \<in> set xs"
    using assms(3) by (cases v) (auto simp: dget_def dest: map_of_SomeD)
  with assms(1) w have "case map_of ys (PStr (lit k)) of None \<Rightarrow> False | Some y \<Rightarrow> py_eq x y"
    by (auto simp: list_all_iff)
  with w show ?thesis by (auto simp: dget_def split: option.splits)
qed

lemma append_record_faithful_aux:
  assumes "append_record env pid sid kind payload validate db = Inr (db', rec)" "policy_passes env"
  shows "validate db' rec = Inr () \<and> py_eq (kr_payload rec) payload \<and> kr_kind rec = kind"
proof -
  from append_record_inversion [OF assms] obtain project and r :: append_result where
    "py_eq (kr_payload rec) payload" "kr_kind rec = kind" "validate db' rec = Inr ()" by metis
  then show ?thesis by blast
qed

text \<open>An append that stores an event adds its record, and nothing else, to what is read.\<close>

lemma append_row:
  assumes app: "append_record env pid sid kind payload validate db = Inr (db', rec)" "policy_passes env"
    and new: "events db' \<noteq> events db"
  obtains q e where "project_scope env pid = Inr q" "events db' = events db @ [e]"
    "ev_type e = knowledge_event" "ev_scope e = lit ''project''" "ev_project e = Some q"
    "decode_row env q (int (length (events db)) + 1, e) = Inr rec" "kr_kind rec = kind"
proof -
  obtain q and r :: append_result where q: "project_scope env pid = Inr q"
    and cap: "captured_record env q (ar_event r) db' = Inr rec"
    and "py_eq (kr_payload rec) payload" and kd: "kr_kind rec = kind" and "validate db' rec = Inr ()"
    and "kind \<in> set kinds" and ev: "events db' = events db \<and> ar_dedup r \<or>
     (\<exists>e. events db' = events db @ [e] \<and> ev_id e \<notin> ev_id ` set (events db) \<and> ev_id e = ar_event r
        \<and> ev_type e = knowledge_event \<and> ev_scope e = lit ''project'' \<and> ev_project e = Some q)"
    and "segments db' = segments db"
    by (rule append_record_inversion [OF app])
  from ev new obtain e where e: "events db' = events db @ [e]" "ev_id e \<notin> ev_id ` set (events db)"
    "ev_id e = ar_event r" "ev_type e = knowledge_event" "ev_scope e = lit ''project''" "ev_project e = Some q" by auto
  from cap e have "captured_record env q (ev_id e) (db'\<lparr>events := events db @ [e]\<rparr>) = Inr rec"
    by (simp add: captured_record_def)
  from that [OF q e(1,4,5,6) captured_snoc [OF this e(2)] kd] show thesis .
qed

lemma append_read:
  assumes app: "append_record env pid sid kind payload validate db = Inr (db', rec)" "policy_passes env"
    and new: "events db' \<noteq> events db" and k: "kind \<in> set wanted" and rs': "read_kinds env pid wanted db' = Inr rs'"
  shows "rec \<in> set rs'"
proof -
  obtain q e where q: "project_scope env pid = Inr q" and e: "events db' = events db @ [e]"
    "ev_type e = knowledge_event" "ev_scope e = lit ''project''" "ev_project e = Some q"
    and dec: "decode_row env q (int (length (events db)) + 1, e) = Inr rec" and kd: "kr_kind rec = kind"
    by (rule append_row [OF app new])
  from rs' q e obtain al' where al': "read_all env q 10000 (events db @ [e]) = Inr al'" "rs' = filter (\<lambda>r. kr_kind r \<in> set wanted) al'"
    by (auto simp: read_kinds_Inr)
  have "\<exists>y\<in>set al'. decode_row env q (int (length (events db)) + 1, e) = Inr y"
    using al'(1) e by (intro mapE_memD [of _ "knowledge_rows q (events db @ [e])"]) (auto simp: read_all_Inr knowledge_rows_snoc_set)
  then show ?thesis using dec kd k al' by auto
qed

lemma append_adds:
  assumes app: "append_record env pid sid kind payload validate db = Inr (db', rec)" "policy_passes env"
    and new: "events db' \<noteq> events db" and k: "kind \<in> set wanted"
    and "read_kinds env pid wanted db = Inr rs" "read_kinds env pid wanted db' = Inr rs'"
  shows "rec \<in> set rs' \<and> rs = filter (\<lambda>r. kr_order r \<le> int (length (events db))) rs' \<and> set rs \<subseteq> set rs'
    \<and> rec \<notin> set rs \<and> kr_order rec = int (length (events db)) + 1"
proof -
  let ?n = "int (length (events db))"
  obtain q e where q: "project_scope env pid = Inr q" and e: "events db' = events db @ [e]"
    "ev_type e = knowledge_event" "ev_scope e = lit ''project''" "ev_project e = Some q"
    and dec: "decode_row env q (?n + 1, e) = Inr rec" and kd: "kr_kind rec = kind"
    by (rule append_row [OF app new])
  have ord: "kr_order rec = ?n + 1" using dec by (rule decode_row_order)
  from assms(5,6) q e obtain al al' where al: "read_all env q 10000 (events db) = Inr al" "rs = filter (\<lambda>r. kr_kind r \<in> set wanted) al"
    and al': "read_all env q 10000 (events db @ [e]) = Inr al'" "rs' = filter (\<lambda>r. kr_kind r \<in> set wanted) al'"
    by (auto simp: read_kinds_Inr)
  have le: "kr_order x \<le> ?n" if "x \<in> set al" for x using read_all_order(1) [OF al(1) that] by simp
  have rec: "rec \<in> set rs'" using append_read [OF app new k assms(6)] .
  have len: "length (knowledge_rows q (events db)) \<le> 10000" using al(1) by (simp add: read_all_Inr)
  have not: "\<not> (kr_order x \<le> ?n)" if "decode_row env q (?n + 1, e) = Inr x" for x
    using decode_row_order [OF that] by simp
  from read_all_other_kind [OF al'(1) len not] al(1)
  have "filter (\<lambda>r. kr_order r \<le> ?n) al' = filter (\<lambda>r. kr_order r \<le> ?n) al" by auto
  also have "\<dots> = al" using le by (simp add: filter_id_conv)
  finally have "rs = filter (\<lambda>r. kr_order r \<le> ?n) rs'"
    using al(2) al'(2) by (metis (no_types, lifting) filter_filter filter_cong conj_commute)
  with rec ord show ?thesis by auto
qed

section \<open>Kinds that are replayed\<close>

text \<open>Handoffs, collections, facts and experience keep no state of their own: their state is a replay
  of the project's records of some kinds, which fails on an inconsistent history.  What the modules
  share: their validator accepts a database only if the replay of its records succeeds.\<close>

definition history_ok :: "'x know_env \<Rightarrow> pystr list \<Rightarrow> (krec list \<Rightarrow> py_error + 's) \<Rightarrow> pystr \<Rightarrow> 'x db \<Rightarrow> bool" where
  "history_ok env wanted replay project db =
     (case read_all env project 10000 (events db) of
        Inl _ \<Rightarrow> True
      | Inr rs \<Rightarrow> isOk (replay (filter (\<lambda>r. kr_kind r \<in> set wanted) rs)))"

locale replayed_kinds =
  fixes wanted :: "pystr list" and replay :: "krec list \<Rightarrow> py_error + 's"
  assumes replay_empty: "isOk (replay [])"
begin

lemma ok_empty: "events db = [] \<Longrightarrow> history_ok env wanted replay project db"
  using replay_empty by (simp add: history_ok_def read_all_def knowledge_rows_def numbered_def)

lemma ok_read:
  assumes "project_scope env pid = Inr project" "read_kinds env pid wanted db = Inr rs" "isOk (replay rs)"
  shows "history_ok env wanted replay project db"
  using assms by (auto simp: read_kinds_Inr history_ok_def)

lemma read_ok:
  assumes "history_ok env wanted replay project db" "project_scope env pid = Inr project" "read_kinds env pid wanted db = Inr rs"
  shows "isOk (replay rs)"
  using assms by (auto simp: read_kinds_Inr history_ok_def)

text \<open>An append of one of the kinds whose validator replays the history.\<close>

lemma append_checked:
  assumes app: "append_record env pid sid kind payload validate db = Inr (db', rec)" and "policy_passes env"
    and val: "validate db' rec = Inr () \<Longrightarrow> history_ok env wanted replay project db'"
  shows "history_ok env wanted replay project db'"
  using append_record_inversion [OF app assms(2)] val by metis

text \<open>An append of any other kind, or for another project.\<close>

lemma append_other:
  assumes app: "append_record env pid sid kind payload validate db = Inr (db', rec)" and pol: "policy_passes env"
    and other: "kind \<notin> set wanted \<or> project_scope env pid \<noteq> Inr project" and ok: "history_ok env wanted replay project db"
  shows "history_ok env wanted replay project db'"
proof -
  from append_record_inversion [OF app pol] obtain q and r :: append_result where
    q: "project_scope env pid = Inr q"
    and cap: "captured_record env q (ar_event r) db' = Inr rec" and k: "kr_kind rec = kind"
    and ev: "events db' = events db \<or> (\<exists>e. events db' = events db @ [e] \<and> ev_id e \<notin> ev_id ` set (events db)
      \<and> ev_id e = ar_event r \<and> ev_project e = Some q)"
    by metis
  show ?thesis
  proof (cases "\<exists>rs. read_all env project 10000 (events db') = Inr rs \<and> events db' \<noteq> events db")
    case True
    then obtain e rs where e: "events db' = events db @ [e]" "ev_id e \<notin> ev_id ` set (events db)"
      "ev_id e = ar_event r" "ev_project e = Some q"
      and rs: "read_all env project 10000 (events db @ [e]) = Inr rs" using ev by auto
    show ?thesis
    proof (cases "q = project")
      case False
      then have "knowledge_rows project (events db @ [e]) = knowledge_rows project (events db)"
        using e(4) by (intro knowledge_rows_other) simp
      then show ?thesis using ok e(1) by (simp add: history_ok_def read_all_def)
    next
      case True
      with other q have "kind \<notin> set wanted" by simp
      have "captured_record env q (ev_id e) (db'\<lparr>events := events db @ [e]\<rparr>) = Inr rec"
        using cap e by (simp add: captured_record_def)
      from captured_snoc [OF this e(2)] True k \<open>kind \<notin> set wanted\<close>
      have dec: "kr_kind x \<notin> set wanted" if "decode_row env project (int (length (events db)) + 1, e) = Inr x" for x
        using that by auto
      have "length (knowledge_rows project (events db)) \<le> 10000"
      proof -
        have "length (knowledge_rows project (events db)) \<le> length (knowledge_rows project (events db @ [e]))"
          by (simp add: knowledge_rows_def numbered_snoc)
        with rs show ?thesis by (simp add: read_all_Inr)
      qed
      from read_all_other_kind [OF rs this, of "\<lambda>x. kr_kind x \<in> set wanted"] dec
      obtain rs0 where "read_all env project 10000 (events db) = Inr rs0"
        "filter (\<lambda>x. kr_kind x \<in> set wanted) rs = filter (\<lambda>x. kr_kind x \<in> set wanted) rs0" by blast
      then show ?thesis using ok e(1) rs by (simp add: history_ok_def)
    qed
  next
    case False
    then show ?thesis using ok
      by (cases "read_all env project 10000 (events db')") (auto simp: history_ok_def)
  qed
qed

text \<open>The two together, for a validator that reads and replays what it is about to commit.\<close>

lemma append_keeps:
  assumes app: "append_record env pid sid kind payload validate db = Inr (db', rec)" "policy_passes env"
    and checks: "kind \<in> set wanted \<Longrightarrow> validate db' rec = Inr () \<Longrightarrow>
      \<exists>rs. read_kinds env pid wanted db' = Inr rs \<and> isOk (replay rs)"
    and ok: "history_ok env wanted replay project db"
  shows "history_ok env wanted replay project db'"
proof (cases "kind \<in> set wanted \<and> project_scope env pid = Inr project")
  case True
  show ?thesis by (rule append_checked [OF app]) (use True checks ok_read in blast)
next
  case False
  then show ?thesis by (intro append_other [OF app _ ok]) auto
qed

end

section \<open>What the bounds check accepts\<close>

fun nodes :: "pyval \<Rightarrow> nat" where
  "nodes (PList vs) = Suc (sum_list (map nodes vs))"
| "nodes (PDict kvs) = Suc (sum_list (map (\<lambda>(k, v). nodes k + nodes v) kvs))"
| "nodes v = 1"

fun shape :: "nat \<Rightarrow> pyval \<Rightarrow> bool" where
  "shape d (PDict kvs) = (d \<le> 16 \<and> length kvs \<le> 4096 \<and>
     list_all (\<lambda>(k, v). is_str k \<and> shape (Suc d) k \<and> shape (Suc d) v) kvs)"
| "shape d (PList vs) = (d \<le> 16 \<and> length vs \<le> 4096 \<and> list_all (shape (Suc d)) vs)"
| "shape d v = (d \<le> 16 \<and> isOk (plain_leaf v))"

lemma foldE_count:
  assumes "\<And>x n m. x \<in> set xs \<Longrightarrow> P n x = Inr m \<longleftrightarrow> Q x \<and> m = n + w x \<and> m \<le> (B::nat)" "c \<le> B"
  shows "foldE P c xs = Inr m \<longleftrightarrow> list_all Q xs \<and> m = c + sum_list (map w xs) \<and> m \<le> B"
  using assms
proof (induction xs arbitrary: c)
  case (Cons x xs)
  have "foldE P c (x # xs) = Inr m \<longleftrightarrow> (\<exists>n. Q x \<and> n = c + w x \<and> n \<le> B \<and> foldE P n xs = Inr m)"
    using Cons.prems(1) by auto
  also have "\<dots> \<longleftrightarrow> Q x \<and> c + w x \<le> B \<and> list_all Q xs \<and> m = c + w x + sum_list (map w xs) \<and> m \<le> B"
    using Cons.IH [of "c + w x"] Cons.prems(1) by auto
  finally show ?case by auto
qed auto

text \<open>The traversal accepts exactly the values of bounded shape with at most 16384 nodes, and returns
  their number.\<close>

lemma plain_iff: "plain d c v = Inr n \<longleftrightarrow> shape d v \<and> n = c + nodes v \<and> n \<le> 16384"
proof (induction d c v arbitrary: n rule: plain.induct)
  case (1 d c kvs)
  let ?P = "\<lambda>n (k, v). bindE (plain (Suc d) n k) (\<lambda>m. plain (Suc d) m v)"
  let ?Q = "\<lambda>(k, v). shape (Suc d) k \<and> shape (Suc d) v" and ?w = "\<lambda>(k, v). nodes k + nodes v"
  show ?case
  proof (cases "d \<le> 16 \<and> Suc c \<le> 16384 \<and> length kvs \<le> 4096 \<and> list_all (is_str \<circ> fst) kvs")
    case True
    have step: "?P n x = Inr m \<longleftrightarrow> ?Q x \<and> m = n + ?w x \<and> m \<le> 16384" if "x \<in> set kvs" for x n m
      using 1 that True by (cases x) (auto simp: plain_bounds_def)
    have "foldE ?P (Suc c) kvs = Inr n \<longleftrightarrow> list_all ?Q kvs \<and> n = Suc c + sum_list (map ?w kvs) \<and> n \<le> 16384"
      using True by (intro foldE_count step) auto
    with True show ?thesis by (auto simp: plain_bounds_def list_all_iff)
  qed (auto simp: plain_bounds_def list_all_iff)
next
  case (2 d c vs)
  show ?case
  proof (cases "d \<le> 16 \<and> Suc c \<le> 16384 \<and> length vs \<le> 4096")
    case True
    have "foldE (\<lambda>n v. plain (Suc d) n v) (Suc c) vs = Inr n \<longleftrightarrow>
        list_all (shape (Suc d)) vs \<and> n = Suc c + sum_list (map nodes vs) \<and> n \<le> 16384"
      using True 2 by (intro foldE_count) (auto simp: plain_bounds_def)
    with True show ?thesis by (auto simp: plain_bounds_def)
  qed (auto simp: plain_bounds_def)
qed (auto simp: plain_bounds_def isOk_iff)

lemma nodes_written: "nodes (written jo v) = nodes v"
proof (induction jo v rule: written.induct)
  case (1 jo vs)
  then show ?case by (auto simp: comp_def intro!: arg_cong [where f = sum_list])
next
  case (2 jo kvs)
  have "map (\<lambda>(k, v). nodes k + nodes v) (map (\<lambda>(k, v). (k, written jo v)) kvs) = map (\<lambda>(k, v). nodes k + nodes v) kvs"
    using 2 by auto
  then show ?case by (simp add: sort_items_def sum_list_sort del: map_map)
qed auto

lemma shape_written: "shape d v \<Longrightarrow> shape d (written jo v)"
proof (induction jo v arbitrary: d rule: written.induct)
  case (1 jo vs)
  then show ?case by (auto simp: list_all_iff)
next
  case (2 jo kvs)
  then show ?case by (auto simp: list_all_iff sort_items_def)
qed auto

lemma sort_items_idem: "sort_items (sort_items xs) = sort_items xs"
  unfolding sort_items_def by (rule sort_key_id_if_sorted) simp

lemma dump_entry_fst: "dump_entry jo kv = Inr m \<Longrightarrow> fst kv = fst m"
  by (auto split: prod.splits pyval.splits)

lemma mapE_sort_items:
  assumes "mapE (dump_entry jo) kvs = Inr xs"
  shows "mapE (dump_entry jo) (sort_items kvs) = Inr (sort_items xs)"
  using assms unfolding mapE_Inr_iff by (rule sort_items_all2) (rule dump_entry_fst)

text \<open>Writing a value again in the order it was written in gives the same text.\<close>

lemma dumps_written: "dumps jo v = Inr s \<Longrightarrow> dumps jo (written jo v) = Inr s"
proof (induction jo v arbitrary: s rule: dumps.induct)
  case (6 jo vs)
  then obtain xs where xs: "mapE (dumps jo) vs = Inr xs" "s = 91 # join xs @ [93]" by auto
  have "mapE (dumps jo) (map (written jo) vs) = Inr xs"
    using xs(1) 6(1) by (auto simp: mapE_Inr_iff list_all2_conv_all_nth)
  then show ?case using xs(2) by simp
next
  case (7 jo kvs)
  define ent where "ent = (\<lambda>(k, v). (k :: pyval, written jo v))"
  from 7(2) obtain xs where xs: "mapE (dump_entry jo) kvs = Inr xs"
    "s = 123 # join (map snd (if jo_sort jo then sort_items xs else xs)) @ [125]" by auto
  have "dump_entry jo (ent kv) = Inr m" if kvm: "kv \<in> set kvs" "dump_entry jo kv = Inr m" for kv m
  proof -
    obtain k v where kv: "kv = (k, v)" by force
    then obtain t x where "k = PStr t" "dumps jo v = Inr x" "m = (k, quote (jo_ascii jo) t @ 58 # x)"
      using kvm(2) by (cases k) auto
    with 7(1) [of kv k v t x] kvm(1) kv show ?thesis by (simp add: ent_def)
  qed
  then have e: "mapE (dump_entry jo) (map ent kvs) = Inr xs"
    using xs(1) by (auto simp: mapE_Inr_iff list_all2_conv_all_nth)
  have w: "written jo (PDict kvs) = PDict (if jo_sort jo then sort_items (map ent kvs) else map ent kvs)"
    by (simp add: ent_def)
  show ?case
    unfolding w dumps.simps using e mapE_sort_items [OF e] xs(2) by (simp add: sort_items_idem)
qed auto

text \<open>The canonical text of a value is the canonical text of what it reads back as.\<close>

lemma encode_record_iff:
  "encode_record v = Inr s \<longleftrightarrow> shape 0 v \<and> nodes v \<le> 16384 \<and> dumps canonical_json v = Inr s \<and>
     utf8_ok s \<and> utf8_size s \<le> max_record_bytes"
  by (auto simp: encode_record_def plain_iff)

lemma encode_written: "encode_record v = Inr s \<Longrightarrow> encode_record (written canonical_json v) = Inr s"
  by (simp add: encode_record_iff shape_written nodes_written dumps_written)

lemma loads_encoded:
  "encode_record v = Inr s \<Longrightarrow> good_json v \<Longrightarrow> loads s = Some (written canonical_json v)"
  by (rule loads_dumps) (auto simp: encode_record_iff canonical_json_def)

section \<open>A stored record is the record\<close>

lemma py_eq_written: "good_json v \<Longrightarrow> py_eq (written jo v) v"
proof (induction jo v rule: written.induct)
  case (1 jo vs)
  then show ?case by (auto simp: list_all_length set_zip)
next
  case (2 jo kvs)
  let ?w = "map (\<lambda>(k, v). (k, written jo v)) kvs"
  have keys: "map fst ?w = map fst kvs" by (induction kvs) auto
  have "(case map_of kvs k of None \<Rightarrow> False | Some w \<Rightarrow> py_eq v w)" if "(k, v) \<in> set ?w" for k v
  proof -
    from that obtain u where u: "(k, u) \<in> set kvs" "v = written jo u" by auto
    with 2(2) have "map_of kvs k = Some u" by (intro map_of_is_SomeI) auto
    moreover have "py_eq (written jo u) u" using 2 u by (auto simp: list_all_iff)
    ultimately show ?thesis using u by simp
  qed
  then have "list_all (\<lambda>(k, v). case map_of kvs k of None \<Rightarrow> False | Some w \<Rightarrow> py_eq v w) ?w"
    unfolding list_all_iff by fast
  then show ?case by (simp add: list_all_iff sort_items_def)
qed auto

text \<open>The facts about the environment under which a record is stored: nothing looks like a
  credential, the policy and the clock work, and no event with this identifier or text exists.\<close>

definition quiet_know :: "'x know_env \<Rightarrow> bool" where
  "quiet_know env \<longleftrightarrow> (\<forall>f v. \<not> ke_scan_value env f v) \<and> (\<forall>s. \<not> ke_scan_text env s) \<and>
     (\<forall>s t r c m. se_policy (ke_scroll env) s t r c m = Inr (s, t, r, c, m)) \<and>
     isOk (require_timestamp (PStr (se_now (ke_scroll env))) ''stored recorded_at'') \<and> is_hex 32 (ke_nonce env)"

lemma decode_envelope:
  assumes "encode_record (knowledge_envelope env project kind payload) = Inr body"
    and "good_json payload" "is_dict payload" "kind \<in> set kinds" "is_hex 32 (ke_nonce env)" "project \<noteq> []"
    and "ev_content e = body" "ev_hash e = sha256 body"
    and "is_dict (ev_metadata e)" "dget (ev_metadata e) ''visibility_scope'' = Some (PStr (lit ''project''))"
      "dget (ev_metadata e) ''project_id'' = Some (PStr project)"
      "dget (ev_metadata e) ''knowledge_schema'' = Some (PStr knowledge_schema)"
    and "require_timestamp (PStr (ev_created e)) ''stored recorded_at'' = Inr when"
  shows "\<exists>rec. decode_row env project (n, e) = Inr rec \<and> kr_kind rec = kind \<and> py_eq (kr_payload rec) payload
    \<and> kr_id rec = ev_id e \<and> kr_recorded rec = when \<and> kr_order rec = n"
proof -
  let ?env = "knowledge_envelope env project kind payload" and ?meta = "ev_metadata e"
  have good: "good_json ?env" using assms(2) by (simp add: knowledge_envelope_def mkdict_def)
  let ?w = "written canonical_json ?env"
  have lo: "loads body = Some ?w" and enc: "encode_record ?w = Inr body"
    and sz: "utf8_ok body" "utf8_size body \<le> max_record_bytes"
    using loads_encoded [OF assms(1) good] encode_written [OF assms(1)] assms(1) by (simp_all add: encode_record_iff)
  have get: "dget ?w k = map_option (written canonical_json) (dget ?env k)" for k
    using good by (rule dget_written)
  have keys: "has_keys ?w [''schema'', ''kind'', ''project_id'', ''nonce'', ''payload'']"
    by (simp add: has_keys_written) (simp add: knowledge_envelope_def mkdict_def has_keys_def)
  have "dget ?env ''schema'' = Some (PStr knowledge_schema)" "dget ?env ''kind'' = Some (PStr kind)"
    "dget ?env ''project_id'' = Some (PStr project)" "dget ?env ''nonce'' = Some (PStr (ke_nonce env))"
    "dget ?env ''payload'' = Some payload"
    by (simp_all add: knowledge_envelope_def)
  then have fields: "dget ?w ''schema'' = Some (PStr knowledge_schema)" "dget ?w ''kind'' = Some (PStr kind)"
    "dget ?w ''project_id'' = Some (PStr project)" "dget ?w ''nonce'' = Some (PStr (ke_nonce env))"
    "dget ?w ''payload'' = Some (written canonical_json payload)"
    "dget_or ?w ''kind'' PNone = PStr kind" "dget_or ?w ''payload'' PNone = written canonical_json payload"
    by (simp_all add: get dget_or_def)
  have vis: "metadata_scope_visible (se_repr (ke_scroll env)) ?meta (Some (ev_session e)) None (Some project)"
    using assms(6,10,11)
    by (simp add: metadata_scope_visible_def security_context_def get_truthy_def normalize_visibility_scope_def
        valid_scopes_def nonempty_def)
  show ?thesis
    unfolding decode_row_def
    using lo enc sz keys vis assms py_eq_written [OF assms(2), of canonical_json]
    by (simp add: fields)
qed

lemma existing_event_fresh:
  "sha256 content \<notin> ev_hash ` set es \<Longrightarrow> existing_event env session ty role content meta scope project es = None"
proof -
  assume "sha256 content \<notin> ev_hash ` set es"
  then have "filter (\<lambda>e. ev_session e = session \<and> ev_type e = ty \<and> ev_role e = role
      \<and> ev_hash e = sha256 content \<and> se_cutoff env \<le> ev_created e) es = []"
    by (force simp: filter_empty_conv)
  then show ?thesis by (simp add: existing_event_def dedupe_candidates_def)
qed

definition record_id :: "pystr \<Rightarrow> pystr \<Rightarrow> scroll_event list \<Rightarrow> pystr" where
  "record_id session body es = stable_id (lit ''evt'') [session, dec_int (max_seq session es + 1), sha256 body]"

lemma append_record_runs:
  assumes q: "quiet_know env" and p: "project_scope env pid = Inr project"
    and s: "require_text sid ''session_id'' 256 = Inr session"
    and k: "kind \<in> set kinds" "is_dict payload" "good_json payload"
    and enc: "encode_record (knowledge_envelope env project kind payload) = Inr body"
    and fresh: "sha256 body \<notin> ev_hash ` set (events db)"
      "record_id session body (events db) \<notin> ev_id ` set (events db)"
  shows "\<exists>db' rec. append_record env pid sid kind payload validate db =
      bindE (validate db' rec) (\<lambda>_. Inr (db', rec)) \<and>
    length (events db') = Suc (length (events db)) \<and> kr_id rec = record_id session body (events db) \<and>
    kr_order rec = int (length (events db)) + 1"
proof -
  let ?sc = "ke_scroll env" and ?km = "knowledge_metadata project" and ?es = "events db"
  let ?eff = "record_effect env project kind payload validate"
  have ne: "project \<noteq> []" using p by (rule project_scope_Inr)
  have pol: "se_policy ?sc session knowledge_event (lit ''agent'') body ?km
      = Inr (session, knowledge_event, lit ''agent'', body, ?km)" using q by (simp add: quiet_know_def)
  from prepare_knowledge [OF ne, of ?sc session body] obtain meta where
    prep: "prepare_event ?sc session (lit ''agent'') body ?km = Inr (meta, lit ''project'', Some project, None)"
    and meta: "is_dict meta" "dget meta ''visibility_scope'' = Some (PStr (lit ''project''))"
      "dget meta ''project_id'' = Some (PStr project)" "dget meta ''knowledge_schema'' = Some (PStr knowledge_schema)"
    by blast
  define e where "e = new_event ?sc session knowledge_event (lit ''agent'') body meta (lit ''project'') (Some project) ?es"
  have id: "ev_id e = record_id session body ?es" and md: "ev_metadata e = meta" "ev_created e = se_now ?sc"
    "ev_content e = body" "ev_hash e = sha256 body"
    by (simp_all add: e_def new_event_def Let_def record_id_def)
  obtain stamp where stamp: "require_timestamp (PStr (ev_created e)) ''stored recorded_at'' = Inr stamp"
    using q md by (auto simp: quiet_know_def isOk_iff)
  have nonce: "is_hex 32 (ke_nonce env)" using q by (simp add: quiet_know_def)
  obtain rec where rec: "decode_row env project (int (length ?es) + 1, e) = Inr rec" "kr_kind rec = kind"
    "py_eq (kr_payload rec) payload" "kr_id rec = ev_id e" "kr_order rec = int (length ?es) + 1"
    using decode_envelope [OF enc k(3,2,1) nonce ne md(3,4), of stamp "int (length ?es) + 1"] meta md stamp by auto
  have find: "find (\<lambda>(_, x). ev_id x = ev_id e) (numbered (?es @ [e])) = Some (int (length ?es) + 1, e)"
  proof -
    have "ev_id x \<noteq> ev_id e" if "(i, x) \<in> set (numbered ?es)" for i x
      using fresh(2) that id unfolding numbered_def by (metis imageI set_zip_rightD)
    then have "find (\<lambda>(_, x). ev_id x = ev_id e) (numbered ?es) = None" by (auto simp: find_None_all)
    then show ?thesis by (simp add: numbered_snoc find_snoc)
  qed
  obtain x1 node where ix: "se_index ?sc e (derived db) = (x1, node)" by force
  obtain x3 job where sj: "se_scribe_job ?sc e x1 = (x3, job)" by force
  define db' where "db' = db\<lparr>events := ?es @ [e], derived := se_audit ?sc ''append_scroll_event'' (ev_id e) x3\<rparr>"
  define r where "r = \<lparr>ar_event = ev_id e, ar_session = ev_session e, ar_seq = ev_seq e, ar_job = Some job,
       ar_dedup = False, ar_card = None\<rparr>"
  have cap: "captured_record env project (ev_id e) db' = Inr rec"
    using find rec(1) by (simp add: captured_record_def db'_def)
  have "append_new ?sc None e ?eff db = ?eff db' r"
    using fresh(2) id ix sj by (simp add: append_new_def db'_def r_def)
  also have "\<dots> = bindE (validate db' rec) (\<lambda>_. Inr (db', r))"
    using cap rec by (simp add: record_effect_def r_def)
  finally have "append_scroll_event_once ?sc session knowledge_event (lit ''agent'') body ?km ?eff db
      = bindE (validate db' rec) (\<lambda>_. Inr (db', r))"
    using pol prep fresh(1) by (simp add: append_scroll_event_once_def existing_event_fresh e_def)
  then have "append_record env pid sid kind payload validate db = bindE (validate db' rec) (\<lambda>_. Inr (db', rec))"
    using p s k enc q cap by (simp add: append_record_def quiet_know_def Let_def r_def bindE_assoc)
  then show ?thesis using rec id by (intro exI [of _ db'] exI [of _ rec]) (auto simp: db'_def)
qed

section \<open>Canonical timestamps\<close>

lemma replace_Z_id: "90 \<notin> set s \<Longrightarrow> replace_Z s = s"
  by (induction s) (auto simp: replace_Z_def)

lemma isoformat_text:
  assumes "civil_ok c"
  shows "length (isoformat c) \<le> 32" "list_all (\<lambda>x. 43 \<le> x \<and> x \<le> 84) (isoformat c)" "isoformat c \<noteq> []"
proof -
  have "days_in_month (c_year c) (c_month c) \<le> 31"
    using assms by (simp add: civil_ok_def days_in_month_le)
  then have b: "c_year c < 10000" "c_month c < 100" "c_day c < 100" "c_hour c < 100" "c_minute c < 100"
    "c_second c < 100" "c_micro c < 1000000"
    using assms by (auto simp: civil_ok_def)
  have d: "list_all (\<lambda>x. 43 \<le> x \<and> x \<le> 84) (dig2 n)" if "n < 100" for n
    using that by (auto simp: dig2_def)
  have d4: "list_all (\<lambda>x. 43 \<le> x \<and> x \<le> 84) (dig4 (c_year c))"
    using b(1) mod_less_divisor [of 10 "c_year c div 100"] mod_less_divisor [of 10 "c_year c div 10"]
      mod_less_divisor [of 10 "c_year c"] by (auto simp: dig4_def)
  have d6: "list_all (\<lambda>x. 43 \<le> x \<and> x \<le> 84) (dig6 (c_micro c))"
    using b(7) mod_less_divisor [of 10 "c_micro c div 10000"] mod_less_divisor [of 10 "c_micro c div 1000"]
      mod_less_divisor [of 10 "c_micro c div 100"] mod_less_divisor [of 10 "c_micro c div 10"]
      mod_less_divisor [of 10 "c_micro c"] by (auto simp: dig6_def)
  show "length (isoformat c) \<le> 32" "isoformat c \<noteq> []"
    by (auto simp: isoformat_def dig2_def dig4_def dig6_def)
  show "list_all (\<lambda>x. 43 \<le> x \<and> x \<le> 84) (isoformat c)"
    using d [OF b(2)] d [OF b(3)] d [OF b(4)] d [OF b(5)] d [OF b(6)] d4 d6 by (simp add: isoformat_def)
qed

lemma require_text_printable:
  assumes "list_all (\<lambda>x. 33 \<le> x \<and> x < 127) s" "s \<noteq> []" "length s \<le> n"
  shows "require_text (PStr s) name n = Inr s"
proof -
  have "\<not> py_space x" "\<not> surrogate x" "x \<noteq> 0" if "x \<in> set s" for x
    using assms(1) that by (auto simp: list_all_iff py_space_def surrogate_def)
  then have "py_strip s = s" "utf8_ok s" "0 \<notin> set s"
    using assms(2) by (auto simp: py_strip_def dropWhile_hd hd_rev utf8_ok_def list_all_iff)
  with assms show ?thesis by (simp add: require_text_Inr)
qed

lemma require_timestamp_iso:
  assumes "civil_ok c"
  shows "require_timestamp (PStr (isoformat c)) name = Inr (isoformat c)"
    "instant (PStr (isoformat c)) name = Inr (isoformat c, micros c)"
proof -
  have "list_all (\<lambda>x. 33 \<le> x \<and> x < 127) (isoformat c)"
    using isoformat_text(2) [OF assms] by (auto simp: list_all_iff)
  then have "require_text (PStr (isoformat c)) name 64 = Inr (isoformat c)"
    using isoformat_text(1,3) [OF assms] by (intro require_text_printable) auto
  moreover have "read_instant (isoformat c) name = Inr c"
    using assms by (simp add: read_instant_def replace_Z_id isoformat_no_Z fromisoformat_isoformat to_utc_def Let_def)
  ultimately show "require_timestamp (PStr (isoformat c)) name = Inr (isoformat c)"
    "instant (PStr (isoformat c)) name = Inr (isoformat c, micros c)"
    by (simp_all add: require_timestamp_def instant_def)
qed

section \<open>Properties\<close>


definition demo_know :: "unit know_env" where
  "demo_know = \<lparr>ke_scroll = plain_env\<lparr>se_now := isoformat \<lparr>c_year = 2026, c_month = 1, c_day = 1,
       c_hour = 0, c_minute = 0, c_second = 0, c_micro = 0\<rparr>\<rparr>,
     ke_scan_value = (\<lambda>_ _. False), ke_scan_text = (\<lambda>_. False), ke_project = (\<lambda>p. Inr (Some p)),
     ke_source = (\<lambda>_ _ _ _ _ _. Inr (mkdict [(''found'', PBool True)])),
     ke_nonce = lit ''0123456789abcdef0123456789abcdef''\<rparr>"

lemma demo_know_ok: "quiet_know demo_know" "policy_passes demo_know"
proof -
  have "civil_ok \<lparr>c_year = 2026, c_month = 1, c_day = 1, c_hour = 0, c_minute = 0, c_second = 0, c_micro = 0\<rparr>"
    by (simp add: civil_ok_def days_in_month_def month_days_def)
  from require_timestamp_iso(1) [OF this] show "quiet_know demo_know"
    by (simp add: quiet_know_def demo_know_def plain_env_def is_hex_def is_hex_char_def lit_def)
  show "policy_passes demo_know" by (simp add: policy_passes_def demo_know_def plain_env_def)
qed

lemma demo_scope: "project_scope demo_know (PStr (lit ''p'')) = Inr (lit ''p'')"
  "require_text (PStr (lit ''s'')) ''session_id'' 256 = Inr (lit ''s'')"
proof -
  have "require_text (PStr (lit ''p'')) ''project_id'' 256 = Inr (lit ''p'')"
    by (rule require_text_printable) (simp_all add: lit_def)
  then show "project_scope demo_know (PStr (lit ''p'')) = Inr (lit ''p'')"
    by (simp add: project_scope_def demo_know_def nonempty_def del: bindE_Inr_iff)
  show "require_text (PStr (lit ''s'')) ''session_id'' 256 = Inr (lit ''s'')"
    by (rule require_text_printable) (simp_all add: lit_def)
qed

text \<open>The record of an append to an empty Scroll is what a read returns.\<close>

lemma read_first:
  assumes app: "append_record env pid sid kind payload validate db = Inr (db', rec)" and "policy_passes env"
    and "events db = []" "events db' \<noteq> []" "project_scope env pid = Inr project"
  shows "read_all env project 10000 (events db') = Inr [rec] \<and> kr_kind rec = kind \<and> py_eq (kr_payload rec) payload"
proof -
  obtain q and r :: append_result where q: "project_scope env pid = Inr q"
    and cap: "captured_record env q (ar_event r) db' = Inr rec"
    and eq: "py_eq (kr_payload rec) payload" "kr_kind rec = kind" and "validate db' rec = Inr ()" "kind \<in> set kinds"
    and ev: "events db' = events db \<and> ar_dedup r \<or>
     (\<exists>e. events db' = events db @ [e] \<and> ev_id e \<notin> ev_id ` set (events db) \<and> ev_id e = ar_event r
        \<and> ev_type e = knowledge_event \<and> ev_scope e = lit ''project'' \<and> ev_project e = Some q)"
    and "segments db' = segments db"
    by (rule append_record_inversion [OF app assms(2)])
  from ev assms(3,4) obtain e where e: "events db' = [e]" "ev_id e = ar_event r"
    "ev_type e = knowledge_event" "ev_scope e = lit ''project''" "ev_project e = Some q" by auto
  then have "decode_row env q (1, e) = Inr rec" using cap by (simp add: captured_record_def numbered_def)
  with e q assms(5) eq show ?thesis by (simp add: read_all_def knowledge_rows_def numbered_def)
qed

lemma demo_append_of:
  assumes "encode_record (knowledge_envelope demo_know (lit ''p'') kind payload) = Inr body" "kind \<in> set kinds"
    "is_dict payload" "good_json payload"
  shows "\<exists>db' rec. append_record demo_know (PStr (lit ''p'')) (PStr (lit ''s'')) kind payload (\<lambda>_ _. Inr ())
     \<lparr>events = [], segments = [], derived = ()\<rparr> = Inr (db', rec) \<and> events db' \<noteq> []"
  using append_record_runs [OF demo_know_ok(1) demo_scope assms(2,3,4,1), of "\<lparr>events = [], segments = [], derived = ()\<rparr>" "\<lambda>_ _. Inr ()"]
  by auto

lemmas demo_encode_defs = encode_record_def plain_bounds_def plain_leaf_def knowledge_envelope_def mkdict_def
  knowledge_schema_def canonical_json_def sort_items_def quote_def escape_char_def join_def
  lit_def max_record_bytes_def utf8_ok_def surrogate_def utf8_size_def utf8_def utf8_char_def

lemma demo_envelope:
  "\<exists>body. encode_record (knowledge_envelope demo_know (lit ''p'') (lit ''experience'') (PDict [])) = Inr body"
  by (simp add: encode_record_def plain_bounds_def plain_leaf_def knowledge_envelope_def mkdict_def
      demo_know_def knowledge_schema_def canonical_json_def sort_items_def quote_def escape_char_def join_def
      lit_def max_record_bytes_def utf8_ok_def surrogate_def utf8_size_def utf8_def utf8_char_def)

lemma demo_append:
  "\<exists>db' rec. append_record demo_know (PStr (lit ''p'')) (PStr (lit ''s'')) (lit ''experience'') (PDict []) (\<lambda>_ _. Inr ())
     \<lparr>events = [], segments = [], derived = ()\<rparr> = Inr (db', rec)"
proof -
  from demo_envelope obtain body where
    body: "encode_record (knowledge_envelope demo_know (lit ''p'') (lit ''experience'') (PDict [])) = Inr body" ..
  from append_record_runs [OF demo_know_ok(1) demo_scope _ _ _ body, of "\<lparr>events = [], segments = [], derived = ()\<rparr>" "\<lambda>_ _. Inr ()"]
  show ?thesis by (auto simp: kinds_def)
qed


text \<open>C27 A well-formed record is stored: when the scanners are silent, the policy passes the capture on
  and the clock reads, a record of a known kind whose envelope encodes and whose text and identifier are
  new is appended as exactly one event, and the only error left is the caller's validator's own.\<close>

theorem append_record_stores:
  assumes "quiet_know env" "project_scope env pid = Inr project" "require_text sid ''session_id'' 256 = Inr session"
    "kind \<in> set kinds" "is_dict payload" "good_json payload"
    "encode_record (knowledge_envelope env project kind payload) = Inr body"
    "sha256 body \<notin> ev_hash ` set (events db)" "record_id session body (events db) \<notin> ev_id ` set (events db)"
  shows "case append_record env pid sid kind payload validate db of
      Inl err \<Rightarrow> \<exists>db' rec. validate db' rec = Inl err
    | Inr (db', rec) \<Rightarrow> length (events db') = Suc (length (events db)) \<and> kr_order rec = int (length (events db)) + 1"
proof -
  from append_record_runs [OF assms] obtain db' rec where
    "append_record env pid sid kind payload validate db = bindE (validate db' rec) (\<lambda>_. Inr (db', rec))"
    "length (events db') = Suc (length (events db))" "kr_order rec = int (length (events db)) + 1" by blast
  then show ?thesis by (cases "validate db' rec") auto
qed

theorem append_record_stores_witness:
  "case append_record demo_know (PStr (lit ''p'')) (PStr (lit ''s'')) (lit ''experience'') (PDict []) (\<lambda>_ _. Inr ())
     \<lparr>events = [], segments = [], derived = ()\<rparr> of
      Inl err \<Rightarrow> False | Inr (db', rec) \<Rightarrow> length (events db') = 1"
proof -
  from demo_envelope obtain body where
    body: "encode_record (knowledge_envelope demo_know (lit ''p'') (lit ''experience'') (PDict [])) = Inr body" ..
  from append_record_stores [OF demo_know_ok(1) demo_scope _ _ _ body, of "\<lparr>events = [], segments = [], derived = ()\<rparr>" "\<lambda>_ _. Inr ()"]
  show ?thesis by (auto simp: kinds_def split: sum.splits)
qed

text \<open>C28 The canonical text of a record is lossless and stable: it parses back to the record with its
  keys sorted, which is equal to the record under Python's comparison and encodes to the very same
  text, so the stored content hash can be recomputed from the decoded value.\<close>

theorem encode_roundtrip:
  assumes "encode_record v = Inr s" "good_json v"
  shows "loads s = Some (written canonical_json v) \<and> py_eq (written canonical_json v) v
    \<and> encode_record (written canonical_json v) = Inr s"
  using loads_encoded [OF assms] py_eq_written [OF assms(2)] encode_written [OF assms(1)] by blast

theorem encode_roundtrip_witness:
  "\<exists>s. encode_record (knowledge_envelope demo_know (lit ''p'') (lit ''experience'') (PDict [])) = Inr s \<and>
     loads s = Some (written canonical_json (knowledge_envelope demo_know (lit ''p'') (lit ''experience'') (PDict [])))"
proof -
  from demo_envelope obtain s where
    s: "encode_record (knowledge_envelope demo_know (lit ''p'') (lit ''experience'') (PDict [])) = Inr s" ..
  from encode_roundtrip [OF s] s show ?thesis by (auto simp: knowledge_envelope_def mkdict_def)
qed

text \<open>The bounds check of a record is exact: the traversal that counts visited values accepts a value
  exactly when its shape (depth, sizes of containers, leaves) is within bounds at every node and it has
  at most 16384 nodes altogether, keys included.\<close>

lemma plain_exact:
  "plain 0 0 v = (if shape 0 v \<and> nodes v \<le> 16384 then Inr (nodes v) else Inl (projl (plain 0 0 v)))"
proof (cases "plain 0 0 v")
  case (Inl e)
  then have "\<not> (shape 0 v \<and> nodes v \<le> 16384)" using plain_iff [of 0 0 v "nodes v"] by auto
  then show ?thesis using Inl by simp
next
  case (Inr n)
  then show ?thesis using plain_iff [of 0 0 v n] by simp
qed

end
