(* ===== verification/Temporal_Facts.thy ===== *)
theory Temporal_Facts
  imports Knowledge_Records
begin

text \<open>
  Asserted facts with valid time and correction history (\<open>core/temporal_facts.py\<close>).  A fact may
  correct an earlier one; the validator replays the project's facts and admits a correction only of
  an earlier, uncorrected fact with the same subject and predicate.  A query answers as of a
  recording time and at a valid time.
\<close>

section \<open>Payloads\<close>

definition fact_kind :: pystr where "fact_kind = lit ''temporal_fact''"

definition payload_keys :: "string list" where
  "payload_keys = [''schema'', ''subject'', ''predicate'', ''value'', ''valid_from'', ''valid_to'', ''corrects'', ''evidence'']"

definition reference_shape :: "(pyval \<times> pystr) list \<Rightarrow> pyval \<Rightarrow> py_error + (pyval \<times> pystr) list" where
  "reference_shape seen r =
     bindE (ensure (has_keys r [''kind'', ''id'', ''content_hash''])
              (ValueError ''fact evidence must contain exact source references'')) (\<lambda>_.
     let k = dget_or r ''kind'' PNone in
     bindE (ensure (k \<in> PStr ` lit ` {''card'', ''scroll_event'', ''chunk''})
              (ValueError ''fact evidence has an invalid source kind'')) (\<lambda>_.
     bindE (require_identifier (dget_or r ''id'' PNone) ''fact evidence id'') (\<lambda>i.
     bindE (ensure (case dget r ''content_hash'' of Some (PStr h) \<Rightarrow> is_hex 64 h | _ \<Rightarrow> False)
              (ValueError ''fact evidence has an invalid content hash'')) (\<lambda>_.
     bindE (ensure ((k, i) \<notin> set seen) (ValueError ''fact evidence contains a duplicate source'')) (\<lambda>_.
       Inr ((k, i) # seen))))))"

definition evidence_shape :: "pyval \<Rightarrow> py_error + unit" where
  "evidence_shape v =
     (case v of
        PList rs \<Rightarrow> bindE (ensure (length rs \<le> 16)
                     (ValueError ''fact evidence must be a list of at most 16 exact source references'')) (\<lambda>_.
                   bindE (foldE reference_shape [] rs) (\<lambda>_. Inr ()))
      | _ \<Rightarrow> Inl (ValueError ''fact evidence must be a list of at most 16 exact source references''))"

definition fact_payload :: "'x know_env \<Rightarrow> pyval \<Rightarrow> py_error + unit" where
  "fact_payload env p =
     bindE (ensure (has_keys p payload_keys) (ValueError ''invalid temporal fact payload'')) (\<lambda>_.
     bindE (ensure (dget p ''schema'' = Some (PInt 1)) (ValueError ''unsupported temporal fact schema'')) (\<lambda>_.
     bindE (require_text (dget_or p ''subject'' PNone) ''subject'' 256) (\<lambda>_.
     bindE (require_text (dget_or p ''predicate'' PNone) ''predicate'' 128) (\<lambda>_.
     bindE (require_text (dget_or p ''value'' PNone) ''value'' 2048) (\<lambda>_.
     bindE (ensure (\<not> (ke_scan_value env ''fact'' p \<or>
                ke_scan_value env ''fact'' (PDict [(dget_or p ''predicate'' PNone, dget_or p ''value'' PNone)])))
              (ValueError ''temporal facts must not contain credentials'')) (\<lambda>_.
     bindE (instant (dget_or p ''valid_from'' PNone) ''valid_from'') (\<lambda>(start, start_at).
     bindE (ensure (dget_or p ''valid_from'' PNone = PStr start)
              (ValueError ''stored fact valid_from is not canonical'')) (\<lambda>_.
     bindE (if dget_or p ''valid_to'' PNone = PNone then Inr ()
            else bindE (instant (dget_or p ''valid_to'' PNone) ''valid_to'') (\<lambda>(fin, end_at).
                 ensure (dget_or p ''valid_to'' PNone = PStr fin \<and> start_at < end_at)
                   (ValueError ''valid_to must be canonical and later than valid_from''))) (\<lambda>_.
     bindE (if dget_or p ''corrects'' PNone = PNone then Inr []
            else require_identifier (dget_or p ''corrects'' PNone) ''corrects'') (\<lambda>_.
       evidence_shape (dget_or p ''evidence'' PNone)))))))))))"

section \<open>The replay\<close>

record fact_log =
  fl_earlier :: "(pystr, krec) odict"
  fl_corrected :: "(pystr, pystr) odict"
  fl_previous :: "(int \<times> int) option"

definition corrects_of :: "krec \<Rightarrow> pystr option" where
  "corrects_of r = as_str (dget_or (kr_payload r) ''corrects'' PNone)"

definition same_claim :: "krec \<Rightarrow> krec \<Rightarrow> bool" where
  "same_claim a b \<longleftrightarrow> kr_project a = kr_project b \<and>
     dget_or (kr_payload a) ''subject'' PNone = dget_or (kr_payload b) ''subject'' PNone \<and>
     dget_or (kr_payload a) ''predicate'' PNone = dget_or (kr_payload b) ''predicate'' PNone"

definition check_correction :: "fact_log \<Rightarrow> krec \<Rightarrow> py_error + fact_log" where
  "check_correction lg r =
     (case corrects_of r of
        None \<Rightarrow> Inr lg
      | Some target_id \<Rightarrow>
          (case oget (fl_earlier lg) target_id of
             None \<Rightarrow> Inl (ValueError ''correction target must be an earlier uncorrected fact in this project'')
           | Some target \<Rightarrow>
               bindE (ensure (oget (fl_corrected lg) target_id = None)
                 (ValueError ''correction target must be an earlier uncorrected fact in this project'')) (\<lambda>_.
               bindE (ensure (same_claim target r)
                 (ValueError ''correction target must have the same project, subject, and predicate'')) (\<lambda>_.
               bindE (ensure (kr_order target < kr_order r)
                 (ValueError ''correction target must be an earlier insertion'')) (\<lambda>_.
                 Inr (lg\<lparr>fl_corrected := oset target_id (kr_id r) (fl_corrected lg)\<rparr>))))))"

definition replay_fact :: "'x know_env \<Rightarrow> fact_log \<Rightarrow> krec \<Rightarrow> py_error + fact_log" where
  "replay_fact env lg r =
     bindE (fact_payload env (kr_payload r)) (\<lambda>_.
     bindE (require_identifier (PStr (kr_id r)) ''fact id'') (\<lambda>_.
     bindE (instant (PStr (kr_recorded r)) ''recorded_at'') (\<lambda>(_, recorded).
     bindE (ensure (1 \<le> kr_order r) (ValueError ''invalid temporal fact insertion order'')) (\<lambda>_.
     bindE (ensure (oget (fl_earlier lg) (kr_id r) = None \<and>
              (case fl_previous lg of None \<Rightarrow> True | Some p \<Rightarrow> p < (recorded, kr_order r)))
              (ValueError ''invalid temporal fact recording order'')) (\<lambda>_.
     bindE (check_correction lg r) (\<lambda>lg'.
       Inr (lg'\<lparr>fl_earlier := oset (kr_id r) r (fl_earlier lg'), fl_previous := Some (recorded, kr_order r)\<rparr>)))))))"

definition validated :: "'x know_env \<Rightarrow> krec list \<Rightarrow> py_error + (pystr, pystr) odict" where
  "validated env rs =
     bindE (foldE (replay_fact env) \<lparr>fl_earlier = [], fl_corrected = [], fl_previous = None\<rparr> rs)
           (\<lambda>lg. Inr (fl_corrected lg))"

section \<open>Recording\<close>

definition fact_validator :: "'x know_env \<Rightarrow> pyval \<Rightarrow> 'x validator" where
  "fact_validator env project_id db rec =
     bindE (read_kinds env project_id [fact_kind] db) (\<lambda>rs.
     bindE (validated env rs) (\<lambda>_.
       ensure (list_ex (\<lambda>r. kr_id r = kr_id rec) rs)
         (ValueError ''new temporal fact is not visible in its project transaction'')))"

definition record_temporal_fact ::
  "'x know_env \<Rightarrow> pyval \<Rightarrow> pyval \<Rightarrow> pyval \<Rightarrow> pyval \<Rightarrow> pyval \<Rightarrow> pyval \<Rightarrow> pyval \<Rightarrow> pyval \<Rightarrow> pyval \<Rightarrow> 'x db
     \<Rightarrow> py_error + 'x db \<times> krec" where
  "record_temporal_fact env project_id session_id subject pred val valid_from valid_to corrects evidence db =
     bindE (instant valid_from ''valid_from'') (\<lambda>(start, start_at).
     bindE (if valid_to = PNone then Inr PNone
            else bindE (instant valid_to ''valid_to'') (\<lambda>(fin, end_at).
                 bindE (ensure (start_at < end_at) (ValueError ''valid_to must be later than valid_from''))
                       (\<lambda>_. Inr (PStr fin)))) (\<lambda>fin.
     bindE (if corrects = PNone then Inr PNone
            else bindE (require_identifier corrects ''corrects'') (\<lambda>c. Inr (PStr c))) (\<lambda>corr.
     bindE (require_text subject ''subject'' 256) (\<lambda>sub.
     bindE (require_text pred ''predicate'' 128) (\<lambda>prd.
     bindE (require_text val ''value'' 2048) (\<lambda>vl.
     bindE (validate_evidence env project_id evidence) (\<lambda>ev.
     let payload = mkdict [(''schema'', PInt 1), (''subject'', PStr sub), (''predicate'', PStr prd),
           (''value'', PStr vl), (''valid_from'', PStr start), (''valid_to'', fin), (''corrects'', corr),
           (''evidence'', PList ev)]
     in bindE (fact_payload env payload) (\<lambda>_.
        append_record env project_id session_id fact_kind payload (fact_validator env project_id) db))))))))"

section \<open>Querying\<close>

definition payload_text :: "krec \<Rightarrow> string \<Rightarrow> pyval" where
  "payload_text r k = dget_or (kr_payload r) k PNone"

text \<open>\<open>valid\<close>: half-open validity at an instant, of a payload that has been validated.\<close>

definition fact_valid :: "int \<Rightarrow> krec \<Rightarrow> bool" where
  "fact_valid at_micros r \<longleftrightarrow>
     (case instant (payload_text r ''valid_from'') ''valid_from'' of Inr (_, a) \<Rightarrow> a \<le> at_micros | Inl _ \<Rightarrow> False) \<and>
     (payload_text r ''valid_to'' = PNone \<or>
      (case instant (payload_text r ''valid_to'') ''valid_to'' of Inr (_, b) \<Rightarrow> at_micros < b | Inl _ \<Rightarrow> False))"

definition known_by :: "int \<Rightarrow> krec \<Rightarrow> bool" where
  "known_by at_micros r =
     (case instant (PStr (kr_recorded r)) ''recorded_at'' of Inr (_, t) \<Rightarrow> t \<le> at_micros | Inl _ \<Rightarrow> False)"

definition corrected_map :: "krec list \<Rightarrow> (pystr, pystr) odict" where
  "corrected_map known = fold (\<lambda>r m. case corrects_of r of None \<Rightarrow> m | Some t \<Rightarrow> oset t (kr_id r) m) known []"

definition disputed :: "krec list \<Rightarrow> int \<Rightarrow> krec \<Rightarrow> bool" where
  "disputed known at_micros r =
     (let same = filter (\<lambda>x. oget (corrected_map known) (kr_id x) = None \<and> fact_valid at_micros x \<and>
            payload_text x ''subject'' = payload_text r ''subject'' \<and>
            payload_text x ''predicate'' = payload_text r ''predicate'') known
      in 1 < length (remdups (map (\<lambda>x. payload_text x ''value'') same)))"

definition fact_selected :: "krec list \<Rightarrow> int \<Rightarrow> pyval \<Rightarrow> pyval \<Rightarrow> bool \<Rightarrow> krec \<Rightarrow> bool" where
  "fact_selected known at_micros subject pred history r \<longleftrightarrow>
     (subject = PNone \<or> payload_text r ''subject'' = subject) \<and>
     (pred = PNone \<or> payload_text r ''predicate'' = pred) \<and>
     (history \<or> (oget (corrected_map known) (kr_id r) = None \<and> fact_valid at_micros r))"

definition fact_row :: "krec list \<Rightarrow> int \<Rightarrow> krec \<Rightarrow> pyval" where
  "fact_row known at_micros r =
     (let replacement = oget (corrected_map known) (kr_id r); applicable = fact_valid at_micros r
      in PDict (entries (mkdict [(''id'', PStr (kr_id r)), (''project_id'', PStr (kr_project r)),
                                 (''recorded_at'', PStr (kr_recorded r))])
         @ entries (kr_payload r)
         @ entries (mkdict [(''correction_state'', PStr (lit (if replacement \<noteq> None then ''corrected'' else ''current''))),
              (''corrected_by'', case replacement of None \<Rightarrow> PNone | Some i \<Rightarrow> PStr i),
              (''valid_at_matches'', PBool applicable),
              (''disagreement'', PBool (replacement = None \<and> applicable \<and> disputed known at_micros r)),
              (''citation'', mkdict [(''kind'', PStr (lit ''scroll_event'')), (''id'', PStr (kr_id r)),
                                     (''content_hash'', PStr (kr_hash r))])])))"

definition selected_facts :: "krec list \<Rightarrow> int \<Rightarrow> int \<Rightarrow> pyval \<Rightarrow> pyval \<Rightarrow> bool \<Rightarrow> krec list" where
  "selected_facts rs valid_at known_at subject pred history =
     (let known = filter (known_by known_at) rs
      in filter (fact_selected known valid_at subject pred history) (rev known))"

definition query_temporal_facts ::
  "'x know_env \<Rightarrow> pystr \<Rightarrow> pyval \<Rightarrow> pyval \<Rightarrow> pyval \<Rightarrow> pyval \<Rightarrow> pyval \<Rightarrow> pyval \<Rightarrow> pyval \<Rightarrow> 'x db
     \<Rightarrow> py_error + pyval" where
  "query_temporal_facts env now project_id subject pred valid_at known_at include_history token_budget db =
     bindE (case include_history of PBool b \<Rightarrow> Inr b | _ \<Rightarrow> Inl (ValueError ''include_history must be a boolean'')) (\<lambda>history.
     bindE (if subject = PNone then Inr PNone
            else bindE (require_text subject ''subject'' 256) (\<lambda>s. Inr (PStr s))) (\<lambda>sub.
     bindE (if pred = PNone then Inr PNone
            else bindE (require_text pred ''predicate'' 128) (\<lambda>s. Inr (PStr s))) (\<lambda>prd.
     bindE (instant (if valid_at = PNone then PStr now else valid_at) ''valid_at'') (\<lambda>(valid_text, valid_us).
     bindE (instant (if known_at = PNone then PStr now else known_at) ''known_at'') (\<lambda>(known_text, known_us).
     bindE (read_kinds env project_id [fact_kind] db) (\<lambda>rs.
     bindE (validated env rs) (\<lambda>_.
       bounded_results
         (map (fact_row (filter (known_by known_us) rs) valid_us)
              (selected_facts rs valid_us known_us sub prd history)) token_budget
         (entries (mkdict [(''valid_at'', PStr valid_text), (''known_at'', PStr known_text),
            (''include_history'', PBool history),
            (''semantics'', PStr (lit ''recorded_claims; half_open_valid_time; whole_assertion_corrections''))])))))))))"

section \<open>Lemmas\<close>

definition recording_key :: "krec \<Rightarrow> int \<times> int" where
  "recording_key r = (case instant (PStr (kr_recorded r)) ''recorded_at'' of
      Inr (_, t) \<Rightarrow> (t, kr_order r) | Inl _ \<Rightarrow> (0, kr_order r))"

definition corrects_earlier :: "krec list \<Rightarrow> krec \<Rightarrow> bool" where
  "corrects_earlier rs r = (case corrects_of r of None \<Rightarrow> True
     | Some t \<Rightarrow> list_ex (\<lambda>x. kr_id x = t \<and> same_claim x r \<and> kr_order x < kr_order r
                                \<and> recording_key x < recording_key r) rs)"

text \<open>What the replay has established of the records it has read.\<close>

definition replay_inv :: "fact_log \<Rightarrow> krec list \<Rightarrow> bool" where
  "replay_inv lg p \<longleftrightarrow> fl_earlier lg = map (\<lambda>r. (kr_id r, r)) p \<and> distinct (map kr_id p) \<and>
     fl_corrected lg = corrected_map p \<and> distinct (List.map_filter corrects_of p) \<and>
     fst ` set (corrected_map p) = set (List.map_filter corrects_of p) \<and>
     sorted_wrt (\<lambda>a b. recording_key a < recording_key b) p \<and>
     (case fl_previous lg of None \<Rightarrow> p = [] | Some k \<Rightarrow> p \<noteq> [] \<and> k = recording_key (last p)) \<and>
     list_all (corrects_earlier p) p"

lemma corrected_map_snoc: "corrected_map (p @ [r]) = (case corrects_of r of None \<Rightarrow> corrected_map p
    | Some t \<Rightarrow> oset t (kr_id r) (corrected_map p))"
  by (simp add: corrected_map_def split: option.splits)

lemma map_filter_snoc:
  "List.map_filter f (xs @ [x]) = List.map_filter f xs @ (case f x of None \<Rightarrow> [] | Some y \<Rightarrow> [y])"
  by (induction xs) (auto simp: List.map_filter_simps split: option.splits)

lemma map_of_ids: "map_of (map (\<lambda>r. (kr_id r, r)) p) i = Some x \<Longrightarrow> x \<in> set p \<and> kr_id x = i"
  by (induction p) (auto split: if_splits)

lemma corrects_earlier_mono: "corrects_earlier p r \<Longrightarrow> set p \<subseteq> set q \<Longrightarrow> corrects_earlier q r"
  by (auto simp: corrects_earlier_def list_ex_iff split: option.splits)

lemma check_correction_Inr:
  assumes "check_correction lg r = Inr lg'"
  shows "fl_earlier lg' = fl_earlier lg \<and> fl_previous lg' = fl_previous lg \<and>
    (case corrects_of r of None \<Rightarrow> fl_corrected lg' = fl_corrected lg
     | Some t \<Rightarrow> oget (fl_corrected lg) t = None \<and> fl_corrected lg' = oset t (kr_id r) (fl_corrected lg) \<and>
        (\<exists>x. oget (fl_earlier lg) t = Some x \<and> same_claim x r \<and> kr_order x < kr_order r))"
  using assms by (auto simp: check_correction_def split: option.splits)

lemma sorted_wrt_snoc_last:
  assumes "sorted_wrt (\<lambda>a b. f a < (f b :: 'k::order)) p" "p = [] \<or> f (last p) < f r"
  shows "\<forall>x\<in>set p. f x < f r"
  using assms by (cases p rule: rev_cases) (auto simp: sorted_wrt_append intro: less_trans)

lemma replay_step:
  assumes "replay_inv lg p" "replay_fact env lg r = Inr lg''"
  shows "replay_inv lg'' (p @ [r])"
proof -
  from assms(2) obtain s t lg' where r: "instant (PStr (kr_recorded r)) ''recorded_at'' = Inr (s, t)"
    "oget (fl_earlier lg) (kr_id r) = None"
    "case fl_previous lg of None \<Rightarrow> True | Some k \<Rightarrow> k < (t, kr_order r)"
    and ck: "check_correction lg r = Inr lg'"
    and lg'': "lg'' = lg'\<lparr>fl_earlier := oset (kr_id r) r (fl_earlier lg'), fl_previous := Some (t, kr_order r)\<rparr>"
    by (auto simp: replay_fact_def)
  have key: "recording_key r = (t, kr_order r)" using r(1) by (simp add: recording_key_def)
  note inv = assms(1) [unfolded replay_inv_def]
  have "p = [] \<or> recording_key (last p) < recording_key r"
    using inv r(3) key by (auto split: option.splits)
  then have before: "\<forall>x\<in>set p. recording_key x < recording_key r"
    using inv by (intro sorted_wrt_snoc_last) auto
  have new_id: "kr_id r \<notin> kr_id ` set p" using inv r(2) by (auto simp: map_of_eq_None_iff image_image)
  have early: "fl_earlier lg'' = map (\<lambda>r. (kr_id r, r)) (p @ [r])"
    using check_correction_Inr [OF ck] inv r(2) lg'' by (simp add: oset_new)
  have "corrects_earlier (p @ [r]) r \<and> fl_corrected lg'' = corrected_map (p @ [r]) \<and>
      distinct (List.map_filter corrects_of (p @ [r])) \<and>
      fst ` set (corrected_map (p @ [r])) = set (List.map_filter corrects_of (p @ [r]))"
  proof (cases "corrects_of r")
    case None
    then show ?thesis using check_correction_Inr [OF ck] inv lg''
      by (simp add: corrects_earlier_def corrected_map_snoc map_filter_snoc)
  next
    case (Some i)
    with check_correction_Inr [OF ck] inv obtain x where x: "x \<in> set p" "kr_id x = i" "same_claim x r"
      "kr_order x < kr_order r" and un: "oget (corrected_map p) i = None"
      by (auto dest: map_of_ids)
    have "i \<notin> set (List.map_filter corrects_of p)" using un inv by (simp add: map_of_eq_None_iff)
    moreover have "fst ` set (oset i (kr_id r) (corrected_map p)) = insert i (fst ` set (corrected_map p))" by simp
    ultimately show ?thesis using Some check_correction_Inr [OF ck] inv lg'' x before
      by (auto simp: corrects_earlier_def corrected_map_snoc map_filter_snoc list_ex_iff simp del: dom_oset)
  qed
  moreover have "list_all (corrects_earlier (p @ [r])) p"
    using inv by (auto simp: list_all_iff intro: corrects_earlier_mono)
  ultimately show ?thesis
    using inv early before new_id key lg'' by (simp add: replay_inv_def sorted_wrt_append)
qed

lemma validated_inv:
  assumes "validated env rs = Inr m"
  shows "\<exists>lg. replay_inv lg rs \<and> m = fl_corrected lg"
proof -
  from assms obtain lg where run: "foldE (replay_fact env) \<lparr>fl_earlier = [], fl_corrected = [], fl_previous = None\<rparr> rs = Inr lg"
    "m = fl_corrected lg" by (auto simp: validated_def)
  have "replay_inv lg rs" using run(1)
  proof (rule foldE_prefix_invariant)
    show "replay_inv \<lparr>fl_earlier = [], fl_corrected = [], fl_previous = None\<rparr> []"
      by (simp add: replay_inv_def corrected_map_def List.map_filter_simps)
  qed (rule replay_step)
  with run(2) show ?thesis by blast
qed

section \<open>The history of a project\<close>

interpretation facts: replayed_kinds "[fact_kind]" "validated env" for env :: "'x know_env"
  by unfold_locales (simp add: validated_def)

lemma fact_validator_ok:
  assumes "fact_validator env pid db rec = Inr ()"
  shows "\<exists>project. project_scope env pid = Inr project \<and> history_ok env [fact_kind] (validated env) project db"
  using assms facts.ok_read
  by (auto simp: fact_validator_def isOk_iff read_kinds_Inr history_ok_def)

lemma map_filter_inj:
  "distinct (List.map_filter f xs) \<Longrightarrow> x \<in> set xs \<Longrightarrow> y \<in> set xs \<Longrightarrow> f x = Some t \<Longrightarrow> f y = Some t \<Longrightarrow> x = y"
proof (induction xs)
  case (Cons a xs)
  have mem: "t \<in> set (List.map_filter f xs)" if "z \<in> set xs" "f z = Some t" for z
    using that by (induction xs) (auto simp: List.map_filter_simps split: option.splits)
  show ?case using Cons mem by (auto simp: List.map_filter_simps split: option.splits)
qed simp

lemma corrected_map_None:
  "oget (corrected_map known) i = None \<longleftrightarrow> \<not> list_ex (\<lambda>x. corrects_of x = Some i) known"
  by (induction known rule: rev_induct)
     (auto simp: corrected_map_snoc corrected_map_def [of "[]"] list_ex_iff split: option.splits)

lemma record_inversion:
  assumes "record_temporal_fact env pid sid sub pred val vf vt corr ev db = Inr (db', rec)"
  obtains payload where "append_record env pid sid fact_kind payload (fact_validator env pid) db = Inr (db', rec)"
    "is_dict payload" "dget payload ''corrects'' = Some corr"
proof -
  from assms obtain payload corr' where
    "append_record env pid sid fact_kind payload (fact_validator env pid) db = Inr (db', rec)"
    "is_dict payload" "dget payload ''corrects'' = Some corr'" "corr' = corr"
    by (fastforce simp: record_temporal_fact_def Let_def require_identifier_Inr mkdict_def [of "_ # _"]
        dget_def split: if_splits)
  then show thesis using that by blast
qed

lemma record_keeps_history:
  assumes "record_temporal_fact env pid sid sub pred val vf vt corr ev db = Inr (db', rec)"
    "policy_passes env" "history_ok env [fact_kind] (validated env) project db"
  shows "history_ok env [fact_kind] (validated env) project db'"
proof -
  from record_inversion [OF assms(1)] obtain payload where
    app: "append_record env pid sid fact_kind payload (fact_validator env pid) db = Inr (db', rec)" by metis
  show ?thesis
  proof (cases "project_scope env pid = Inr project")
    case True
    show ?thesis
      by (rule facts.append_checked [OF app assms(2)])
         (use fact_validator_ok [of env pid db' rec] True in auto)
  next
    case False
    show ?thesis by (rule facts.append_other [OF app assms(2) _ assms(3)]) (use False in simp)
  qed
qed

lemma validated_payload: "validated env rs = Inr m \<Longrightarrow> r \<in> set rs \<Longrightarrow> fact_payload env (kr_payload r) = Inr ()"
  by (fastforce simp: validated_def replay_fact_def dest!: foldE_memD)

lemma validated_chains_aux: "validated env rs = Inr m \<Longrightarrow> distinct (List.map_filter corrects_of rs)"
  by (auto dest: validated_inv simp: replay_inv_def)

lemma second_correction_adds_nothing:
  assumes "record_temporal_fact env pid sid sub pred val vf vt (PStr t) ev db = Inr (db', rec)" "policy_passes env"
    and "read_kinds env pid [fact_kind] db = Inr rs" "r0 \<in> set rs" "corrects_of r0 = Some t"
  shows "events db' = events db"
proof (rule ccontr)
  assume new: "events db' \<noteq> events db"
  from record_inversion [OF assms(1)] obtain payload where
    app: "append_record env pid sid fact_kind payload (fact_validator env pid) db = Inr (db', rec)"
    and pl: "is_dict payload" "dget payload ''corrects'' = Some (PStr t)" by metis
  have "fact_validator env pid db' rec = Inr ()" and eq: "py_eq (kr_payload rec) payload"
    using append_record_faithful_aux [OF app assms(2)] by blast+
  then obtain rs' m where rs': "read_kinds env pid [fact_kind] db' = Inr rs'" "validated env rs' = Inr m"
    by (auto simp: fact_validator_def)
  note adds = append_adds [OF app assms(2) new _ assms(3) rs'(1)]
  have rec: "rec \<in> set rs'" "r0 \<in> set rs'" "rec \<noteq> r0" using adds assms(4) by auto
  obtain x where "dget (kr_payload rec) ''corrects'' = Some x"
    using validated_payload [OF rs'(2) rec(1)] by (auto simp: fact_payload_def payload_keys_def dest!: has_keys_dget [where k = "''corrects''"])
  moreover from py_eq_dget [OF eq pl(1) this] pl(2) have "x = PStr t" by (cases x) auto
  ultimately have "corrects_of rec = Some t" by (simp add: corrects_of_def dget_or_def)
  then show False
    using validated_chains_aux [OF rs'(2)] rec assms(5) by (auto dest: map_filter_inj)
qed

section \<open>Properties\<close>

text \<open>C36 A history the replay accepts is a set of correction chains: identifiers are unique, records are
  in strictly increasing recording order, every fact is corrected at most once, and every correction
  corrects an earlier record of the same project, subject and predicate; the map the replay returns is
  exactly the corrections of the history.\<close>

theorem validated_chains:
  assumes "validated env rs = Inr m"
  shows "distinct (map kr_id rs) \<and> sorted_wrt (\<lambda>a b. recording_key a < recording_key b) rs
    \<and> distinct (List.map_filter corrects_of rs) \<and> list_all (corrects_earlier rs) rs \<and> m = corrected_map rs"
  using validated_inv [OF assms] by (auto simp: replay_inv_def)

theorem validated_chains_witness:
  "validated demo_know [] = Inr [] \<and> ([] :: (pystr, pystr) odict) = corrected_map []"
proof -
  have v: "validated demo_know [] = Inr []" by (simp add: validated_def)
  from validated_chains [OF v] v show ?thesis by blast
qed

text \<open>C33 Recording a fact keeps the fact history of every project replayable, whether the record is
  stored, refused by the validator or rolled back; a reader never meets a broken chain.\<close>

theorem record_fact_keeps_history:
  assumes "history_ok env [fact_kind] (validated env) project db" "policy_passes env"
  shows "history_ok env [fact_kind] (validated env) project
     (committed db (record_temporal_fact env pid sid sub pred val vf vt corr ev db))"
  using record_keeps_history [OF _ assms(2,1)] assms(1)
  by (auto simp: committed_def split: sum.split)

theorem record_fact_keeps_history_witness:
  "history_ok demo_know [fact_kind] (validated demo_know) (lit ''p'')
     (committed \<lparr>events = [], segments = [], derived = ()\<rparr>
       (record_temporal_fact demo_know (PStr (lit ''p'')) (PStr (lit ''s'')) (PStr (lit ''a'')) (PStr (lit ''b''))
          (PStr (lit ''c'')) (PStr (lit ''2026-01-01T00:00:00+00:00'')) PNone PNone PNone
          \<lparr>events = [], segments = [], derived = ()\<rparr>))"
  by (rule record_fact_keeps_history) (simp_all add: demo_know_ok facts.ok_empty)

text \<open>C35 Concurrent corrections have one winner: once a stored fact corrects a target, recording another
  correction of that target adds nothing to the Scroll, however its arguments are chosen.\<close>

theorem one_correction_wins:
  assumes "policy_passes env" "read_kinds env pid [fact_kind] db = Inr rs" "r0 \<in> set rs" "corrects_of r0 = Some t"
  shows "events (committed db (record_temporal_fact env pid sid sub pred val vf vt (PStr t) ev db)) = events db"
  using second_correction_adds_nothing [OF _ assms] by (auto simp: committed_def split: sum.split)

theorem one_correction_wins_witness:
  "\<exists>(db :: unit db) r0. events db \<noteq> [] \<and> corrects_of r0 = Some (lit ''x'') \<and>
     events (committed db (record_temporal_fact demo_know (PStr (lit ''p'')) (PStr (lit ''s'')) (PStr (lit ''a''))
       (PStr (lit ''b'')) (PStr (lit ''c'')) (PStr (lit ''2026-01-01'')) PNone (PStr (lit ''x'')) PNone db)) = events db"
proof -
  let ?p = "mkdict [(''corrects'', PStr (lit ''x''))]"
  have "\<exists>body. encode_record (knowledge_envelope demo_know (lit ''p'') fact_kind ?p) = Inr body"
    by (simp add: fact_kind_def demo_know_def demo_encode_defs)
  then obtain body where "encode_record (knowledge_envelope demo_know (lit ''p'') fact_kind ?p) = Inr body" ..
  from demo_append_of [OF this] obtain db' :: "unit db" and rec where
    run: "append_record demo_know (PStr (lit ''p'')) (PStr (lit ''s'')) fact_kind ?p (\<lambda>_ _. Inr ())
      \<lparr>events = [], segments = [], derived = ()\<rparr> = Inr (db', rec)" "events db' \<noteq> []"
    by (auto simp: kinds_def fact_kind_def mkdict_def)
  have rd: "read_all demo_know (lit ''p'') 10000 (events db') = Inr [rec]" "kr_kind rec = fact_kind"
    "py_eq (kr_payload rec) ?p"
    using read_first [OF run(1) demo_know_ok(2) _ run(2) demo_scope(1)] by auto
  from rd(3) obtain kvs where "kr_payload rec = PDict kvs" "length kvs = 1"
    by (cases "kr_payload rec") (auto simp: mkdict_def)
  then obtain k v where "kr_payload rec = PDict [(k, v)]" by (cases kvs) auto
  with rd(3) have "corrects_of rec = Some (lit ''x'')"
    by (cases v) (auto simp: mkdict_def corrects_of_def dget_or_def dget_def split: if_splits)
  moreover have "read_kinds demo_know (PStr (lit ''p'')) [fact_kind] db' = Inr [rec]"
    using rd demo_scope by (auto simp: read_kinds_Inr kinds_def fact_kind_def)
  ultimately show ?thesis using one_correction_wins [OF demo_know_ok(2)] run(2) by fastforce
qed

text \<open>A current query selects exactly the facts known at the recording instant that match the
  selectors, are valid at the valid instant, and are corrected by no fact known then.\<close>

lemma current_selection:
  "r \<in> set (selected_facts rs v k sub pred False) \<longleftrightarrow>
     (r \<in> set rs \<and> known_by k r \<and> fact_valid v r \<and> (sub = PNone \<or> payload_text r ''subject'' = sub) \<and>
      (pred = PNone \<or> payload_text r ''predicate'' = pred) \<and>
      \<not> list_ex (\<lambda>x. known_by k x \<and> corrects_of x = Some (kr_id r)) rs)"
proof -
  have "list_ex (\<lambda>x. corrects_of x = Some (kr_id r)) (filter (known_by k) rs)
     = list_ex (\<lambda>x. known_by k x \<and> corrects_of x = Some (kr_id r)) rs"
    by (auto simp: list_ex_iff)
  then show ?thesis
    by (auto simp: selected_facts_def fact_selected_def corrected_map_None Let_def)
qed

end
