(* ===== verification/Head_Cas.thy ===== *)
theory Head_Cas
  imports Knowledge_Records
begin

text \<open>
  Records that name the exact head they follow.  Handoffs and collections (\<open>core/coordination.py\<close>)
  accept a record only if it names the current last record of what it changes; the locale \<open>head_cas\<close>
  states what that gives: linked histories and at most one accepted successor of every record.
\<close>

text \<open>Consecutive records of a history name each other.\<close>

fun linked :: "(krec \<Rightarrow> pystr) \<Rightarrow> krec list \<Rightarrow> bool" where
  "linked expected [] \<longleftrightarrow> True"
| "linked expected [r] \<longleftrightarrow> True"
| "linked expected (r # q # rs) \<longleftrightarrow> expected q = kr_id r \<and> linked expected (q # rs)"

lemma linked_snoc: "linked x (h @ [r]) \<longleftrightarrow> linked x h \<and> (h = [] \<or> x r = kr_id (last h))"
  by (induction x h rule: linked.induct) auto

text \<open>The client of a replay in which every record either opens an entity or names the head it
  follows: \<open>view\<close> is the history of each entity, first record first.\<close>

locale head_cas =
  fixes step :: "'s \<Rightarrow> krec \<Rightarrow> py_error + 's" and good :: "'s \<Rightarrow> bool" and view :: "'s \<Rightarrow> pystr \<Rightarrow> krec list option"
    and target :: "krec \<Rightarrow> pystr option" and expected :: "krec \<Rightarrow> pystr"
  assumes good_step: "good s \<Longrightarrow> step s r = Inr s' \<Longrightarrow> good s'"
    and opens: "good s \<Longrightarrow> step s r = Inr s' \<Longrightarrow> target r = None \<Longrightarrow> view s' = (view s)(kr_id r \<mapsto> [r])"
    and follows: "good s \<Longrightarrow> step s r = Inr s' \<Longrightarrow> target r = Some i \<Longrightarrow>
      \<exists>h. view s i = Some h \<and> h \<noteq> [] \<and> expected r = kr_id (last h) \<and> view s' = (view s)(i \<mapsto> h @ [r])"
begin

definition inv :: "'s \<Rightarrow> krec list \<Rightarrow> bool" where
  "inv s p \<longleftrightarrow> good s \<and>
     (\<forall>i h. view s i = Some h \<longrightarrow> h \<noteq> [] \<and> kr_id (hd h) = i \<and> linked expected h \<and> set h \<subseteq> set p
        \<and> (\<forall>r\<in>set (tl h). target r = Some i)) \<and>
     (\<forall>i j h g. view s i = Some h \<longrightarrow> view s j = Some g \<longrightarrow> kr_id (last h) = kr_id (last g) \<longrightarrow> i = j) \<and>
     (\<forall>r\<in>set p. target r \<noteq> None \<longrightarrow> expected r \<in> kr_id ` set p \<and>
        (\<forall>i h. view s i = Some h \<longrightarrow> kr_id (last h) \<noteq> expected r)) \<and>
     distinct (map expected (filter (\<lambda>r. target r \<noteq> None) p))"

lemma inv_step:
  assumes inv: "inv s p" and step: "step s r = Inr s'" and new: "kr_id r \<notin> kr_id ` set p"
  shows "inv s' (p @ [r])"
proof (cases "target r")
  case None
  have v: "view s' = (view s)(kr_id r \<mapsto> [r])" using opens [OF _ step None] inv by (simp add: inv_def)
  have fresh: "kr_id (last h) \<noteq> kr_id r" if "view s i = Some h" for i h
    using inv that new by (auto simp: inv_def) (metis imageI last_in_set subsetD)
  have old: "kr_id x \<noteq> kr_id r" if "x \<in> set p" for x using new that by (metis imageI)
  have unused: "kr_id r \<noteq> expected x" if "x \<in> set p" "target x \<noteq> None" for x
    using inv that new unfolding inv_def by metis
  have "\<forall>i h. view s' i = Some h \<longrightarrow> h \<noteq> [] \<and> kr_id (hd h) = i \<and> linked expected h \<and> set h \<subseteq> set (p @ [r])
        \<and> (\<forall>x\<in>set (tl h). target x = Some i)"
    using inv v by (auto simp: inv_def)
  moreover have "\<forall>i j h g. view s' i = Some h \<longrightarrow> view s' j = Some g \<longrightarrow> kr_id (last h) = kr_id (last g) \<longrightarrow> i = j"
    using inv v fresh by (auto simp: inv_def) metis+
  moreover have "\<forall>x\<in>set (p @ [r]). target x \<noteq> None \<longrightarrow> expected x \<in> kr_id ` set (p @ [r]) \<and>
        (\<forall>i h. view s' i = Some h \<longrightarrow> kr_id (last h) \<noteq> expected x)"
    using inv v None unused by (auto simp: inv_def)
  moreover have "distinct (map expected (filter (\<lambda>r. target r \<noteq> None) (p @ [r])))"
    using inv None by (simp add: inv_def)
  ultimately show ?thesis using good_step [OF _ step] inv unfolding inv_def by blast
next
  case (Some i)
  have gd: "good s" using inv by (simp add: inv_def)
  from follows [OF gd step Some] obtain h where h: "view s i = Some h" "h \<noteq> []" "expected r = kr_id (last h)"
    and v: "view s' = (view s)(i \<mapsto> h @ [r])" by blast
  have hi: "kr_id (hd h) = i" "linked expected h" "set h \<subseteq> set p" "\<forall>x\<in>set (tl h). target x = Some i"
    using inv h(1) by (auto simp: inv_def)
  have fresh: "kr_id (last g) \<noteq> kr_id r" if "view s j = Some g" for j g
    using inv that new by (auto simp: inv_def) (metis imageI last_in_set subsetD)
  have exp_in: "expected r \<in> kr_id ` set p" using h hi(3) by (metis imageI last_in_set subsetD)
  have unused: "expected r \<noteq> expected x" if "x \<in> set p" "target x \<noteq> None" for x
    using inv that h by (auto simp: inv_def)
  have a: "\<forall>j g. view s' j = Some g \<longrightarrow> g \<noteq> [] \<and> kr_id (hd g) = j \<and> linked expected g \<and> set g \<subseteq> set (p @ [r])
        \<and> (\<forall>x\<in>set (tl g). target x = Some j)"
    using inv v h hi Some by (auto simp: inv_def linked_snoc)
  have b: "\<forall>j k g f. view s' j = Some g \<longrightarrow> view s' k = Some f \<longrightarrow> kr_id (last g) = kr_id (last f) \<longrightarrow> j = k"
    using inv v fresh unfolding inv_def by (auto split: if_splits) metis+
  have c: "\<forall>x\<in>set (p @ [r]). target x \<noteq> None \<longrightarrow> expected x \<in> kr_id ` set (p @ [r]) \<and>
        (\<forall>j g. view s' j = Some g \<longrightarrow> kr_id (last g) \<noteq> expected x)"
  proof (intro ballI impI conjI allI)
    fix x assume x: "x \<in> set (p @ [r])" "target x \<noteq> None"
    show "expected x \<in> kr_id ` set (p @ [r])" using x exp_in inv by (auto simp: inv_def)
    fix j g assume g: "view s' j = Some g"
    show "kr_id (last g) \<noteq> expected x"
    proof (cases "j = i")
      case True
      then have "g = h @ [r]" using g v by simp
      moreover have "expected x \<noteq> kr_id r"
      proof (cases "x = r")
        case True
        then show ?thesis using exp_in new by metis
      next
        case False
        then have "expected x \<in> kr_id ` set p" using x inv by (simp add: inv_def)
        then show ?thesis using new by metis
      qed
      ultimately show ?thesis by simp
    next
      case False
      then have g': "view s j = Some g" using g v by simp
      show ?thesis
      proof (cases "x = r")
        case True
        then show ?thesis using g' h inv False unfolding inv_def by metis
      next
        case False
        then show ?thesis using x g' inv by (auto simp: inv_def)
      qed
    qed
  qed
  have d: "distinct (map expected (filter (\<lambda>r. target r \<noteq> None) (p @ [r])))"
    using inv Some unused by (auto simp: inv_def)
  from a b c d show ?thesis using good_step [OF gd step] unfolding inv_def by blast
qed

lemma replay_inv:
  assumes "foldE step s0 rs = Inr s" "view s0 = Map.empty" "good s0" "distinct (map kr_id rs)"
  shows "inv s rs"
  using assms(1,4)
proof (induction rs arbitrary: s rule: rev_induct)
  case Nil
  then show ?case using assms(2,3) by (simp add: inv_def)
next
  case (snoc r rs)
  then obtain u where u: "foldE step s0 rs = Inr u" "step u r = Inr s" by (auto simp: foldE_snoc_Inr)
  with snoc show ?case by (auto intro: inv_step)
qed

text \<open>At most one accepted successor of every head, and linked expected histories.\<close>

lemma one_successor:
  assumes "foldE step s0 rs = Inr s" "view s0 = Map.empty" "good s0" "distinct (map kr_id rs)"
  shows "good s" "distinct (map expected (filter (\<lambda>r. target r \<noteq> None) rs))"
    and "view s i = Some h \<Longrightarrow> h \<noteq> [] \<and> kr_id (hd h) = i \<and> linked expected h \<and> set h \<subseteq> set rs"
  using replay_inv [OF assms] by (auto simp: inv_def)

lemma same_successor:
  assumes "foldE step s0 rs = Inr s" "view s0 = Map.empty" "good s0" "distinct (map kr_id rs)"
    and "r \<in> set rs" "q \<in> set rs" "target r \<noteq> None" "target q \<noteq> None" "expected r = expected q"
  shows "r = q"
  using one_successor(2) [OF assms(1-4)] assms(5-9) by (auto simp: distinct_map dest: inj_onD)

end

end
