(* ===== verification/Coordination.thy ===== *)
theory Coordination
  imports Head_Cas
begin

text \<open>
  Claimable handoffs and exact-source collections (\<open>core/coordination.py\<close>).  Both keep no state but
  a replay of their records: a handoff is a lease state machine whose transitions name the exact head
  they follow, a collection a list of versions that do the same.  The locale \<open>head_cas\<close> states what
  naming the exact head gives: at most one accepted successor of every record.
\<close>

section \<open>Checks\<close>

abbreviation pget :: "pyval \<Rightarrow> string \<Rightarrow> pyval" where
  "pget p k \<equiv> dget_or p k PNone"

definition bounded_integer :: "pyval \<Rightarrow> string \<Rightarrow> int \<Rightarrow> int \<Rightarrow> py_error + int" where
  "bounded_integer v name lo hi =
     (case v of PInt i \<Rightarrow> if lo \<le> i \<and> i \<le> hi then Inr i else Inl (ValueError (name @ '' must be an integer in range''))
      | _ \<Rightarrow> Inl (ValueError (name @ '' must be an integer in range'')))"

definition texts :: "pyval \<Rightarrow> string \<Rightarrow> nat \<Rightarrow> py_error + pystr list" where
  "texts v name n =
     (case v of
        PList vs \<Rightarrow> bindE (ensure (length vs \<le> n) (ValueError (name @ '' must be a bounded list of text entries''))) (\<lambda>_.
                   mapE (\<lambda>x. require_text x name 2048) vs)
      | _ \<Rightarrow> Inl (ValueError (name @ '' must be a bounded list of text entries'')))"

definition citation_item :: "(pyval \<times> pystr) list \<Rightarrow> pyval \<Rightarrow> py_error + (pyval \<times> pystr) list" where
  "citation_item seen item =
     bindE (ensure (has_keys item [''kind'', ''id'', ''content_hash''])
              (ValueError ''members/evidence require exact source citations'')) (\<lambda>_.
     bindE (ensure (pget item ''kind'' \<in> PStr ` lit ` {''scroll_event'', ''card'', ''chunk''})
              (ValueError ''invalid source kind'')) (\<lambda>_.
     bindE (require_identifier (pget item ''id'') ''source id'') (\<lambda>i.
     bindE (ensure (case pget item ''content_hash'' of PStr h \<Rightarrow> is_hex 64 h | _ \<Rightarrow> False)
              (ValueError ''source content_hash must be lowercase SHA-256'')) (\<lambda>_.
     bindE (ensure ((pget item ''kind'', i) \<notin> set seen) (ValueError ''source citations must be unique'')) (\<lambda>_.
       Inr ((pget item ''kind'', i) # seen))))))"

definition citations :: "pyval \<Rightarrow> py_error + pyval list" where
  "citations v =
     (case v of
        PList items \<Rightarrow>
          bindE (ensure (length items \<le> 16) (ValueError ''members/evidence must contain at most 16 exact source citations'')) (\<lambda>_.
          bindE (foldE citation_item [] items) (\<lambda>_. Inr items))
      | _ \<Rightarrow> Inl (ValueError ''members/evidence must contain at most 16 exact source citations''))"

definition coord_shape :: "'x know_env \<Rightarrow> pyval \<Rightarrow> string list \<Rightarrow> py_error + unit" where
  "coord_shape env v keys =
     bindE (ensure (has_keys v keys \<and> dget v ''schema'' = Some (PInt 1))
              (ValueError ''invalid coordination record schema'')) (\<lambda>_.
     ensure (\<not> ke_scan_value env ''coordination'' v) (ValueError ''coordination records must not contain credentials''))"

text \<open>A canonical UTC text, as the instant it denotes.\<close>

definition canonical_instant :: "pyval \<Rightarrow> string \<Rightarrow> py_error + int" where
  "canonical_instant v name =
     bindE (instant v name) (\<lambda>(s, t). bindE (ensure (v = PStr s) (ValueError (name @ '' must be canonical UTC''))) (\<lambda>_. Inr t))"

definition citation :: "krec \<Rightarrow> pyval" where
  "citation r = mkdict [(''kind'', PStr (lit ''scroll_event'')), (''id'', PStr (kr_id r)), (''content_hash'', PStr (kr_hash r))]"

definition ordered_step :: "int \<times> pystr list \<Rightarrow> krec \<Rightarrow> py_error + int \<times> pystr list" where
  "ordered_step st r =
     (let (prior, seen) = st in
      bindE (require_identifier (PStr (kr_id r)) ''record id'') (\<lambda>_.
      bindE (ensure (prior < kr_order r \<and> kr_id r \<notin> set seen)
               (ValueError ''coordination history has invalid append order'')) (\<lambda>_.
        Inr (kr_order r, kr_id r # seen))))"

definition ordered_records :: "krec list \<Rightarrow> py_error + unit" where
  "ordered_records rs = bindE (foldE ordered_step (0, []) rs) (\<lambda>_. Inr ())"

section \<open>Handoffs\<close>

definition handoff_kinds :: "pystr list" where
  "handoff_kinds = [lit ''handoff'', lit ''handoff_transition'']"

datatype action = Claim | Renew | Release | Complete
datatype status = Open | Claimed | Completed

definition read_action :: "pyval \<Rightarrow> py_error + action" where
  "read_action v =
     (if v = PStr (lit ''claim'') then Inr Claim else if v = PStr (lit ''renew'') then Inr Renew
      else if v = PStr (lit ''release'') then Inr Release else if v = PStr (lit ''complete'') then Inr Complete
      else Inl (ValueError ''unsupported handoff action''))"

definition handoff_payload :: "'x know_env \<Rightarrow> pyval \<Rightarrow> py_error + unit" where
  "handoff_payload env p =
     bindE (coord_shape env p [''schema'', ''objective'', ''actor'', ''accepted_decisions'', ''unfinished_work'', ''evidence'']) (\<lambda>_.
     bindE (require_text (pget p ''objective'') ''objective'' 4096) (\<lambda>_.
     bindE (require_text (pget p ''actor'') ''actor'' 128) (\<lambda>_.
     bindE (texts (pget p ''accepted_decisions'') ''accepted_decisions'' 16) (\<lambda>_.
     bindE (texts (pget p ''unfinished_work'') ''unfinished_work'' 32) (\<lambda>_.
     bindE (citations (pget p ''evidence'')) (\<lambda>_. Inr ()))))))"

record transition =
  tr_handoff :: pystr
  tr_expected :: pystr
  tr_action :: action
  tr_actor :: pystr
  tr_moment :: int
  tr_until :: "int option"

definition transition_payload :: "'x know_env \<Rightarrow> pyval \<Rightarrow> py_error + transition" where
  "transition_payload env p =
     bindE (coord_shape env p [''schema'', ''handoff_id'', ''expected_head'', ''action'', ''actor'', ''occurred_at'',
              ''lease_seconds'', ''lease_until'']) (\<lambda>_.
     bindE (require_identifier (pget p ''handoff_id'') ''handoff_id'') (\<lambda>h.
     bindE (require_identifier (pget p ''expected_head'') ''expected_head'') (\<lambda>x.
     bindE (read_action (pget p ''action'')) (\<lambda>a.
     bindE (require_text (pget p ''actor'') ''actor'' 128) (\<lambda>actor.
     bindE (canonical_instant (pget p ''occurred_at'') ''occurred_at'') (\<lambda>moment.
     bindE (if a = Claim \<or> a = Renew then
              bindE (bounded_integer (pget p ''lease_seconds'') ''lease_seconds'' 1 86400) (\<lambda>seconds.
              bindE (canonical_instant (pget p ''lease_until'') ''lease_until'') (\<lambda>expiry.
              bindE (ensure (expiry = moment + seconds * 1000000)
                       (ValueError ''handoff lease must match its bounded duration'')) (\<lambda>_. Inr (Some expiry))))
            else bindE (ensure (pget p ''lease_seconds'' = PNone \<and> pget p ''lease_until'' = PNone)
                          (ValueError ''release and complete do not accept lease fields'')) (\<lambda>_. Inr None)) (\<lambda>until.
       Inr \<lparr>tr_handoff = h, tr_expected = x, tr_action = a, tr_actor = actor, tr_moment = moment, tr_until = until\<rparr>)))))))"

record handoff =
  ho_record :: krec
  ho_head :: pystr
  ho_status :: status
  ho_owner :: "pystr option"
  ho_until :: "int option"
  ho_last :: "int option"
  ho_history :: "krec list"

text \<open>A lease that has not expired; at \<open>lease_until\<close> it has.\<close>

definition active_at :: "handoff \<Rightarrow> int \<Rightarrow> bool" where
  "active_at s t \<longleftrightarrow> ho_status s = Claimed \<and> (case ho_until s of Some u \<Rightarrow> t < u | None \<Rightarrow> False)"

definition apply_transition :: "'x know_env \<Rightarrow> handoff \<Rightarrow> krec \<Rightarrow> py_error + handoff" where
  "apply_transition env s r =
     bindE (transition_payload env (kr_payload r)) (\<lambda>p.
     bindE (ensure (ho_head s = tr_expected p)
              (ValueError ''handoff head changed; read the current head before retrying'')) (\<lambda>_.
     bindE (ensure (ho_status s \<noteq> Completed) (ValueError ''completed handoffs cannot be changed or reclaimed'')) (\<lambda>_.
     bindE (ensure (case ho_last s of None \<Rightarrow> True | Some l \<Rightarrow> l \<le> tr_moment p) (ValueError ''handoff clock moved backwards'')) (\<lambda>_.
     bindE (if tr_action p = Claim
            then ensure (\<not> active_at s (tr_moment p)) (ValueError ''handoff already has an active owner'')
            else ensure (active_at s (tr_moment p) \<and> ho_owner s = Some (tr_actor p))
                   (ValueError ''handoff transition requires its active lease owner'')) (\<lambda>_.
       Inr ((if tr_action p = Claim \<or> tr_action p = Renew
             then s\<lparr>ho_status := Claimed, ho_owner := Some (tr_actor p), ho_until := tr_until p\<rparr>
             else s\<lparr>ho_status := (if tr_action p = Complete then Completed else Open), ho_owner := None, ho_until := None\<rparr>)
            \<lparr>ho_head := kr_id r, ho_last := Some (tr_moment p), ho_history := ho_history s @ [r]\<rparr>))))))"

definition opened :: "krec \<Rightarrow> handoff" where
  "opened r = \<lparr>ho_record = r, ho_head = kr_id r, ho_status = Open, ho_owner = None, ho_until = None,
     ho_last = None, ho_history = []\<rparr>"

definition handoff_step ::
  "'x know_env \<Rightarrow> (pystr, handoff) odict \<Rightarrow> krec \<Rightarrow> py_error + (pystr, handoff) odict" where
  "handoff_step env states r =
     (if kr_kind r = lit ''handoff'' then
        bindE (handoff_payload env (kr_payload r)) (\<lambda>_.
          Inr (oset (kr_id r) (opened r) states))
      else
        bindE (transition_payload env (kr_payload r)) (\<lambda>p.
          case oget states (tr_handoff p) of
            None \<Rightarrow> Inl (ValueError ''handoff transition has no earlier project-visible handoff'')
          | Some s \<Rightarrow> bindE (apply_transition env s r) (\<lambda>s'. Inr (oset (tr_handoff p) s' states))))"

definition handoffs :: "'x know_env \<Rightarrow> krec list \<Rightarrow> py_error + (pystr, handoff) odict" where
  "handoffs env rs = bindE (ordered_records rs) (\<lambda>_. foldE (handoff_step env) [] rs)"

definition handoff_validator :: "'x know_env \<Rightarrow> pyval \<Rightarrow> pyval \<Rightarrow> 'x validator" where
  "handoff_validator env project_id evidence db rec =
     bindE (read_kinds env project_id handoff_kinds db) (\<lambda>rs.
     bindE (handoffs env rs) (\<lambda>states.
     bindE (ensure (oget states (kr_id rec) \<noteq> None)
              (ValueError ''new handoff is not visible in its project transaction'')) (\<lambda>_.
     bindE (validate_evidence env project_id evidence) (\<lambda>_. Inr ()))))"

definition create_handoff ::
  "'x know_env \<Rightarrow> pyval \<Rightarrow> pyval \<Rightarrow> pyval \<Rightarrow> pyval \<Rightarrow> pyval \<Rightarrow> pyval \<Rightarrow> pyval \<Rightarrow> 'x db \<Rightarrow> py_error + 'x db \<times> krec" where
  "create_handoff env project_id session_id objective actor accepted unfinished evidence db =
     bindE (validate_evidence env project_id evidence) (\<lambda>ev.
     let payload = mkdict [(''schema'', PInt 1), (''objective'', objective), (''actor'', actor),
           (''accepted_decisions'', if accepted = PNone then PList [] else accepted),
           (''unfinished_work'', if unfinished = PNone then PList [] else unfinished), (''evidence'', PList ev)]
     in bindE (handoff_payload env payload) (\<lambda>_.
        append_record env project_id session_id (lit ''handoff'') payload
          (handoff_validator env project_id (PList ev)) db))"

text \<open>\<open>moment\<close> is the clock when the call starts, \<open>current\<close> the clock when its validator runs.\<close>

definition live_until :: "int option \<Rightarrow> civil \<Rightarrow> string \<Rightarrow> py_error + unit" where
  "live_until expiry current message =
     (case expiry of None \<Rightarrow> Inl TypeError | Some u \<Rightarrow> ensure (micros current < u) (ValueError message))"

definition transition_validator ::
  "'x know_env \<Rightarrow> pyval \<Rightarrow> pystr \<Rightarrow> action \<Rightarrow> civil \<Rightarrow> civil \<Rightarrow> 'x validator" where
  "transition_validator env project_id handoff_id a moment current db rec =
     bindE (read_kinds env project_id handoff_kinds db) (\<lambda>rs.
     bindE (handoffs env rs) (\<lambda>states.
       case oget states handoff_id of
         None \<Rightarrow> Inl (ValueError ''new transition is not the current project-visible head'')
       | Some s \<Rightarrow>
           bindE (ensure (ho_head s = kr_id rec) (ValueError ''new transition is not the current project-visible head'')) (\<lambda>_.
           bindE (ensure (micros moment \<le> micros current)
                    (ValueError ''handoff clock moved backwards while acquiring the writer'')) (\<lambda>_.
           bindE (if a = Claim \<or> a = Renew
                  then live_until (ho_until s) current ''lease expired before the transition could commit''
                  else Inr ()) (\<lambda>_.
           if a \<noteq> Claim then
             bindE (handoffs env (filter (\<lambda>x. kr_id x \<noteq> kr_id rec) rs)) (\<lambda>before.
               case oget before handoff_id of
                 None \<Rightarrow> Inl KeyError
               | Some b \<Rightarrow> live_until (ho_until b) current ''owner lease expired before the transition could commit'')
           else Inr ())))))"

definition transition_handoff ::
  "'x know_env \<Rightarrow> civil \<Rightarrow> civil \<Rightarrow> pyval \<Rightarrow> pyval \<Rightarrow> pyval \<Rightarrow> pyval \<Rightarrow> pyval \<Rightarrow> pyval \<Rightarrow> pyval \<Rightarrow> 'x db
     \<Rightarrow> py_error + 'x db \<times> krec" where
  "transition_handoff env moment current project_id session_id handoff_id expected_head act actor lease_seconds db =
     bindE (read_action act) (\<lambda>a.
     bindE (if a = Claim \<or> a = Renew then
              bindE (bounded_integer (if lease_seconds = PNone then PInt 300 else lease_seconds) ''lease_seconds'' 1 86400) (\<lambda>n.
              bindE (add_seconds moment n) (\<lambda>e. Inr (PInt n, PStr (isoformat e))))
            else bindE (ensure (lease_seconds = PNone) (ValueError ''release and complete do not accept lease_seconds''))
                   (\<lambda>_. Inr (PNone, PNone))) (\<lambda>(seconds, expiry).
     let payload = mkdict [(''schema'', PInt 1), (''handoff_id'', handoff_id), (''expected_head'', expected_head),
           (''action'', act), (''actor'', actor), (''occurred_at'', PStr (isoformat moment)),
           (''lease_seconds'', seconds), (''lease_until'', expiry)]
     in bindE (transition_payload env payload) (\<lambda>p.
        append_record env project_id session_id (lit ''handoff_transition'') payload
          (transition_validator env project_id (tr_handoff p) a moment current) db)))"

text \<open>One row of \<open>query_handoffs\<close>.\<close>

definition evidence_state :: "'x know_env \<Rightarrow> pystr \<Rightarrow> int \<times> pyval \<Rightarrow> py_error + pyval" where
  "evidence_state env project x =
     (let (i, ref) = x in
      bindE (ke_source env project (pget ref ''kind'') (pget ref ''id'') (pget ref ''content_hash'') 0 1) (\<lambda>source.
        Inr (mkdict [(''index'', PInt i),
          (''source_state'', PStr (lit (if truthy (pget source ''found'') then ''current'' else ''stale_or_unavailable'')))])))"

definition indexed :: "'a list \<Rightarrow> (int \<times> 'a) list" where
  "indexed xs = zip (map int [0..<length xs]) xs"

definition as_items :: "pyval \<Rightarrow> pyval list" where
  "as_items v = (case v of PList xs \<Rightarrow> xs | _ \<Rightarrow> [])"

definition stale_count :: "pyval list \<Rightarrow> nat" where
  "stale_count rows = length (filter (\<lambda>r. pget r ''source_state'' \<noteq> PStr (lit ''current'')) rows)"

definition status_text :: "status \<Rightarrow> pystr" where
  "status_text s = lit (case s of Open \<Rightarrow> ''open'' | Claimed \<Rightarrow> ''claimed'' | Completed \<Rightarrow> ''completed'')"

definition handoff_row :: "'x know_env \<Rightarrow> int \<Rightarrow> bool \<Rightarrow> pystr \<times> handoff \<Rightarrow> py_error + pyval" where
  "handoff_row env now history entry =
     (let (i, s) = entry; r = ho_record s;
          expired = (ho_status s = Claimed \<and> (case ho_until s of Some u \<Rightarrow> u \<le> now | None \<Rightarrow> False))
      in bindE (mapE (evidence_state env (kr_project r)) (indexed (as_items (pget (kr_payload r) ''evidence'')))) (\<lambda>evs.
         let n = stale_count evs in
         Inr (PDict (entries (mkdict [(''id'', PStr i), (''project_id'', PStr (kr_project r)), (''head'', PStr (ho_head s)),
               (''status'', PStr (if expired then lit ''expired'' else status_text (ho_status s))),
               (''owner'', if expired then PNone else case ho_owner s of None \<Rightarrow> PNone | Some a \<Rightarrow> PStr a),
               (''lease_until'', case ho_until s of None \<Rightarrow> PNone | Some u \<Rightarrow> PStr (isoformat (civil_of_micros (nat u)))),
               (''recorded_at'', PStr (kr_recorded r))])
             @ entries (kr_payload r)
             @ entries (mkdict ([(''citation'', citation r), (''evidence_states'', PList evs),
               (''unavailable_count'', PInt (int n)), (''needs_review'', PBool (n \<noteq> 0)),
               (''review_reasons'', PList (if n \<noteq> 0 then [PStr (lit ''evidence_unavailable_or_changed'')] else []))]
               @ (if history then [(''history'', PList (map (\<lambda>x. PDict (entries (mkdict [(''id'', PStr (kr_id x))])
                    @ entries (kr_payload x) @ entries (mkdict [(''citation'', citation x)]))) (ho_history s)))] else [])))))))"

definition query_handoffs ::
  "'x know_env \<Rightarrow> civil \<Rightarrow> pyval \<Rightarrow> pyval \<Rightarrow> pyval \<Rightarrow> pyval \<Rightarrow> 'x db \<Rightarrow> py_error + pyval" where
  "query_handoffs env now project_id handoff_id include_history token_budget db =
     bindE (if handoff_id = PNone then Inr [] else require_identifier handoff_id ''handoff_id'') (\<lambda>_.
     bindE (case include_history of PBool b \<Rightarrow> Inr b | _ \<Rightarrow> Inl (ValueError ''include_history must be a boolean'')) (\<lambda>history.
     bindE (read_kinds env project_id handoff_kinds db) (\<lambda>rs.
     bindE (handoffs env rs) (\<lambda>states.
     bindE (mapE (handoff_row env (micros now) history)
              (filter (\<lambda>(i, _). handoff_id = PNone \<or> handoff_id = PStr i) (rev states))) (\<lambda>rows.
       bounded_results rows token_budget
         (entries (mkdict [(''observed_at'', PStr (isoformat now)),
            (''actor_authority'', PStr (lit ''caller_attribution_not_authentication'')),
            (''include_history'', PBool history),
            (''source_validation'', PStr (lit ''current_project_scope_and_exact_content_hash''))])))))))"

section \<open>Collections\<close>

definition collection_kinds :: "pystr list" where
  "collection_kinds = [lit ''collection'', lit ''collection_revision'']"

text \<open>The version of a collection payload that passes the checks.\<close>

definition collection_payload :: "'x know_env \<Rightarrow> bool \<Rightarrow> pyval \<Rightarrow> py_error + int" where
  "collection_payload env revision p =
     bindE (coord_shape env p ([''schema'', ''title'', ''summary'', ''overview'', ''members'', ''version'']
              @ (if revision then [''collection_id'', ''expected_head''] else []))) (\<lambda>_.
     bindE (require_text (pget p ''title'') ''title'' 256) (\<lambda>_.
     bindE (require_text (pget p ''summary'') ''summary'' 1024) (\<lambda>_.
     bindE (require_text (pget p ''overview'') ''overview'' 8192) (\<lambda>_.
     bindE (citations (pget p ''members'')) (\<lambda>_.
     bindE (bounded_integer (pget p ''version'') ''version'' 1 10000) (\<lambda>v.
     bindE (if revision then
              bindE (require_identifier (pget p ''collection_id'') ''collection_id'') (\<lambda>_.
              bindE (require_identifier (pget p ''expected_head'') ''expected_head'') (\<lambda>_. Inr ()))
            else ensure (v = 1) (ValueError ''new collections start at version one'')) (\<lambda>_. Inr v)))))))"

definition version_of :: "krec \<Rightarrow> int" where
  "version_of r = (case pget (kr_payload r) ''version'' of PInt v \<Rightarrow> v | _ \<Rightarrow> 0)"

definition collection_step ::
  "'x know_env \<Rightarrow> (pystr, krec list) odict \<Rightarrow> krec \<Rightarrow> py_error + (pystr, krec list) odict" where
  "collection_step env histories r =
     (let revision = (kr_kind r = lit ''collection_revision'') in
      bindE (collection_payload env revision (kr_payload r)) (\<lambda>v.
        if \<not> revision then Inr (oset (kr_id r) [r] histories)
        else case as_str (pget (kr_payload r) ''collection_id'') of
          None \<Rightarrow> Inl KeyError
        | Some c \<Rightarrow>
            (case oget histories c of
               None \<Rightarrow> Inl (ValueError ''collection head changed or is not project-visible'')
             | Some h \<Rightarrow>
                 bindE (ensure (h \<noteq> [] \<and> pget (kr_payload r) ''expected_head'' = PStr (kr_id (last h)))
                   (ValueError ''collection head changed or is not project-visible'')) (\<lambda>_.
                 bindE (ensure (v = version_of (last h) + 1)
                   (ValueError ''collection revision must increment exactly one version'')) (\<lambda>_.
                 Inr (oset c (h @ [r]) histories))))))"

definition collections :: "'x know_env \<Rightarrow> krec list \<Rightarrow> py_error + (pystr, krec list) odict" where
  "collections env rs = bindE (ordered_records rs) (\<lambda>_. foldE (collection_step env) [] rs)"

definition collection_validator :: "'x know_env \<Rightarrow> pyval \<Rightarrow> pyval \<Rightarrow> 'x validator" where
  "collection_validator env project_id members db rec =
     bindE (read_kinds env project_id collection_kinds db) (\<lambda>rs.
     bindE (collections env rs) (\<lambda>histories.
     bindE (ensure (oget histories (kr_id rec) \<noteq> None)
              (ValueError ''new collection is not visible in its project transaction'')) (\<lambda>_.
     bindE (validate_evidence env project_id members) (\<lambda>_. Inr ()))))"

definition create_collection ::
  "'x know_env \<Rightarrow> pyval \<Rightarrow> pyval \<Rightarrow> pyval \<Rightarrow> pyval \<Rightarrow> pyval \<Rightarrow> pyval \<Rightarrow> 'x db \<Rightarrow> py_error + 'x db \<times> krec" where
  "create_collection env project_id session_id title summary overview members db =
     bindE (citations members) (\<lambda>_.
     bindE (validate_evidence env project_id members) (\<lambda>ms.
     let payload = mkdict [(''schema'', PInt 1), (''title'', title), (''summary'', summary), (''overview'', overview),
           (''members'', PList ms), (''version'', PInt 1)]
     in bindE (collection_payload env False payload) (\<lambda>_.
        append_record env project_id session_id (lit ''collection'') payload
          (collection_validator env project_id (PList ms)) db)))"

definition revision_validator :: "'x know_env \<Rightarrow> pyval \<Rightarrow> pystr \<Rightarrow> pyval \<Rightarrow> 'x validator" where
  "revision_validator env project_id collection_id members db rec =
     bindE (read_kinds env project_id collection_kinds db) (\<lambda>rs.
     bindE (collections env rs) (\<lambda>current.
       case oget current collection_id of
         None \<Rightarrow> Inl KeyError
       | Some h \<Rightarrow>
           bindE (ensure (h \<noteq> [] \<and> kr_id (last h) = kr_id rec)
             (ValueError ''new collection revision is not its current project-visible head'')) (\<lambda>_.
           bindE (validate_evidence env project_id members) (\<lambda>_. Inr ()))))"

definition revise_collection ::
  "'x know_env \<Rightarrow> pyval \<Rightarrow> pyval \<Rightarrow> pyval \<Rightarrow> pyval \<Rightarrow> pyval \<Rightarrow> pyval \<Rightarrow> pyval \<Rightarrow> pyval \<Rightarrow> 'x db
     \<Rightarrow> py_error + 'x db \<times> krec" where
  "revise_collection env project_id session_id collection_id expected_head title summary overview members db =
     bindE (require_identifier collection_id ''collection_id'') (\<lambda>c.
     bindE (require_identifier expected_head ''expected_head'') (\<lambda>x.
     bindE (citations members) (\<lambda>_.
     bindE (read_kinds env project_id collection_kinds db) (\<lambda>rs.
     bindE (collections env rs) (\<lambda>histories.
       case oget histories c of
         None \<Rightarrow> Inl (ValueError ''collection head changed or is not project-visible'')
       | Some h \<Rightarrow>
           bindE (ensure (h \<noteq> [] \<and> kr_id (last h) = x)
             (ValueError ''collection head changed or is not project-visible'')) (\<lambda>_.
           bindE (validate_evidence env project_id members) (\<lambda>ms.
           let payload = mkdict [(''schema'', PInt 1), (''title'', title), (''summary'', summary),
                 (''overview'', overview), (''members'', PList ms), (''version'', PInt (version_of (last h) + 1)),
                 (''collection_id'', PStr c), (''expected_head'', PStr x)]
           in bindE (collection_payload env True payload) (\<lambda>_.
              append_record env project_id session_id (lit ''collection_revision'') payload
                (revision_validator env project_id c (PList ms)) db))))))))"

text \<open>One member of one revision: the citation, its state now, and the source text where asked for.\<close>

definition member_row ::
  "'x know_env \<Rightarrow> pystr \<Rightarrow> bool \<Rightarrow> int option \<Rightarrow> int \<Rightarrow> int \<Rightarrow> int \<times> pyval \<Rightarrow> py_error + pyval" where
  "member_row env project detail_full member_index offset limit x =
     (let (i, ref) = x; reveal = (detail_full \<and> (member_index = None \<or> member_index = Some i)) in
      bindE (ke_source env project (pget ref ''kind'') (pget ref ''id'') (pget ref ''content_hash'')
               (if reveal then offset else 0) (if reveal then limit else 1)) (\<lambda>source.
      let found = truthy (pget source ''found'') in
      Inr (mkdict ([(''index'', PInt i), (''citation'', ref),
             (''source_state'', PStr (lit (if found then ''current'' else ''stale_or_unavailable'')))]
           @ (if reveal \<and> found then [(''source'', source)] else [])))))"

definition revision_row ::
  "'x know_env \<Rightarrow> bool \<Rightarrow> bool \<Rightarrow> int option \<Rightarrow> int \<Rightarrow> int \<Rightarrow> pystr \<times> krec list \<Rightarrow> krec \<Rightarrow> py_error + pyval" where
  "revision_row env full show_overview member_index offset limit entry r =
     (let (i, h) = entry; members = as_items (pget (kr_payload r) ''members'') in
      bindE (ensure (case member_index of None \<Rightarrow> True | Some k \<Rightarrow> k < int (length members))
               (ValueError ''member_index exceeds this collection's membership'')) (\<lambda>_.
      bindE (mapE (member_row env (kr_project r) full member_index offset limit) (indexed members)) (\<lambda>rows.
        Inr (mkdict ([(''id'', PStr i), (''head'', PStr (kr_id (last h))), (''revision_id'', PStr (kr_id r)),
               (''project_id'', PStr (kr_project r)), (''version'', pget (kr_payload r) ''version''),
               (''title'', pget (kr_payload r) ''title''), (''summary'', pget (kr_payload r) ''summary''),
               (''members'', PList rows), (''member_count'', PInt (int (length rows))),
               (''unavailable_count'', PInt (int (stale_count rows))), (''citation'', citation r),
               (''is_current_revision'', PBool (kr_id r = kr_id (last h)))]
             @ (if show_overview then [(''overview'', pget (kr_payload r) ''overview'')] else []))))))"

definition query_collections ::
  "'x know_env \<Rightarrow> pyval \<Rightarrow> pyval \<Rightarrow> pyval \<Rightarrow> pyval \<Rightarrow> pyval \<Rightarrow> pyval \<Rightarrow> pyval \<Rightarrow> pyval \<Rightarrow> 'x db
     \<Rightarrow> py_error + pyval" where
  "query_collections env project_id collection_id detail include_history member_index member_offset member_limit
       token_budget db =
     bindE (if collection_id = PNone then Inr [] else require_identifier collection_id ''collection_id'') (\<lambda>_.
     bindE (ensure (detail \<in> PStr ` lit ` {''summary'', ''overview'', ''full''})
              (ValueError ''detail must be summary, overview or full'')) (\<lambda>_.
     bindE (case include_history of PBool b \<Rightarrow> Inr b | _ \<Rightarrow> Inl (ValueError ''include_history must be a boolean'')) (\<lambda>history.
     bindE (bounded_integer member_offset ''member_offset'' 0 (2 ^ 63 - 1)) (\<lambda>offset.
     bindE (bounded_integer member_limit ''member_limit'' 1 8000) (\<lambda>limit.
     bindE (if member_index \<noteq> PNone then
              bindE (bounded_integer member_index ''member_index'' 0 15) (\<lambda>k.
              bindE (ensure (collection_id \<noteq> PNone \<and> detail = PStr (lit ''full'') \<and> \<not> history)
                (ValueError ''member_index requires one current collection and full detail'')) (\<lambda>_. Inr (Some k)))
            else bindE (ensure (offset = 0) (ValueError ''member_offset requires an exact member_index'')) (\<lambda>_. Inr None)) (\<lambda>mi.
     bindE (ensure (detail = PStr (lit ''full'') \<or> limit = 4000)
              (ValueError ''member_limit applies only to full source detail'')) (\<lambda>_.
     bindE (read_kinds env project_id collection_kinds db) (\<lambda>rs.
     bindE (collections env rs) (\<lambda>histories.
     bindE (mapE (\<lambda>(entry, r). revision_row env (detail = PStr (lit ''full'')) (detail \<noteq> PStr (lit ''summary''))
                     mi offset limit entry r)
              (concat (map (\<lambda>(i, h). map (\<lambda>r. ((i, h), r)) (rev (if history then h else [last h])))
                 (filter (\<lambda>(i, _). collection_id = PNone \<or> collection_id = PStr i) (rev histories))))) (\<lambda>rows.
       bounded_results rows token_budget
         (entries (mkdict [(''detail'', detail), (''include_history'', PBool history),
            (''source_validation'', PStr (lit ''current_project_scope_and_exact_content_hash''))]))))))))))))"

section \<open>The lease, abstractly\<close>

text \<open>What a handoff promises: it is free, held by one actor until an instant, or done.\<close>

datatype lease = Free | Held pystr int | Done

inductive lease_step :: "lease \<Rightarrow> transition \<Rightarrow> lease \<Rightarrow> bool" where
  claim_free: "tr_action t = Claim \<Longrightarrow> tr_until t = Some u \<Longrightarrow> lease_step Free t (Held (tr_actor t) u)"
| claim_expired: "tr_action t = Claim \<Longrightarrow> tr_until t = Some u \<Longrightarrow> e \<le> tr_moment t \<Longrightarrow>
    lease_step (Held a e) t (Held (tr_actor t) u)"
| renew: "tr_action t = Renew \<Longrightarrow> tr_until t = Some u \<Longrightarrow> tr_moment t < e \<Longrightarrow>
    lease_step (Held (tr_actor t) e) t (Held (tr_actor t) u)"
| release: "tr_action t = Release \<Longrightarrow> tr_moment t < e \<Longrightarrow> lease_step (Held (tr_actor t) e) t Free"
| complete: "tr_action t = Complete \<Longrightarrow> tr_moment t < e \<Longrightarrow> lease_step (Held (tr_actor t) e) t Done"

inductive_simps lease_step_simps: "lease_step Free t l" "lease_step (Held a e) t l" "lease_step Done t l"

definition lease_of :: "handoff \<Rightarrow> lease" where
  "lease_of s = (case (ho_status s, ho_owner s, ho_until s) of
     (Completed, _, _) \<Rightarrow> Done | (Claimed, Some a, Some u) \<Rightarrow> Held a u | _ \<Rightarrow> Free)"

section \<open>Handoff lemmas\<close>

definition expected_of :: "krec \<Rightarrow> pystr" where
  "expected_of r = (case pget (kr_payload r) ''expected_head'' of PStr s \<Rightarrow> s | _ \<Rightarrow> [])"

definition handoff_target :: "krec \<Rightarrow> pystr option" where
  "handoff_target r = (if kr_kind r = lit ''handoff'' then None else as_str (pget (kr_payload r) ''handoff_id''))"

definition handoff_log :: "(pystr, handoff) odict \<Rightarrow> pystr \<Rightarrow> krec list option" where
  "handoff_log states i = map_option (\<lambda>s. ho_record s # ho_history s) (oget states i)"

definition status_after :: "action \<Rightarrow> status" where
  "status_after a = (case a of Claim \<Rightarrow> Claimed | Renew \<Rightarrow> Claimed | Release \<Rightarrow> Open | Complete \<Rightarrow> Completed)"

text \<open>A state is what its last transition made it.\<close>

definition handoff_ok :: "'x know_env \<Rightarrow> handoff \<Rightarrow> bool" where
  "handoff_ok env s \<longleftrightarrow> ho_head s = kr_id (last (ho_record s # ho_history s)) \<and>
     (if ho_history s = [] then ho_status s = Open \<and> ho_owner s = None \<and> ho_until s = None
      else \<exists>t. transition_payload env (kr_payload (last (ho_history s))) = Inr t \<and>
        ho_last s = Some (tr_moment t) \<and> ho_until s = tr_until t \<and> ho_status s = status_after (tr_action t) \<and>
        ho_owner s = (if tr_until t = None then None else Some (tr_actor t)))"

lemma bounded_integer_Inr: "bounded_integer v name lo hi = Inr i \<longleftrightarrow> v = PInt i \<and> lo \<le> i \<and> i \<le> hi"
  by (cases v) (auto simp: bounded_integer_def)

lemma require_text_str: "require_text v name n = Inr s \<Longrightarrow> v = PStr s"
  by (simp add: require_text_Inr)

lemma transition_payload_fields:
  assumes "transition_payload env p = Inr t"
  shows "pget p ''handoff_id'' = PStr (tr_handoff t)" "pget p ''expected_head'' = PStr (tr_expected t)"
    "tr_until t \<noteq> None \<longleftrightarrow> tr_action t = Claim \<or> tr_action t = Renew"
    "tr_until t = Some u \<Longrightarrow> tr_moment t < u \<and> u \<le> tr_moment t + 86400 * 1000000"
    "read_action (pget p ''action'') = Inr (tr_action t)" "pget p ''actor'' = PStr (tr_actor t)"
  using assms
  by (auto simp: transition_payload_def require_identifier_Inr bounded_integer_Inr dest!: require_text_str split: if_splits)

lemma lease_of_simps:
  "handoff_ok env s \<Longrightarrow> ho_status s = Claimed \<longleftrightarrow> (\<exists>a u. lease_of s = Held a u \<and> ho_owner s = Some a \<and> ho_until s = Some u)"
  "lease_of s = Done \<longleftrightarrow> ho_status s = Completed"
  by (auto simp: handoff_ok_def lease_of_def status_after_def dest: transition_payload_fields(3)
      split: if_splits status.splits action.splits option.splits)

lemma apply_transition_Inr:
  "apply_transition env s r = Inr s' \<longleftrightarrow> (\<exists>t. transition_payload env (kr_payload r) = Inr t \<and> ho_head s = tr_expected t
     \<and> ho_status s \<noteq> Completed \<and> (case ho_last s of None \<Rightarrow> True | Some l \<Rightarrow> l \<le> tr_moment t)
     \<and> (if tr_action t = Claim then \<not> active_at s (tr_moment t)
         else active_at s (tr_moment t) \<and> ho_owner s = Some (tr_actor t))
     \<and> s' = s\<lparr>ho_head := kr_id r, ho_status := status_after (tr_action t),
         ho_owner := (if tr_until t = None then None else Some (tr_actor t)), ho_until := tr_until t,
         ho_last := Some (tr_moment t), ho_history := ho_history s @ [r]\<rparr>)"
proof (cases "transition_payload env (kr_payload r)")
  case (Inr t)
  show ?thesis
    using transition_payload_fields(3) [OF Inr] Inr
    by (cases "tr_action t") (auto simp: apply_transition_def status_after_def)
qed (simp add: apply_transition_def)

lemma opened_ok: "handoff_ok env (opened r)"
  by (simp add: handoff_ok_def opened_def)

lemma apply_transition_ok: "apply_transition env s r = Inr s' \<Longrightarrow> handoff_ok env s'"
  by (auto simp: apply_transition_Inr handoff_ok_def)

lemma lease_refines:
  assumes "handoff_ok env s"
  shows "(\<exists>s'. apply_transition env s r = Inr s' \<and> lease_of s' = l) \<longleftrightarrow>
    (\<exists>t. transition_payload env (kr_payload r) = Inr t \<and> tr_expected t = ho_head s
       \<and> (case ho_last s of None \<Rightarrow> True | Some m \<Rightarrow> m \<le> tr_moment t) \<and> lease_step (lease_of s) t l)"
proof (cases "transition_payload env (kr_payload r)")
  case (Inr t)
  note f = transition_payload_fields(3) [OF Inr]
  show ?thesis
  proof (cases "lease_of s")
    case Free
    then have st: "ho_status s = Open"
      using lease_of_simps(1) [OF assms] by (cases "ho_status s") (auto simp: lease_of_def)
    then show ?thesis using Inr Free f
      by (auto simp: apply_transition_Inr active_at_def lease_step_simps lease_of_def status_after_def
          split: action.splits option.splits if_splits)
  next
    case (Held a e)
    then have st: "ho_status s = Claimed" "ho_owner s = Some a" "ho_until s = Some e"
      by (auto simp: lease_of_def split: status.splits option.splits)
    then show ?thesis using Inr Held f
      by (auto simp: apply_transition_Inr active_at_def lease_step_simps lease_of_def status_after_def
          split: action.splits option.splits if_splits)
  next
    case Done
    then have "ho_status s = Completed" by (auto simp: lease_of_def split: status.splits option.splits)
    then show ?thesis using Inr Done by (auto simp: apply_transition_Inr lease_step_simps)
  qed
qed (simp add: apply_transition_Inr)

lemma ordered_distinct:
  assumes "ordered_records rs = Inr ()"
  shows "distinct (map kr_id rs) \<and> sorted_wrt (\<lambda>a b. kr_order a < kr_order b) rs"
proof -
  have "foldE ordered_step (0, []) rs = Inr st \<Longrightarrow> set (snd st) = kr_id ` set rs \<and> distinct (map kr_id rs)
     \<and> sorted_wrt (\<lambda>a b. kr_order a < kr_order b) rs \<and> (\<forall>r\<in>set rs. kr_order r \<le> fst st)" for st
  proof (induction rs arbitrary: st rule: rev_induct)
    case (snoc r rs)
    then obtain u where "foldE ordered_step (0, []) rs = Inr u" "ordered_step u r = Inr st" by (auto simp: foldE_snoc_Inr)
    with snoc.IH [OF this(1)] show ?case
      by (force simp: ordered_step_def sorted_wrt_append split: prod.splits)
  qed simp
  with assms show ?thesis by (auto simp: ordered_records_def)
qed

definition handoffs_ok :: "'x know_env \<Rightarrow> (pystr, handoff) odict \<Rightarrow> bool" where
  "handoffs_ok env states \<longleftrightarrow> (\<forall>i s. oget states i = Some s \<longrightarrow> handoff_ok env s)"

interpretation leases: head_cas "handoff_step env" "handoffs_ok env" handoff_log handoff_target expected_of
  for env :: "'x know_env"
proof unfold_locales
  fix s r s'
  assume good: "handoffs_ok env s" and step: "handoff_step env s r = Inr s'"
  show "handoffs_ok env s'"
  proof (cases "kr_kind r = lit ''handoff''")
    case True
    with step good show ?thesis by (auto simp: handoff_step_def handoffs_ok_def opened_ok split: if_splits)
  next
    case False
    with step obtain i h h' where h: "apply_transition env h r = Inr h'" "s' = oset i h' s"
      by (auto simp: handoff_step_def split: option.splits)
    with apply_transition_ok [OF h(1)] good show ?thesis
      by (auto simp: handoffs_ok_def split: if_splits)
  qed
next
  fix s r s'
  assume good: "handoffs_ok env s" and step: "handoff_step env s r = Inr s'" and tg: "handoff_target r = None"
  have "kr_kind r = lit ''handoff''"
  proof (rule ccontr)
    assume k: "kr_kind r \<noteq> lit ''handoff''"
    with step obtain t :: transition where "transition_payload env (kr_payload r) = Inr t" by (auto simp: handoff_step_def)
    with tg k show False by (auto simp: handoff_target_def dest: transition_payload_fields(1))
  qed
  with step show "handoff_log s' = (handoff_log s)(kr_id r \<mapsto> [r])"
    by (auto simp: handoff_step_def handoff_log_def opened_def)
next
  fix s r s' i
  assume good: "handoffs_ok env s" and step: "handoff_step env s r = Inr s'" and tg: "handoff_target r = Some i"
  then have k: "kr_kind r \<noteq> lit ''handoff''" by (auto simp: handoff_target_def)
  with step obtain t :: transition and h h' where t: "transition_payload env (kr_payload r) = Inr t"
    and h: "oget s (tr_handoff t) = Some h" "apply_transition env h r = Inr h'" "s' = oset (tr_handoff t) h' s"
    by (auto simp: handoff_step_def split: option.splits)
  have i: "tr_handoff t = i" "expected_of r = tr_expected t"
    using tg k transition_payload_fields(1,2) [OF t] by (auto simp: handoff_target_def expected_of_def)
  have "ho_head h = tr_expected t" "ho_record h' = ho_record h" "ho_history h' = ho_history h @ [r]"
    using h(2) t by (auto simp: apply_transition_Inr)
  moreover have "ho_head h = kr_id (last (ho_record h # ho_history h))"
    using good h(1) by (auto simp: handoffs_ok_def handoff_ok_def)
  ultimately show "\<exists>h. handoff_log s i = Some h \<and> h \<noteq> [] \<and> expected_of r = kr_id (last h) \<and>
      handoff_log s' = (handoff_log s)(i \<mapsto> h @ [r])"
    using h i by (auto simp: handoff_log_def fun_eq_iff)
qed

interpretation handoff_history: replayed_kinds handoff_kinds "handoffs env" for env :: "'x know_env"
  by unfold_locales (simp add: handoffs_def ordered_records_def)

lemma handoffs_facts:
  assumes "handoffs env rs = Inr states"
  shows "foldE (handoff_step env) [] rs = Inr states" "distinct (map kr_id rs)" "handoffs_ok env states"
    "handoff_log [] = Map.empty" "handoffs_ok env []"
proof -
  show "foldE (handoff_step env) [] rs = Inr states" "distinct (map kr_id rs)"
    using assms ordered_distinct [of rs] by (auto simp: handoffs_def)
  moreover show "handoff_log [] = Map.empty" "handoffs_ok env []" by (auto simp: handoff_log_def handoffs_ok_def)
  ultimately show "handoffs_ok env states" using leases.one_successor(1) by blast
qed

lemma handoffs_payload:
  assumes "handoffs env rs = Inr states" "r \<in> set rs" "kr_kind r = lit ''handoff_transition''"
  shows "\<exists>t. transition_payload env (kr_payload r) = Inr t"
  using foldE_memD [OF handoffs_facts(1) [OF assms(1)] assms(2)] assms(3) by (auto simp: handoff_step_def)

text \<open>The state a committed transition leaves its handoff in.\<close>

lemma transition_inversion:
  assumes "transition_handoff env moment current pid sid hid x act actor secs db = Inr (db', rec)"
  obtains payload and p :: transition and a where "append_record env pid sid (lit ''handoff_transition'') payload
      (transition_validator env pid (tr_handoff p) a moment current) db = Inr (db', rec)"
    "transition_payload env payload = Inr p" "is_dict payload" "dget payload ''expected_head'' = Some x"
    "dget payload ''action'' = Some act" "dget payload ''actor'' = Some actor" "dget payload ''handoff_id'' = Some hid"
    "read_action act = Inr a"
proof -
  let ?pl = "\<lambda>seconds expiry. mkdict [(''schema'', PInt 1), (''handoff_id'', hid), (''expected_head'', x),
           (''action'', act), (''actor'', actor), (''occurred_at'', PStr (isoformat moment)),
           (''lease_seconds'', seconds), (''lease_until'', expiry)]"
  from assms obtain a p seconds expiry where a: "read_action act = Inr a"
    and tp: "transition_payload env (?pl seconds expiry) = Inr p"
    and app: "append_record env pid sid (lit ''handoff_transition'') (?pl seconds expiry)
      (transition_validator env pid (tr_handoff p) a moment current) db = Inr (db', rec)"
    by (auto simp: transition_handoff_def Let_def split: prod.splits)
  have "is_dict (?pl seconds expiry)" by (simp add: mkdict_def)
  then show thesis by (rule that [OF app tp _ _ _ _ _ a]) simp_all
qed

text \<open>The facts the validator establishes of the committed database.\<close>

lemma live_until_Inr: "live_until e current message = Inr u \<longleftrightarrow> (\<exists>x. e = Some x \<and> micros current < x)"
  by (cases e) (auto simp: live_until_def)

lemma transition_validator_ok:
  assumes "transition_validator env pid i a moment current db rec = Inr ()"
  shows "\<exists>rs states s. read_kinds env pid handoff_kinds db = Inr rs \<and> handoffs env rs = Inr states
    \<and> oget states i = Some s \<and> ho_head s = kr_id rec
    \<and> (a = Claim \<or> a = Renew \<longrightarrow> (\<exists>u. ho_until s = Some u \<and> micros current < u))"
proof -
  from assms obtain rs states where r: "read_kinds env pid handoff_kinds db = Inr rs" "handoffs env rs = Inr states"
    by (auto simp: transition_validator_def)
  show ?thesis
  proof (cases "oget states i")
    case None
    then show ?thesis using assms r by (simp add: transition_validator_def)
  next
    case (Some s)
    then have "ho_head s = kr_id rec \<and>
        (a = Claim \<or> a = Renew \<longrightarrow> live_until (ho_until s) current ''lease expired before the transition could commit'' = Inr ())"
      using assms r by (simp add: transition_validator_def split: if_splits)
    then show ?thesis using r Some by (simp add: live_until_Inr)
  qed
qed

lemma payload_key:
  assumes "py_eq v w" "is_dict w" "pget v k = PStr x" "dget w k = Some y"
  shows "y = PStr x"
proof -
  from assms(3) have "dget v k = Some (PStr x)" by (auto simp: dget_or_def split: option.splits)
  from py_eq_dget [OF assms(1,2) this] assms(4) show ?thesis by (cases y) auto
qed

lemma handoff_log_last:
  assumes "handoffs env rs = Inr states" "oget states i = Some s" "r \<in> set rs" "ho_head s = kr_id r"
  shows "last (ho_record s # ho_history s) = r \<and> (if ho_history s = [] then handoff_target r = None \<or> r = ho_record s else r \<in> set (ho_history s))"
proof -
  note f = handoffs_facts [OF assms(1)]
  have lg: "handoff_log states i = Some (ho_record s # ho_history s)" using assms(2) by (simp add: handoff_log_def)
  let ?l = "last (ho_record s # ho_history s)"
  have "?l \<in> set rs" using leases.one_successor(3) [OF f(1,4,5,2) lg] last_in_set [of "ho_record s # ho_history s"] by blast
  moreover have "kr_id ?l = kr_id r" using f(3) assms(2,4) unfolding handoffs_ok_def handoff_ok_def by metis
  ultimately have l: "?l = r" using f(2) assms(3) unfolding distinct_map by (meson inj_onD)
  then show ?thesis by (cases "ho_history s = []") auto
qed

section \<open>Collections\<close>

definition collection_target :: "krec \<Rightarrow> pystr option" where
  "collection_target r = (if kr_kind r = lit ''collection_revision'' then as_str (pget (kr_payload r) ''collection_id'') else None)"

definition versions_ok :: "(pystr, krec list) odict \<Rightarrow> bool" where
  "versions_ok hs \<longleftrightarrow> (\<forall>c h. oget hs c = Some h \<longrightarrow> map version_of h = [1..int (length h)])"

lemma collection_payload_fields:
  assumes "collection_payload env revision p = Inr v"
  shows "pget p ''version'' = PInt v" "\<not> revision \<Longrightarrow> v = 1"
    "revision \<Longrightarrow> \<exists>c x. pget p ''collection_id'' = PStr c \<and> pget p ''expected_head'' = PStr x"
  using assms by (auto simp: collection_payload_def bounded_integer_Inr require_identifier_Inr split: if_splits)

lemma upto_snoc: "0 \<le> n \<Longrightarrow> [1..n + 1] = [1..n] @ [n + 1 :: int]"
  by (simp add: upto_rec2)

interpretation revisions: head_cas "collection_step env" versions_ok oget collection_target expected_of
  for env :: "'x know_env"
proof unfold_locales
  fix s r s'
  assume good: "versions_ok s" and step: "collection_step env s r = Inr s'"
  let ?rev = "kr_kind r = lit ''collection_revision''"
  from step obtain v where v: "collection_payload env ?rev (kr_payload r) = Inr v"
    by (auto simp: collection_step_def Let_def)
  have ver: "version_of r = v" using collection_payload_fields(1) [OF v] by (simp add: version_of_def)
  show "versions_ok s'"
  proof (cases ?rev)
    case False
    with step v good ver collection_payload_fields(2) [OF v] show ?thesis
      by (auto simp: collection_step_def Let_def versions_ok_def split: if_splits)
  next
    case True
    with step v obtain c h where h: "oget s c = Some h" "h \<noteq> []" "v = version_of (last h) + 1" "s' = oset c (h @ [r]) s"
      by (auto simp: collection_step_def Let_def split: option.splits)
    then have m: "map version_of h = [1..int (length h)]" using good by (simp add: versions_ok_def)
    have "version_of (last h) = last (map version_of h)" using h(2) by (simp add: last_map)
    also have "\<dots> = int (length h)" using h(2) m by (cases h) (simp_all add: upto_rec2)
    finally have "map version_of (h @ [r]) = [1..int (length (h @ [r]))]"
      using m ver h(3) upto_snoc [of "int (length h)"] by (simp add: add.commute)
    with h good show ?thesis by (auto simp: versions_ok_def split: if_splits)
  qed
next
  fix s r s'
  assume "versions_ok s" and step: "collection_step env s r = Inr s'" and tg: "collection_target r = None"
  let ?rev = "kr_kind r = lit ''collection_revision''"
  from step obtain v where v: "collection_payload env ?rev (kr_payload r) = Inr v"
    by (auto simp: collection_step_def Let_def)
  have "\<not> ?rev" using tg collection_payload_fields(3) [OF v] by (auto simp: collection_target_def)
  with step show "oget s' = (oget s)(kr_id r \<mapsto> [r])"
    by (auto simp: collection_step_def Let_def fun_eq_iff)
next
  fix s r s' i
  assume "versions_ok s" and step: "collection_step env s r = Inr s'" and tg: "collection_target r = Some i"
  then have k: "kr_kind r = lit ''collection_revision''" "as_str (pget (kr_payload r) ''collection_id'') = Some i"
    by (auto simp: collection_target_def split: if_splits)
  with step obtain h where "oget s i = Some h" "h \<noteq> []" "s' = oset i (h @ [r]) s"
    "pget (kr_payload r) ''expected_head'' = PStr (kr_id (last h))"
    by (cases "oget s i") (auto simp: collection_step_def Let_def)
  then show "\<exists>h. oget s i = Some h \<and> h \<noteq> [] \<and> expected_of r = kr_id (last h) \<and> oget s' = (oget s)(i \<mapsto> h @ [r])"
    by (auto simp: expected_of_def fun_eq_iff)
qed

interpretation collection_history: replayed_kinds collection_kinds "collections env" for env :: "'x know_env"
  by unfold_locales (simp add: collections_def ordered_records_def)

lemma collections_facts:
  assumes "collections env rs = Inr hs"
  shows "foldE (collection_step env) [] rs = Inr hs" "distinct (map kr_id rs)" "oget [] = Map.empty" "versions_ok []"
  using assms ordered_distinct [of rs] by (auto simp: collections_def versions_ok_def)

section \<open>Properties\<close>

text \<open>C23 The handoff code refines the lease: in every replayed state a transition record is accepted
  exactly when it names the current head, does not run the clock backwards and the abstract lease allows
  it, and the lease afterwards is the abstract one.  So a lease is taken only when free or expired, renewed,
  released and completed only by its unexpired holder, and nothing follows completion.\<close>

theorem lease_refinement:
  assumes "handoffs env rs = Inr states" "oget states i = Some s"
  shows "(\<exists>s'. apply_transition env s r = Inr s' \<and> lease_of s' = l) \<longleftrightarrow>
    (\<exists>t. transition_payload env (kr_payload r) = Inr t \<and> tr_expected t = ho_head s
       \<and> (case ho_last s of None \<Rightarrow> True | Some m \<Rightarrow> m \<le> tr_moment t) \<and> lease_step (lease_of s) t l)"
  using handoffs_facts(3) [OF assms(1)] assms(2) by (auto simp: handoffs_ok_def lease_refines)

definition demo_handoff :: krec where
  "demo_handoff = \<lparr>kr_id = lit ''h1'', kr_session = lit ''s'', kr_project = lit ''p'', kr_recorded = [],
     kr_kind = lit ''handoff'', kr_payload = mkdict [(''schema'', PInt 1), (''objective'', PStr (lit ''x'')),
       (''actor'', PStr (lit ''a'')), (''accepted_decisions'', PList []), (''unfinished_work'', PList []),
       (''evidence'', PList [])], kr_hash = [], kr_order = 1\<rparr>"

lemma demo_handoffs: "handoffs demo_know [demo_handoff] = Inr [(lit ''h1'', opened demo_handoff)]"
proof -
  have t: "require_text (PStr [c]) name n = Inr [c]" if "33 \<le> c" "c < 127" "0 < n" for c name n
    using that by (intro require_text_printable) simp_all
  show ?thesis
    by (simp add: t handoffs_def ordered_records_def ordered_step_def demo_handoff_def require_identifier_def
        is_identifier_def ident_char_def handoff_step_def handoff_payload_def coord_shape_def citations_def texts_def
        demo_know_def has_keys_def mkdict_def dget_or_def dget_def opened_def lit_def)
qed

theorem lease_refinement_witness:
  "handoffs demo_know [demo_handoff] = Inr [(lit ''h1'', opened demo_handoff)] \<and>
   (\<forall>r l. (\<exists>s'. apply_transition demo_know (opened demo_handoff) r = Inr s' \<and> lease_of s' = l) \<longleftrightarrow>
    (\<exists>t. transition_payload demo_know (kr_payload r) = Inr t \<and> tr_expected t = lit ''h1'' \<and> lease_step Free t l))"
  using lease_refinement [OF demo_handoffs, of "lit ''h1''" "opened demo_handoff"] demo_handoffs
  by (simp add: opened_def lease_of_def demo_handoff_def)

text \<open>The history of a handoff is a chain: it starts with the handoff record, each transition names
  the record before it, the head is the last record, and over the whole replay no record is named as the
  expected head twice.\<close>

lemma handoff_chain:
  assumes "handoffs env rs = Inr states" "oget states i = Some s"
  shows "kr_id (ho_record s) = i \<and> linked expected_of (ho_record s # ho_history s)
    \<and> ho_head s = kr_id (last (ho_record s # ho_history s)) \<and> set (ho_record s # ho_history s) \<subseteq> set rs
    \<and> distinct (map expected_of (filter (\<lambda>r. handoff_target r \<noteq> None) rs))"
proof -
  note f = handoffs_facts [OF assms(1)]
  have lg: "handoff_log states i = Some (ho_record s # ho_history s)" using assms(2) by (simp add: handoff_log_def)
  have hd: "ho_head s = kr_id (last (ho_record s # ho_history s))"
    using f(3) assms(2) unfolding handoffs_ok_def handoff_ok_def by metis
  show ?thesis
    using leases.one_successor(3) [OF f(1,4,5,2) lg] leases.one_successor(2) [OF f(1,4,5,2)] hd by simp
qed

lemma handoff_chain_witness:
  "handoffs demo_know [demo_handoff] = Inr [(lit ''h1'', opened demo_handoff)] \<and>
   linked expected_of (demo_handoff # []) \<and> kr_id demo_handoff = lit ''h1''"
  using handoff_chain [OF demo_handoffs, of "lit ''h1''" "opened demo_handoff"] demo_handoffs by (simp add: opened_def)

text \<open>Two writers cannot both follow one head: once a stored transition names a record as its expected
  head, another transition naming the same record stores nothing, whatever its action, actor and clock.\<close>

lemma stale_transition_stores_nothing:
  assumes "policy_passes env" "read_kinds env pid handoff_kinds db = Inr rs" "r0 \<in> set rs"
    and "kr_kind r0 = lit ''handoff_transition''"
  shows "events (committed db (transition_handoff env moment current pid sid hid (PStr (expected_of r0)) act actor secs db))
    = events db"
proof (rule ccontr)
  let ?x = "PStr (expected_of r0)"
  assume "\<not> ?thesis"
  then obtain db' rec where run: "transition_handoff env moment current pid sid hid ?x act actor secs db = Inr (db', rec)"
    and new: "events db' \<noteq> events db"
    by (auto simp: committed_def split: sum.splits)
  obtain payload and p :: transition and a where
    app: "append_record env pid sid (lit ''handoff_transition'') payload
      (transition_validator env pid (tr_handoff p) a moment current) db = Inr (db', rec)"
    and tp: "transition_payload env payload = Inr p" and pl: "is_dict payload" "dget payload ''expected_head'' = Some ?x"
    and "dget payload ''action'' = Some act" "dget payload ''actor'' = Some actor" "dget payload ''handoff_id'' = Some hid"
    and "read_action act = Inr a"
    by (rule transition_inversion [OF run])
  note ok = append_record_faithful_aux [OF app assms(1)]
  from transition_validator_ok ok obtain rs' states where rs': "read_kinds env pid handoff_kinds db' = Inr rs'"
    "handoffs env rs' = Inr states" by blast
  note adds = append_adds [OF app assms(1) new _ assms(2) rs'(1)]
  have mem: "rec \<in> set rs'" "r0 \<in> set rs'" "rec \<noteq> r0" using adds assms(3) by (auto simp: handoff_kinds_def)
  note f = handoffs_facts [OF rs'(2)]
  have k: "kr_kind rec = lit ''handoff_transition''" using ok by simp
  from handoffs_payload [OF rs'(2) mem(1) k] obtain t :: transition where
    t: "transition_payload env (kr_payload rec) = Inr t" by blast
  from handoffs_payload [OF rs'(2) mem(2) assms(4)] obtain t0 :: transition where
    t0: "transition_payload env (kr_payload r0) = Inr t0" by blast
  note tf = transition_payload_fields [OF t] and tf0 = transition_payload_fields [OF t0]
  have "?x = PStr (tr_expected t)" using payload_key [OF _ pl(1) tf(2) pl(2)] ok by blast
  then have "expected_of rec = expected_of r0" using tf(2) by (simp add: expected_of_def [of rec])
  moreover have "handoff_target rec \<noteq> None" "handoff_target r0 \<noteq> None"
    using tf(1) tf0(1) k assms(4) by (simp_all add: handoff_target_def)
  ultimately show False
    using leases.same_successor [OF f(1,4,5,2) mem(1,2)] mem(3) by blast
qed

text \<open>A database holding one record.\<close>

definition demo_now :: civil where
  "demo_now = \<lparr>c_year = 2026, c_month = 1, c_day = 1, c_hour = 0, c_minute = 0, c_second = 0, c_micro = 0\<rparr>"

lemma py_eq_single: "py_eq v (PDict [(PStr k, PStr x)]) \<Longrightarrow> v = PDict [(PStr k, PStr x)]"
proof (cases v)
  case (PDict kvs)
  assume "py_eq v (PDict [(PStr k, PStr x)])"
  with PDict obtain k' y where "kvs = [(k', y)]" "py_eq v (PDict [(PStr k, PStr x)])"
    by (cases kvs rule: remdups_adj.cases) auto
  with PDict show ?thesis by (cases y) (auto split: if_splits)
qed auto

lemma demo_one_record:
  assumes "encode_record (knowledge_envelope demo_know (lit ''p'') kind payload) = Inr body" "kind \<in> set kinds"
    "is_dict payload" "good_json payload" "kind \<in> set wanted" "set wanted \<subseteq> set kinds"
  shows "\<exists>(db :: unit db) rec. events db \<noteq> [] \<and> read_kinds demo_know (PStr (lit ''p'')) wanted db = Inr [rec]
    \<and> kr_kind rec = kind \<and> py_eq (kr_payload rec) payload"
proof -
  from demo_append_of [OF assms(1-4)] obtain db' :: "unit db" and rec where
    run: "append_record demo_know (PStr (lit ''p'')) (PStr (lit ''s'')) kind payload (\<lambda>_ _. Inr ())
      \<lparr>events = [], segments = [], derived = ()\<rparr> = Inr (db', rec)" "events db' \<noteq> []" by blast
  have "read_all demo_know (lit ''p'') 10000 (events db') = Inr [rec]" "kr_kind rec = kind" "py_eq (kr_payload rec) payload"
    using read_first [OF run(1) demo_know_ok(2) _ run(2) demo_scope(1)] by auto
  with run(2) assms(5,6) demo_scope show ?thesis by (auto simp: read_kinds_Inr)
qed

lemma stale_transition_stores_nothing_witness:
  "\<exists>(db :: unit db) r0. events db \<noteq> [] \<and> expected_of r0 = lit ''h1'' \<and>
     events (committed db (transition_handoff demo_know demo_now demo_now (PStr (lit ''p'')) (PStr (lit ''s''))
       (PStr (lit ''h1'')) (PStr (lit ''h1'')) (PStr (lit ''claim'')) (PStr (lit ''b'')) PNone db)) = events db"
proof -
  let ?p = "mkdict [(''expected_head'', PStr (lit ''h1''))]"
  have "\<exists>body. encode_record (knowledge_envelope demo_know (lit ''p'') (lit ''handoff_transition'') ?p) = Inr body"
    by (simp add: demo_know_def demo_encode_defs)
  then obtain body where "encode_record (knowledge_envelope demo_know (lit ''p'') (lit ''handoff_transition'') ?p) = Inr body" ..
  from demo_one_record [OF this, of handoff_kinds] obtain db :: "unit db" and r0 where
    db: "events db \<noteq> []" "read_kinds demo_know (PStr (lit ''p'')) handoff_kinds db = Inr [r0]"
    "kr_kind r0 = lit ''handoff_transition''" "py_eq (kr_payload r0) ?p"
    by (auto simp: kinds_def handoff_kinds_def mkdict_def)
  have "expected_of r0 = lit ''h1''"
    using py_eq_single [OF db(4) [unfolded mkdict_def, simplified]] by (simp add: expected_of_def dget_or_def dget_def)
  with stale_transition_stores_nothing [OF demo_know_ok(2) db(2) _ db(3)] db(1) show ?thesis by fastforce
qed



text \<open>What each operation appends, and what its validator read.\<close>

lemma create_handoff_appends:
  assumes "create_handoff env pid sid obj actor acc unf ev db = Inr (db', rec)"
  shows "\<exists>payload v. append_record env pid sid (lit ''handoff'') payload v db = Inr (db', rec) \<and>
    (v db' rec = Inr () \<longrightarrow> (\<exists>rs. read_kinds env pid handoff_kinds db' = Inr rs \<and> isOk (handoffs env rs)))"
proof -
  from assms obtain payload evs where
    app: "append_record env pid sid (lit ''handoff'') payload (handoff_validator env pid evs) db = Inr (db', rec)"
    by (auto simp: create_handoff_def Let_def)
  have "handoff_validator env pid evs db' rec = Inr () \<Longrightarrow>
      \<exists>rs. read_kinds env pid handoff_kinds db' = Inr rs \<and> isOk (handoffs env rs)"
    by (auto simp: handoff_validator_def)
  with app show ?thesis by blast
qed

lemma transition_handoff_appends:
  assumes "transition_handoff env moment current pid sid hid x act actor secs db = Inr (db', rec)"
  shows "\<exists>payload v. append_record env pid sid (lit ''handoff_transition'') payload v db = Inr (db', rec) \<and>
    (v db' rec = Inr () \<longrightarrow> (\<exists>rs. read_kinds env pid handoff_kinds db' = Inr rs \<and> isOk (handoffs env rs)))"
  using transition_inversion [OF assms] transition_validator_ok by (metis isOk_simps(1))

lemma create_collection_appends:
  assumes "create_collection env pid sid title summary overview members db = Inr (db', rec)"
  shows "\<exists>payload v. append_record env pid sid (lit ''collection'') payload v db = Inr (db', rec) \<and>
    (v db' rec = Inr () \<longrightarrow> (\<exists>rs. read_kinds env pid collection_kinds db' = Inr rs \<and> isOk (collections env rs)))"
proof -
  from assms obtain payload ms where
    app: "append_record env pid sid (lit ''collection'') payload (collection_validator env pid ms) db = Inr (db', rec)"
    by (auto simp: create_collection_def Let_def)
  have "collection_validator env pid ms db' rec = Inr () \<Longrightarrow>
      \<exists>rs. read_kinds env pid collection_kinds db' = Inr rs \<and> isOk (collections env rs)"
    by (auto simp: collection_validator_def)
  with app show ?thesis by blast
qed

lemma revision_validator_ok:
  "revision_validator env pid c ms db rec = Inr () \<Longrightarrow>
     \<exists>rs hs h. read_kinds env pid collection_kinds db = Inr rs \<and> collections env rs = Inr hs \<and> oget hs c = Some h
       \<and> h \<noteq> [] \<and> kr_id (last h) = kr_id rec"
  by (auto simp: revision_validator_def split: option.splits)

lemma revise_inversion:
  assumes "revise_collection env pid sid (PStr c) x title summary overview members db = Inr (db', rec)"
  obtains payload v where "append_record env pid sid (lit ''collection_revision'') payload v db = Inr (db', rec)"
    "is_dict payload" "dget payload ''expected_head'' = Some x"
    "v db' rec = Inr () \<Longrightarrow> \<exists>rs hs h. read_kinds env pid collection_kinds db' = Inr rs \<and> collections env rs = Inr hs
       \<and> oget hs c = Some h \<and> h \<noteq> [] \<and> kr_id (last h) = kr_id rec"
proof -
  from assms obtain rs histories where "read_kinds env pid collection_kinds db = Inr rs" "collections env rs = Inr histories"
    by (auto simp: revise_collection_def)
  with assms obtain h ms x' where x: "x = PStr x'" and
    app: "append_record env pid sid (lit ''collection_revision'') (mkdict [(''schema'', PInt 1), (''title'', title),
        (''summary'', summary), (''overview'', overview), (''members'', PList ms), (''version'', PInt (version_of (last h) + 1)),
        (''collection_id'', PStr c), (''expected_head'', PStr x')])
        (revision_validator env pid c (PList ms)) db = Inr (db', rec)"
    by (cases "oget histories c") (auto simp: revise_collection_def Let_def require_identifier_Inr)
  show thesis
    by (rule that [OF app]) (use x in \<open>auto simp: mkdict_def dget_def dest!: revision_validator_ok\<close>)
qed

lemma revise_collection_appends:
  assumes "revise_collection env pid sid cid x title summary overview members db = Inr (db', rec)"
  shows "\<exists>payload v. append_record env pid sid (lit ''collection_revision'') payload v db = Inr (db', rec) \<and>
    (v db' rec = Inr () \<longrightarrow> (\<exists>rs. read_kinds env pid collection_kinds db' = Inr rs \<and> isOk (collections env rs)))"
proof -
  obtain c where c: "cid = PStr c" using assms by (auto simp: revise_collection_def require_identifier_Inr)
  show ?thesis by (rule revise_inversion [OF assms [unfolded c]]) (metis isOk_simps(1))
qed

lemma keeps_histories:
  assumes "\<And>db' rec. result = Inr (db', rec) \<Longrightarrow> \<exists>payload v. append_record env pid sid kind payload v db = Inr (db', rec) \<and>
      (kind \<in> set handoff_kinds \<longrightarrow> v db' rec = Inr () \<longrightarrow> (\<exists>rs. read_kinds env pid handoff_kinds db' = Inr rs \<and> isOk (handoffs env rs))) \<and>
      (kind \<in> set collection_kinds \<longrightarrow> v db' rec = Inr () \<longrightarrow> (\<exists>rs. read_kinds env pid collection_kinds db' = Inr rs \<and> isOk (collections env rs)))"
    and "policy_passes env" and ok: "history_ok env handoff_kinds (handoffs env) project db"
      "history_ok env collection_kinds (collections env) project db"
  shows "history_ok env handoff_kinds (handoffs env) project (committed db result) \<and>
    history_ok env collection_kinds (collections env) project (committed db result)"
proof (cases result)
  case (Inr dr)
  obtain db' rec where run: "result = Inr (db', rec)" using Inr by (cases dr) auto
  with assms(1) obtain payload v where app: "append_record env pid sid kind payload v db = Inr (db', rec)"
    and h: "kind \<in> set handoff_kinds \<Longrightarrow> v db' rec = Inr () \<Longrightarrow> (\<exists>rs. read_kinds env pid handoff_kinds db' = Inr rs \<and> isOk (handoffs env rs))"
    and c: "kind \<in> set collection_kinds \<Longrightarrow> v db' rec = Inr () \<Longrightarrow> (\<exists>rs. read_kinds env pid collection_kinds db' = Inr rs \<and> isOk (collections env rs))"
    by blast
  show ?thesis
    using handoff_history.append_keeps [OF app assms(2) h ok(1)] collection_history.append_keeps [OF app assms(2) c ok(2)] run
    by (simp add: committed_def)
qed (use ok in \<open>simp add: committed_def\<close>)

text \<open>Opening a handoff, a handoff transition, opening a collection and revising one keep the handoff
  history and the collection history of every project replayable, whether they commit or fail.\<close>

lemma coordination_keeps_histories:
  assumes "policy_passes env" "history_ok env handoff_kinds (handoffs env) project db"
    "history_ok env collection_kinds (collections env) project db"
    and "result \<in> {create_handoff env pid sid obj actor acc unf ev db,
      transition_handoff env moment current pid sid hid x act actor secs db,
      create_collection env pid sid title summary overview members db,
      revise_collection env pid sid cid x title summary overview members db}"
  shows "history_ok env handoff_kinds (handoffs env) project (committed db result) \<and>
    history_ok env collection_kinds (collections env) project (committed db result)"
proof -
  have notin: "lit ''handoff'' \<notin> set collection_kinds" "lit ''handoff_transition'' \<notin> set collection_kinds"
    "lit ''collection'' \<notin> set handoff_kinds" "lit ''collection_revision'' \<notin> set handoff_kinds"
    by (simp_all add: handoff_kinds_def collection_kinds_def)
  note keeps = keeps_histories [where pid = pid and sid = sid, OF _ assms(1-3)]
  from assms(4) consider "result = create_handoff env pid sid obj actor acc unf ev db"
    | "result = transition_handoff env moment current pid sid hid x act actor secs db"
    | "result = create_collection env pid sid title summary overview members db"
    | "result = revise_collection env pid sid cid x title summary overview members db" by blast
  then show ?thesis
  proof cases
    case 1
    show ?thesis
      by (rule keeps [where kind = "lit ''handoff''"]) (use 1 notin create_handoff_appends in metis)
  next
    case 2
    show ?thesis
      by (rule keeps [where kind = "lit ''handoff_transition''"]) (use 2 notin transition_handoff_appends in metis)
  next
    case 3
    show ?thesis
      by (rule keeps [where kind = "lit ''collection''"]) (use 3 notin create_collection_appends in metis)
  next
    case 4
    show ?thesis
      by (rule keeps [where kind = "lit ''collection_revision''"]) (use 4 notin revise_collection_appends in metis)
  qed
qed

lemma coordination_keeps_histories_witness:
  "history_ok demo_know handoff_kinds (handoffs demo_know) (lit ''p'')
     (committed \<lparr>events = [], segments = [], derived = ()\<rparr>
       (create_handoff demo_know (PStr (lit ''p'')) (PStr (lit ''s'')) (PStr (lit ''x'')) (PStr (lit ''a'')) PNone PNone PNone
          \<lparr>events = [], segments = [], derived = ()\<rparr>))"
  using coordination_keeps_histories [OF demo_know_ok(2) handoff_history.ok_empty collection_history.ok_empty, where
      db = "\<lparr>events = [], segments = [], derived = ()\<rparr>" and project = "lit ''p''"
      and pid = "PStr (lit ''p'')" and sid = "PStr (lit ''s'')" and obj = "PStr (lit ''x'')" and actor = "PStr (lit ''a'')"
      and acc = PNone and unf = PNone and ev = PNone]
  by simp

text \<open>A collection is a gapless list of versions: its first record is the collection record, version
  numbers are 1, 2, 3 and so on, each revision names the one before it, and no record is revised twice.\<close>

lemma collection_versions:
  assumes "collections env rs = Inr hs" "oget hs c = Some h"
  shows "h \<noteq> [] \<and> kr_id (hd h) = c \<and> map version_of h = [1..int (length h)] \<and> linked expected_of h \<and> set h \<subseteq> set rs
    \<and> distinct (map expected_of (filter (\<lambda>r. collection_target r \<noteq> None) rs))"
proof -
  note f = collections_facts [OF assms(1)]
  show ?thesis
    using revisions.one_successor(3) [OF f(1,3,4,2) assms(2)] revisions.one_successor(1,2) [OF f(1,3,4,2)] assms(2)
    by (simp add: versions_ok_def)
qed

definition demo_collection :: krec where
  "demo_collection = demo_handoff\<lparr>kr_kind := lit ''collection'', kr_id := lit ''c1'', kr_payload := mkdict [(''schema'', PInt 1),
     (''title'', PStr (lit ''t'')), (''summary'', PStr (lit ''s'')), (''overview'', PStr (lit ''o'')),
     (''members'', PList []), (''version'', PInt 1)]\<rparr>"

lemma collection_versions_witness:
  "collections demo_know [demo_collection] = Inr [(lit ''c1'', [demo_collection])]
   \<and> map version_of [demo_collection] = [1..1]"
proof -
  have t: "require_text (PStr [c]) name n = Inr [c]" if "33 \<le> c" "c < 127" "0 < n" for c name n
    using that by (intro require_text_printable) simp_all
  have "collections demo_know [demo_collection] = Inr [(lit ''c1'', [demo_collection])]"
    by (simp add: t collections_def ordered_records_def ordered_step_def demo_handoff_def demo_collection_def
        require_identifier_def is_identifier_def ident_char_def collection_step_def collection_payload_def coord_shape_def
        citations_def bounded_integer_def demo_know_def has_keys_def mkdict_def dget_or_def dget_def lit_def)
  with collection_versions [OF this, of "lit ''c1''"] show ?thesis by simp
qed

text \<open>Two writers cannot both revise one version: once a stored revision names a record as its expected
  head, revising against that record again stores nothing.\<close>

lemma stale_revision_stores_nothing:
  assumes "policy_passes env" "read_kinds env pid collection_kinds db = Inr rs" "r0 \<in> set rs"
    and "kr_kind r0 = lit ''collection_revision''"
  shows "events (committed db (revise_collection env pid sid cid (PStr (expected_of r0)) title summary overview members db))
    = events db"
proof (rule ccontr)
  let ?x = "PStr (expected_of r0)"
  assume "\<not> ?thesis"
  then obtain db' rec where run: "revise_collection env pid sid cid ?x title summary overview members db = Inr (db', rec)"
    and new: "events db' \<noteq> events db"
    by (auto simp: committed_def split: sum.splits)
  obtain c where "cid = PStr c" using run by (auto simp: revise_collection_def require_identifier_Inr)
  with run obtain payload v where
    app: "append_record env pid sid (lit ''collection_revision'') payload v db = Inr (db', rec)"
    and pl: "is_dict payload" "dget payload ''expected_head'' = Some ?x"
    and v: "v db' rec = Inr () \<Longrightarrow> \<exists>rs hs. read_kinds env pid collection_kinds db' = Inr rs \<and> collections env rs = Inr hs"
    using revise_inversion [of env pid sid c ?x title summary overview members db db' rec] by metis
  note ok = append_record_faithful_aux [OF app assms(1)]
  from v ok obtain rs' hs where rs': "read_kinds env pid collection_kinds db' = Inr rs'" "collections env rs' = Inr hs" by blast
  note adds = append_adds [OF app assms(1) new _ assms(2) rs'(1)]
  have mem: "rec \<in> set rs'" "r0 \<in> set rs'" "rec \<noteq> r0" using adds assms(3) by (auto simp: collection_kinds_def)
  note f = collections_facts [OF rs'(2)]
  have fields: "\<exists>i x. pget (kr_payload r) ''collection_id'' = PStr i \<and> pget (kr_payload r) ''expected_head'' = PStr x"
    if "r \<in> set rs'" "kr_kind r = lit ''collection_revision''" for r
  proof -
    from foldE_memD [OF f(1) that(1)] that(2) obtain w where "collection_payload env True (kr_payload r) = Inr w"
      by (auto simp: collection_step_def Let_def)
    from collection_payload_fields(3) [OF this] show ?thesis by blast
  qed
  have k: "kr_kind rec = lit ''collection_revision''" using ok by simp
  from fields [OF mem(1) k] obtain i x where rec: "pget (kr_payload rec) ''collection_id'' = PStr i"
    "pget (kr_payload rec) ''expected_head'' = PStr x" by blast
  have "?x = PStr x" using payload_key [OF _ pl(1) rec(2) pl(2)] ok by blast
  then have "expected_of rec = expected_of r0" using rec(2) by (simp add: expected_of_def [of rec])
  moreover have "collection_target rec \<noteq> None" "collection_target r0 \<noteq> None"
    using rec(1) fields [OF mem(2) assms(4)] k assms(4) by (auto simp: collection_target_def)
  ultimately show False
    using revisions.same_successor [OF f(1,3,4,2) mem(1,2)] mem(3) by blast
qed

lemma stale_revision_stores_nothing_witness:
  "\<exists>(db :: unit db) r0. events db \<noteq> [] \<and> expected_of r0 = lit ''c1'' \<and>
     events (committed db (revise_collection demo_know (PStr (lit ''p'')) (PStr (lit ''s'')) (PStr (lit ''c1''))
       (PStr (lit ''c1'')) (PStr (lit ''t'')) (PStr (lit ''u'')) (PStr (lit ''o'')) (PList []) db)) = events db"
proof -
  let ?p = "mkdict [(''expected_head'', PStr (lit ''c1''))]"
  have "\<exists>body. encode_record (knowledge_envelope demo_know (lit ''p'') (lit ''collection_revision'') ?p) = Inr body"
    by (simp add: demo_know_def demo_encode_defs)
  then obtain body where "encode_record (knowledge_envelope demo_know (lit ''p'') (lit ''collection_revision'') ?p) = Inr body" ..
  from demo_one_record [OF this, of collection_kinds] obtain db :: "unit db" and r0 where
    db: "events db \<noteq> []" "read_kinds demo_know (PStr (lit ''p'')) collection_kinds db = Inr [r0]"
    "kr_kind r0 = lit ''collection_revision''" "py_eq (kr_payload r0) ?p"
    by (auto simp: kinds_def collection_kinds_def mkdict_def)
  have "expected_of r0 = lit ''c1''"
    using py_eq_single [OF db(4) [unfolded mkdict_def, simplified]] by (simp add: expected_of_def dget_or_def dget_def)
  with stale_revision_stores_nothing [OF demo_know_ok(2) db(2) _ db(3)] db(1) show ?thesis by fastforce
qed

end
