(* ===== verification/Queue_Table.thy ===== *)
theory Queue_Table
  imports Json_Roundtrip Packet_Budget Py_Time Py_Hash
begin

text \<open>
  The table \<open>queue_jobs\<close> of \<open>core/schema.sql\<close>, the fairness counters and the retry-order counter that
  belong to it, and the writes SQLite lets through: an \<open>UPDATE\<close> is \<open>sql_update\<close>, which raises
  \<open>IntegrityError\<close> when a trigger or a unique index of \<open>core/store.py\<close> refuses the new rows.  Times are
  the texts the columns hold; the code compares them as texts.
\<close>

section \<open>Rows\<close>

datatype job_status = Pending | Running | Succeeded | Skipped | Failed | OtherStatus pystr

record job =
  jb_rowid :: nat
  jb_id :: pystr
  jb_role :: pystr
  jb_type :: pystr
  jb_priority :: int
  jb_status :: job_status
  jb_preemptible :: int
  jb_attempts :: int
  jb_retry_order :: int
  jb_retry_pending :: int
  jb_dedupe :: "pystr option"
  jb_related :: pystr
  jb_payload :: pystr
  jb_error :: "pystr option"
  jb_owner :: "pystr option"
  jb_until :: "pystr option"
  jb_beat :: "pystr option"
  jb_created :: pystr
  jb_updated :: pystr
  jb_started :: "pystr option"
  jb_finished :: "pystr option"

datatype lane = PriorityLane | RetryLane

text \<open>The jobs in rowid order, the bypass counters, and the text of the retry-order counter.\<close>

record queue =
  q_jobs :: "job list"
  q_fair :: "(pystr \<times> lane, int) odict"
  q_order :: "pystr option"

section \<open>Constraints\<close>

definition retry_authority :: "job \<Rightarrow> bool" where
  "retry_authority j \<longleftrightarrow> (jb_retry_pending j = 0 \<and> jb_retry_order j = 0) \<or>
     (jb_retry_pending j = 1 \<and> jb_retry_order j > 0 \<and> (jb_status j = Pending \<or> jb_status j = Running))"

definition pending_keys :: "job list \<Rightarrow> pystr list" where
  "pending_keys js = List.map_filter jb_dedupe (filter (\<lambda>j. jb_status j = Pending) js)"

definition retry_keys :: "job list \<Rightarrow> int list" where
  "retry_keys js = map jb_retry_order (filter (\<lambda>j. jb_retry_pending j = 1) js)"

definition unique_indexes :: "job list \<Rightarrow> bool" where
  "unique_indexes js \<longleftrightarrow> distinct (map jb_id js) \<and> distinct (pending_keys js) \<and> distinct (retry_keys js)"

text \<open>The trigger \<open>purge_queue_job_fairness_after_job_update\<close>.\<close>

definition purge_fairness :: "job \<Rightarrow> job \<Rightarrow> (pystr \<times> lane, int) odict \<Rightarrow> (pystr \<times> lane, int) odict" where
  "purge_fairness old new fair =
     (if jb_status new \<noteq> Pending \<or> jb_retry_pending old \<noteq> jb_retry_pending new then
        filter (\<lambda>((i, l), _). \<not> (i = jb_id new \<and> (jb_status new \<noteq> Pending
          \<or> (l = PriorityLane \<and> jb_retry_pending new \<noteq> 0) \<or> (l = RetryLane \<and> jb_retry_pending new \<noteq> 1)))) fair
      else fair)"

text \<open>\<open>UPDATE queue_jobs SET f WHERE hit\<close> and its \<open>rowcount\<close>; \<open>fires\<close> says whether \<open>SET\<close> names a
  column the triggers watch.\<close>

definition sql_update :: "bool \<Rightarrow> (job \<Rightarrow> bool) \<Rightarrow> (job \<Rightarrow> job) \<Rightarrow> queue \<Rightarrow> py_error + queue \<times> nat" where
  "sql_update fires hit f q =
     (let rows = filter hit (q_jobs q); jobs = map (\<lambda>j. if hit j then f j else j) (q_jobs q) in
      if (fires \<longrightarrow> list_all (retry_authority \<circ> f) rows) \<and> unique_indexes jobs
      then Inr (q\<lparr>q_jobs := jobs, q_fair := (if fires then fold (\<lambda>j. purge_fairness j (f j)) rows (q_fair q) else q_fair q)\<rparr>,
             length rows)
      else Inl IntegrityError)"

definition sql_insert :: "job \<Rightarrow> queue \<Rightarrow> py_error + queue" where
  "sql_insert j q =
     (if retry_authority j \<and> unique_indexes (q_jobs q @ [j]) then Inr (q\<lparr>q_jobs := q_jobs q @ [j]\<rparr>) else Inl IntegrityError)"

definition next_rowid :: "job list \<Rightarrow> nat" where
  "next_rowid js = (case map jb_rowid js of [] \<Rightarrow> 1 | n # ns \<Rightarrow> Suc (fold max ns n))"

section \<open>Values of columns\<close>

definition stamp :: "civil \<Rightarrow> pystr" where
  "stamp t = isoformat (t\<lparr>c_micro := 0\<rparr>)"

definition lease_expiry :: "civil \<Rightarrow> int \<Rightarrow> py_error + pystr" where
  "lease_expiry t seconds = bindE (add_seconds (t\<lparr>c_micro := 0\<rparr>) (max 1 seconds)) (\<lambda>e. Inr (isoformat e))"

text \<open>Truth of the lease conditions the statements repeat.\<close>

definition lease_live :: "pystr \<Rightarrow> pystr \<Rightarrow> job \<Rightarrow> bool" where
  "lease_live owner now j \<longleftrightarrow> jb_status j = Running \<and> jb_owner j = Some owner
     \<and> (case jb_until j of Some u \<Rightarrow> now < u | None \<Rightarrow> False)"

definition lease_expired :: "pystr \<Rightarrow> job \<Rightarrow> bool" where
  "lease_expired now j \<longleftrightarrow> jb_status j = Running \<and> (case jb_until j of Some u \<Rightarrow> u \<le> now | None \<Rightarrow> False)"

text \<open>The first element with the least key, \<open>ORDER BY key LIMIT 1\<close> and \<open>min(key=)\<close>.\<close>

definition least_by :: "('a \<Rightarrow> 'k::linorder) \<Rightarrow> 'a list \<Rightarrow> 'a option" where
  "least_by key xs = (case sort_key key xs of [] \<Rightarrow> None | x # _ \<Rightarrow> Some x)"

definition find_job :: "pystr \<Rightarrow> queue \<Rightarrow> job option" where
  "find_job i q = find (\<lambda>j. jb_id j = i) (q_jobs q)"

end
