(* ===== verification/Work_Queue.thy ===== *)
theory Work_Queue
  imports Queue_Table
begin

text \<open>
  The durable work queue: \<open>enqueue_job\<close> of \<open>core/store.py\<close> and the lease protocol of
  \<open>core/workers.py\<close> (claim, heartbeat, finish, retry, reclaim).  Each operation takes the readings of the
  clock it makes; the secret redaction and \<open>unique_id\<close> are the environment.
\<close>

record queue_env =
  qe_redact_value :: "pyval \<Rightarrow> pyval"
  qe_redact_text :: "pystr \<Rightarrow> pystr"
  qe_job_id :: pystr

section \<open>Enqueueing\<close>

definition pending_with_key :: "pystr \<Rightarrow> queue \<Rightarrow> job option" where
  "pending_with_key key q = find (\<lambda>j. jb_status j = Pending \<and> jb_dedupe j = Some key) (q_jobs q)"

definition reuse_pending ::
  "bool \<Rightarrow> pystr \<Rightarrow> pystr \<Rightarrow> pystr option \<Rightarrow> int \<Rightarrow> bool \<Rightarrow> pyval \<Rightarrow> pyval \<Rightarrow> pystr \<Rightarrow> pystr \<Rightarrow> queue \<Rightarrow> py_error + queue \<times> pystr" where
  "reuse_pending replace_pending role job_type key priority preemptible related payload now i q =
     (if \<not> replace_pending then Inr (q, i)
      else
        bindE (dumps store_json related) (\<lambda>rel.
        bindE (dumps store_json payload) (\<lambda>pay.
        bindE (sql_update True
          (\<lambda>j. jb_id j = i \<and> jb_status j = Pending \<and> key \<noteq> None \<and> jb_dedupe j = key \<and> jb_role j = role \<and> jb_type j = job_type)
          (\<lambda>j. j\<lparr>jb_priority := priority, jb_preemptible := (if preemptible then 1 else 0), jb_related := rel,
                 jb_payload := pay, jb_updated := now,
                 jb_retry_order := (if jb_retry_pending j = 1 then jb_retry_order j else 0),
                 jb_error := (if jb_retry_pending j = 1 then jb_error j else None)\<rparr>) q) (\<lambda>(q', n).
        if n \<noteq> 1 then Inl (RuntimeError ''pending queue job changed while refreshing its payload'') else Inr (q', i)))))"

text \<open>\<open>stored_dedupe_key\<close>: an opaque digest scoped by role and type.\<close>

definition dedupe_digest :: "pystr \<Rightarrow> pystr \<Rightarrow> pystr \<Rightarrow> py_error + pystr" where
  "dedupe_digest role job_type raw =
     bindE (dumps store_json (PList [PStr role, PStr job_type, PStr raw])) (\<lambda>t. Inr (lit ''queue_v1_'' @ sha256 t))"

definition stored_key :: "pystr \<Rightarrow> pystr \<Rightarrow> pystr option \<Rightarrow> py_error + pystr option" where
  "stored_key role job_type dedupe_key =
     (case dedupe_key of
        None \<Rightarrow> Inr None
      | Some k \<Rightarrow> bindE (ensure (py_strip k \<noteq> []) (ValueError ''dedupe_key must not be empty'')) (\<lambda>_.
                  bindE (dedupe_digest role job_type (py_strip k)) (\<lambda>d. Inr (Some d))))"

definition new_job :: "queue_env \<Rightarrow> pystr \<Rightarrow> pystr \<Rightarrow> pystr option \<Rightarrow> int \<Rightarrow> bool \<Rightarrow> pystr \<Rightarrow> pystr \<Rightarrow> pystr \<Rightarrow> queue \<Rightarrow> job" where
  "new_job env role job_type key priority preemptible related payload now q =
     \<lparr>jb_rowid = next_rowid (q_jobs q), jb_id = qe_job_id env, jb_role = role, jb_type = job_type, jb_priority = priority,
      jb_status = Pending, jb_preemptible = (if preemptible then 1 else 0), jb_attempts = 0, jb_retry_order = 0,
      jb_retry_pending = 0, jb_dedupe = key, jb_related = related, jb_payload = payload, jb_error = None,
      jb_owner = None, jb_until = None, jb_beat = None, jb_created = now, jb_updated = now,
      jb_started = None, jb_finished = None\<rparr>"

definition enqueue_job ::
  "queue_env \<Rightarrow> civil \<Rightarrow> pystr \<Rightarrow> pystr \<Rightarrow> int \<Rightarrow> pyval \<Rightarrow> pystr list \<Rightarrow> bool \<Rightarrow> pystr option \<Rightarrow> bool \<Rightarrow> queue \<Rightarrow> py_error + queue \<times> pystr" where
  "enqueue_job env clock role job_type priority payload related_card_ids preemptible dedupe_key replace_pending q =
     (let safe_payload = qe_redact_value env payload;
          safe_related = qe_redact_value env (PList (map PStr related_card_ids));
          safe_role = qe_redact_text env role; safe_job_type = qe_redact_text env job_type; now = stamp clock in
      bindE (stored_key safe_role safe_job_type dedupe_key) (\<lambda>key.
      let reuse = reuse_pending replace_pending safe_role safe_job_type key priority preemptible safe_related safe_payload now in
      case (case key of None \<Rightarrow> None | Some k \<Rightarrow> pending_with_key k q) of
        Some e \<Rightarrow> reuse (jb_id e) q
      | None \<Rightarrow>
          bindE (dumps store_json safe_related) (\<lambda>rel.
          bindE (dumps store_json safe_payload) (\<lambda>pay.
          case sql_insert (new_job env safe_role safe_job_type key priority preemptible rel pay now q) q of
            Inr q' \<Rightarrow> Inr (q', qe_job_id env)
          | Inl err \<Rightarrow>
              (case (case key of None \<Rightarrow> None | Some k \<Rightarrow> pending_with_key k q) of
                 None \<Rightarrow> Inl err
               | Some e \<Rightarrow> reuse (jb_id e) q)))))"

section \<open>Leases\<close>

definition heartbeat_job :: "civil \<Rightarrow> civil \<Rightarrow> pystr \<Rightarrow> pystr \<Rightarrow> int \<Rightarrow> queue \<Rightarrow> py_error + queue \<times> bool" where
  "heartbeat_job clock clock' i lease_owner lease_seconds q =
     (let now = stamp clock in
      bindE (lease_expiry clock' lease_seconds) (\<lambda>expires.
      bindE (sql_update False (\<lambda>j. jb_id j = i \<and> lease_live lease_owner now j)
               (\<lambda>j. j\<lparr>jb_beat := Some now, jb_until := Some expires, jb_updated := now\<rparr>) q) (\<lambda>(q', n).
        Inr (q', n = 1))))"

definition job_lease_is_owned :: "civil \<Rightarrow> pystr \<Rightarrow> pystr \<Rightarrow> queue \<Rightarrow> bool" where
  "job_lease_is_owned clock i lease_owner q = list_ex (\<lambda>j. jb_id j = i \<and> lease_live lease_owner (stamp clock) j) (q_jobs q)"

section \<open>The retry order\<close>

definition max_retry_order :: int where
  "max_retry_order = 2 ^ 63 - 1"

definition reserve_queue_retry_orders :: "int \<Rightarrow> queue \<Rightarrow> py_error + queue \<times> int" where
  "reserve_queue_retry_orders n q =
     bindE (ensure (0 < n) (ValueError ''queue retry-order reservation count must be positive'')) (\<lambda>_.
     case q_order q of
       None \<Rightarrow> Inl (RuntimeError ''queue retry-order authority is unavailable'')
     | Some value \<Rightarrow>
         (case py_int value of
            None \<Rightarrow> Inl (RuntimeError ''queue retry-order authority is invalid'')
          | Some current \<Rightarrow>
              bindE (ensure (0 \<le> current \<and> n \<le> max_retry_order - current)
                       (RuntimeError ''queue retry-order authority is exhausted'')) (\<lambda>_.
                Inr (q\<lparr>q_order := Some (dec_int (current + n))\<rparr>, current + 1))))"

section \<open>Choosing a job\<close>

definition bypass_count :: "queue \<Rightarrow> pystr \<Rightarrow> lane \<Rightarrow> int" where
  "bypass_count q i l = (case oget (q_fair q) (i, l) of None \<Rightarrow> 0 | Some n \<Rightarrow> max 0 n)"

definition set_bypass_count :: "pystr \<Rightarrow> lane \<Rightarrow> int \<Rightarrow> int \<Rightarrow> queue \<Rightarrow> queue" where
  "set_bypass_count i l v maximum q =
     (let bounded = max 0 (min v maximum); expected = (if l = RetryLane then 1 else 0) in
      if bounded = 0 \<or> (case find_job i q of None \<Rightarrow> True
           | Some j \<Rightarrow> jb_status j \<noteq> Pending \<or> jb_retry_pending j \<noteq> expected)
      then q\<lparr>q_fair := filter (\<lambda>(k, _). k \<noteq> (i, l)) (q_fair q)\<rparr>
      else q\<lparr>q_fair := oset (i, l) bounded (q_fair q)\<rparr>)"

text \<open>The rows a claim may choose: pending, not deferred, and no job with the same key is running.\<close>

definition claimable :: "queue \<Rightarrow> pystr list \<Rightarrow> bool \<Rightarrow> job \<Rightarrow> bool" where
  "claimable q deferred retry j \<longleftrightarrow> jb_status j = Pending \<and> jb_retry_pending j = (if retry then 1 else 0)
     \<and> jb_id j \<notin> set deferred
     \<and> (case jb_dedupe j of None \<Rightarrow> True
        | Some k \<Rightarrow> \<not> list_ex (\<lambda>a. jb_status a = Running \<and> jb_dedupe a = Some k) (q_jobs q))"

datatype rotation = ByPriority | ByAge | ByRetry

type_synonym job_key = "int \<times> int \<times> pystr \<times> nat"

definition job_key :: "rotation \<Rightarrow> job \<Rightarrow> job_key" where
  "job_key r j = (case r of
     ByRetry \<Rightarrow> (jb_retry_order j, jb_priority j, jb_created j, jb_rowid j)
   | ByAge \<Rightarrow> (0, 0, jb_created j, jb_rowid j)
   | ByPriority \<Rightarrow> (0, jb_priority j, jb_created j, jb_rowid j))"

definition role_list :: "pystr list \<Rightarrow> pystr list" where
  "role_list roles = sort (remdups roles)"

text \<open>With roles, the best of the best row of each role; without, the best row.\<close>

definition eligible_job_candidate :: "pystr list \<Rightarrow> rotation \<Rightarrow> pystr list \<Rightarrow> bool \<Rightarrow> queue \<Rightarrow> job option" where
  "eligible_job_candidate roles r deferred retry q =
     (if roles \<noteq> [] then
        least_by (job_key r) (List.map_filter
          (\<lambda>role. least_by (job_key r) (filter (\<lambda>j. jb_role j = role \<and> claimable q deferred retry j) (q_jobs q)))
          (role_list roles))
      else least_by (job_key r) (filter (claimable q deferred retry) (q_jobs q)))"

definition max_bypasses :: int where
  "max_bypasses = 8"

text \<open>The fresh job to consider: the oldest one once it has been bypassed often enough.\<close>

definition fresh_choice :: "pystr list \<Rightarrow> pystr list \<Rightarrow> queue \<Rightarrow> (job \<times> job) option" where
  "fresh_choice roles deferred q =
     (case eligible_job_candidate roles ByPriority deferred False q of
        None \<Rightarrow> None
      | Some p \<Rightarrow>
          (case eligible_job_candidate roles ByAge deferred False q of
             None \<Rightarrow> Some (p, p)
           | Some old \<Rightarrow>
               Some (if jb_id p \<noteq> jb_id old \<and> max_bypasses \<le> bypass_count q (jb_id old) PriorityLane then old else p, old)))"

definition choose_job :: "pystr list \<Rightarrow> pystr list \<Rightarrow> queue \<Rightarrow> job option" where
  "choose_job roles deferred q =
     (case (fresh_choice roles deferred q, eligible_job_candidate roles ByRetry deferred True q) of
        (None, retry) \<Rightarrow> retry
      | (Some (fresh, _), None) \<Rightarrow> Some fresh
      | (Some (fresh, _), Some retry) \<Rightarrow>
          Some (if max_bypasses \<le> bypass_count q (jb_id retry) RetryLane then retry else fresh))"

text \<open>The counters after a claim: the jobs it passed over are counted.\<close>

definition count_bypasses :: "pystr list \<Rightarrow> pystr list \<Rightarrow> queue \<Rightarrow> job \<Rightarrow> queue \<Rightarrow> queue" where
  "count_bypasses roles deferred q row q' =
     (case fresh_choice roles deferred q of
        None \<Rightarrow> q'
      | Some (fresh, old) \<Rightarrow>
          if jb_id row \<noteq> jb_id fresh then q'
          else
            let q1 = (if (case eligible_job_candidate roles ByPriority deferred False q of
                          Some p \<Rightarrow> jb_id p \<noteq> jb_id old | None \<Rightarrow> False) \<and> jb_id row \<noteq> jb_id old
                      then set_bypass_count (jb_id old) PriorityLane (bypass_count q (jb_id old) PriorityLane + 1) max_bypasses q'
                      else q')
            in case eligible_job_candidate roles ByRetry deferred True q of
                 None \<Rightarrow> q1
               | Some retry \<Rightarrow>
                   if jb_id row \<noteq> jb_id retry
                   then set_bypass_count (jb_id retry) RetryLane (bypass_count q (jb_id retry) RetryLane + 1) max_bypasses q1
                   else q1)"

definition claim_job ::
  "civil \<Rightarrow> civil \<Rightarrow> pystr list \<Rightarrow> pystr \<Rightarrow> int \<Rightarrow> pystr list \<Rightarrow> queue \<Rightarrow> py_error + queue \<times> job option" where
  "claim_job clock clock' roles lease_owner lease_seconds deferred q =
     (case choose_job roles deferred q of
        None \<Rightarrow> Inr (q, None)
      | Some row \<Rightarrow>
          let now = stamp clock in
          bindE (lease_expiry clock' lease_seconds) (\<lambda>expires.
          bindE (sql_update True (\<lambda>j. jb_id j = jb_id row \<and> jb_status j = Pending)
            (\<lambda>j. j\<lparr>jb_status := Running, jb_started := (case jb_started j of None \<Rightarrow> Some now | s \<Rightarrow> s),
                   jb_attempts := jb_attempts j + 1, jb_owner := Some lease_owner, jb_until := Some expires,
                   jb_beat := Some now, jb_updated := now\<rparr>) q) (\<lambda>(q', n).
            if n \<noteq> 1 then Inr (q', None)
            else Inr (count_bypasses roles deferred q row q',
                      Some (row\<lparr>jb_owner := Some lease_owner, jb_until := Some expires, jb_beat := Some now\<rparr>)))))"

section \<open>Finishing and retrying\<close>

text \<open>\<open>json_dumps({"error": error, "result": result or {}}) if error or result else None\<close>.\<close>

definition finish_json :: "pyval \<Rightarrow> pystr option \<Rightarrow> py_error + pystr option" where
  "finish_json result error =
     (if (error \<noteq> None \<and> error \<noteq> Some []) \<or> entries result \<noteq> [] then
        bindE (dumps store_json (mkdict [(''error'', case error of None \<Rightarrow> PNone | Some e \<Rightarrow> PStr e), (''result'', result)]))
          (\<lambda>t. Inr (Some t))
      else Inr None)"

definition finish_job :: "civil \<Rightarrow> pystr \<Rightarrow> job_status \<Rightarrow> pyval \<Rightarrow> pystr option \<Rightarrow> pystr option \<Rightarrow> queue \<Rightarrow> py_error + queue \<times> bool" where
  "finish_job clock i status result error lease_owner q =
     (let now = stamp clock in
      bindE (finish_json result error) (\<lambda>err.
      bindE (sql_update True
        (\<lambda>j. jb_id j = i \<and> (case lease_owner of None \<Rightarrow> True | Some owner \<Rightarrow> lease_live owner now j))
        (\<lambda>j. j\<lparr>jb_status := status, jb_finished := Some now, jb_updated := now, jb_error := err,
               jb_owner := None, jb_until := None, jb_beat := Some now, jb_retry_pending := 0, jb_retry_order := 0\<rparr>) q)
        (\<lambda>(q', n). Inr (q', n = 1))))"

definition finish_owned_job ::
  "civil \<Rightarrow> civil \<Rightarrow> civil \<Rightarrow> pystr \<Rightarrow> pystr \<Rightarrow> int \<Rightarrow> job_status \<Rightarrow> pyval \<Rightarrow> pystr option \<Rightarrow> queue \<Rightarrow> py_error + queue" where
  "finish_owned_job c1 c2 c3 i lease_owner lease_seconds status result error q =
     bindE (heartbeat_job c1 c2 i lease_owner lease_seconds q) (\<lambda>(q1, beat).
     bindE (ensure beat (RuntimeError ''worker lease lost before job finish'')) (\<lambda>_.
     bindE (finish_job c3 i status result error (Some lease_owner) q1) (\<lambda>(q2, done).
     bindE (ensure done (RuntimeError ''worker lease lost before job finish'')) (\<lambda>_. Inr q2))))"

definition pending_dedupe_successor :: "job \<Rightarrow> queue \<Rightarrow> job option" where
  "pending_dedupe_successor source q =
     (if jb_dedupe source = None then None
      else find (\<lambda>j. jb_status j = Pending \<and> jb_dedupe j = jb_dedupe source \<and> jb_role j = jb_role source
             \<and> jb_type j = jb_type source \<and> jb_id j \<noteq> jb_id source) (q_jobs q))"

definition transferred_retry_result :: "pyval \<Rightarrow> pystr \<Rightarrow> pystr \<Rightarrow> pyval" where
  "transferred_retry_result result source successor =
     fold (\<lambda>(k, v) d. dput d k v)
       [(''retry_pending'', PBool True), (''retry_transferred'', PBool True), (''retry_source_job_id'', PStr source),
        (''retry_job_id'', PStr successor), (''retry_dedupe_successor_job_id'', PStr successor)] result"

definition retry_json :: "pyval \<Rightarrow> bool \<Rightarrow> py_error + pystr" where
  "retry_json result pending = dumps store_json (mkdict [(''error'', PNone), (''result'', result), (''retry_pending'', PBool pending)])"

definition promote_successor :: "job \<Rightarrow> pystr \<Rightarrow> int \<Rightarrow> pyval \<Rightarrow> pystr \<Rightarrow> queue \<Rightarrow> py_error + queue \<times> pyval" where
  "promote_successor source successor retry_order result now q =
     (let transferred = transferred_retry_result result (jb_id source) successor in
      bindE (retry_json transferred True) (\<lambda>err.
      bindE (sql_update True
        (\<lambda>j. jb_id j = successor \<and> jb_status j = Pending \<and> jb_role j = jb_role source \<and> jb_type j = jb_type source
           \<and> jb_dedupe j \<noteq> None \<and> jb_dedupe j = jb_dedupe source
           \<and> list_ex (\<lambda>s. jb_id s = jb_id source \<and> jb_status s = Running \<and> jb_role s = jb_role j \<and> jb_type s = jb_type j
                \<and> jb_dedupe s = jb_dedupe j) (q_jobs q))
        (\<lambda>j. j\<lparr>jb_finished := None, jb_updated := now, jb_error := Some err, jb_owner := None, jb_until := None,
               jb_beat := None, jb_retry_pending := 1, jb_retry_order := retry_order\<rparr>) q) (\<lambda>(q', n).
      bindE (ensure (n = 1) (RuntimeError ''pending dedupe successor changed before retry transfer'')) (\<lambda>_.
        Inr (q', transferred)))))"

text \<open>The source of a transfer is skipped, on the condition that its successor now carries the retry.\<close>

definition skipped :: "pystr \<Rightarrow> pystr \<Rightarrow> job \<Rightarrow> job" where
  "skipped now err j =
     j\<lparr>jb_status := Skipped, jb_finished := Some now, jb_updated := now, jb_error := Some err, jb_owner := None,
       jb_until := None, jb_beat := None, jb_retry_pending := 0, jb_retry_order := 0\<rparr>"

definition carried_by :: "queue \<Rightarrow> pystr option \<Rightarrow> bool \<Rightarrow> job \<Rightarrow> bool" where
  "carried_by q successor retry j \<longleftrightarrow> list_ex (\<lambda>p. (case successor of None \<Rightarrow> jb_id p \<noteq> jb_id j | Some s \<Rightarrow> jb_id p = s)
     \<and> jb_status p = Pending \<and> (retry \<longrightarrow> jb_retry_pending p = 1) \<and> jb_dedupe p = jb_dedupe j \<and> jb_dedupe j \<noteq> None
     \<and> jb_role p = jb_role j \<and> jb_type p = jb_type j) (q_jobs q)"

record retry_outcome =
  ro_status :: job_status
  ro_transferred :: bool
  ro_job :: pystr
  ro_result :: pyval

definition retry_owned_job ::
  "civil \<Rightarrow> civil \<Rightarrow> civil \<Rightarrow> pystr \<Rightarrow> pystr \<Rightarrow> int \<Rightarrow> pyval \<Rightarrow> queue \<Rightarrow> py_error + queue \<times> retry_outcome" where
  "retry_owned_job c1 c2 c3 i lease_owner lease_seconds result q =
     bindE (heartbeat_job c1 c2 i lease_owner lease_seconds q) (\<lambda>(q1, beat).
     bindE (ensure beat (WorkerRetryLeaseLost ''worker lease lost before job retry'')) (\<lambda>_.
     let now = stamp c3 in
     case find (\<lambda>j. jb_id j = i \<and> lease_live lease_owner now j) (q_jobs q1) of
       None \<Rightarrow> Inl (WorkerRetryLeaseLost ''worker lease lost before job retry'')
     | Some source \<Rightarrow>
         bindE (reserve_queue_retry_orders 1 q1) (\<lambda>(q2, order).
         case pending_dedupe_successor source q1 of
           Some successor \<Rightarrow>
             bindE (promote_successor source (jb_id successor) order result now q2) (\<lambda>(q3, transferred).
             bindE (retry_json transferred False) (\<lambda>err.
             bindE (sql_update True
               (\<lambda>j. jb_id j = i \<and> lease_live lease_owner now j \<and> jb_dedupe j = jb_dedupe source
                  \<and> carried_by q3 (Some (jb_id successor)) True j)
               (skipped now err) q3) (\<lambda>(q4, n).
             bindE (ensure (n = 1) (RuntimeError ''worker lease or pending dedupe successor changed before retry transfer'')) (\<lambda>_.
               Inr (q4, \<lparr>ro_status = Skipped, ro_transferred = True, ro_job = jb_id successor, ro_result = transferred\<rparr>)))))
         | None \<Rightarrow>
             bindE (retry_json result True) (\<lambda>err.
             bindE (sql_update True (\<lambda>j. jb_id j = i \<and> lease_live lease_owner now j)
               (\<lambda>j. j\<lparr>jb_status := Pending, jb_finished := None, jb_updated := now, jb_error := Some err,
                      jb_owner := None, jb_until := None, jb_beat := None, jb_retry_pending := 1, jb_retry_order := order\<rparr>) q2)
               (\<lambda>(q3, n).
             bindE (ensure (n = 1) (WorkerRetryLeaseLost ''worker lease lost before job retry'')) (\<lambda>_.
               Inr (q3, \<lparr>ro_status = Pending, ro_transferred = False, ro_job = i, ro_result = result\<rparr>)))))))"

section \<open>What a reader is told of a job\<close>

definition parse_utc_timestamp :: "pystr \<Rightarrow> py_error + civil" where
  "parse_utc_timestamp v =
     (let t = py_strip v; t = (if t \<noteq> [] \<and> last t = 90 then butlast t @ lit ''+00:00'' else t) in
      case fromisoformat t of
        None \<Rightarrow> Inl (ValueError ''Invalid isoformat string'')
      | Some (c, None) \<Rightarrow> Inr c
      | Some (c, Some off) \<Rightarrow> to_utc c off)"

definition status_label :: "job_status \<Rightarrow> pystr" where
  "status_label s = (case s of Pending \<Rightarrow> lit ''pending'' | Running \<Rightarrow> lit ''running'' | Succeeded \<Rightarrow> lit ''succeeded''
     | Skipped \<Rightarrow> lit ''skipped'' | Failed \<Rightarrow> lit ''failed'' | OtherStatus t \<Rightarrow> t)"

definition opt_str :: "pystr option \<Rightarrow> pyval" where
  "opt_str v = (case v of None \<Rightarrow> PNone | Some s \<Rightarrow> PStr s)"

text \<open>What can be said of a job from its row and the clock.\<close>

record authority =
  au_valid :: bool
  au_reclaimable :: bool
  au_recoverable :: bool
  au_ok :: bool
  au_state :: string

definition job_authority :: "civil \<Rightarrow> job \<Rightarrow> authority" where
  "job_authority checked j =
     (let running = (jb_status j = Running); preemptible = (jb_preemptible j = 1);
          owner = (case jb_owner j of None \<Rightarrow> [] | Some s \<Rightarrow> py_strip s);
          expiry = (case jb_until j of None \<Rightarrow> None
                    | Some u \<Rightarrow> (case parse_utc_timestamp u of Inl _ \<Rightarrow> None | Inr c \<Rightarrow> Some (micros c)));
          now = micros (checked\<lparr>c_micro := 0\<rparr>);
          valid = (running \<and> owner \<noteq> [] \<and> (case expiry of None \<Rightarrow> False | Some e \<Rightarrow> now < e));
          reclaimable = (running \<and> preemptible \<and> (case expiry of None \<Rightarrow> False | Some e \<Rightarrow> e \<le> now));
          recoverable = (jb_status j = Pending \<or> running \<and> (valid \<or> reclaimable));
          success = (jb_status j = Succeeded \<or> jb_status j = Skipped)
      in \<lparr>au_valid = valid, au_reclaimable = reclaimable, au_recoverable = recoverable, au_ok = (recoverable \<or> success),
           au_state = (if jb_status j = Pending then ''pending_recoverable''
             else if running \<and> valid then ''running_live_owner''
             else if running \<and> reclaimable then ''running_preemptible_reclaimable''
             else if running \<and> \<not> preemptible then ''running_non_preemptible_unrecoverable''
             else if running then ''running_invalid_lease_unrecoverable''
             else if success then ''terminal_success''
             else if jb_status j = Failed then ''terminal_failure'' else ''unsupported_status'')\<rparr>)"

definition queue_job_authority_snapshot :: "civil \<Rightarrow> pystr \<Rightarrow> queue \<Rightarrow> pyval" where
  "queue_job_authority_snapshot checked i q =
     (let fields = (\<lambda>ex st pre owner until a rp ro fin upd. mkdict [(''exists'', PBool ex), (''status'', st),
            (''preemptible'', pre), (''lease_owner'', owner), (''lease_expires_at'', until),
            (''lease_valid'', PBool (au_valid a)), (''reclaimable'', PBool (au_reclaimable a)),
            (''recoverable'', PBool (au_recoverable a)), (''authority_ok'', PBool (au_ok a)),
            (''authority_state'', PStr (lit (au_state a))), (''checked_at'', PStr (stamp checked)),
            (''retry_pending'', PBool rp), (''retry_order'', PInt ro), (''finished_at'', fin), (''updated_at'', upd)]) in
      case find_job i q of
        None \<Rightarrow> fields False PNone PNone PNone PNone
          \<lparr>au_valid = False, au_reclaimable = False, au_recoverable = False, au_ok = False, au_state = ''missing''\<rparr>
          False 0 PNone PNone
      | Some j \<Rightarrow>
          let owner = (case jb_owner j of None \<Rightarrow> [] | Some s \<Rightarrow> py_strip s) in
          fields True (PStr (status_label (jb_status j))) (PBool (jb_preemptible j = 1))
            (if owner = [] then PNone else PStr owner) (opt_str (jb_until j)) (job_authority checked j)
            (jb_retry_pending j = 1) (jb_retry_order j) (opt_str (jb_finished j)) (PStr (jb_updated j)))"

section \<open>Reclaiming expired leases\<close>

definition reclaim_limit :: nat where
  "reclaim_limit = 50"

definition expiry_key :: "job \<Rightarrow> pystr \<times> pystr" where
  "expiry_key j = (case jb_until j of None \<Rightarrow> [] | Some u \<Rightarrow> u, jb_id j)"

definition expired_lease_candidates :: "pystr list \<Rightarrow> pystr \<Rightarrow> queue \<Rightarrow> job list" where
  "expired_lease_candidates roles now q =
     (if roles = [] then take reclaim_limit (sort_key expiry_key (filter (lease_expired now) (q_jobs q)))
      else take reclaim_limit (sort_key expiry_key (concat (map
        (\<lambda>role. take reclaim_limit (sort_key expiry_key (filter (\<lambda>j. jb_role j = role \<and> lease_expired now j) (q_jobs q))))
        (role_list roles)))))"

definition prior_result :: "job \<Rightarrow> pyval" where
  "prior_result row =
     (let r = dget_or (json_loads (jb_error row) (PDict [])) ''result'' PNone in
      if is_dict r then r
      else mkdict [(''ok'', PBool False), (''reason'', PStr (lit ''expired_retry_lease_pending'')), (''retry_pending'', PBool True)])"

definition back_to_pending :: "pystr \<Rightarrow> pystr \<Rightarrow> int \<Rightarrow> job \<Rightarrow> job" where
  "back_to_pending now err order j =
     j\<lparr>jb_status := Pending, jb_owner := None, jb_until := None, jb_beat := None, jb_updated := now,
       jb_error := Some err, jb_retry_order := order\<rparr>"

text \<open>What happens to one expired row: the new queue, whether a row changed, and what is reported.\<close>

definition reclaim_row ::
  "pystr \<Rightarrow> (pystr \<Rightarrow> civil) \<Rightarrow> (pystr, int) odict \<Rightarrow> job \<Rightarrow> queue \<Rightarrow> py_error + queue \<times> nat \<times> pyval list" where
  "reclaim_row now checked orders row q =
     (let i = jb_id row; order = (case oget orders i of None \<Rightarrow> 0 | Some n \<Rightarrow> n);
          hit = (\<lambda>p j. jb_id j = i \<and> lease_expired now j \<and> jb_preemptible j = p);
          reclaimed = dumps store_json (mkdict [(''reclaimed'', PBool True), (''reason'', PStr (lit ''worker_lease_expired''))]) in
      case (jb_preemptible row = 1, pending_dedupe_successor row q) of
        (True, Some successor) \<Rightarrow>
          if jb_retry_pending row = 1 then
            bindE (promote_successor row (jb_id successor) order (prior_result row) now q) (\<lambda>(q1, transferred).
            bindE (retry_json transferred False) (\<lambda>err.
            bindE (sql_update True (\<lambda>j. hit 1 j \<and> jb_retry_pending j = 1 \<and> jb_dedupe j = jb_dedupe row
                     \<and> carried_by q1 (Some (jb_id successor)) True j) (skipped now err) q1) (\<lambda>(q2, n).
            bindE (ensure (n = 1) (RuntimeError ''expired worker lease or pending dedupe successor changed before retry transfer''))
              (\<lambda>_. Inr (q2, n, [])))))
          else
            bindE (dumps store_json (mkdict [(''error'', PNone), (''result'', mkdict [(''skipped'', PBool True),
                (''reason'', PStr (lit ''expired_lease_superseded_by_pending_dedupe_job''))])])) (\<lambda>err.
            bindE (sql_update True (\<lambda>j. hit 1 j \<and> jb_retry_pending j = 0 \<and> jb_dedupe j = jb_dedupe row
                     \<and> carried_by q None False j) (skipped now err) q) (\<lambda>(q1, n). Inr (q1, n, [])))
      | (True, None) \<Rightarrow>
          if jb_retry_pending row = 1 then
            bindE reclaimed (\<lambda>err.
            bindE (sql_update True (\<lambda>j. hit 1 j \<and> jb_retry_pending j = 1) (back_to_pending now err order) q) (\<lambda>(q1, n).
              Inr (q1, n, [])))
          else if jb_retry_pending row = 0 then
            bindE reclaimed (\<lambda>err.
            bindE (sql_update True (\<lambda>j. hit 1 j \<and> jb_retry_pending j = 0) (back_to_pending now err 0) q) (\<lambda>(q1, n).
              Inr (q1, n, [])))
          else Inr (q, 0, [])
      | (False, _) \<Rightarrow>
          if jb_preemptible row = 0 then
            bindE (dumps store_json (mkdict [(''error'', PStr (lit ''non_preemptible_worker_lease_expired'')),
                (''reclaimed'', PBool False)])) (\<lambda>err.
            bindE (sql_update True (hit 0) (\<lambda>j. skipped now err j\<lparr>jb_status := Failed\<rparr>) q) (\<lambda>(q1, n).
              Inr (q1, n, if n = 1 then [mkdict [(''job_id'', PStr i), (''role'', PStr (jb_role row)),
                  (''job_type'', PStr (jb_type row)), (''status'', PStr (lit ''failed'')), (''ok'', PBool False),
                  (''attempt_completed'', PBool False), (''reason'', PStr (lit ''non_preemptible_worker_lease_expired'')),
                  (''error'', PStr (lit ''non-preemptible worker lease expired and cannot be reclaimed'')),
                  (''authoritative_job'', queue_job_authority_snapshot (checked i) i q1)]] else [])))
          else Inr (q, 0, []))"

definition reclaim_expired_leases ::
  "civil \<Rightarrow> (pystr \<Rightarrow> civil) \<Rightarrow> pystr list \<Rightarrow> queue \<Rightarrow> py_error + queue \<times> nat \<times> pyval list" where
  "reclaim_expired_leases clock checked roles q =
     (let now = stamp clock; candidates = expired_lease_candidates roles now q;
          retries = filter (\<lambda>j. jb_preemptible j = 1 \<and> jb_retry_pending j = 1) candidates in
      bindE (if retries = [] then Inr (q, 0) else reserve_queue_retry_orders (int (length retries)) q) (\<lambda>(q0, start).
      let orders = zip (map jb_id retries) (map (\<lambda>k. start + int k) [0..<length retries]) in
      foldE (\<lambda>(q1, n, out) row. bindE (reclaim_row now checked orders row q1) (\<lambda>(q2, k, res). Inr (q2, n + k, out @ res)))
        (q0, 0, []) candidates))"

text \<open>The claim transaction of a worker pass.\<close>

definition claim_next_job ::
  "civil \<Rightarrow> civil \<Rightarrow> civil \<Rightarrow> (pystr \<Rightarrow> civil) \<Rightarrow> bool \<Rightarrow> pystr list \<Rightarrow> pystr \<Rightarrow> int \<Rightarrow> pystr list \<Rightarrow> queue
     \<Rightarrow> py_error + queue \<times> job option \<times> nat \<times> pyval list" where
  "claim_next_job c1 c2 c3 checked reclaim roles worker lease_seconds deferred q =
     bindE (if reclaim then reclaim_expired_leases c1 checked roles q else Inr (q, 0, [])) (\<lambda>(q1, n, out).
     bindE (claim_job c2 c3 roles worker lease_seconds deferred q1) (\<lambda>(q2, job).
       Inr (q2, job, n, out)))"

end
