(* ===== verification/Queue_Safety.thy ===== *)
theory Queue_Safety
  imports Work_Queue
begin

text \<open>
  What the lease protocol of the work queue guarantees: an invariant of every reachable queue, the
  exclusiveness of a live lease, the finality of finished jobs, the exactness and fairness of a claim and
  the conservation of a retry.  The operations are the steps of \<open>queue_step\<close>.
\<close>

section \<open>Updates\<close>

lemma sql_update_Inr:
  "sql_update fires hit f q = Inr (q', n) \<longleftrightarrow>
     n = length (filter hit (q_jobs q)) \<and> q_jobs q' = map (\<lambda>j. if hit j then f j else j) (q_jobs q) \<and> q_order q' = q_order q
     \<and> (fires \<longrightarrow> (\<forall>j\<in>set (q_jobs q). hit j \<longrightarrow> retry_authority (f j))) \<and> unique_indexes (q_jobs q')
     \<and> q_fair q' = (if fires then fold (\<lambda>j. purge_fairness j (f j)) (filter hit (q_jobs q)) (q_fair q) else q_fair q)"
  by (cases q, cases q') (auto simp: sql_update_def Let_def list_all_iff)

lemma sql_update_rows:
  assumes "sql_update fires hit f q = Inr (q', n)" "j' \<in> set (q_jobs q')"
  obtains j where "j \<in> set (q_jobs q)" "j' = (if hit j then f j else j)"
  using assms by (auto simp: sql_update_Inr)

text \<open>The job with an identifier, when identifiers are unique.\<close>

lemma find_job_Some: "find_job i q = Some j \<Longrightarrow> j \<in> set (q_jobs q) \<and> jb_id j = i"
  unfolding find_job_def by (drule find_SomeD) simp

lemma find_job_unique:
  assumes "unique_indexes (q_jobs q)" "j \<in> set (q_jobs q)"
  shows "find_job (jb_id j) q = Some j"
proof (cases "find_job (jb_id j) q")
  case None
  then show ?thesis using assms(2) by (auto simp: find_job_def find_None_iff)
next
  case (Some k)
  from find_job_Some [OF this] assms have "k = j" by (auto simp: unique_indexes_def distinct_map dest: inj_onD)
  with Some show ?thesis by simp
qed

lemma find_map_id: "(\<And>j. jb_id (g j) = jb_id j) \<Longrightarrow> find (\<lambda>j. jb_id j = i) (map g xs) = map_option g (find (\<lambda>j. jb_id j = i) xs)"
  by (induction xs) auto

lemma find_job_update:
  assumes "sql_update fires hit f q = Inr (q', n)" "\<And>j. jb_id (f j) = jb_id j"
  shows "find_job i q' = map_option (\<lambda>j. if hit j then f j else j) (find_job i q)"
  using assms by (simp add: sql_update_Inr find_job_def find_map_id)

lemma one_row:
  assumes "unique_indexes (q_jobs q)" "\<And>j. hit j \<Longrightarrow> jb_id j = i"
  shows "length (filter hit (q_jobs q)) = (case find_job i q of None \<Rightarrow> 0 | Some j \<Rightarrow> if hit j then 1 else 0)"
proof -
  have "distinct (map jb_id js) \<Longrightarrow> length (filter hit js) = (case find (\<lambda>j. jb_id j = i) js of None \<Rightarrow> 0 | Some j \<Rightarrow> if hit j then 1 else 0)" for js
  proof (induction js)
    case (Cons j js)
    show ?case
    proof (cases "jb_id j = i")
      case True
      have "\<not> hit x" if "x \<in> set js" for x
        using assms(2) [of x] that True Cons.prems by (metis distinct.simps(2) imageI list.set_map list.simps(9))
      then have "filter hit js = []" by (simp add: filter_empty_conv)
      then show ?thesis using True by simp
    next
      case False
      then show ?thesis using Cons assms(2) by auto
    qed
  qed simp
  with assms(1) show ?thesis by (simp add: unique_indexes_def find_job_def)
qed

section \<open>The invariant\<close>

text \<open>The lease columns are set exactly on running rows.\<close>

definition lease_shape :: "job \<Rightarrow> bool" where
  "lease_shape j \<longleftrightarrow> (jb_status j = Running \<longleftrightarrow> jb_owner j \<noteq> None) \<and> (jb_owner j = None \<longleftrightarrow> jb_until j = None)"

definition current_order :: "queue \<Rightarrow> int" where
  "current_order q = (case q_order q of None \<Rightarrow> 0 | Some v \<Rightarrow> (case py_int v of None \<Rightarrow> 0 | Some n \<Rightarrow> n))"

definition one_running :: "job list \<Rightarrow> bool" where
  "one_running js \<longleftrightarrow> (\<forall>a\<in>set js. \<forall>b\<in>set js. jb_status a = Running \<longrightarrow> jb_status b = Running \<longrightarrow>
     jb_dedupe a \<noteq> None \<longrightarrow> jb_dedupe a = jb_dedupe b \<longrightarrow> jb_id a = jb_id b)"

definition row_ok :: "int \<Rightarrow> job \<Rightarrow> bool" where
  "row_ok n j \<longleftrightarrow> retry_authority j \<and> lease_shape j \<and> jb_retry_order j \<le> n"

definition fair_ok :: "(pystr \<times> lane, int) odict \<Rightarrow> bool" where
  "fair_ok fair \<longleftrightarrow> (\<forall>kn\<in>set fair. 1 \<le> snd kn \<and> snd kn \<le> max_bypasses)"

definition queue_ok :: "queue \<Rightarrow> bool" where
  "queue_ok q \<longleftrightarrow> unique_indexes (q_jobs q) \<and> distinct (map jb_rowid (q_jobs q)) \<and> (\<forall>j\<in>set (q_jobs q). row_ok (current_order q) j) \<and> one_running (q_jobs q)
     \<and> 0 \<le> current_order q \<and> fair_ok (q_fair q)"

lemma fair_ok_subset: "fair_ok f \<Longrightarrow> set g \<subseteq> set f \<Longrightarrow> fair_ok g"
  by (auto simp: fair_ok_def)

lemma purge_subset: "set (fold (\<lambda>j. purge_fairness j (f j)) js fair) \<subseteq> set fair"
proof (induction js arbitrary: fair)
  case (Cons j js)
  have "set (purge_fairness j (f j) fair) \<subseteq> set fair" by (auto simp: purge_fairness_def)
  with Cons.IH show ?case by fastforce
qed simp

text \<open>An update that starts no job keeps the invariant if it keeps it row by row.\<close>

lemma update_ok:
  assumes up: "sql_update fires hit f q = Inr (q', n)" and ok: "queue_ok q"
    and rows: "\<And>j. hit j \<Longrightarrow> row_ok (current_order q) j \<Longrightarrow> (fires \<Longrightarrow> retry_authority (f j)) \<Longrightarrow> row_ok (current_order q) (f j)"
    and keep: "\<And>j. hit j \<Longrightarrow> jb_id (f j) = jb_id j \<and> jb_rowid (f j) = jb_rowid j \<and> jb_dedupe (f j) = jb_dedupe j
      \<and> (jb_status (f j) = Running \<longrightarrow> jb_status j = Running)"
  shows "queue_ok q'"
proof -
  have "map jb_rowid (q_jobs q') = map jb_rowid (q_jobs q)" using up keep by (auto simp: sql_update_Inr)
  then have rowids: "distinct (map jb_rowid (q_jobs q'))" using ok by (simp add: queue_ok_def)
  have order: "current_order q' = current_order q" using up by (simp add: sql_update_Inr current_order_def)
  have old: "\<exists>i\<in>set (q_jobs q). jb_id j = jb_id i \<and> jb_dedupe j = jb_dedupe i \<and> (jb_status j = Running \<longrightarrow> jb_status i = Running)"
    if "j \<in> set (q_jobs q')" for j
    using sql_update_rows [OF up that] keep by (metis (full_types))
  have "one_running (q_jobs q')"
    unfolding one_running_def using old ok unfolding queue_ok_def one_running_def by metis
  moreover have "row_ok (current_order q) j" if "j \<in> set (q_jobs q')" for j
    using that up ok rows by (auto simp: sql_update_Inr queue_ok_def)
  moreover have "fair_ok (q_fair q')"
    using up ok fair_ok_subset [OF _ purge_subset] by (auto simp: queue_ok_def sql_update_Inr)
  moreover have "unique_indexes (q_jobs q')" using up by (auto simp: sql_update_Inr)
  ultimately show ?thesis using ok order rowids by (simp add: queue_ok_def)
qed

lemma order_ok:
  assumes "queue_ok q" "current_order q \<le> current_order (q\<lparr>q_order := v\<rparr>)"
  shows "queue_ok (q\<lparr>q_order := v\<rparr>)"
  using assms unfolding queue_ok_def row_ok_def by fastforce

lemma queue_ok_order: "queue_ok q \<Longrightarrow> 0 \<le> current_order q"
  by (simp add: queue_ok_def)

lemma py_int_dec: "0 \<le> n \<Longrightarrow> py_int (dec_int n) = Some n"
proof -
  assume n: "0 \<le> n"
  let ?d = "dec_nat (nat n)"
  have d: "list_all digit ?d" "?d \<noteq> []" "digits_value ?d = nat n"
    by (simp_all add: dec_nat_digits dec_nat_ne digits_value_dec)
  have no: "c \<noteq> 95 \<and> c \<noteq> 45 \<and> c \<noteq> 43 \<and> \<not> py_space c" if "c \<in> set ?d" for c
    using d(1) that by (auto simp: list_all_iff digit_def py_space_def)
  have strip: "py_strip ?d = ?d"
    using d(2) no [OF hd_in_set] no [OF last_in_set] by (simp add: py_strip_def dropWhile_hd hd_rev)
  have "py_nat ?d = Some (nat n)"
    using d no by (auto simp: py_nat_def list_all_iff successively_conv_nth filter_id_conv [THEN iffD2])
  with strip d(2) no [OF hd_in_set] n show ?thesis by (simp add: py_int_def Let_def dec_int_def)
qed

lemma heartbeat_ok:
  assumes "heartbeat_job c c' i owner secs q = Inr (q', b)" "queue_ok q"
  shows "queue_ok q'"
proof -
  from assms(1) obtain e n where "sql_update False (\<lambda>j. jb_id j = i \<and> lease_live owner (stamp c) j)
      (\<lambda>j. j\<lparr>jb_beat := Some (stamp c), jb_until := Some e, jb_updated := stamp c\<rparr>) q = Inr (q', n)"
    by (auto simp: heartbeat_job_def Let_def split: prod.splits)
  then show ?thesis
    by (rule update_ok [OF _ assms(2)]) (auto simp: row_ok_def retry_authority_def lease_shape_def lease_live_def)
qed

lemma finish_ok:
  assumes "finish_job c i st result err owner q = Inr (q', b)" "queue_ok q" "st \<noteq> Running"
  shows "queue_ok q'"
proof -
  from assms(1) obtain e n where "sql_update True
      (\<lambda>j. jb_id j = i \<and> (case owner of None \<Rightarrow> True | Some ow \<Rightarrow> lease_live ow (stamp c) j))
      (\<lambda>j. j\<lparr>jb_status := st, jb_finished := Some (stamp c), jb_updated := stamp c, jb_error := e,
         jb_owner := None, jb_until := None, jb_beat := Some (stamp c), jb_retry_pending := 0, jb_retry_order := 0\<rparr>) q = Inr (q', n)"
    by (auto simp: finish_job_def Let_def split: prod.splits)
  then show ?thesis
    by (rule update_ok [OF _ assms(2)]) (use assms(3) queue_ok_order [OF assms(2)] in \<open>auto simp: row_ok_def lease_shape_def\<close>)
qed

lemma promote_ok:
  assumes "promote_successor src succ order result now q = Inr (q', r)" "queue_ok q" "order \<le> current_order q"
  shows "queue_ok q'"
proof -
  from assms(1) obtain hit e n where "sql_update True hit
        (\<lambda>j. j\<lparr>jb_finished := None, jb_updated := now, jb_error := Some e, jb_owner := None, jb_until := None,
               jb_beat := None, jb_retry_pending := 1, jb_retry_order := order\<rparr>) q = Inr (q', n)"
    and hit: "\<And>j. hit j \<Longrightarrow> jb_status j = Pending"
    by (auto simp: promote_successor_def Let_def split: prod.splits)
  from this(1) show ?thesis
    by (rule update_ok [OF _ assms(2)]) (use assms(3) hit in \<open>auto simp: row_ok_def lease_shape_def\<close>)
qed

lemma skipped_ok:
  assumes "sql_update True hit (skipped now e) q = Inr (q', n)" "queue_ok q"
  shows "queue_ok q'"
  by (rule update_ok [OF assms])
     (use queue_ok_order [OF assms(2)] in \<open>auto simp: row_ok_def lease_shape_def skipped_def\<close>)

lemma reserve_ok:
  assumes "reserve_queue_retry_orders n q = Inr (q', k)" "queue_ok q"
  shows "queue_ok q' \<and> q_jobs q' = q_jobs q \<and> q_fair q' = q_fair q \<and> k = current_order q + 1
    \<and> current_order q' = current_order q + n \<and> 0 < n"
proof -
  from assms(1) obtain v c where v: "q_order q = Some v" "py_int v = Some c" "0 \<le> c" "0 < n"
    "q' = q\<lparr>q_order := Some (dec_int (c + n))\<rparr>" "k = c + 1"
    by (auto simp: reserve_queue_retry_orders_def split: option.splits)
  then have "current_order q = c" "current_order q' = c + n"
    by (simp_all add: current_order_def py_int_dec)
  with v assms(2) show ?thesis by (auto intro!: order_ok)
qed

section \<open>Choosing\<close>

lemma least_by_Some:
  assumes "least_by key xs = Some x"
  shows "x \<in> set xs" "\<And>y. y \<in> set xs \<Longrightarrow> key x \<le> key y"
proof -
  from assms obtain ys where s: "sort_key key xs = x # ys" by (auto simp: least_by_def split: list.splits)
  then have set: "set (x # ys) = set xs" by (metis set_sort)
  then show "x \<in> set xs" by auto
  have "sorted (map key (x # ys))" using s by (metis sorted_sort_key)
  then show "key x \<le> key y" if "y \<in> set xs" for y using that set by auto
qed

lemma least_by_None: "least_by key xs = None \<longleftrightarrow> xs = []"
proof -
  have "sort_key key xs = [] \<longleftrightarrow> xs = []" by (metis length_0_conv length_sort)
  then show ?thesis by (auto simp: least_by_def split: list.splits)
qed

lemma least_by_cong_set:
  assumes "set xs = set ys" "inj_on key (set xs)"
  shows "least_by key xs = least_by key ys"
proof (cases "least_by key xs")
  case None
  then show ?thesis using assms by (simp add: least_by_None)
next
  case (Some x)
  then have "ys \<noteq> []" using least_by_Some(1) assms(1) by fastforce
  then obtain y where y: "least_by key ys = Some y" using least_by_None by (cases "least_by key ys") auto
  have "key x \<le> key y" "key y \<le> key x" using least_by_Some [OF Some] least_by_Some [OF y] assms(1) by auto
  then have "x = y" using assms least_by_Some(1) [OF Some] least_by_Some(1) [OF y] by (auto dest: inj_onD)
  with Some y show ?thesis by simp
qed

lemma in_map_filter: "y \<in> set (List.map_filter f xs) \<longleftrightarrow> (\<exists>x\<in>set xs. f x = Some y)"
  by (induction xs) (auto simp: List.map_filter_simps split: option.splits)

lemma eligible_Some:
  assumes "eligible_job_candidate roles r deferred retry q = Some j"
  shows "j \<in> set (q_jobs q)" "claimable q deferred retry j" "roles \<noteq> [] \<Longrightarrow> jb_role j \<in> set roles"
proof -
  have "j \<in> set (q_jobs q) \<and> claimable q deferred retry j \<and> (roles \<noteq> [] \<longrightarrow> jb_role j \<in> set roles)"
  proof (cases "roles = []")
    case True
    then show ?thesis using assms least_by_Some(1) by (fastforce simp: eligible_job_candidate_def)
  next
    case False
    let ?f = "\<lambda>role. least_by (job_key r) (filter (\<lambda>j. jb_role j = role \<and> claimable q deferred retry j) (q_jobs q))"
    have "least_by (job_key r) (List.map_filter ?f (role_list roles)) = Some j"
      using assms False by (simp add: eligible_job_candidate_def)
    from least_by_Some(1) [OF this] obtain role where "role \<in> set (role_list roles)" "?f role = Some j"
      by (auto simp only: in_map_filter)
    with least_by_Some(1) [OF this(2)] show ?thesis by (auto simp: role_list_def)
  qed
  then show "j \<in> set (q_jobs q)" "claimable q deferred retry j" "roles \<noteq> [] \<Longrightarrow> jb_role j \<in> set roles" by auto
qed

lemma eligible_None:
  assumes "eligible_job_candidate roles r deferred retry q = None" "j \<in> set (q_jobs q)" "roles = [] \<or> jb_role j \<in> set roles"
  shows "\<not> claimable q deferred retry j"
proof
  assume c: "claimable q deferred retry j"
  show False
  proof (cases "roles = []")
    case True
    then show False using assms c by (auto simp: eligible_job_candidate_def least_by_None filter_empty_conv)
  next
    case False
    let ?f = "\<lambda>role. least_by (job_key r) (filter (\<lambda>j. jb_role j = role \<and> claimable q deferred retry j) (q_jobs q))"
    have role: "jb_role j \<in> set (role_list roles)" using assms(3) False by (simp add: role_list_def)
    have "?f (jb_role j) \<noteq> None" using c assms(2) by (auto simp: least_by_None filter_empty_conv)
    then obtain k where "?f (jb_role j) = Some k" by blast
    with role have "k \<in> set (List.map_filter ?f (role_list roles))" by (auto simp: in_map_filter)
    moreover have "List.map_filter ?f (role_list roles) = []"
      using assms(1) False by (simp add: eligible_job_candidate_def least_by_None)
    ultimately show False by (metis empty_iff list.set(1))
  qed
qed

lemma fresh_choice_Some:
  assumes "fresh_choice roles deferred q = Some (fresh, old)"
  shows "\<exists>r. eligible_job_candidate roles r deferred False q = Some fresh"
    "eligible_job_candidate roles ByAge deferred False q = Some x \<Longrightarrow> x = old"
  using assms by (auto simp: fresh_choice_def split: option.splits if_splits)

lemma choose_job_Some:
  assumes "choose_job roles deferred q = Some j"
  shows "\<exists>r retry. eligible_job_candidate roles r deferred retry q = Some j"
  using assms
  by (auto simp: choose_job_def split: option.splits if_splits prod.splits dest!: fresh_choice_Some(1))

lemma choose_job_None:
  assumes "choose_job roles deferred q = None" "j \<in> set (q_jobs q)" "roles = [] \<or> jb_role j \<in> set roles"
  shows "\<not> claimable q deferred retry j"
proof -
  have "eligible_job_candidate roles ByPriority deferred False q = None"
    "eligible_job_candidate roles ByRetry deferred True q = None"
    using assms(1) by (auto simp: choose_job_def fresh_choice_def split: option.splits prod.splits)
  then show ?thesis using eligible_None [OF _ assms(2,3)] by (cases retry) auto
qed

section \<open>What an operation leaves alone\<close>

text \<open>Rows outside \<open>P\<close> are the same afterwards.\<close>

definition frame :: "(job \<Rightarrow> bool) \<Rightarrow> queue \<Rightarrow> queue \<Rightarrow> bool" where
  "frame P q q' \<longleftrightarrow> (\<forall>i j. find_job i q = Some j \<longrightarrow> \<not> P j \<longrightarrow> find_job i q' = Some j)"

lemma frame_refl: "frame P q q"
  by (simp add: frame_def)

lemma frame_trans: "frame P q q' \<Longrightarrow> frame P q' q'' \<Longrightarrow> frame P q q''"
  by (auto simp: frame_def)

lemma frame_mono: "frame P q q' \<Longrightarrow> (\<And>j. P j \<Longrightarrow> Q j) \<Longrightarrow> frame Q q q'"
  by (auto simp: frame_def)

lemma frame_jobs: "q_jobs q' = q_jobs q \<Longrightarrow> frame P q q'"
  by (auto simp: frame_def find_job_def)

lemma frame_update:
  assumes "sql_update fires hit f q = Inr (q', n)" "\<And>j. jb_id (f j) = jb_id j" "\<And>j. hit j \<Longrightarrow> P j"
  shows "frame P q q'"
  using assms(3) by (auto simp: frame_def find_job_update [OF assms(1,2)])

lemma heartbeat_frame:
  assumes "heartbeat_job c c' i owner secs q = Inr (q', b)"
  shows "frame (\<lambda>j. jb_id j = i \<and> lease_live owner (stamp c) j) q q'"
proof -
  from assms obtain e n where "sql_update False (\<lambda>j. jb_id j = i \<and> lease_live owner (stamp c) j)
      (\<lambda>j. j\<lparr>jb_beat := Some (stamp c), jb_until := Some e, jb_updated := stamp c\<rparr>) q = Inr (q', n)"
    by (auto simp: heartbeat_job_def Let_def split: prod.splits)
  then show ?thesis by (rule frame_update) simp_all
qed

lemma finish_frame:
  assumes "finish_job c i st result err (Some owner) q = Inr (q', b)"
  shows "frame (\<lambda>j. jb_id j = i \<and> lease_live owner (stamp c) j) q q'"
proof -
  from assms obtain e n where "sql_update True (\<lambda>j. jb_id j = i \<and> lease_live owner (stamp c) j)
      (\<lambda>j. j\<lparr>jb_status := st, jb_finished := Some (stamp c), jb_updated := stamp c, jb_error := e,
         jb_owner := None, jb_until := None, jb_beat := Some (stamp c), jb_retry_pending := 0, jb_retry_order := 0\<rparr>) q = Inr (q', n)"
    by (auto simp: finish_job_def Let_def split: prod.splits)
  then show ?thesis by (rule frame_update) simp_all
qed

lemma promote_frame:
  assumes "promote_successor src succ order result now q = Inr (q', r)"
  shows "frame (\<lambda>j. jb_id j = succ \<and> jb_status j = Pending) q q'"
proof -
  from assms obtain hit e n where "sql_update True hit
        (\<lambda>j. j\<lparr>jb_finished := None, jb_updated := now, jb_error := Some e, jb_owner := None, jb_until := None,
               jb_beat := None, jb_retry_pending := 1, jb_retry_order := order\<rparr>) q = Inr (q', n)"
    and hit: "\<And>j. hit j \<Longrightarrow> jb_id j = succ \<and> jb_status j = Pending"
    by (auto simp: promote_successor_def Let_def split: prod.splits)
  from this(1) show ?thesis by (rule frame_update) (use hit in auto)
qed

lemma skipped_frame:
  assumes "sql_update True hit (skipped now e) q = Inr (q', n)" "\<And>j. hit j \<Longrightarrow> P j"
  shows "frame P q q'"
  using frame_update [OF assms(1) _ assms(2)] by (simp add: skipped_def)

lemma bypass_jobs [simp]: "q_jobs (set_bypass_count i l v m q) = q_jobs q" "q_order (set_bypass_count i l v m q) = q_order q"
  by (simp_all add: set_bypass_count_def Let_def)

lemma count_bypasses_jobs [simp]: "q_jobs (count_bypasses roles deferred q row q') = q_jobs q'"
  "q_order (count_bypasses roles deferred q row q') = q_order q'"
  by (simp_all add: count_bypasses_def Let_def split: option.splits prod.splits)

section \<open>Claiming\<close>

definition claimed :: "pystr \<Rightarrow> pystr \<Rightarrow> pystr \<Rightarrow> job \<Rightarrow> job" where
  "claimed now owner expires j = j\<lparr>jb_status := Running, jb_started := (case jb_started j of None \<Rightarrow> Some now | s \<Rightarrow> s),
     jb_attempts := jb_attempts j + 1, jb_owner := Some owner, jb_until := Some expires, jb_beat := Some now, jb_updated := now\<rparr>"

lemma claim_inversion:
  assumes "claim_job c c' roles owner secs deferred q = Inr (q', res)" "queue_ok q"
  obtains (none) "q' = q" "res = None" "choose_job roles deferred q = None"
  | (claim) row expires r retry q1 where "choose_job roles deferred q = Some row"
      "lease_expiry c' secs = Inr expires"
      "sql_update True (\<lambda>j. jb_id j = jb_id row \<and> jb_status j = Pending) (claimed (stamp c) owner expires) q = Inr (q1, 1)"
      "q' = count_bypasses roles deferred q row q1"
      "res = Some (row\<lparr>jb_owner := Some owner, jb_until := Some expires, jb_beat := Some (stamp c)\<rparr>)"
      "find_job (jb_id row) q = Some row" "row \<in> set (q_jobs q)"
      "eligible_job_candidate roles r deferred retry q = Some row" "claimable q deferred retry row"
proof (cases "choose_job roles deferred q")
  case None
  then show thesis using assms(1) by (intro none) (auto simp: claim_job_def)
next
  case (Some row)
  from choose_job_Some [OF Some] obtain r retry where el: "eligible_job_candidate roles r deferred retry q = Some row" by blast
  note row = eligible_Some [OF el]
  have find: "find_job (jb_id row) q = Some row" using assms(2) row(1) by (intro find_job_unique) (auto simp: queue_ok_def)
  have f: "(\<lambda>j. j\<lparr>jb_status := Running, jb_started := (case jb_started j of None \<Rightarrow> Some (stamp c) | s \<Rightarrow> s),
         jb_attempts := jb_attempts j + 1, jb_owner := Some owner, jb_until := Some e, jb_beat := Some (stamp c),
         jb_updated := stamp c\<rparr>) = claimed (stamp c) owner e" for e
    by (simp add: fun_eq_iff claimed_def)
  from assms(1) Some obtain e q1 n where up: "lease_expiry c' secs = Inr e"
      "sql_update True (\<lambda>j. jb_id j = jb_id row \<and> jb_status j = Pending) (claimed (stamp c) owner e) q = Inr (q1, n)"
      "(if n \<noteq> 1 then Inr (q1, None) else Inr (count_bypasses roles deferred q row q1,
         Some (row\<lparr>jb_owner := Some owner, jb_until := Some e, jb_beat := Some (stamp c)\<rparr>))) = (Inr (q', res) :: py_error + queue \<times> job option)"
    by (auto simp: claim_job_def f Let_def)
  have "n = length (filter (\<lambda>j. jb_id j = jb_id row \<and> jb_status j = Pending) (q_jobs q))"
    using up(2) by (simp add: sql_update_Inr)
  also have "\<dots> = 1"
    using one_row [of q "\<lambda>j. jb_id j = jb_id row \<and> jb_status j = Pending" "jb_id row"] assms(2) find row(2)
    by (simp add: queue_ok_def claimable_def)
  finally show thesis using up Some find row el by (intro claim [of row e q1 r retry]) (auto simp: split: if_splits)
qed

lemma set_bypass_fair:
  assumes "fair_ok (q_fair q)" shows "fair_ok (q_fair (set_bypass_count i l v max_bypasses q))"
  using assms by (auto simp: set_bypass_count_def Let_def fair_ok_def max_bypasses_def dest!: in_set_oset)

lemma count_bypasses_fair:
  assumes "fair_ok (q_fair q')" shows "fair_ok (q_fair (count_bypasses roles deferred q row q'))"
  using assms by (auto simp: count_bypasses_def Let_def intro!: set_bypass_fair split: option.splits prod.splits)

lemma claim_ok:
  assumes "claim_job c c' roles owner secs deferred q = Inr (q', res)" "queue_ok q"
  shows "queue_ok q' \<and> frame (\<lambda>j. jb_status j = Pending) q q'"
  using assms
proof (cases rule: claim_inversion)
  case none
  with assms(2) show ?thesis by (simp add: frame_refl)
next
  case (claim row e r retry q1)
  let ?f = "claimed (stamp c) owner e"
  let ?hit = "\<lambda>j. jb_id j = jb_id row \<and> jb_status j = Pending"
  note inv = assms(2) [unfolded queue_ok_def]
  have jobs: "q_jobs q' = q_jobs q1" "q_order q' = q_order q" "q_fair q1 = fold (\<lambda>j. purge_fairness j (?f j)) (filter ?hit (q_jobs q)) (q_fair q)"
    using claim(3) [unfolded sql_update_Inr] claim(4) by simp_all
  have new: "unique_indexes (q_jobs q1)" using claim(3) [unfolded sql_update_Inr] by blast
  have rows: "row_ok (current_order q) j" if "j \<in> set (q_jobs q1)" for j
    using that claim(3) inv by (auto simp: sql_update_Inr row_ok_def claimed_def lease_shape_def)
  have src: "\<exists>i\<in>set (q_jobs q). jb_id j = jb_id i \<and> jb_dedupe j = jb_dedupe i \<and> (jb_status j = Running \<longrightarrow>
      jb_status i = Running \<or> jb_id i = jb_id row)" if "j \<in> set (q_jobs q1)" for j
  proof (rule sql_update_rows [OF claim(3) that])
    fix i assume "i \<in> set (q_jobs q)" "j = (if ?hit i then ?f i else i)"
    then show ?thesis by (intro bexI [of _ i]) (auto simp: claimed_def)
  qed
  have same: "jb_dedupe i = jb_dedupe row" if "i \<in> set (q_jobs q)" "jb_id i = jb_id row" for i
    using find_job_unique [of q i] that inv claim(6) by auto
  have twin: "\<not> (jb_status i = Running \<and> jb_dedupe i = jb_dedupe row \<and> jb_dedupe row \<noteq> None)" if "i \<in> set (q_jobs q)" for i
    using claim(9) that by (auto simp: claimable_def list_ex_iff split: option.splits)
  have "one_running (q_jobs q1)"
    unfolding one_running_def
  proof (intro ballI impI)
    fix a b assume ab: "a \<in> set (q_jobs q1)" "b \<in> set (q_jobs q1)" "jb_status a = Running" "jb_status b = Running"
      "jb_dedupe a \<noteq> None" "jb_dedupe a = jb_dedupe b"
    from src [OF ab(1)] src [OF ab(2)] ab obtain i k where ik: "i \<in> set (q_jobs q)" "k \<in> set (q_jobs q)"
      "jb_id a = jb_id i" "jb_id b = jb_id k" "jb_dedupe a = jb_dedupe i" "jb_dedupe b = jb_dedupe k"
      "jb_status i = Running \<or> jb_id i = jb_id row" "jb_status k = Running \<or> jb_id k = jb_id row" by metis
    show "jb_id a = jb_id b"
      using ik ab(5,6) twin [of i] twin [of k] same [of i] same [of k] inv unfolding one_running_def by metis
  qed
  moreover have "fair_ok (q_fair q1)" using inv jobs(3) fair_ok_subset [OF _ purge_subset] by simp
  moreover have "map jb_rowid (q_jobs q1) = map jb_rowid (q_jobs q)" using claim(3) by (auto simp: sql_update_Inr claimed_def)
  ultimately have "queue_ok q'"
    using rows new inv jobs claim(4) by (simp add: queue_ok_def current_order_def count_bypasses_fair)
  moreover have "frame (\<lambda>j. jb_status j = Pending) q q1"
    by (rule frame_update [OF claim(3)]) (simp_all add: claimed_def)
  ultimately show ?thesis using frame_trans frame_jobs [OF jobs(1)] by blast
qed

section \<open>The other operations\<close>

lemma update_order: "sql_update fires hit f q = Inr (q', n) \<Longrightarrow> current_order q' = current_order q"
  by (simp add: sql_update_Inr current_order_def)

lemma promote_order: "promote_successor src succ order result now q = Inr (q', r) \<Longrightarrow> current_order q' = current_order q"
  by (auto simp: promote_successor_def Let_def split: prod.splits dest: update_order)

lemma finish_owned_steps:
  assumes "finish_owned_job c1 c2 c3 i owner secs st result err q = Inr q'"
  obtains q1 where "heartbeat_job c1 c2 i owner secs q = Inr (q1, True)"
    "finish_job c3 i st result err (Some owner) q1 = Inr (q', True)"
  using assms by (auto simp: finish_owned_job_def)

lemma finish_owned_ok:
  assumes "finish_owned_job c1 c2 c3 i owner secs st result err q = Inr q'" "queue_ok q" "st \<noteq> Running"
  shows "queue_ok q' \<and> frame (\<lambda>j. jb_id j = i \<and> jb_status j = Running \<and> jb_owner j = Some owner) q q'"
proof (rule finish_owned_steps [OF assms(1)])
  fix q1 assume h: "heartbeat_job c1 c2 i owner secs q = Inr (q1, True)"
    and f: "finish_job c3 i st result err (Some owner) q1 = Inr (q', True)"
  have "queue_ok q'" using finish_ok [OF f heartbeat_ok [OF h assms(2)] assms(3)] .
  moreover have "frame (\<lambda>j. jb_id j = i \<and> jb_status j = Running \<and> jb_owner j = Some owner) q q'"
    by (rule frame_trans; rule frame_mono [OF heartbeat_frame [OF h]] frame_mono [OF finish_frame [OF f]])
       (auto simp: lease_live_def)
  ultimately show ?thesis ..
qed

definition released :: "pystr \<Rightarrow> pystr \<Rightarrow> int \<Rightarrow> job \<Rightarrow> job" where
  "released now err order j = j\<lparr>jb_status := Pending, jb_finished := None, jb_updated := now, jb_error := Some err,
     jb_owner := None, jb_until := None, jb_beat := None, jb_retry_pending := 1, jb_retry_order := order\<rparr>"

lemma retry_inversion:
  assumes "retry_owned_job c1 c2 c3 i owner secs result q = Inr (q', out)"
  obtains (transfer) q1 source order q2 succ q3 r err where
      "heartbeat_job c1 c2 i owner secs q = Inr (q1, True)"
      "find (\<lambda>j. jb_id j = i \<and> lease_live owner (stamp c3) j) (q_jobs q1) = Some source"
      "reserve_queue_retry_orders 1 q1 = Inr (q2, order)" "pending_dedupe_successor source q1 = Some succ"
      "promote_successor source (jb_id succ) order result (stamp c3) q2 = Inr (q3, r)"
      "sql_update True (\<lambda>j. jb_id j = i \<and> lease_live owner (stamp c3) j \<and> jb_dedupe j = jb_dedupe source
         \<and> carried_by q3 (Some (jb_id succ)) True j) (skipped (stamp c3) err) q3 = Inr (q', 1)"
      "out = \<lparr>ro_status = Skipped, ro_transferred = True, ro_job = jb_id succ, ro_result = r\<rparr>"
  | (keep) q1 source order q2 err where
      "heartbeat_job c1 c2 i owner secs q = Inr (q1, True)"
      "find (\<lambda>j. jb_id j = i \<and> lease_live owner (stamp c3) j) (q_jobs q1) = Some source"
      "reserve_queue_retry_orders 1 q1 = Inr (q2, order)" "pending_dedupe_successor source q1 = None"
      "sql_update True (\<lambda>j. jb_id j = i \<and> lease_live owner (stamp c3) j) (released (stamp c3) err order) q2 = Inr (q', 1)"
      "out = \<lparr>ro_status = Pending, ro_transferred = False, ro_job = i, ro_result = result\<rparr>"
proof -
  have rel: "(\<lambda>j. j\<lparr>jb_status := Pending, jb_finished := None, jb_updated := n, jb_error := Some e,
      jb_owner := None, jb_until := None, jb_beat := None, jb_retry_pending := 1, jb_retry_order := k\<rparr>) = released n e k" for n e k
    by (simp add: fun_eq_iff released_def)
  from assms obtain q1 where h: "heartbeat_job c1 c2 i owner secs q = Inr (q1, True)"
    by (auto simp: retry_owned_job_def)
  with assms obtain source where s: "find (\<lambda>j. jb_id j = i \<and> lease_live owner (stamp c3) j) (q_jobs q1) = Some source"
    by (auto simp: retry_owned_job_def Let_def split: option.splits)
  with assms h obtain q2 order where r: "reserve_queue_retry_orders 1 q1 = Inr (q2, order)"
    by (auto simp: retry_owned_job_def Let_def)
  show thesis
  proof (cases "pending_dedupe_successor source q1")
    case None
    then show thesis using assms h s r by (auto simp: retry_owned_job_def Let_def rel intro: keep)
  next
    case (Some succ)
    then show thesis using assms h s r by (auto simp: retry_owned_job_def Let_def intro: transfer)
  qed
qed

lemma retry_ok:
  assumes "retry_owned_job c1 c2 c3 i owner secs result q = Inr (q', out)" "queue_ok q"
  shows "queue_ok q' \<and> frame (\<lambda>j. jb_status j = Pending \<or> jb_status j = Running \<and> jb_owner j = Some owner) q q'"
  using assms(1)
proof (cases rule: retry_inversion)
  case (transfer q1 source order q2 succ q3 r err)
  let ?P = "\<lambda>j. jb_status j = Pending \<or> jb_status j = Running \<and> jb_owner j = Some owner"
  have ok1: "queue_ok q1" using heartbeat_ok [OF transfer(1) assms(2)] .
  note r = reserve_ok [OF transfer(3) ok1]
  have ok3: "queue_ok q3" using promote_ok [OF transfer(5)] r by simp
  have "frame ?P q q1" by (rule frame_mono [OF heartbeat_frame [OF transfer(1)]]) (auto simp: lease_live_def)
  moreover have "frame ?P q1 q2" using r by (intro frame_jobs) simp
  moreover have "frame ?P q2 q3" by (rule frame_mono [OF promote_frame [OF transfer(5)]]) auto
  moreover have "frame ?P q3 q'" by (rule skipped_frame [OF transfer(6)]) (auto simp: lease_live_def)
  ultimately show ?thesis using skipped_ok [OF transfer(6) ok3] frame_trans by blast
next
  case (keep q1 source order q2 err)
  let ?P = "\<lambda>j. jb_status j = Pending \<or> jb_status j = Running \<and> jb_owner j = Some owner"
  have ok1: "queue_ok q1" using heartbeat_ok [OF keep(1) assms(2)] .
  note r = reserve_ok [OF keep(3) ok1]
  have "queue_ok q'" by (rule update_ok [OF keep(5)]) (use r in \<open>auto simp: row_ok_def lease_shape_def released_def\<close>)
  moreover have "frame ?P q q1" by (rule frame_mono [OF heartbeat_frame [OF keep(1)]]) (auto simp: lease_live_def)
  moreover have "frame ?P q1 q2" using r by (intro frame_jobs) simp
  moreover have "frame ?P q2 q'" by (rule frame_update [OF keep(5)]) (auto simp: lease_live_def released_def)
  ultimately show ?thesis using frame_trans by blast
qed

lemma reclaim_row_ok:
  assumes "reclaim_row now checked orders row q = Inr (q', n, out)" "queue_ok q"
    and "\<forall>k\<in>set orders. snd k \<le> current_order q"
  shows "queue_ok q' \<and> current_order q' = current_order q \<and> frame (\<lambda>j. jb_status j = Pending \<or> lease_expired now j) q q'"
proof -
  let ?P = "\<lambda>j. jb_status j = Pending \<or> lease_expired now j"
  define order where "order = (case oget orders (jb_id row) of None \<Rightarrow> 0 | Some n \<Rightarrow> n)"
  have order: "order \<le> current_order q"
    using assms(3) queue_ok_order [OF assms(2)] by (fastforce simp: order_def split: option.splits dest: map_of_SomeD)
  have up: ?thesis if "sql_update True hit f q = Inr (q', m)" "\<And>j. hit j \<Longrightarrow> lease_expired now j"
    "f = skipped now e \<or> f = back_to_pending now e order \<or> f = back_to_pending now e 0 \<or> f = (\<lambda>j. skipped now e j\<lparr>jb_status := Failed\<rparr>)"
    for hit f m e
  proof -
    have "queue_ok q'"
      by (rule update_ok [OF that(1) assms(2)])
         (use order queue_ok_order [OF assms(2)] that(3) in \<open>auto simp: row_ok_def lease_shape_def skipped_def back_to_pending_def\<close>)
    moreover have "frame ?P q q'"
      by (rule frame_update [OF that(1)]) (use that(2,3) in \<open>auto simp: skipped_def back_to_pending_def\<close>)
    ultimately show ?thesis using update_order [OF that(1)] by simp
  qed
  note d = reclaim_row_def [of now checked orders row q, unfolded Let_def, folded order_def]
  show ?thesis
  proof (cases "jb_preemptible row = 1")
    case False
    with assms(1) have "q' = q \<or> (\<exists>e m. sql_update True (\<lambda>j. jb_id j = jb_id row \<and> lease_expired now j \<and> jb_preemptible j = 0)
        (\<lambda>j. skipped now e j\<lparr>jb_status := Failed\<rparr>) q = Inr (q', m))"
      by (auto simp: d split: if_splits prod.splits)
    then show ?thesis
    proof (elim disjE exE)
      fix e m assume "sql_update True (\<lambda>j. jb_id j = jb_id row \<and> lease_expired now j \<and> jb_preemptible j = 0)
        (\<lambda>j. skipped now e j\<lparr>jb_status := Failed\<rparr>) q = Inr (q', m)"
      then show ?thesis by (rule up) auto
    qed (use assms(2) in \<open>simp add: frame_refl\<close>)
  next
    case True
    show ?thesis
    proof (cases "pending_dedupe_successor row q")
      case None
      with True assms(1) have "q' = q \<or> (\<exists>hit e k m. sql_update True hit (back_to_pending now e k) q = Inr (q', m)
          \<and> (\<forall>j. hit j \<longrightarrow> lease_expired now j) \<and> (k = order \<or> k = 0))"
        by (auto simp: d split: if_splits prod.splits)
      then show ?thesis
      proof (elim disjE exE conjE)
        fix hit e k m assume "sql_update True hit (back_to_pending now e k) q = Inr (q', m)"
          "\<forall>j. hit j \<longrightarrow> lease_expired now j" and k: "k = order"
        then show ?thesis by (intro up [of hit "back_to_pending now e k" m e]) auto
      next
        fix hit e k m assume "sql_update True hit (back_to_pending now e k) q = Inr (q', m)"
          "\<forall>j. hit j \<longrightarrow> lease_expired now j" and k: "k = 0"
        then show ?thesis by (intro up [of hit "back_to_pending now e k" m e]) auto
      qed (use assms(2) in \<open>simp add: frame_refl\<close>)
    next
      case (Some succ)
      show ?thesis
      proof (cases "jb_retry_pending row = 1")
        case False
        with True Some assms(1) obtain e m where "sql_update True (\<lambda>j. (jb_id j = jb_id row \<and> lease_expired now j \<and> jb_preemptible j = 1)
            \<and> jb_retry_pending j = 0 \<and> jb_dedupe j = jb_dedupe row \<and> carried_by q None False j) (skipped now e) q = Inr (q', m)"
          by (auto simp: d split: prod.splits)
        then show ?thesis by (rule up) auto
      next
        case retry: True
        with True Some assms(1) obtain q1 r e m where p: "promote_successor row (jb_id succ) order (prior_result row) now q = Inr (q1, r)"
          and s: "sql_update True (\<lambda>j. (jb_id j = jb_id row \<and> lease_expired now j \<and> jb_preemptible j = 1)
            \<and> jb_retry_pending j = 1 \<and> jb_dedupe j = jb_dedupe row \<and> carried_by q1 (Some (jb_id succ)) True j) (skipped now e) q1 = Inr (q', m)"
          by (auto simp: d split: prod.splits)
        have "queue_ok q'" using skipped_ok [OF s promote_ok [OF p assms(2) order]] .
        moreover have "frame ?P q q1" by (rule frame_mono [OF promote_frame [OF p]]) auto
        moreover have "frame ?P q1 q'" by (rule skipped_frame [OF s]) auto
        ultimately show ?thesis using frame_trans promote_order [OF p] update_order [OF s] by auto
      qed
    qed
  qed
qed

lemma reclaim_ok:
  assumes "reclaim_expired_leases c checked roles q = Inr (q', n, out)" "queue_ok q"
  shows "queue_ok q' \<and> frame (\<lambda>j. jb_status j = Pending \<or> lease_expired (stamp c) j) q q'"
proof -
  let ?now = "stamp c" and ?P = "\<lambda>j. jb_status j = Pending \<or> lease_expired (stamp c) j"
  define candidates where "candidates = expired_lease_candidates roles ?now q"
  define retries where "retries = filter (\<lambda>j. jb_preemptible j = 1 \<and> jb_retry_pending j = 1) candidates"
  let ?orders = "\<lambda>start. zip (map jb_id retries) (map (\<lambda>k. start + int k) [0..<length retries])"
  let ?step = "\<lambda>start (q1, n, out) row. bindE (reclaim_row ?now checked (?orders start) row q1) (\<lambda>(q2, k, res). Inr (q2, n + k, out @ res))"
  have "bindE (if retries = [] then Inr (q, 0) else reserve_queue_retry_orders (int (length retries)) q)
      (\<lambda>(q0, start). foldE (?step start) (q0, 0, []) candidates) = Inr (q', n, out)"
    using assms(1) by (simp only: reclaim_expired_leases_def Let_def candidates_def retries_def)
  then obtain q0 start where res: "(if retries = [] then Inr (q, 0) else reserve_queue_retry_orders (int (length retries)) q) = Inr (q0, start)"
    and run: "foldE (?step start) (q0, 0, []) candidates = Inr (q', n, out)"
    by (auto simp del: split_paired_All split_paired_Ex)
  have q0: "queue_ok q0 \<and> q_jobs q0 = q_jobs q \<and> (\<forall>k\<in>set (?orders start). snd k \<le> current_order q0)"
  proof (cases "retries = []")
    case True
    then show ?thesis using res assms(2) by simp
  next
    case False
    then have r: "reserve_queue_retry_orders (int (length retries)) q = Inr (q0, start)" using res by simp
    note ro = reserve_ok [OF r assms(2)]
    have "snd k \<le> current_order q0" if k: "k \<in> set (?orders start)" for k
    proof -
      from k have "snd k \<in> set (map (\<lambda>k. start + int k) [0..<length retries])" by (metis prod.collapse set_zip_rightD)
      then show ?thesis using ro by auto
    qed
    then show ?thesis using ro by blast
  qed
  have "queue_ok (fst (q', n, out)) \<and> current_order (fst (q', n, out)) = current_order q0 \<and> frame ?P q0 (fst (q', n, out))"
    using run
  proof (rule foldE_invariant)
    fix s row s'
    assume inv: "queue_ok (fst s) \<and> current_order (fst s) = current_order q0 \<and> frame ?P q0 (fst s)"
      and step: "?step start s row = Inr s'"
    obtain q1 m o1 where s: "s = (q1, m, o1)" by (cases s) auto
    from step s obtain q2 k o2 where rr: "reclaim_row ?now checked (?orders start) row q1 = Inr (q2, k, o2)" and s': "fst s' = q2"
      by auto
    from reclaim_row_ok [OF rr] inv q0 s s' show "queue_ok (fst s') \<and> current_order (fst s') = current_order q0 \<and> frame ?P q0 (fst s')"
      by (auto intro: frame_trans)
  qed (use q0 in \<open>simp add: frame_refl\<close>)
  moreover have "frame ?P q q0" using q0 by (intro frame_jobs) simp
  ultimately show ?thesis using frame_trans by auto
qed

lemma claim_next_ok:
  assumes "claim_next_job c1 c2 c3 checked reclaim roles w secs deferred q = Inr (q', job, n, out)" "queue_ok q"
  shows "queue_ok q' \<and> frame (\<lambda>j. jb_status j = Pending \<or> lease_expired (stamp c1) j) q q'"
proof -
  let ?P = "\<lambda>j. jb_status j = Pending \<or> lease_expired (stamp c1) j"
  from assms(1) obtain q1 where r: "(if reclaim then reclaim_expired_leases c1 checked roles q else Inr (q, 0, [])) = Inr (q1, n, out)"
    and c: "claim_job c2 c3 roles w secs deferred q1 = Inr (q', job)"
    by (auto simp: claim_next_job_def)
  have one: "queue_ok q1 \<and> frame ?P q q1"
  proof (cases reclaim)
    case True
    then show ?thesis using r reclaim_ok [of c1 checked roles q q1 n out] assms(2) by simp
  qed (use r assms(2) in \<open>simp add: frame_refl\<close>)
  with claim_ok [OF c] have "queue_ok q'" "frame ?P q1 q'" by (auto intro: frame_mono)
  with one show ?thesis using frame_trans by blast
qed

lemma next_rowid_fresh: "j \<in> set js \<Longrightarrow> jb_rowid j < next_rowid js"
proof -
  have m: "x \<in> set (n # ns) \<Longrightarrow> x \<le> fold max ns n" for x n and ns :: "nat list"
    by (metis Max_ge List.finite_set Max.set_eq_fold)
  assume "j \<in> set js"
  then have "jb_rowid j \<in> set (map jb_rowid js)" by simp
  then show ?thesis using m by (cases "map jb_rowid js") (fastforce simp: next_rowid_def less_Suc_eq_le)+
qed

lemma reuse_ok:
  assumes "reuse_pending replace role ty key pr pre rel pay now i q = Inr (q', k)" "queue_ok q"
  shows "queue_ok q' \<and> frame (\<lambda>j. jb_status j = Pending) q q'"
proof (cases replace)
  case False
  then show ?thesis using assms by (simp add: reuse_pending_def frame_refl)
next
  case True
  from assms(1) True obtain re pa n where up: "sql_update True
          (\<lambda>j. jb_id j = i \<and> jb_status j = Pending \<and> key \<noteq> None \<and> jb_dedupe j = key \<and> jb_role j = role \<and> jb_type j = ty)
          (\<lambda>j. j\<lparr>jb_priority := pr, jb_preemptible := (if pre then 1 else 0), jb_related := re, jb_payload := pa, jb_updated := now,
                 jb_retry_order := (if jb_retry_pending j = 1 then jb_retry_order j else 0),
                 jb_error := (if jb_retry_pending j = 1 then jb_error j else None)\<rparr>) q = Inr (q', n)"
    by (auto simp: reuse_pending_def split: prod.splits if_splits)
  have "queue_ok q'"
    by (rule update_ok [OF up assms(2)]) (use queue_ok_order [OF assms(2)] in \<open>auto simp: row_ok_def lease_shape_def\<close>)
  moreover have "frame (\<lambda>j. jb_status j = Pending) q q'" by (rule frame_update [OF up]) auto
  ultimately show ?thesis ..
qed

lemma insert_ok:
  assumes "sql_insert j q = Inr q'" "queue_ok q" "jb_rowid j = next_rowid (q_jobs q)" "jb_status j = Pending" "jb_owner j = None" "jb_until j = None" "jb_retry_order j = 0"
  shows "queue_ok q' \<and> frame P q q'"
proof -
  have q': "q_jobs q' = q_jobs q @ [j]" "q_order q' = q_order q" "q_fair q' = q_fair q" "retry_authority j" "unique_indexes (q_jobs q')"
    using assms(1) by (auto simp: sql_insert_def split: if_splits)
  have "find_job i q' = Some k" if "find_job i q = Some k" for i k
    using that q'(1) find_append_Some by (simp add: find_job_def)
  moreover have "one_running (q_jobs q')" using assms(2,4) q'(1) by (auto simp: queue_ok_def one_running_def)
  moreover have "jb_rowid j \<notin> jb_rowid ` set (q_jobs q)" using assms(3) next_rowid_fresh by fastforce
  ultimately show ?thesis using assms q' by (auto simp: queue_ok_def row_ok_def lease_shape_def current_order_def frame_def)
qed

lemma enqueue_ok:
  assumes "enqueue_job env c role ty pr pay rel pre key rep q = Inr (q', i)" "queue_ok q"
  shows "queue_ok q' \<and> frame (\<lambda>j. jb_status j = Pending) q q'"
proof -
  let ?ro = "qe_redact_text env role" and ?ty = "qe_redact_text env ty" and ?pay = "qe_redact_value env pay"
    and ?rel = "qe_redact_value env (PList (map PStr rel))" and ?now = "stamp c"
  from assms(1) obtain k where k: "stored_key ?ro ?ty key = Inr k" by (auto simp: enqueue_job_def Let_def)
  define found where "found = (case k of None \<Rightarrow> None | Some x \<Rightarrow> pending_with_key x q)"
  have en: "(case found of Some e \<Rightarrow> reuse_pending rep ?ro ?ty k pr pre ?rel ?pay ?now (jb_id e) q
      | None \<Rightarrow> bindE (dumps store_json ?rel) (\<lambda>re. bindE (dumps store_json ?pay) (\<lambda>pa.
          case sql_insert (new_job env ?ro ?ty k pr pre re pa ?now q) q of
            Inr q' \<Rightarrow> Inr (q', qe_job_id env)
          | Inl err \<Rightarrow> (case found of None \<Rightarrow> Inl err | Some e \<Rightarrow> reuse_pending rep ?ro ?ty k pr pre ?rel ?pay ?now (jb_id e) q)))) = Inr (q', i)"
    unfolding found_def using assms(1) k by (simp add: enqueue_job_def Let_def)
  show ?thesis
  proof (cases found)
    case (Some e)
    with en have "reuse_pending rep ?ro ?ty k pr pre ?rel ?pay ?now (jb_id e) q = Inr (q', i)" by simp
    from reuse_ok [OF this assms(2)] show ?thesis .
  next
    case None
    from en [unfolded None option.case] obtain re pa where "(case sql_insert (new_job env ?ro ?ty k pr pre re pa ?now q) q of
        Inr q' \<Rightarrow> Inr (q', qe_job_id env) | Inl err \<Rightarrow> Inl err) = Inr (q', i)" by auto
    then have "sql_insert (new_job env ?ro ?ty k pr pre re pa ?now q) q = Inr q'"
      by (cases "sql_insert (new_job env ?ro ?ty k pr pre re pa ?now q) q") auto
    then show ?thesis by (rule insert_ok [OF _ assms(2)]) (simp_all add: new_job_def)
  qed
qed

section \<open>Steps\<close>

text \<open>A step of a worker at an instant: the instant is the first reading of the clock it makes.\<close>

inductive queue_step :: "queue_env \<Rightarrow> pystr \<Rightarrow> pystr \<Rightarrow> queue \<Rightarrow> queue \<Rightarrow> bool" for env where
  enqueue: "enqueue_job env c role ty pr pay rel pre key rep q = Inr (q', i) \<Longrightarrow> queue_step env w (stamp c) q q'"
| claim: "claim_next_job c1 c2 c3 checked reclaim roles w secs deferred q = Inr (q', job, n, out) \<Longrightarrow>
    queue_step env w (stamp c1) q q'"
| heartbeat: "heartbeat_job c1 c2 i w secs q = Inr (q', b) \<Longrightarrow> queue_step env w (stamp c1) q q'"
| finish: "finish_owned_job c1 c2 c3 i w secs st result err q = Inr q' \<Longrightarrow> st \<in> {Succeeded, Skipped, Failed} \<Longrightarrow>
    queue_step env w (stamp c1) q q'"
| fail: "finish_job c1 i Failed result err (Some w) q = Inr (q', b) \<Longrightarrow> queue_step env w (stamp c1) q q'"
| retry: "retry_owned_job c1 c2 c3 i w secs result q = Inr (q', out) \<Longrightarrow> queue_step env w (stamp c1) q q'"

definition empty_queue :: queue where
  "empty_queue = \<lparr>q_jobs = [], q_fair = [], q_order = Some (lit ''0'')\<rparr>"

inductive reachable :: "queue \<Rightarrow> bool" where
  start: "reachable empty_queue"
| step: "reachable q \<Longrightarrow> queue_step env w now q q' \<Longrightarrow> reachable q'"

lemma empty_ok: "queue_ok empty_queue"
proof -
  have "current_order empty_queue = 0"
    using py_int_dec [of 0] by (simp add: current_order_def empty_queue_def dec_int_def dec_nat_small lit_def)
  then show ?thesis by (simp add: queue_ok_def empty_queue_def unique_indexes_def pending_keys_def retry_keys_def
    List.map_filter_simps one_running_def fair_ok_def)
qed

lemma step_ok:
  assumes "queue_step env w now q q'" "queue_ok q"
  shows "queue_ok q' \<and> frame (\<lambda>j. jb_status j = Pending \<or> lease_expired now j \<or> jb_status j = Running \<and> jb_owner j = Some w) q q'"
  using assms
proof (cases rule: queue_step.cases)
  case enqueue
  then show ?thesis using enqueue_ok assms(2) by (blast intro: frame_mono)
next
  case claim
  then show ?thesis using claim_next_ok assms(2) by (blast intro: frame_mono)
next
  case heartbeat
  then show ?thesis using heartbeat_ok assms(2) frame_mono [OF heartbeat_frame] by (simp add: lease_live_def)
next
  case finish
  then show ?thesis using finish_owned_ok [OF _ assms(2)] by (blast intro: frame_mono)
next
  case fail
  then show ?thesis using finish_ok assms(2) frame_mono [OF finish_frame] by (simp add: lease_live_def)
next
  case retry
  then show ?thesis using retry_ok [OF _ assms(2)] by (blast intro: frame_mono)
qed

section \<open>Properties\<close>

text \<open>C8 Every reachable queue is well formed: identifiers, pending dedupe keys and retry orders are unique,
  retry orders stay below the counter, the lease columns are set exactly on running rows, at most one job
  with a dedupe key is running, and no bypass counter exceeds its bound.\<close>

theorem queue_invariant:
  assumes "reachable q"
  shows "queue_ok q"
  using assms by (induction rule: reachable.induct) (auto simp: empty_ok dest: step_ok)

definition demo_job :: job where
  "demo_job = \<lparr>jb_rowid = 1, jb_id = lit ''j'', jb_role = lit ''librarian'', jb_type = lit ''t'', jb_priority = 500,
     jb_status = Pending, jb_preemptible = 1, jb_attempts = 0, jb_retry_order = 0, jb_retry_pending = 0, jb_dedupe = None,
     jb_related = lit ''[]'', jb_payload = lit ''[]'', jb_error = None, jb_owner = None, jb_until = None, jb_beat = None,
     jb_created = lit ''0'', jb_updated = lit ''0'', jb_started = None, jb_finished = None\<rparr>"

definition demo_clock :: civil where
  "demo_clock = \<lparr>c_year = 2026, c_month = 1, c_day = 1, c_hour = 0, c_minute = 0, c_second = 0, c_micro = 0\<rparr>"

definition demo_queue_env :: queue_env where
  "demo_queue_env = \<lparr>qe_redact_value = (\<lambda>v. v), qe_redact_text = (\<lambda>s. s), qe_job_id = lit ''j''\<rparr>"

definition demo_running :: queue where
  "demo_running = \<lparr>q_jobs = [demo_job\<lparr>jb_status := Running, jb_owner := Some (lit ''a''), jb_until := Some (lit ''9'')\<rparr>],
     q_fair = [], q_order = Some (lit ''0'')\<rparr>"

theorem queue_invariant_witness:
  "\<exists>q. length (q_jobs q) = 1 \<and> queue_ok q"
proof -
  have "\<exists>q' i. enqueue_job demo_queue_env demo_clock (lit ''r'') (lit ''t'') 5 (PList []) [] True None False empty_queue = Inr (q', i)
      \<and> length (q_jobs q') = 1"
    by (simp add: enqueue_job_def stored_key_def demo_queue_env_def empty_queue_def sql_insert_def new_job_def
        retry_authority_def unique_indexes_def pending_keys_def retry_keys_def List.map_filter_simps Let_def)
  then obtain q' i where q': "enqueue_job demo_queue_env demo_clock (lit ''r'') (lit ''t'') 5 (PList []) [] True None False empty_queue = Inr (q', i)"
    "length (q_jobs q') = 1" by blast
  from queue_invariant [OF reachable.step [OF reachable.start queue_step.enqueue [OF q'(1)]]] q'(2) show ?thesis by blast
qed

text \<open>C9 A live lease is exclusive: while the lease of a running job has not expired, no step of another
  worker changes the job or takes it over.\<close>

theorem lease_exclusive:
  assumes "queue_step env w now q q'" "queue_ok q" "find_job i q = Some j"
    and "lease_live owner now j" "owner \<noteq> w"
  shows "find_job i q' = Some j"
proof -
  have "\<not> (jb_status j = Pending \<or> lease_expired now j \<or> jb_status j = Running \<and> jb_owner j = Some w)"
    using assms(4,5) by (auto simp: lease_live_def lease_expired_def split: option.splits)
  with step_ok [OF assms(1,2)] assms(3) show ?thesis unfolding frame_def by blast
qed

lemma demo_running_ok: "queue_ok demo_running"
proof -
  have "current_order demo_running = 0"
    using py_int_dec [of 0] by (simp add: current_order_def demo_running_def dec_int_def dec_nat_small lit_def)
  then show ?thesis
    by (simp add: queue_ok_def demo_running_def unique_indexes_def pending_keys_def retry_keys_def demo_job_def
        List.map_filter_simps one_running_def fair_ok_def row_ok_def retry_authority_def lease_shape_def)
qed

lemma demo_stamp: "stamp demo_clock < lit ''9''"
  by (simp add: stamp_def demo_clock_def isoformat_def dig4_def lit_def)

lemma demo_expiry: "\<exists>e. lease_expiry demo_clock 30 = Inr e"
  by (simp add: lease_expiry_def add_seconds_def demo_clock_def micros_def max_ord_def day_micros_def ymd_to_ord_def
      days_before_year_def days_before_month_def month_days_def leap_def Let_def)

theorem lease_exclusive_witness:
  "find_job (lit ''j'') demo_running \<noteq> None \<and>
   (\<exists>q'. heartbeat_job demo_clock demo_clock (lit ''j'') (lit ''b'') 30 demo_running = Inr (q', False)
      \<and> find_job (lit ''j'') q' = find_job (lit ''j'') demo_running)"
proof -
  let ?j = "demo_job\<lparr>jb_status := Running, jb_owner := Some (lit ''a''), jb_until := Some (lit ''9'')\<rparr>"
  have f: "find_job (lit ''j'') demo_running = Some ?j" by (simp add: find_job_def demo_running_def demo_job_def)
  obtain e where "lease_expiry demo_clock 30 = Inr e" using demo_expiry by blast
  then obtain q' where h: "heartbeat_job demo_clock demo_clock (lit ''j'') (lit ''b'') 30 demo_running = Inr (q', False)"
    using demo_running_ok
    by (simp add: heartbeat_job_def demo_running_def sql_update_def lease_live_def demo_job_def queue_ok_def Let_def)
  have "lease_live (lit ''a'') (stamp demo_clock) ?j" using demo_stamp by (simp add: lease_live_def)
  from lease_exclusive [OF queue_step.heartbeat [OF h] demo_running_ok f this] f h show ?thesis by simp
qed

text \<open>Finished jobs are final: no step changes a job that has succeeded, failed or been skipped.\<close>

lemma finished_is_final:
  assumes "queue_step env w now q q'" "queue_ok q" "find_job i q = Some j" "jb_status j \<in> {Succeeded, Skipped, Failed}"
  shows "find_job i q' = Some j"
  using step_ok [OF assms(1,2)] assms(3,4) by (auto simp: frame_def lease_expired_def)

lemma finished_is_final_witness:
  "\<exists>q q'. find_job (lit ''j'') q = Some (demo_job\<lparr>jb_status := Failed\<rparr>) \<and>
     enqueue_job (demo_queue_env\<lparr>qe_job_id := lit ''k''\<rparr>) demo_clock (lit ''r'') (lit ''t'') 5 (PList []) [] True None False q
       = Inr (q', lit ''k'') \<and> find_job (lit ''j'') q' = Some (demo_job\<lparr>jb_status := Failed\<rparr>)"
proof -
  let ?q = "empty_queue\<lparr>q_jobs := [demo_job\<lparr>jb_status := Failed\<rparr>]\<rparr>"
  let ?env = "demo_queue_env\<lparr>qe_job_id := lit ''k''\<rparr>"
  have ok: "queue_ok ?q"
    using empty_ok by (simp add: queue_ok_def empty_queue_def unique_indexes_def pending_keys_def retry_keys_def demo_job_def
        List.map_filter_simps one_running_def row_ok_def retry_authority_def lease_shape_def current_order_def)
  have "\<exists>q'. enqueue_job ?env demo_clock (lit ''r'') (lit ''t'') 5 (PList []) [] True None False ?q = Inr (q', lit ''k'')"
    by (simp add: enqueue_job_def stored_key_def demo_queue_env_def empty_queue_def sql_insert_def new_job_def demo_job_def
        retry_authority_def unique_indexes_def pending_keys_def retry_keys_def List.map_filter_simps Let_def)
  then obtain q' where q': "enqueue_job ?env demo_clock (lit ''r'') (lit ''t'') 5 (PList []) [] True None False ?q = Inr (q', lit ''k'')" ..
  have "find_job (lit ''j'') ?q = Some (demo_job\<lparr>jb_status := Failed\<rparr>)" by (simp add: find_job_def demo_job_def)
  with finished_is_final [OF queue_step.enqueue [OF q'] ok this] q' show ?thesis by auto
qed

text \<open>A claim is exact: it hands out a pending, not deferred job of the requested roles whose dedupe key
  no running job has, starts exactly that job under the caller's lease and changes no other row; when it
  hands out nothing, no such job exists.\<close>

lemma claim_exact:
  assumes "claim_job c c' roles w secs deferred q = Inr (q', res)" "queue_ok q"
  shows "case res of
      None \<Rightarrow> q' = q \<and> list_all (\<lambda>j. if roles = [] \<or> jb_role j \<in> set roles
        then \<not> claimable q deferred False j \<and> \<not> claimable q deferred True j else True) (q_jobs q)
    | Some k \<Rightarrow> \<exists>row e. find_job (jb_id k) q = Some row \<and> (claimable q deferred False row \<or> claimable q deferred True row)
        \<and> (roles = [] \<or> jb_role row \<in> set roles) \<and> lease_expiry c' secs = Inr e
        \<and> find_job (jb_id k) q' = Some (claimed (stamp c) w e row)
        \<and> (\<forall>i. if i = jb_id k then True else find_job i q' = find_job i q)"
  using assms
proof (cases rule: claim_inversion)
  case none
  then show ?thesis using choose_job_None [OF none(3)] by (auto simp: list_all_iff)
next
  case (claim row e r retry q1)
  have st: "jb_status row = Pending" using claim(9) by (simp add: claimable_def)
  have id: "jb_id (claimed n ow x j) = jb_id j" for n ow x j by (simp add: claimed_def)
  note f = find_job_update [OF claim(3) id]
  have fj: "find_job i q' = find_job i q1" for i using claim(4) by (simp add: find_job_def)
  have "find_job (jb_id row) q' = Some (claimed (stamp c) w e row)" using f claim(6) st fj by simp
  moreover have "find_job i q' = find_job i q" if "i \<noteq> jb_id row" for i
    using that fj f [of i] find_job_Some [of i q] by (cases "find_job i q") auto
  moreover have "claimable q deferred False row \<or> claimable q deferred True row" using claim(9) by (cases retry) auto
  moreover have "roles = [] \<or> jb_role row \<in> set roles" using eligible_Some(3) [OF claim(8)] by blast
  ultimately show ?thesis using claim(2,5,6) by auto
qed

definition demo_queue :: queue where
  "demo_queue = empty_queue\<lparr>q_jobs := [demo_job]\<rparr>"

lemma demo_queue_ok: "queue_ok demo_queue"
  using empty_ok by (simp add: queue_ok_def demo_queue_def empty_queue_def unique_indexes_def pending_keys_def retry_keys_def
      demo_job_def List.map_filter_simps one_running_def row_ok_def retry_authority_def lease_shape_def current_order_def)

lemma claim_exact_witness:
  "\<exists>q' k e. claim_job demo_clock demo_clock [] (lit ''w'') 30 [] demo_queue = Inr (q', Some k) \<and> jb_id k = lit ''j''
     \<and> find_job (lit ''j'') q' = Some (claimed (stamp demo_clock) (lit ''w'') e demo_job)"
proof -
  obtain e where "lease_expiry demo_clock 30 = Inr e" using demo_expiry by blast
  then have "\<exists>q' k. claim_job demo_clock demo_clock [] (lit ''w'') 30 [] demo_queue = Inr (q', Some k) \<and> jb_id k = lit ''j''"
    by (simp add: claim_job_def choose_job_def fresh_choice_def eligible_job_candidate_def least_by_def claimable_def
        demo_queue_def empty_queue_def demo_job_def sql_update_def unique_indexes_def pending_keys_def retry_keys_def
        List.map_filter_simps retry_authority_def Let_def)
  then obtain q' k where k: "claim_job demo_clock demo_clock [] (lit ''w'') 30 [] demo_queue = Inr (q', Some k)" "jb_id k = lit ''j''"
    by blast
  have "find_job (lit ''j'') demo_queue = Some demo_job" by (simp add: find_job_def demo_queue_def demo_job_def)
  with claim_exact [OF k(1) demo_queue_ok] k show ?thesis by fastforce
qed

lemma map_of_filter_key: "map_of (filter (\<lambda>(k, _). k \<noteq> x) xs) y = (if y = x then None else map_of xs y)"
  by (induction xs) auto

lemma bypass_count_other: "(i', l') \<noteq> (i, l) \<Longrightarrow> bypass_count (set_bypass_count i l v m q) i' l' = bypass_count q i' l'"
  by (auto simp: bypass_count_def set_bypass_count_def Let_def map_of_filter_key)

lemma bypass_count_set:
  assumes "find_job i q = Some j" "jb_status j = Pending" "jb_retry_pending j = (if l = RetryLane then 1 else 0)" "0 < v" "v \<le> m"
  shows "bypass_count (set_bypass_count i l v m q) i l = v"
  using assms by (simp add: bypass_count_def set_bypass_count_def Let_def)

definition demo_two :: queue where
  "demo_two = empty_queue\<lparr>q_jobs := [demo_job, demo_job\<lparr>jb_rowid := 2, jb_id := lit ''k'', jb_priority := 1, jb_created := lit ''1''\<rparr>]\<rparr>"

lemma demo_two_ok: "queue_ok demo_two"
  using empty_ok by (simp add: queue_ok_def demo_two_def empty_queue_def unique_indexes_def pending_keys_def retry_keys_def
      demo_job_def List.map_filter_simps one_running_def row_ok_def retry_authority_def lease_shape_def current_order_def)

lemma demo_oldest: "eligible_job_candidate [] ByAge [] False demo_two = Some demo_job"
  by (simp add: eligible_job_candidate_def least_by_def claimable_def demo_two_def empty_queue_def demo_job_def job_key_def lit_def)

lemma demo_choice: "choose_job [] [] demo_two = Some (demo_job\<lparr>jb_rowid := 2, jb_id := lit ''k'', jb_priority := 1, jb_created := lit ''1''\<rparr>)"
  by (simp add: choose_job_def fresh_choice_def eligible_job_candidate_def least_by_def claimable_def demo_two_def empty_queue_def
      demo_job_def job_key_def bypass_count_def max_bypasses_def lit_def)



text \<open>C30 A retry is conserved: after a retry of an owned job exactly the reported job carries it, pending,
  with a retry order above every order given out before, and the source is no longer running.\<close>

theorem retry_conserves:
  assumes "retry_owned_job c1 c2 c3 i w secs result q = Inr (q', out)" "queue_ok q"
  shows "\<exists>t. find_job (ro_job out) q' = Some t \<and> jb_status t = Pending \<and> jb_retry_pending t = 1
    \<and> jb_retry_order t = current_order q + 1 \<and> list_all (\<lambda>j. jb_retry_order j < jb_retry_order t) (q_jobs q)
    \<and> (case find_job i q' of None \<Rightarrow> False | Some s \<Rightarrow> jb_status s = (if ro_transferred out then Skipped else Pending))"
proof -
  have below: "list_all (\<lambda>j. jb_retry_order j < current_order q + 1) (q_jobs q)"
    using assms(2) by (fastforce simp: list_all_iff queue_ok_def row_ok_def)
  have beat: "queue_ok q1 \<and> current_order q1 = current_order q" if "heartbeat_job c1 c2 i w secs q = Inr (q1, b)" for q1 b
    using that heartbeat_ok [OF that assms(2)] by (auto simp: heartbeat_job_def Let_def dest: update_order split: prod.splits)
  have one: "\<exists>j. find_job i q2 = Some j \<and> hit j" if "length (filter hit (q_jobs q2)) = 1" "unique_indexes (q_jobs q2)"
      "\<And>j. hit j \<Longrightarrow> jb_id j = i" for hit q2 i
    using one_row [OF that(2), of hit i] that(1,3) by (auto split: option.splits if_splits)
  show ?thesis
    using assms(1)
  proof (cases rule: retry_inversion)
    case (keep q1 source order q2 err)
    note r = reserve_ok [OF keep(3)] and b = beat [OF keep(1)]
    have id: "jb_id (released n e x j) = jb_id j" for n e x j by (simp add: released_def)
    have "\<exists>j. find_job i q2 = Some j \<and> (jb_id j = i \<and> lease_live w (stamp c3) j)"
      using keep(5) r b by (intro one) (auto simp: sql_update_Inr queue_ok_def)
    then obtain j where j: "find_job i q2 = Some j" "jb_id j = i \<and> lease_live w (stamp c3) j" by blast
    then have "find_job i q' = Some (released (stamp c3) err order j)"
      by (simp add: find_job_update [OF keep(5) id])
    with keep(6) r b below show ?thesis by (simp add: released_def)
  next
    case (transfer q1 source order q2 succ q3 rr err)
    note r = reserve_ok [OF transfer(3)] and b = beat [OF transfer(1)]
    have ok2: "queue_ok q2" using r b by blast
    from transfer(5) obtain hit e where pr: "sql_update True hit
        (\<lambda>j. j\<lparr>jb_finished := None, jb_updated := stamp c3, jb_error := Some e, jb_owner := None, jb_until := None,
               jb_beat := None, jb_retry_pending := 1, jb_retry_order := order\<rparr>) q2 = Inr (q3, 1)"
      and hit: "\<And>j. hit j \<Longrightarrow> jb_id j = jb_id succ \<and> jb_status j = Pending"
      by (auto simp: promote_successor_def Let_def)
    have ok3: "queue_ok q3" using promote_ok [OF transfer(5) ok2] r b by simp
    have "\<exists>j. find_job (jb_id succ) q2 = Some j \<and> hit j"
      using pr ok2 hit by (intro one) (auto simp: sql_update_Inr queue_ok_def)
    then obtain j where j: "find_job (jb_id succ) q2 = Some j" "hit j" by blast
    obtain t where t: "find_job (jb_id succ) q3 = Some t" "jb_status t = Pending" "jb_retry_pending t = 1" "jb_retry_order t = order"
      using j hit [OF j(2)] by (simp add: find_job_update [OF pr])
    have id: "jb_id (skipped n e j) = jb_id j" for n e j by (simp add: skipped_def)
    have t': "find_job (jb_id succ) q' = Some t"
      using t by (auto simp: find_job_update [OF transfer(6) id] lease_live_def)
    have "\<exists>j. find_job i q3 = Some j \<and> (jb_id j = i \<and> lease_live w (stamp c3) j \<and> jb_dedupe j = jb_dedupe source
         \<and> carried_by q3 (Some (jb_id succ)) True j)"
      using transfer(6) ok3 by (intro one) (auto simp: sql_update_Inr queue_ok_def)
    then obtain s where "find_job i q' = Some (skipped (stamp c3) err s)"
      by (auto simp: find_job_update [OF transfer(6) id])
    with t t' transfer(7) r b below show ?thesis by (simp add: skipped_def)
  qed
qed

lemma demo_expiry_text: "lease_expiry demo_clock 30 = Inr (isoformat (demo_clock\<lparr>c_second := 30\<rparr>))"
proof -
  have m: "micros demo_clock = 63902908800000000"
    by (simp add: demo_clock_def micros_def ymd_to_ord_def days_before_year_def days_before_month_def month_days_def leap_def)
  have "civil_of_micros 63902908830000000 = demo_clock\<lparr>c_second := 30\<rparr>"
    by (simp add: civil_of_micros_def ord_to_ymd_def Let_def demo_clock_def leap_def days_before_month_def month_days_def days_in_month_def)
  then show ?thesis using m
    by (simp add: lease_expiry_def add_seconds_def Let_def max_ord_def day_micros_def demo_clock_def)
qed

theorem retry_conserves_witness:
  "\<exists>q' out t. retry_owned_job demo_clock demo_clock demo_clock (lit ''j'') (lit ''a'') 30 (PDict []) demo_running = Inr (q', out)
     \<and> find_job (ro_job out) q' = Some t \<and> jb_status t = Pending \<and> jb_retry_order t = 1"
proof -
  let ?e = "isoformat (demo_clock\<lparr>c_second := 30\<rparr>)"
  have lt: "stamp demo_clock < ?e"
    by (simp add: stamp_def demo_clock_def isoformat_def dig4_def dig2_def)
  have "\<exists>q' out. retry_owned_job demo_clock demo_clock demo_clock (lit ''j'') (lit ''a'') 30 (PDict []) demo_running = Inr (q', out)"
    using demo_stamp lt py_int_dec [of 0]
    by (simp add: retry_owned_job_def heartbeat_job_def demo_expiry_text demo_running_def demo_job_def sql_update_def lease_live_def
        unique_indexes_def pending_keys_def retry_keys_def List.map_filter_simps retry_authority_def Let_def
        reserve_queue_retry_orders_def dec_int_def dec_nat_small lit_def max_retry_order_def pending_dedupe_successor_def
        retry_json_def mkdict_def store_json_def)
  then obtain q' out where run: "retry_owned_job demo_clock demo_clock demo_clock (lit ''j'') (lit ''a'') 30 (PDict []) demo_running = Inr (q', out)"
    by blast
  have "current_order demo_running = 0"
    using py_int_dec [of 0] by (simp add: current_order_def demo_running_def dec_int_def dec_nat_small lit_def)
  with retry_conserves [OF run demo_running_ok] run show ?thesis by fastforce
qed

text \<open>Selecting per role and then among the roles gives the same job as one selection over all jobs of
  the roles.\<close>

lemma eligible_roles_agree:
  assumes "queue_ok q" "roles \<noteq> []"
  shows "eligible_job_candidate roles r deferred retry q =
    least_by (job_key r) (filter (\<lambda>j. jb_role j \<in> set roles \<and> claimable q deferred retry j) (q_jobs q))"
proof -
  let ?all = "filter (\<lambda>j. jb_role j \<in> set roles \<and> claimable q deferred retry j) (q_jobs q)"
  let ?of = "\<lambda>role. filter (\<lambda>j. jb_role j = role \<and> claimable q deferred retry j) (q_jobs q)"
  let ?best = "List.map_filter (\<lambda>role. least_by (job_key r) (?of role)) (role_list roles)"
  have inj: "inj_on (job_key r) (set (q_jobs q))"
  proof (rule inj_onI)
    fix a b assume "a \<in> set (q_jobs q)" "b \<in> set (q_jobs q)" "job_key r a = job_key r b"
    moreover from this have "jb_rowid a = jb_rowid b" by (cases r) (simp_all add: job_key_def)
    ultimately show "a = b" using assms(1) unfolding queue_ok_def distinct_map by (meson inj_onD)
  qed
  have el: "eligible_job_candidate roles r deferred retry q = least_by (job_key r) ?best"
    using assms(2) by (simp add: eligible_job_candidate_def)
  show ?thesis
  proof (cases "least_by (job_key r) ?all")
    case None
    then have "\<not> claimable q deferred retry j" if "j \<in> set (q_jobs q)" "jb_role j \<in> set roles" for j
      using that by (auto simp: least_by_None filter_empty_conv)
    then have "eligible_job_candidate roles r deferred retry q = None"
      using eligible_Some [of roles r deferred retry q] assms(2) by (cases "eligible_job_candidate roles r deferred retry q") auto
    with None show ?thesis by simp
  next
    case (Some x)
    note x = least_by_Some [OF Some]
    then have "\<exists>y. eligible_job_candidate roles r deferred retry q = Some y"
      using eligible_None [of roles r deferred retry q x] by (cases "eligible_job_candidate roles r deferred retry q") auto
    then obtain y where y: "eligible_job_candidate roles r deferred retry q = Some y" ..
    note ye = eligible_Some [OF y]
    have "?of (jb_role x) \<noteq> []" using x(1) by (auto simp: filter_empty_conv)
    then obtain z where z: "least_by (job_key r) (?of (jb_role x)) = Some z"
      using least_by_None by (cases "least_by (job_key r) (?of (jb_role x))") auto
    have "jb_role x \<in> set (role_list roles)" using x(1) by (simp add: role_list_def)
    with z have zb: "z \<in> set ?best" unfolding in_map_filter by blast
    have "least_by (job_key r) ?best = Some y" using y el by simp
    from least_by_Some(2) [OF this zb] have "job_key r y \<le> job_key r z" .
    moreover have "job_key r z \<le> job_key r x" using least_by_Some(2) [OF z] x(1) by simp
    moreover have "job_key r x \<le> job_key r y" using x(2) ye assms(2) by simp
    ultimately have "job_key r x = job_key r y" by order
    moreover have "x \<in> set (q_jobs q)" using x(1) by simp
    ultimately have "x = y" using inj ye(1) by (meson inj_onD)
    with Some y show ?thesis by simp
  qed
qed

lemma eligible_roles_agree_witness:
  "eligible_job_candidate [lit ''librarian''] ByAge [] False demo_queue = Some demo_job"
  using eligible_roles_agree [OF demo_queue_ok, of "[lit ''librarian'']" ByAge "[]" False]
  by (simp add: least_by_def claimable_def demo_queue_def empty_queue_def demo_job_def)

end
