(* ===== verification/Conflict_Budget.thy ===== *)
theory Conflict_Budget
  imports Continuum_Prelude
begin

text \<open>
  \<open>_ConflictWorkBudget\<close> and \<open>_conflict_work_budget\<close> of \<open>core/workers.py\<close>: the limits one conflict pass runs
  under, and what it has used of them.  The monotonic clock is an argument, the readings in nanoseconds by their
  number; the rounding of its floats is left out.
\<close>

section \<open>The budget\<close>

type_synonym clock = "nat \<Rightarrow> int"

record budget =
  bg_candidate_limit :: int
  bg_comparison_limit :: int
  bg_member_limit :: int
  bg_mutation_limit :: int
  bg_allowance :: int
  bg_started :: int
  bg_deadline :: int
  bg_finished :: "int option"
  bg_candidates :: int
  bg_comparisons :: int
  bg_members :: int
  bg_mutations :: int
  bg_candidate_out :: bool
  bg_comparison_out :: bool
  bg_member_out :: bool
  bg_mutation_out :: bool
  bg_time_out :: bool
  bg_reads :: nat

definition max_candidates :: int where "max_candidates = 512"
definition max_comparisons :: int where "max_comparisons = 130816"
definition max_mutations :: int where "max_mutations = 512"
definition max_members :: int where "max_members = 512"
definition max_nanoseconds :: int where "max_nanoseconds = 5000000000"

definition clamp :: "int \<Rightarrow> int \<Rightarrow> int \<Rightarrow> int" where
  "clamp low high n = max low (min n high)"

definition new_budget :: "clock \<Rightarrow> nat \<Rightarrow> int \<Rightarrow> int \<Rightarrow> int \<Rightarrow> int \<Rightarrow> int \<Rightarrow> budget" where
  "new_budget clock reads candidates comparisons members mutations nanoseconds =
     (let allowance = clamp 10000000 max_nanoseconds nanoseconds; now = clock reads in
      \<lparr>bg_candidate_limit = clamp 1 max_candidates candidates, bg_comparison_limit = clamp 1 max_comparisons comparisons,
       bg_member_limit = clamp 1 max_members members, bg_mutation_limit = clamp 1 max_mutations mutations,
       bg_allowance = allowance, bg_started = now, bg_deadline = now + allowance, bg_finished = None,
       bg_candidates = 0, bg_comparisons = 0, bg_members = 0, bg_mutations = 0,
       bg_candidate_out = False, bg_comparison_out = False, bg_member_out = False, bg_mutation_out = False,
       bg_time_out = False, bg_reads = Suc reads\<rparr>)"

definition start_transaction :: "clock \<Rightarrow> budget \<Rightarrow> budget" where
  "start_transaction clock b =
     (let now = clock (bg_reads b)
      in b\<lparr>bg_started := now, bg_deadline := now + bg_allowance b, bg_finished := None, bg_reads := Suc (bg_reads b)\<rparr>)"

definition finish_transaction :: "clock \<Rightarrow> budget \<Rightarrow> budget" where
  "finish_transaction clock b =
     (let now = clock (bg_reads b)
      in b\<lparr>bg_finished := Some now, bg_time_out := (bg_time_out b \<or> bg_deadline b < now), bg_reads := Suc (bg_reads b)\<rparr>)"

definition has_time :: "clock \<Rightarrow> budget \<Rightarrow> budget \<times> bool" where
  "has_time clock b =
     (let b1 = b\<lparr>bg_reads := Suc (bg_reads b)\<rparr>
      in if clock (bg_reads b) \<le> bg_deadline b then (b1, True) else (b1\<lparr>bg_time_out := True\<rparr>, False))"

definition consume_comparison :: "clock \<Rightarrow> budget \<Rightarrow> budget \<times> bool" where
  "consume_comparison clock b =
     (if bg_comparison_limit b \<le> bg_comparisons b then (b\<lparr>bg_comparison_out := True\<rparr>, False)
      else case has_time clock b of (b1, ok) \<Rightarrow>
        if ok then (b1\<lparr>bg_comparisons := bg_comparisons b1 + 1\<rparr>, True) else (b1, False))"

definition consume_component_member :: "clock \<Rightarrow> budget \<Rightarrow> budget \<times> bool" where
  "consume_component_member clock b =
     (if bg_member_limit b \<le> bg_members b then (b\<lparr>bg_member_out := True\<rparr>, False)
      else case has_time clock b of (b1, ok) \<Rightarrow>
        if ok then (b1\<lparr>bg_members := bg_members b1 + 1\<rparr>, True) else (b1, False))"

definition can_mutate :: "clock \<Rightarrow> int \<Rightarrow> budget \<Rightarrow> budget \<times> bool" where
  "can_mutate clock n b =
     (if n < 0 then (b, False)
      else if bg_mutation_limit b < bg_mutations b + n then (b\<lparr>bg_mutation_out := True\<rparr>, False)
      else has_time clock b)"

definition record_mutations :: "int \<Rightarrow> budget \<Rightarrow> budget" where
  "record_mutations n b = b\<lparr>bg_mutations := bg_mutations b + max 0 n\<rparr>"

definition deadline_exceeded :: py_error where
  "deadline_exceeded = RuntimeError ''conflict work deadline exceeded''"

definition require_time :: "clock \<Rightarrow> budget \<Rightarrow> py_error + budget" where
  "require_time clock b = (case has_time clock b of (b1, ok) \<Rightarrow> if ok then Inr b1 else Inl deadline_exceeded)"

section \<open>The limits of a pass\<close>

text \<open>\<open>math.isqrt\<close>.\<close>

function isqrt_from :: "nat \<Rightarrow> nat \<Rightarrow> nat" where
  "isqrt_from n k = (if Suc k * Suc k \<le> n then isqrt_from n (Suc k) else k)"
  by pat_completeness auto
termination
proof (relation "measure (\<lambda>(n, k). n - k)")
  fix n k :: nat
  assume "Suc k * Suc k \<le> n"
  then have "k < n" by simp
  then show "((n, Suc k), n, k) \<in> measure (\<lambda>(n, k). n - k)" by simp
qed simp

declare isqrt_from.simps [simp del]

definition isqrt :: "nat \<Rightarrow> nat" where
  "isqrt n = isqrt_from n 0"

lemma isqrt_from_bound: "k * k \<le> n \<Longrightarrow> isqrt_from n k * isqrt_from n k \<le> n"
proof (induction n k rule: isqrt_from.induct)
  case (1 n k)
  then show ?case by (cases "Suc k * Suc k \<le> n") (simp_all add: isqrt_from.simps [of n k])
qed

lemma isqrt_square: "isqrt n * isqrt n \<le> n"
  by (simp add: isqrt_def isqrt_from_bound)

text \<open>\<open>value or default\<close> for an optional integer.\<close>

definition int_or :: "int option \<Rightarrow> int \<Rightarrow> int" where
  "int_or v d = (case v of None \<Rightarrow> d | Some n \<Rightarrow> if n = 0 then d else n)"

record limits =
  lm_candidates :: "int option"
  lm_comparisons :: "int option"
  lm_members :: "int option"
  lm_mutations :: "int option"
  lm_nanoseconds :: "int option"

definition requested_candidates :: "int \<Rightarrow> limits \<Rightarrow> int" where
  "requested_candidates limit l = int_or (lm_candidates l) (max 32 (min max_candidates (max 1 limit * 8)))"

definition requested_comparisons :: "int \<Rightarrow> limits \<Rightarrow> int" where
  "requested_comparisons limit l =
     (let n = requested_candidates limit l in int_or (lm_comparisons l) (min max_comparisons (n * (n - 1) div 2)))"

definition effective_candidates :: "int \<Rightarrow> limits \<Rightarrow> int" where
  "effective_candidates limit l =
     min (requested_candidates limit l)
       (max 2 ((1 + int (isqrt (nat (1 + 8 * max 1 (requested_comparisons limit l))))) div 2))"

definition conflict_work_budget :: "clock \<Rightarrow> nat \<Rightarrow> int \<Rightarrow> limits \<Rightarrow> budget" where
  "conflict_work_budget clock reads limit l =
     (let n = effective_candidates limit l in
      new_budget clock reads n (requested_comparisons limit l) (int_or (lm_members l) n) (int_or (lm_mutations l) n)
        (case lm_nanoseconds l of None \<Rightarrow> max_nanoseconds | Some t \<Rightarrow> t))"

section \<open>The budget covers its candidates\<close>

lemma pairs_of_root:
  fixes n c s :: int
  assumes root: "s * s \<le> 1 + 8 * c" and n: "n \<le> (1 + s) div 2" "0 \<le> n" "0 \<le> c" "0 \<le> s"
  shows "n * (n - 1) div 2 \<le> c"
proof (cases "n \<le> 1")
  case True
  with n(2) have "n * (n - 1) = 0" by (cases "n = 0") auto
  then show ?thesis using n(3) by (simp only:)
next
  case False
  have "2 * n \<le> 1 + s" using n(1) by linarith
  then have "(2 * n - 1) * (2 * n - 1) \<le> s * s" using False by (intro mult_mono) auto
  then have "(2 * n - 1) * (2 * n - 1) \<le> 1 + 8 * c" using root by simp
  then have "n * (n - 1) \<le> 2 * c" by (simp add: algebra_simps)
  then show ?thesis by linarith
qed

lemma pairs_mono:
  fixes m n :: int
  assumes "0 \<le> m" "m \<le> n"
  shows "m * (m - 1) div 2 \<le> n * (n - 1) div 2"
proof -
  have "m * (m - 1) \<le> n * (n - 1)"
  proof (cases "m = 0")
    case True
    then show ?thesis using assms by (cases "n = 0") (simp_all add: mult_nonneg_nonneg)
  next
    case False
    then show ?thesis using assms by (intro mult_mono) auto
  qed
  then show ?thesis by (rule zdiv_mono1) simp
qed

lemma effective_pairs:
  assumes "0 \<le> n" "n \<le> effective_candidates limit l"
  shows "n * (n - 1) div 2 \<le> max 1 (requested_comparisons limit l)"
proof -
  let ?c = "max 1 (requested_comparisons limit l)"
  let ?s = "int (isqrt (nat (1 + 8 * ?c)))"
  have "isqrt (nat (1 + 8 * ?c)) * isqrt (nat (1 + 8 * ?c)) \<le> nat (1 + 8 * ?c)" by (rule isqrt_square)
  then have root: "?s * ?s \<le> 1 + 8 * ?c" by (simp add: le_nat_iff flip: of_nat_mult)
  from assms(2) have "n \<le> 2 \<or> n \<le> (1 + ?s) div 2" by (auto simp: effective_candidates_def)
  then show ?thesis
  proof
    assume "n \<le> 2"
    from pairs_mono [OF assms(1) this] show ?thesis by simp
  next
    assume "n \<le> (1 + ?s) div 2"
    from pairs_of_root [OF root this assms(1)] show ?thesis by simp
  qed
qed

lemma max_pairs: "0 \<le> n \<Longrightarrow> n \<le> max_candidates \<Longrightarrow> n * (n - 1) div 2 \<le> max_comparisons"
  using pairs_mono [of n max_candidates] by (simp add: max_candidates_def max_comparisons_def)

lemma budget_pairs:
  assumes b: "b = conflict_work_budget clock reads limit l" and n: "0 \<le> n" "n \<le> bg_candidate_limit b"
  shows "n * (n - 1) div 2 \<le> bg_comparison_limit b"
proof -
  have limits: "bg_candidate_limit b = clamp 1 max_candidates (effective_candidates limit l)"
    "bg_comparison_limit b = clamp 1 max_comparisons (requested_comparisons limit l)"
    by (simp_all add: b conflict_work_budget_def new_budget_def Let_def)
  show ?thesis
  proof (cases "n \<le> 1")
    case True
    with n(1) have "n * (n - 1) = 0" by (cases "n = 0") auto
    then show ?thesis by (simp only:) (simp add: limits clamp_def max.coboundedI1)
  next
    case False
    then have "n \<le> effective_candidates limit l" "n \<le> max_candidates" using n(2) by (auto simp: limits clamp_def max_candidates_def)
    with effective_pairs [OF n(1)] max_pairs [OF n(1)] show ?thesis
      by (fastforce simp: limits clamp_def max_comparisons_def)
  qed
qed

section \<open>What a budget keeps\<close>

definition in_limits :: "budget \<Rightarrow> bool" where
  "in_limits b \<longleftrightarrow> 0 \<le> bg_comparisons b \<and> bg_comparisons b \<le> bg_comparison_limit b \<and> 0 \<le> bg_members b
     \<and> bg_members b \<le> bg_member_limit b \<and> 0 \<le> bg_mutations b \<and> bg_mutations b \<le> bg_mutation_limit b"

text \<open>A budget after some work: the limits stay, and the counts only grow.\<close>

definition later :: "budget \<Rightarrow> budget \<Rightarrow> bool" where
  "later b b' \<longleftrightarrow> bg_candidate_limit b' = bg_candidate_limit b \<and> bg_comparison_limit b' = bg_comparison_limit b
     \<and> bg_member_limit b' = bg_member_limit b \<and> bg_mutation_limit b' = bg_mutation_limit b
     \<and> bg_comparisons b \<le> bg_comparisons b' \<and> bg_members b \<le> bg_members b' \<and> bg_mutations b \<le> bg_mutations b'
     \<and> bg_deadline b' = bg_deadline b"

named_theorems budget_steps "what each operation does to a budget"

lemma later_refl [simp]: "later b b"
  by (simp add: later_def)

lemma later_trans [trans]: "later a b \<Longrightarrow> later b c \<Longrightarrow> later a c"
  by (auto simp: later_def)

lemma has_time_step [budget_steps]:
  "has_time clock b = (b', ok) \<Longrightarrow> later b b' \<and> bg_comparisons b' = bg_comparisons b \<and> bg_members b' = bg_members b
     \<and> bg_mutations b' = bg_mutations b \<and> bg_comparison_out b' = bg_comparison_out b"
  by (auto simp: has_time_def later_def Let_def split: if_splits)

lemma has_time_limits: "has_time clock b = (b', ok) \<Longrightarrow> in_limits b' = in_limits b"
  using has_time_step [of clock b b' ok] by (auto simp: in_limits_def later_def)

lemma consume_comparison_step:
  assumes "consume_comparison clock b = (b', ok)"
  shows "in_limits b \<Longrightarrow> in_limits b'" "later b b'" "bg_mutations b' = bg_mutations b"
    "bg_comparisons b' = bg_comparisons b + (if ok then 1 else 0)"
    "\<not> ok \<Longrightarrow> bg_comparisons b < bg_comparison_limit b \<Longrightarrow> bg_comparison_out b' = bg_comparison_out b"
    "ok \<Longrightarrow> bg_comparison_out b' = bg_comparison_out b"
  using assms unfolding consume_comparison_def has_time_def Let_def
  by (auto simp: in_limits_def later_def split: if_splits)

lemma consume_member_step:
  assumes "consume_component_member clock b = (b', ok)"
  shows "in_limits b \<Longrightarrow> in_limits b'" "later b b'" "bg_mutations b' = bg_mutations b" "bg_comparisons b' = bg_comparisons b"
    "bg_comparison_out b' = bg_comparison_out b"
  using assms unfolding consume_component_member_def has_time_def Let_def
  by (auto simp: in_limits_def later_def split: if_splits)

lemma can_mutate_step:
  assumes "can_mutate clock n b = (b', ok)"
  shows "in_limits b \<Longrightarrow> in_limits b'" "later b b'" "bg_mutations b' = bg_mutations b" "bg_comparisons b' = bg_comparisons b"
    "bg_comparison_out b' = bg_comparison_out b" "in_limits b \<Longrightarrow> ok \<Longrightarrow> in_limits (record_mutations n b')"
  using assms unfolding can_mutate_def has_time_def Let_def record_mutations_def
  by (auto simp: in_limits_def later_def split: if_splits)

lemma record_mutations_step: "later b (record_mutations n b)" "bg_comparisons (record_mutations n b) = bg_comparisons b"
  "bg_comparison_out (record_mutations n b) = bg_comparison_out b" "bg_mutations (record_mutations n b) = bg_mutations b + max 0 n"
  by (simp_all add: record_mutations_def later_def)

lemma require_time_step:
  "require_time clock b = Inr b' \<Longrightarrow> later b b' \<and> bg_comparisons b' = bg_comparisons b \<and> bg_mutations b' = bg_mutations b
     \<and> bg_comparison_out b' = bg_comparison_out b \<and> in_limits b' = in_limits b"
  using has_time_step [of clock b b' True] has_time_limits [of clock b b' True]
  by (auto simp: require_time_def split: prod.splits if_splits)

lemma new_in_limits: "in_limits (conflict_work_budget clock reads limit l)"
  by (simp add: conflict_work_budget_def new_budget_def in_limits_def Let_def clamp_def max.coboundedI1)

section \<open>Properties\<close>

text \<open>C20 A budget covers every pair of its candidates: whatever limits a caller asks for, even zero or negative ones, comparing
  all pairs of as many Cards as the pass may select stays within its comparison limit, so the comparison limit never leaves a
  component half explored.  All limits lie within the documented ceilings.\<close>

theorem budget_covers_pairs:
  assumes "0 \<le> n" "n \<le> bg_candidate_limit (conflict_work_budget clock reads limit l)"
  shows "n * (n - 1) div 2 \<le> bg_comparison_limit (conflict_work_budget clock reads limit l)
    \<and> bg_comparison_limit (conflict_work_budget clock reads limit l) \<le> 130816
    \<and> 1 \<le> bg_candidate_limit (conflict_work_budget clock reads limit l)
    \<and> bg_candidate_limit (conflict_work_budget clock reads limit l) \<le> 512"
proof -
  let ?b = "conflict_work_budget clock reads limit l"
  have "bg_comparison_limit ?b \<le> 130816" "1 \<le> bg_candidate_limit ?b" "bg_candidate_limit ?b \<le> 512"
    by (simp_all add: conflict_work_budget_def new_budget_def Let_def clamp_def max_comparisons_def max_candidates_def)
  with budget_pairs [OF refl assms] show ?thesis by blast
qed

text \<open>A limit of three comparisons leaves room for three Cards.\<close>

definition three_comparisons :: limits where
  "three_comparisons = \<lparr>lm_candidates = None, lm_comparisons = Some 3, lm_members = None, lm_mutations = None, lm_nanoseconds = None\<rparr>"

theorem budget_covers_pairs_witness:
  "bg_candidate_limit (conflict_work_budget (\<lambda>_. 0) 0 50 three_comparisons) = 3
     \<and> (3::int) * (3 - 1) div 2 \<le> bg_comparison_limit (conflict_work_budget (\<lambda>_. 0) 0 50 three_comparisons)"
proof -
  have "isqrt 25 = 5" by (simp add: isqrt_def isqrt_from.simps)
  then have n: "bg_candidate_limit (conflict_work_budget (\<lambda>_. 0) 0 50 three_comparisons) = 3"
    by (simp add: conflict_work_budget_def new_budget_def Let_def clamp_def effective_candidates_def requested_comparisons_def
        requested_candidates_def int_or_def three_comparisons_def max_candidates_def)
  then show ?thesis using budget_covers_pairs [of 3 "\<lambda>_. 0" 0 50 three_comparisons] by simp
qed

end
