(* ===== verification/Cycle_Components.thy ===== *)
theory Cycle_Components
  imports Continuum_Prelude
begin

text \<open>
  \<open>_supersession_cycle_components\<close> of \<open>core/temporal_authority.py\<close>: two traversals with explicit
  stacks, the first for the order in which the nodes finish, the second over the reversed edges in the
  opposite order, and the components that contain a cycle.  The lemmas show that the components are the
  strongly connected components of the edges.  A Python set is a list without repetitions; no result
  depends on its order.
\<close>

section \<open>The two traversals\<close>

type_synonym 'a graph = "('a, 'a list) odict"

definition targets :: "'a graph \<Rightarrow> 'a \<Rightarrow> 'a list" where
  "targets g n = (case oget g n of None \<Rightarrow> [] | Some ts \<Rightarrow> ts)"

definition graph_nodes :: "'a graph \<Rightarrow> 'a set" where
  "graph_nodes g = fst ` set g \<union> \<Union> (set ` snd ` set g)"

lemma finite_graph_nodes [simp]: "finite (graph_nodes g)"
  by (auto simp: graph_nodes_def)

lemma targets_nodes: "m \<in> set (targets g n) \<Longrightarrow> m \<in> graph_nodes g"
proof -
  assume m: "m \<in> set (targets g n)"
  then obtain ts where "oget g n = Some ts" "m \<in> set ts" by (cases "oget g n") (auto simp: targets_def)
  then have "(n, ts) \<in> set g" by (simp add: map_of_SomeD)
  with \<open>m \<in> set ts\<close> show ?thesis by (force simp: graph_nodes_def)
qed

lemma targets_key: "m \<in> set (targets g n) \<Longrightarrow> n \<in> fst ` set g"
  by (cases "oget g n") (auto simp: targets_def dest!: map_of_SomeD intro: rev_image_eqI)

text \<open>The loop \<open>while stack\<close> of the first traversal: the stack, the visited nodes and the finished nodes in
  order.  An expanded entry marks the end of a node.\<close>

function finish_loop :: "('a::linorder) graph \<Rightarrow> ('a \<times> bool) list \<Rightarrow> 'a set \<Rightarrow> 'a list \<Rightarrow> 'a set \<times> 'a list" where
  "finish_loop g [] visited order = (visited, order)"
| "finish_loop g ((n, expanded) # stack) visited order =
     (if expanded then finish_loop g stack visited (order @ [n])
      else if n \<in> visited then finish_loop g stack visited order
      else let visited' = insert n visited in
        finish_loop g
          (rev (map (\<lambda>t. (t, False)) (filter (\<lambda>t. t \<notin> visited') (rev (sort (remdups (targets g n)))))) @ (n, True) # stack)
          visited' order)"
  by pat_completeness auto

termination
proof (relation "inv_image (less_than <*lex*> less_than)
    (\<lambda>(g, stack, visited, order). (card (fst ` set stack \<union> graph_nodes g - visited), length stack))", goal_cases)
  case (2 g n expanded stack visited order)
  have "card (fst ` set stack \<union> graph_nodes g - visited) \<le> card (fst ` set ((n, expanded) # stack) \<union> graph_nodes g - visited)"
    by (intro card_mono) auto
  then show ?case by (auto simp: less_le)
next
  case (3 g n expanded stack visited order)
  have "card (fst ` set stack \<union> graph_nodes g - visited) \<le> card (fst ` set ((n, expanded) # stack) \<union> graph_nodes g - visited)"
    by (intro card_mono) auto
  then show ?case by (auto simp: less_le)
next
  case (4 g n expanded stack visited order visited')
  let ?new = "rev (map (\<lambda>t. (t, False)) (filter (\<lambda>t. t \<notin> visited') (rev (sort (remdups (targets g n))))))"
  let ?S = "fst ` set ((n, expanded) # stack) \<union> graph_nodes g"
  have "fst ` set (?new @ (n, True) # stack) \<union> graph_nodes g - visited' \<subseteq> ?S - visited - {n}"
    using 4(3) targets_nodes [of _ g n] by auto
  moreover have "n \<in> ?S - visited" using 4(2) by simp
  ultimately have "fst ` set (?new @ (n, True) # stack) \<union> graph_nodes g - visited' \<subset> ?S - visited" by blast
  then have "card (fst ` set (?new @ (n, True) # stack) \<union> graph_nodes g - visited') < card (?S - visited)"
    by (intro psubset_card_mono) auto
  then show ?case by simp
qed auto

definition finish_from :: "('a::linorder) graph \<Rightarrow> 'a \<Rightarrow> 'a set \<times> 'a list \<Rightarrow> 'a set \<times> 'a list" where
  "finish_from g start state =
     (case state of (visited, order) \<Rightarrow>
        if start \<in> visited then state else finish_loop g [(start, False)] visited order)"

definition finish_order :: "('a::linorder) graph \<Rightarrow> 'a list" where
  "finish_order g = snd (fold (finish_from g) (sort (map fst g)) ({}, []))"

text \<open>\<open>reverse_edges\<close>: every node first, then every edge; an edge to no node raises \<open>KeyError\<close>.\<close>

definition add_reverse :: "'a \<Rightarrow> 'a graph \<Rightarrow> 'a \<Rightarrow> py_error + 'a graph" where
  "add_reverse source r target =
     (case oget r target of None \<Rightarrow> Inl KeyError | Some ss \<Rightarrow> Inr (oset target (List.insert source ss) r))"

definition reverse_edges :: "'a graph \<Rightarrow> py_error + 'a graph" where
  "reverse_edges g =
     foldE (\<lambda>r (source, ts). foldE (add_reverse source) r ts) (map (\<lambda>(n, _). (n, [])) g) g"

text \<open>One component: the nodes popped, the nodes pending and the nodes assigned to a component.\<close>

definition assign_new :: "'a \<Rightarrow> 'a list \<times> 'a set \<Rightarrow> 'a list \<times> 'a set" where
  "assign_new t s = (case s of (pending, assigned) \<Rightarrow> if t \<in> assigned then s else (t # pending, insert t assigned))"

lemma assign_new_fold:
  "fold assign_new ts (pending, assigned) = (pending', assigned') \<Longrightarrow>
     \<exists>new. pending' = new @ pending \<and> assigned' = assigned \<union> set ts \<and> distinct new \<and> set new = set ts - assigned"
proof (induction ts arbitrary: pending assigned)
  case (Cons t ts)
  show ?case
  proof (cases "t \<in> assigned")
    case True
    with Cons.prems have "fold assign_new ts (pending, assigned) = (pending', assigned')" by (simp add: assign_new_def [of t])
    from Cons.IH [OF this] True show ?thesis by auto
  next
    case False
    with Cons.prems have "fold assign_new ts (t # pending, insert t assigned) = (pending', assigned')"
      by (simp add: assign_new_def [of t])
    from Cons.IH [OF this] obtain new where new: "pending' = new @ t # pending" "assigned' = insert t assigned \<union> set ts"
      "distinct new" "set new = set ts - insert t assigned" by blast
    with False show ?thesis by (intro exI [of _ "new @ [t]"]) auto
  qed
qed simp

function component_loop :: "('a::linorder) graph \<Rightarrow> 'a list \<Rightarrow> 'a set \<Rightarrow> 'a list \<Rightarrow> 'a list \<times> 'a set" where
  "component_loop r [] assigned component = (component, assigned)"
| "component_loop r (n # pending) assigned component =
     (let s = fold assign_new (targets r n) (pending, assigned) in
      component_loop r (fst s) (snd s) (component @ [n]))"
  by pat_completeness auto

termination
proof (relation "measure (\<lambda>(r, pending, assigned, component). length pending + card (graph_nodes r - assigned))", goal_cases)
  case (2 r n pending assigned component s)
  then obtain p a where s: "s = (p, a)" "fold assign_new (targets r n) (pending, assigned) = (p, a)"
    by (metis surj_pair)
  then obtain new where new: "p = new @ pending" "a = assigned \<union> set (targets r n)" "distinct new"
    "set new = set (targets r n) - assigned" using assign_new_fold by blast
  have "card (graph_nodes r - a) + card (set new) = card (graph_nodes r - assigned)"
    using new(2,4) targets_nodes [of _ r n]
    by (subst card_Un_disjoint [symmetric]) (auto intro!: arg_cong [where f = card])
  with new(1,3) s show ?case by (simp add: distinct_card)
qed simp

definition is_cyclic :: "'a graph \<Rightarrow> 'a list \<Rightarrow> bool" where
  "is_cyclic g component \<longleftrightarrow> length component > 1 \<or> (case component of [n] \<Rightarrow> n \<in> set (targets g n) | _ \<Rightarrow> False)"

definition component_from ::
  "('a::linorder) graph \<Rightarrow> 'a graph \<Rightarrow> 'a \<Rightarrow> 'a set \<times> 'a list list \<Rightarrow> 'a set \<times> 'a list list" where
  "component_from g r start state =
     (case state of (assigned, cyclic) \<Rightarrow>
        if start \<in> assigned then state
        else case component_loop r [start] (insert start assigned) [] of
            (component, assigned') \<Rightarrow>
              (assigned', if is_cyclic g (sort component) then cyclic @ [sort component] else cyclic))"

definition supersession_cycle_components :: "('a::linorder) graph \<Rightarrow> py_error + 'a list list" where
  "supersession_cycle_components g =
     (let order = finish_order g in
      bindE (reverse_edges g) (\<lambda>r. Inr (sort (snd (fold (component_from g r) (rev order) ({}, []))))))"

section \<open>The order of the first traversal\<close>

definition edge :: "'a graph \<Rightarrow> ('a \<times> 'a) set" where
  "edge g = {(a, b). b \<in> set (targets g a)}"

definition mutual :: "'a graph \<Rightarrow> 'a \<Rightarrow> 'a \<Rightarrow> bool" where
  "mutual g x y \<longleftrightarrow> (x, y) \<in> (edge g)\<^sup>* \<and> (y, x) \<in> (edge g)\<^sup>*"

lemma mutual_refl [simp]: "mutual g x x"
  by (simp add: mutual_def)

lemma mutual_sym: "mutual g x y \<longleftrightarrow> mutual g y x"
  by (auto simp: mutual_def)

lemma mutual_trans [trans]: "mutual g x y \<Longrightarrow> mutual g y z \<Longrightarrow> mutual g x z"
  by (auto simp: mutual_def)

text \<open>The expanded entries of the stack are the nodes still open; each reaches every entry above it, and
  its targets are visited or above it.\<close>

definition open_nodes :: "('a \<times> bool) list \<Rightarrow> 'a set" where
  "open_nodes stack = {n. (n, True) \<in> set stack}"

definition reaches_above :: "'a graph \<Rightarrow> ('a \<times> bool) list \<Rightarrow> bool" where
  "reaches_above g = sorted_wrt (\<lambda>(m, _) (h, expanded). expanded \<longrightarrow> (h, m) \<in> (edge g)\<^sup>*)"

fun covered :: "'a graph \<Rightarrow> 'a set \<Rightarrow> ('a \<times> bool) list \<Rightarrow> bool" where
  "covered g S [] \<longleftrightarrow> True"
| "covered g S ((n, expanded) # stack) \<longleftrightarrow> (expanded \<longrightarrow> set (targets g n) \<subseteq> S) \<and> covered g (insert n S) stack"

lemma covered_mono: "covered g S stack \<Longrightarrow> S \<subseteq> T \<Longrightarrow> covered g T stack"
proof (induction g S stack arbitrary: T rule: covered.induct)
  case (2 g S n expanded stack)
  then show ?case using 2(1) [of "insert n T"] by auto
qed simp

lemma covered_unexpanded: "covered g S (map (\<lambda>t. (t, False)) ts @ stack) \<longleftrightarrow> covered g (set ts \<union> S) stack"
  by (induction ts arbitrary: S) auto

text \<open>What an order of finished nodes promises: a node that reaches a later one is reached from it, or is in a
  cycle with one that is later still (or open).\<close>

definition ordered_by :: "'a graph \<Rightarrow> 'a set \<Rightarrow> 'a list \<Rightarrow> bool" where
  "ordered_by g opened order \<longleftrightarrow> (\<forall>A x B y. order = A @ x # B \<longrightarrow> y \<in> set A \<longrightarrow> (y, x) \<in> (edge g)\<^sup>* \<longrightarrow>
     (x, y) \<in> (edge g)\<^sup>* \<or> (\<exists>w\<in>set B \<union> opened. mutual g w y))"

definition finish_inv :: "'a graph \<Rightarrow> ('a \<times> bool) list \<Rightarrow> 'a set \<Rightarrow> 'a list \<Rightarrow> bool" where
  "finish_inv g stack visited order \<longleftrightarrow>
     set order \<union> open_nodes stack = visited \<and> set order \<inter> open_nodes stack = {} \<and> distinct order
     \<and> distinct (map fst (filter snd stack)) \<and> (\<forall>n\<in>set order. set (targets g n) \<subseteq> visited)
     \<and> reaches_above g stack \<and> covered g visited stack
     \<and> (\<forall>y\<in>set order. \<forall>h\<in>open_nodes stack. (y, h) \<in> (edge g)\<^sup>* \<longrightarrow> (\<exists>w\<in>open_nodes stack. mutual g w y))
     \<and> ordered_by g (open_nodes stack) order"

lemma closed_reaches:
  assumes "(x, y) \<in> (edge g)\<^sup>*" "x \<in> S" "\<forall>n\<in>S. set (targets g n) \<subseteq> S \<union> T" "y \<notin> S"
  shows "\<exists>z\<in>T. (x, z) \<in> (edge g)\<^sup>*"
proof -
  have "y \<in> S \<or> (\<exists>z\<in>T. (x, z) \<in> (edge g)\<^sup>*)"
    using assms(1)
  proof (induction rule: rtrancl_induct)
    case (step y z)
    then show ?case
    proof (cases "y \<in> S")
      case True
      with step assms(3) have "z \<in> S \<union> T" by (auto simp: edge_def)
      with step show ?thesis by (auto intro: rtrancl_into_rtrancl)
    qed auto
  qed (use assms(2) in simp)
  with assms(4) show ?thesis by blast
qed

lemma open_nodes_simps [simp]:
  "open_nodes ((n, True) # stack) = insert n (open_nodes stack)" "open_nodes ((n, False) # stack) = open_nodes stack"
  "open_nodes (map (\<lambda>t. (t, False)) ts @ stack) = open_nodes stack" "open_nodes [] = {}"
  by (auto simp: open_nodes_def)

lemma reaches_above_Cons:
  "reaches_above g ((n, b) # stack) \<longleftrightarrow> (\<forall>h\<in>open_nodes stack. (h, n) \<in> (edge g)\<^sup>*) \<and> reaches_above g stack"
  by (auto simp: reaches_above_def open_nodes_def)

lemma reaches_above_new:
  "reaches_above g (map (\<lambda>t. (t, False)) ts @ stack) \<longleftrightarrow>
     (\<forall>t\<in>set ts. \<forall>h\<in>open_nodes stack. (h, t) \<in> (edge g)\<^sup>*) \<and> reaches_above g stack"
  by (induction ts) (auto simp: reaches_above_Cons)

lemma expanded_nodes: "fst ` set (filter snd stack) = open_nodes stack"
  by (force simp: open_nodes_def)

lemma unexpanded_filter [simp]: "filter snd (map (\<lambda>t. (t, False)) ts) = []"
  by (simp add: filter_empty_conv)

lemma skip_visited:
  assumes "finish_inv g ((n, False) # stack) visited order" "n \<in> visited"
  shows "finish_inv g stack visited order"
  using assms by (simp add: finish_inv_def reaches_above_Cons insert_absorb)

lemma open_node:
  assumes inv: "finish_inv g ((n, False) # stack) visited order" and new: "n \<notin> visited"
    and ts: "set ts = set (targets g n) - insert n visited"
  shows "finish_inv g (map (\<lambda>t. (t, False)) ts @ (n, True) # stack) (insert n visited) order"
proof -
  let ?st = "map (\<lambda>t. (t, False)) ts @ (n, True) # stack"
  have inv': "set order \<union> open_nodes stack = visited" "set order \<inter> open_nodes stack = {}" "distinct order"
    "distinct (map fst (filter snd stack))" "\<forall>m\<in>set order. set (targets g m) \<subseteq> visited"
    "\<forall>h\<in>open_nodes stack. (h, n) \<in> (edge g)\<^sup>*" "reaches_above g stack" "covered g (insert n visited) stack"
    "\<forall>y\<in>set order. \<forall>h\<in>open_nodes stack. (y, h) \<in> (edge g)\<^sup>* \<longrightarrow> (\<exists>w\<in>open_nodes stack. mutual g w y)"
    "ordered_by g (open_nodes stack) order"
    using inv by (simp_all add: finish_inv_def reaches_above_Cons)
  have step: "(n, t) \<in> edge g" if "t \<in> set ts" for t using that ts by (auto simp: edge_def)
  then have above: "reaches_above g ?st"
    using inv'(6,7) by (auto simp: reaches_above_new reaches_above_Cons intro: rtrancl_into_rtrancl)
  have cov: "covered g (insert n visited) ?st"
    using ts inv'(8) by (auto simp: covered_unexpanded intro: covered_mono)
  have j: "\<exists>w\<in>open_nodes stack. mutual g w y" if y: "y \<in> set order" "(y, n) \<in> (edge g)\<^sup>*" for y
  proof -
    have "\<exists>h\<in>open_nodes stack. (y, h) \<in> (edge g)\<^sup>*"
      using y new inv'(1,5) by (intro closed_reaches [of y n g "set order"]) auto
    with y inv'(9) show ?thesis by blast
  qed
  have ordered: "ordered_by g (insert n (open_nodes stack)) order"
    using inv'(10) unfolding ordered_by_def by blast
  have "n \<notin> fst ` set (filter snd stack)" using new inv'(1) expanded_nodes [of stack] by blast
  moreover have "\<forall>y\<in>set order. \<forall>h\<in>insert n (open_nodes stack). (y, h) \<in> (edge g)\<^sup>* \<longrightarrow> (\<exists>w\<in>insert n (open_nodes stack). mutual g w y)"
    using j inv'(9) by blast
  ultimately show ?thesis
    using inv'(1-5) above cov ordered new unfolding finish_inv_def by simp blast
qed

lemma close_node:
  assumes inv: "finish_inv g ((n, True) # stack) visited order"
  shows "finish_inv g stack visited (order @ [n])"
proof -
  have inv': "set order \<union> insert n (open_nodes stack) = visited" "set order \<inter> insert n (open_nodes stack) = {}" "distinct order"
    "distinct (n # map fst (filter snd stack))" "\<forall>m\<in>set order. set (targets g m) \<subseteq> visited"
    "set (targets g n) \<subseteq> visited" "covered g (insert n visited) stack" "reaches_above g stack"
    "\<forall>y\<in>set order. \<forall>h\<in>insert n (open_nodes stack). (y, h) \<in> (edge g)\<^sup>* \<longrightarrow> (\<exists>w\<in>insert n (open_nodes stack). mutual g w y)"
    "ordered_by g (insert n (open_nodes stack)) order"
    using inv by (simp_all add: finish_inv_def reaches_above_Cons)
  have below: "(h, n) \<in> (edge g)\<^sup>*" if "h \<in> open_nodes stack" for h
    using inv that unfolding finish_inv_def reaches_above_Cons by blast
  have "n \<in> visited" using inv'(1) by blast
  then have cov: "covered g visited stack" using inv'(7) by (simp add: insert_absorb)
  have "n \<notin> open_nodes stack" using inv'(4) by (simp add: expanded_nodes [symmetric])
  have j: "\<exists>w\<in>open_nodes stack. mutual g w y"
    if y: "y \<in> set (order @ [n])" "h \<in> open_nodes stack" "(y, h) \<in> (edge g)\<^sup>*" for y h
  proof (cases "y = n")
    case True
    with y below [of h] show ?thesis by (auto simp: mutual_def)
  next
    case False
    with y obtain w where w: "w \<in> insert n (open_nodes stack)" "mutual g w y" using inv'(9) by fastforce
    show ?thesis
    proof (cases "w = n")
      case True
      with w y below [of h] have "mutual g h y" by (auto simp: mutual_def)
      with y show ?thesis by blast
    qed (use w in auto)
  qed
  have k: "ordered_by g (open_nodes stack) (order @ [n])"
    unfolding ordered_by_def
  proof (intro allI impI)
    fix A x B y
    assume split: "order @ [n] = A @ x # B" and y: "y \<in> set A" "(y, x) \<in> (edge g)\<^sup>*"
    show "(x, y) \<in> (edge g)\<^sup>* \<or> (\<exists>w\<in>set B \<union> open_nodes stack. mutual g w y)"
    proof (cases B rule: rev_cases)
      case Nil
      with split have "x = n" "A = order" by auto
      with y obtain w where "w \<in> insert n (open_nodes stack)" "mutual g w y" using inv'(9) by blast
      with \<open>x = n\<close> show ?thesis by (auto simp: mutual_def)
    next
      case (snoc B' b)
      with split have "order = A @ x # B'" "b = n" by auto
      with inv'(10) y have "(x, y) \<in> (edge g)\<^sup>* \<or> (\<exists>w\<in>set B' \<union> insert n (open_nodes stack). mutual g w y)"
        unfolding ordered_by_def by blast
      with snoc \<open>b = n\<close> show ?thesis by auto
    qed
  qed
  have "set (order @ [n]) \<union> open_nodes stack = visited" "set (order @ [n]) \<inter> open_nodes stack = {}" "distinct (order @ [n])"
    "distinct (map fst (filter snd stack))" "\<forall>m\<in>set (order @ [n]). set (targets g m) \<subseteq> visited"
    using inv'(1-6) \<open>n \<notin> open_nodes stack\<close> by auto
  with inv'(8) cov j k show ?thesis unfolding finish_inv_def by blast
qed

lemma finish_loop_inv:
  assumes "finish_inv g stack visited order" "finish_loop g stack visited order = (V, F)"
  shows "finish_inv g [] V F \<and> visited \<subseteq> V \<and> fst ` set stack \<subseteq> V"
  using assms
proof (induction g stack visited order rule: finish_loop.induct)
  case (2 g n expanded stack visited order)
  consider (close) "expanded" | (skip) "\<not> expanded" "n \<in> visited" | (enter) "\<not> expanded" "n \<notin> visited" by blast
  then show ?case
  proof cases
    case close
    then have inv: "finish_inv g stack visited (order @ [n])" using 2(4) by (intro close_node) simp
    have "finish_loop g stack visited (order @ [n]) = (V, F)" using 2(5) close by simp
    from 2(1) [OF close inv this] have "finish_inv g [] V F" "visited \<subseteq> V" "fst ` set stack \<subseteq> V" by simp_all
    moreover have "n \<in> visited" using 2(4) close by (auto simp: finish_inv_def)
    ultimately show ?thesis by auto
  next
    case skip
    with 2(4) have "finish_inv g ((n, False) # stack) visited order" by simp
    then have inv: "finish_inv g stack visited order" using skip(2) by (rule skip_visited)
    have "finish_loop g stack visited order = (V, F)" using 2(5) skip by simp
    from 2(2) [OF skip inv this] skip(2) show ?thesis by auto
  next
    case enter
    let ?ts = "rev (filter (\<lambda>t. t \<notin> insert n visited) (rev (sort (remdups (targets g n)))))"
    have "finish_inv g (map (\<lambda>t. (t, False)) ?ts @ (n, True) # stack) (insert n visited) order"
      using 2(4) enter by (intro open_node) auto
    then have "finish_inv g [] V F \<and> insert n visited \<subseteq> V \<and> fst ` set (map (\<lambda>t. (t, False)) ?ts @ (n, True) # stack) \<subseteq> V"
      using 2(3) [OF enter refl] 2(5) enter by (simp add: rev_map)
    then show ?thesis using enter by auto
  qed
qed simp

lemma finish_starts:
  assumes "finish_inv g [] visited order" "fold (finish_from g) starts (visited, order) = (V, F)"
  shows "finish_inv g [] V F \<and> visited \<subseteq> V \<and> set starts \<subseteq> V"
  using assms
proof (induction starts arbitrary: visited order)
  case (Cons x starts)
  show ?case
  proof (cases "x \<in> visited")
    case True
    with Cons show ?thesis by (auto simp: finish_from_def)
  next
    case False
    obtain V1 F1 where one: "finish_loop g [(x, False)] visited order = (V1, F1)" by fastforce
    have "finish_inv g [(x, False)] visited order"
      using Cons.prems(1) by (simp add: finish_inv_def reaches_above_Cons)
    from finish_loop_inv [OF this one] have V1: "finish_inv g [] V1 F1" "visited \<subseteq> V1" "x \<in> V1" by auto
    moreover have "fold (finish_from g) starts (V1, F1) = (V, F)"
      using Cons.prems(2) False one by (simp add: finish_from_def [of g x] del: finish_loop.simps)
    ultimately show ?thesis using Cons.IH [of V1 F1] by auto
  qed
qed simp

lemma finish_order_sound:
  "distinct (finish_order g) \<and> fst ` set g \<subseteq> set (finish_order g)
     \<and> (\<forall>n\<in>set (finish_order g). set (targets g n) \<subseteq> set (finish_order g)) \<and> ordered_by g {} (finish_order g)"
proof -
  obtain V F where vf: "fold (finish_from g) (sort (map fst g)) ({}, []) = (V, F)" by fastforce
  have "finish_inv g [] {} []" by (simp add: finish_inv_def ordered_by_def reaches_above_def)
  from finish_starts [OF this vf] vf show ?thesis by (auto simp: finish_order_def finish_inv_def)
qed

section \<open>The reversed edges\<close>

text \<open>The graphs the caller builds: every node is a key, once.\<close>

definition closed_graph :: "'a graph \<Rightarrow> bool" where
  "closed_graph g \<longleftrightarrow> distinct (map fst g) \<and> list_all (\<lambda>(n, ts). distinct ts \<and> list_all (\<lambda>t. t \<in> fst ` set g) ts) g"

lemma targets_oset: "targets (oset t ts g) n = (if n = t then ts else targets g n)"
  by (simp add: targets_def)

lemma add_reverse_all:
  assumes "set ts \<subseteq> fst ` set r"
  shows "\<exists>r'. foldE (add_reverse source) r ts = Inr r' \<and> fst ` set r' = fst ` set r
    \<and> (\<forall>n. set (targets r' n) = set (targets r n) \<union> (if n \<in> set ts then {source} else {}))"
  using assms
proof (induction ts arbitrary: r)
  case (Cons t ts)
  then obtain ss where ss: "oget r t = Some ss" by (metis list.set_intros(1) map_of_eq_None_iff not_None_eq subsetD)
  let ?r1 = "oset t (List.insert source ss) r"
  have keys: "fst ` set ?r1 = fst ` set r" using Cons.prems by auto
  with Cons.prems obtain r' where r': "foldE (add_reverse source) ?r1 ts = Inr r'" "fst ` set r' = fst ` set ?r1"
    "\<forall>n. set (targets r' n) = set (targets ?r1 n) \<union> (if n \<in> set ts then {source} else {})"
    using Cons.IH [of ?r1] by auto
  have "set (targets ?r1 n) = set (targets r n) \<union> (if n = t then {source} else {})" for n
    using ss by (auto simp: targets_oset) (simp_all add: targets_def)
  moreover have "foldE (add_reverse source) r (t # ts) = Inr r'" using r'(1) ss by (simp add: add_reverse_def [of source r t])
  ultimately show ?case using r'(2,3) keys by (intro exI [of _ r']) auto
qed simp

lemma reverse_all:
  assumes "\<forall>(n, ts)\<in>set part. set ts \<subseteq> fst ` set r"
  shows "\<exists>r'. foldE (\<lambda>r (source, ts). foldE (add_reverse source) r ts) r part = Inr r'
    \<and> (\<forall>n. set (targets r' n) = set (targets r n) \<union> {m. \<exists>ts. (m, ts) \<in> set part \<and> n \<in> set ts})"
  using assms
proof (induction part arbitrary: r)
  case (Cons p part)
  obtain source ts where p: "p = (source, ts)" by force
  with Cons.prems obtain r1 where r1: "foldE (add_reverse source) r ts = Inr r1" "fst ` set r1 = fst ` set r"
    "\<forall>n. set (targets r1 n) = set (targets r n) \<union> (if n \<in> set ts then {source} else {})"
    using add_reverse_all [of ts r source] by auto
  with Cons.prems obtain r' where "foldE (\<lambda>r (source, ts). foldE (add_reverse source) r ts) r1 part = Inr r'"
    "\<forall>n. set (targets r' n) = set (targets r1 n) \<union> {m. \<exists>ts. (m, ts) \<in> set part \<and> n \<in> set ts}"
    using Cons.IH [of r1] by auto
  with r1 p show ?case by (auto split: if_splits)
qed simp

lemma reverse_edges_targets:
  assumes "closed_graph g"
  shows "\<exists>r. reverse_edges g = Inr r \<and> (\<forall>n. set (targets r n) = {m. n \<in> set (targets g m)})"
proof -
  let ?r = "map (\<lambda>(n, _). (n, [])) g"
  have "fst ` set ?r = fst ` set g" by force
  then have "\<forall>(n, ts)\<in>set g. set ts \<subseteq> fst ` set ?r" using assms by (fastforce simp: closed_graph_def list_all_iff)
  from reverse_all [OF this] obtain r where r: "reverse_edges g = Inr r"
    "\<forall>n. set (targets r n) = set (targets ?r n) \<union> {m. \<exists>ts. (m, ts) \<in> set g \<and> n \<in> set ts}"
    by (auto simp: reverse_edges_def)
  have "oget ?r n = None \<or> oget ?r n = Some []" for n by (induction g) auto
  then have "set (targets ?r n) = {}" for n by (metis list.set(1) option.case targets_def)
  moreover have "(m, ts) \<in> set g \<longleftrightarrow> oget g m = Some ts" for m ts
    using assms by (simp add: closed_graph_def)
  ultimately show ?thesis using r by (auto simp: targets_def split: option.splits)
qed

section \<open>The components\<close>

definition component_of :: "'a graph \<Rightarrow> 'a \<Rightarrow> 'a set" where
  "component_of g x = {y. mutual g x y}"

text \<open>What the second traversal collects from a node: everything not yet assigned that reaches it.\<close>

definition collect_inv :: "'a graph \<Rightarrow> 'a set \<Rightarrow> 'a \<Rightarrow> 'a list \<Rightarrow> 'a set \<Rightarrow> 'a list \<Rightarrow> bool" where
  "collect_inv g done x pending assigned component \<longleftrightarrow>
     done \<union> set component \<union> set pending = assigned \<and> done \<inter> (set component \<union> set pending) = {}
     \<and> distinct (component @ pending) \<and> x \<in> set component \<union> set pending
     \<and> (\<forall>y\<in>set component \<union> set pending. (y, x) \<in> (edge g)\<^sup>*)
     \<and> (\<forall>n\<in>set component. \<forall>m. n \<in> set (targets g m) \<longrightarrow> m \<in> assigned)"

lemma component_loop_inv:
  assumes rev: "\<forall>n. set (targets r n) = {m. n \<in> set (targets g m)}"
  shows "collect_inv g done x pending assigned component \<Longrightarrow> component_loop r pending assigned component = (c, a) \<Longrightarrow>
    collect_inv g done x [] a c"
  using rev
proof (induction r pending assigned component rule: component_loop.induct)
  case (2 r n pending assigned component)
  obtain p a' where pa: "fold assign_new (targets r n) (pending, assigned) = (p, a')" by fastforce
  then obtain new where new: "p = new @ pending" "a' = assigned \<union> set (targets r n)" "distinct new"
    "set new = set (targets r n) - assigned" using assign_new_fold by blast
  have preds: "m \<in> set (targets r n) \<longleftrightarrow> (m, n) \<in> edge g" for m using 2(4) by (simp add: edge_def)
  have inv: "done \<union> set component \<union> insert n (set pending) = assigned" "done \<inter> (set component \<union> insert n (set pending)) = {}"
    "distinct (component @ n # pending)" "x \<in> set component \<union> insert n (set pending)"
    "\<forall>y\<in>set component \<union> insert n (set pending). (y, x) \<in> (edge g)\<^sup>*"
    "\<forall>k\<in>set component. \<forall>m. k \<in> set (targets g m) \<longrightarrow> m \<in> assigned"
    using 2(2) unfolding collect_inv_def list.set by blast+
  have "(y, x) \<in> (edge g)\<^sup>*" if "y \<in> set new" for y
    using that new(4) preds inv(5) by (auto intro: converse_rtrancl_into_rtrancl)
  moreover have "set new \<inter> assigned = {}" "a' = assigned \<union> set new" using new by auto
  ultimately have "collect_inv g done x p a' (component @ [n])"
    using inv new(1,3) preds 2(4) new(2) unfolding collect_inv_def by (simp add: edge_def) blast
  moreover have "component_loop r p a' (component @ [n]) = (c, a)" using 2(3) pa by simp
  ultimately show ?case using 2(1) [OF refl] pa 2(4) by simp
qed simp

lemma component_collected:
  assumes "collect_inv g done x [] a c" and union: "\<And>y z. y \<in> done \<Longrightarrow> mutual g y z \<Longrightarrow> z \<in> done"
    and reach: "\<And>y. (y, x) \<in> (edge g)\<^sup>* \<Longrightarrow> y \<notin> done \<Longrightarrow> (x, y) \<in> (edge g)\<^sup>*"
  shows "set c = component_of g x \<and> a = done \<union> component_of g x \<and> distinct c"
proof -
  have inv: "done \<union> set c = a" "done \<inter> set c = {}" "distinct c" "x \<in> set c" "\<forall>y\<in>set c. (y, x) \<in> (edge g)\<^sup>*"
    "\<forall>n\<in>set c. \<forall>m. n \<in> set (targets g m) \<longrightarrow> m \<in> a"
    using assms(1) by (simp_all add: collect_inv_def)
  have "y \<in> set c" if "mutual g x y" for y
  proof -
    have "(y, x) \<in> (edge g)\<^sup>*" "(x, y) \<in> (edge g)\<^sup>*" using that by (auto simp: mutual_def)
    then show ?thesis
    proof (induction rule: converse_rtrancl_induct)
      case (step y z)
      then have "(x, z) \<in> (edge g)\<^sup>*" by (auto intro: rtrancl_into_rtrancl)
      with step have "z \<in> set c" by blast
      with inv(6) step(1) have "y \<in> a" by (auto simp: edge_def)
      moreover have "mutual g y x" using step by (auto simp: mutual_def intro: converse_rtrancl_into_rtrancl)
      with union [of y x] inv(2,4) have "y \<notin> done" by auto
      ultimately show ?case using inv(1) by auto
    qed (use inv in simp)
  qed
  moreover have "mutual g x y" if "y \<in> set c" for y
    using that inv reach [of y] by (auto simp: mutual_def)
  ultimately have "set c = component_of g x" by (auto simp: component_of_def)
  with inv(1,3) show ?thesis by simp
qed

lemma component_of_eq: "mutual g x y \<Longrightarrow> component_of g y = component_of g x"
  by (auto simp: component_of_def mutual_def)

lemma is_cyclic_exact:
  assumes c: "set c = component_of g x" "distinct c"
  shows "is_cyclic g c \<longleftrightarrow> (x, x) \<in> (edge g)\<^sup>+"
proof -
  have x: "x \<in> set c" using c by (simp add: component_of_def)
  show ?thesis
  proof (cases "length c > 1")
    case True
    then have "\<not> set c \<subseteq> {x}" using c(2) x card_mono [of "{x}" "set c"] by (auto simp: distinct_card)
    then obtain y where y: "y \<noteq> x" "mutual g x y" using c(1) by (auto simp: component_of_def)
    then have "(x, y) \<in> (edge g)\<^sup>+" "(y, x) \<in> (edge g)\<^sup>*" by (auto simp: mutual_def rtrancl_eq_or_trancl)
    then have "(x, x) \<in> (edge g)\<^sup>+" by (rule trancl_rtrancl_trancl)
    with True show ?thesis by (simp add: is_cyclic_def)
  next
    case False
    with x have one: "c = [x]" by (cases c; cases "tl c") auto
    have "x \<in> set (targets g x)" if "(x, x) \<in> (edge g)\<^sup>+"
    proof -
      from that obtain z where z: "(x, z) \<in> edge g" "(z, x) \<in> (edge g)\<^sup>*" by (auto dest: tranclD)
      then have "mutual g x z" by (auto simp: mutual_def)
      then have "z = x" using c(1) one by (auto simp: component_of_def)
      with z show ?thesis by (simp add: edge_def)
    qed
    then show ?thesis using one by (auto simp: is_cyclic_def edge_def)
  qed
qed

definition scanned :: "('a::linorder) graph \<Rightarrow> 'a list \<Rightarrow> 'a set \<times> 'a list list \<Rightarrow> bool" where
  "scanned g part state \<longleftrightarrow> fst state = \<Union> (component_of g ` set part)
     \<and> set ` set (snd state) = component_of g ` {x\<in>set part. (x, x) \<in> (edge g)\<^sup>+}
     \<and> distinct (snd state) \<and> (\<forall>c\<in>set (snd state). sorted c \<and> distinct c)"

lemma scan_step:
  assumes inv: "scanned g part state" and rev: "\<forall>n. set (targets r n) = {m. n \<in> set (targets g m)}"
    and order: "rev (finish_order g) = part @ x # rest"
  shows "scanned g (part @ [x]) (component_from g r x state)"
proof -
  obtain D cyc where state: "state = (D, cyc)" by force
  have inv': "D = \<Union> (component_of g ` set part)" "set ` set cyc = component_of g ` {x\<in>set part. (x, x) \<in> (edge g)\<^sup>+}"
    "distinct cyc" "\<forall>c\<in>set cyc. sorted c \<and> distinct c"
    using inv state by (auto simp: scanned_def)
  have D_closed: "z \<in> D" if "y \<in> D" "mutual g y z" for y z
  proof -
    from that(1) inv'(1) obtain p where p: "p \<in> set part" "mutual g p y" by (auto simp: component_of_def)
    from p(2) that(2) have "mutual g p z" by (rule mutual_trans)
    with p(1) inv'(1) show ?thesis by (auto simp: component_of_def)
  qed
  show ?thesis
  proof (cases "x \<in> D")
    case True
    then obtain p where "p \<in> set part" "mutual g p x" using inv'(1) by (auto simp: component_of_def)
    moreover from this have same: "component_of g x = component_of g p" by (simp add: component_of_eq)
    moreover have "(x, x) \<in> (edge g)\<^sup>+ \<longleftrightarrow> (p, p) \<in> (edge g)\<^sup>+"
      using \<open>mutual g p x\<close> unfolding mutual_def by (meson rtrancl_trancl_trancl trancl_rtrancl_trancl)
    ultimately have "component_of g ` set (part @ [x]) = component_of g ` set part"
      "component_of g ` {y\<in>set (part @ [x]). (y, y) \<in> (edge g)\<^sup>+} = component_of g ` {y\<in>set part. (y, y) \<in> (edge g)\<^sup>+}"
      by auto
    with inv' True state show ?thesis
      by (simp only: scanned_def component_from_def prod.case if_True fst_conv snd_conv simp_thms)
  next
    case False
    obtain c a where ca: "component_loop r [x] (insert x D) [] = (c, a)" by fastforce
    have "finish_order g = rev rest @ x # rev part" using arg_cong [OF order, of rev] by simp
    then have split: "set (finish_order g) = insert x (set rest \<union> set part)"
      and "ordered_by g {} (rev rest @ x # rev part)"
      using finish_order_sound [of g] by auto
    then have later: "(x, y) \<in> (edge g)\<^sup>* \<or> (\<exists>w\<in>set part. mutual g w y)" if "y \<in> set rest" "(y, x) \<in> (edge g)\<^sup>*" for y
      using that unfolding ordered_by_def by (metis Un_empty_right set_rev)
    have reach: "(x, y) \<in> (edge g)\<^sup>*" if y: "(y, x) \<in> (edge g)\<^sup>*" "y \<notin> D" for y
    proof (cases "y = x")
      case False
      with y(1) obtain z where "z \<in> set (targets g y)" by (auto simp: edge_def elim: converse_rtranclE)
      then have "y \<in> fst ` set g" by (rule targets_key)
      with finish_order_sound [of g] split False have "y \<in> set rest \<union> set part" by auto
      with y later [of y] inv'(1) show ?thesis by (force simp: component_of_def)
    qed simp
    have "collect_inv g D x [x] (insert x D) []" using False by (simp add: collect_inv_def)
    from component_loop_inv [OF rev this ca] have "collect_inv g D x [] a c" .
    from component_collected [OF this D_closed reach]
    have c: "set c = component_of g x" "a = D \<union> component_of g x" "distinct c" by auto
    have "set (sort c) \<notin> set ` set cyc"
      using c(1) inv'(1,2) False by (auto simp: component_of_def mutual_sym)
    then have "sort c \<notin> set cyc" by blast
    moreover have "is_cyclic g (sort c) \<longleftrightarrow> (x, x) \<in> (edge g)\<^sup>+" using c by (intro is_cyclic_exact) auto
    moreover have "component_from g r x state = (a, if is_cyclic g (sort c) then cyc @ [sort c] else cyc)"
      using ca False state by (simp add: component_from_def)
    ultimately show ?thesis
      using inv' c by (auto simp: scanned_def)
  qed
qed

lemma scan_all:
  assumes rev: "\<forall>n. set (targets r n) = {m. n \<in> set (targets g m)}"
  shows "scanned g part state \<Longrightarrow> rev (finish_order g) = part @ rest \<Longrightarrow>
    scanned g (part @ rest) (fold (component_from g r) rest state)"
proof (induction rest arbitrary: part state)
  case (Cons x rest)
  from scan_step [OF Cons.prems(1) rev Cons.prems(2)] Cons.IH [of "part @ [x]"] Cons.prems(2) show ?case by simp
qed simp

lemma components_exact:
  assumes "closed_graph g"
  shows "\<exists>cs. supersession_cycle_components g = Inr cs
     \<and> set ` set cs = {component_of g x |x. (x, x) \<in> (edge g)\<^sup>+}
     \<and> distinct cs \<and> (\<forall>c\<in>set cs. sorted c \<and> distinct c) \<and> (cs = [] \<longleftrightarrow> acyclic (edge g))"
proof -
  obtain r where r: "reverse_edges g = Inr r" "\<forall>n. set (targets r n) = {m. n \<in> set (targets g m)}"
    using reverse_edges_targets [OF assms] by blast
  let ?s = "fold (component_from g r) (rev (finish_order g)) ({}, [])"
  have "scanned g [] ({}, [])" by (simp add: scanned_def)
  from scan_all [OF r(2) this, of "rev (finish_order g)"] have s: "scanned g (rev (finish_order g)) ?s" by simp
  have "x \<in> set (finish_order g)" if "(x, x) \<in> (edge g)\<^sup>+" for x
  proof -
    from that obtain z where "z \<in> set (targets g x)" by (auto simp: edge_def dest: tranclD)
    then have "x \<in> fst ` set g" by (rule targets_key)
    then show ?thesis using finish_order_sound [of g] by auto
  qed
  then have sets: "set ` set (snd ?s) = {component_of g x |x. (x, x) \<in> (edge g)\<^sup>+}"
    using s by (auto simp: scanned_def)
  have "snd ?s = [] \<longleftrightarrow> acyclic (edge g)"
  proof -
    have "snd ?s = [] \<longleftrightarrow> set ` set (snd ?s) = {}" by simp
    also have "\<dots> \<longleftrightarrow> acyclic (edge g)" unfolding sets by (auto simp: acyclic_def)
    finally show ?thesis .
  qed
  then have "sort (snd ?s) = [] \<longleftrightarrow> acyclic (edge g)" by (metis set_empty set_sort)
  with r(1) s sets show ?thesis
    by (auto simp: supersession_cycle_components_def scanned_def)
qed

text \<open>C10 The two traversals compute the strongly connected components: for every graph whose edges lead to its
  nodes, the result lists each class of mutually reachable nodes that contains a cycle exactly once, sorted, and nothing else;
  in particular it is empty exactly when no node reaches itself.\<close>

theorem cycle_components_exact:
  assumes "closed_graph g"
  shows "\<exists>cs. supersession_cycle_components g = Inr cs
     \<and> set ` set cs = {component_of g x |x. (x, x) \<in> (edge g)\<^sup>+}
     \<and> distinct cs \<and> (\<forall>c\<in>set cs. sorted c \<and> distinct c) \<and> (cs = [] \<longleftrightarrow> acyclic (edge g))"
  using assms by (rule components_exact)

theorem cycle_components_exact_witness:
  "supersession_cycle_components [(1::nat, [2]), (2, [1, 3]), (3, [])] = Inr [[1, 2]]
     \<and> \<not> acyclic (edge [(1::nat, [2]), (2, [1, 3]), (3, [])])"
proof -
  have "closed_graph [(1::nat, [2]), (2, [1, 3]), (3, [])]" by (simp add: closed_graph_def)
  moreover have "supersession_cycle_components [(1::nat, [2]), (2, [1, 3]), (3, [])] = Inr [[1, 2]]"
    by (simp add: supersession_cycle_components_def finish_order_def finish_from_def targets_def reverse_edges_def
        add_reverse_def component_from_def assign_new_def is_cyclic_def Let_def)
  ultimately show ?thesis using cycle_components_exact by fastforce
qed

end
