(* ===== verification/Project_State.thy ===== *)
theory Project_State
  imports Packet_Budget
begin

text \<open>
  The caller limits of a project checkpoint and the wider limits of a stored one
  (\<open>core/project_state.py\<close>).  The traversal of the metadata object keeps an explicit stack, as the
  code does; a value of the model is a tree, so the code's check for cycles has nothing to find.
\<close>

section \<open>Text fields\<close>

definition utf8_len :: "pystr \<Rightarrow> py_error + nat" where
  "utf8_len s = (if utf8_ok s then Inr (utf8_size s) else Inl (ValueError ''surrogates not allowed''))"

definition validate_optional_text :: "pyval \<Rightarrow> string \<Rightarrow> nat \<Rightarrow> py_error + unit" where
  "validate_optional_text v field maximum =
     (case v of
        PNone \<Rightarrow> Inr ()
      | PStr s \<Rightarrow> bindE (utf8_len s) (\<lambda>n. ensure (n \<le> maximum) (ValueError (field @ '' exceeds its maximum of UTF-8 bytes'')))
      | _ \<Rightarrow> Inl (ValueError (field @ '' must be a string when provided'')))"

definition item_size :: "string \<Rightarrow> nat \<Rightarrow> pyval \<Rightarrow> py_error + pyval" where
  "item_size field maximum v =
     (case v of
        PStr s \<Rightarrow> bindE (utf8_len s) (\<lambda>n. bindE (ensure (n \<le> maximum)
                    (ValueError (field @ '' item exceeds its maximum of UTF-8 bytes''))) (\<lambda>_. Inr v))
      | _ \<Rightarrow> Inr v)"

definition validate_string_list :: "pyval \<Rightarrow> string \<Rightarrow> nat \<Rightarrow> nat \<Rightarrow> py_error + pyval list" where
  "validate_string_list v field maximum_items maximum_item_bytes =
     (case v of
        PNone \<Rightarrow> Inr []
      | PList items \<Rightarrow>
          bindE (ensure (list_all is_str items) (ValueError (field @ '' must be a list of strings''))) (\<lambda>_.
          bindE (ensure (length items \<le> maximum_items) (ValueError (field @ '' exceeds its maximum of items''))) (\<lambda>_.
            mapE (item_size field maximum_item_bytes) items))
      | _ \<Rightarrow> Inl (ValueError (field @ '' must be a list of strings'')))"

section \<open>Metadata\<close>

definition reserved_metadata_keys :: "pystr list" where
  "reserved_metadata_keys = map lit [''conflict_group'', ''conflict_resolution_id'', ''conflict_resolution_members'',
     ''conflict_resolution_receipt_id'', ''conflict_resolution_receipts'', ''dismissed_conflict_components'',
     ''superseded_by_card_id'', ''supersedes_card_id'']"

text \<open>\<open>casefold\<close> as far as it can reach an ASCII text: the capital letters, the Kelvin sign, the long and
  sharp s and the Latin ligatures; every other character keeps its case folding outside ASCII.\<close>

definition fold_char :: "nat \<Rightarrow> pystr" where
  "fold_char c =
     (if 65 \<le> c \<and> c \<le> 90 then [c + 32] else if c = 383 then lit ''s'' else if c = 8490 then lit ''k''
      else if c = 223 \<or> c = 7838 then lit ''ss'' else if c = 64256 then lit ''ff'' else if c = 64257 then lit ''fi''
      else if c = 64258 then lit ''fl'' else if c = 64259 then lit ''ffi'' else if c = 64260 then lit ''ffl''
      else if c = 64261 \<or> c = 64262 then lit ''st'' else [c])"

definition reserved_key :: "pyval \<Rightarrow> bool" where
  "reserved_key k = (case k of PStr s \<Rightarrow> concat (map fold_char s) \<in> set reserved_metadata_keys | _ \<Rightarrow> False)"

record meta_limits =
  ml_members :: nat
  ml_container :: nat
  ml_bytes :: nat

definition limits_of :: "bool \<Rightarrow> meta_limits" where
  "limits_of enriched =
     (if enriched then \<lparr>ml_members = 160, ml_container = 80, ml_bytes = 12288\<rparr>
      else \<lparr>ml_members = 128, ml_container = 64, ml_bytes = 8192\<rparr>)"

definition metadata_key :: "pyval \<Rightarrow> py_error + unit" where
  "metadata_key k =
     (case k of
        PStr s \<Rightarrow> bindE (utf8_len s) (\<lambda>n. ensure (n \<le> 128) (ValueError ''metadata key exceeds its maximum of UTF-8 bytes''))
      | _ \<Rightarrow> Inl (ValueError ''metadata object keys must be strings''))"

text \<open>A value that is not a container.\<close>

definition metadata_leaf :: "pyval \<Rightarrow> py_error + unit" where
  "metadata_leaf v =
     (case v of
        PStr s \<Rightarrow> bindE (utf8_len s) (\<lambda>n. ensure (n \<le> 2048) (ValueError ''metadata string exceeds its maximum of UTF-8 bytes''))
      | PInt i \<Rightarrow> ensure (\<bar>i\<bar> < 2 ^ 256) (ValueError ''metadata integer exceeds 256-bit limit'')
      | PFloat f \<Rightarrow> ensure (finite_float f) (ValueError ''metadata numbers must be finite'')
      | POther _ \<Rightarrow> Inl (ValueError ''metadata contains unsupported value type'')
      | _ \<Rightarrow> Inr ())"

fun children :: "pyval \<Rightarrow> pyval list" where
  "children (PList vs) = vs"
| "children (PDict kvs) = map snd kvs"
| "children _ = []"

definition is_container :: "pyval \<Rightarrow> bool" where
  "is_container v = (case v of PList _ \<Rightarrow> True | PDict _ \<Rightarrow> True | _ \<Rightarrow> False)"

lemma children_size: "v \<in> set (children w) \<Longrightarrow> size v < size w"
proof (cases w)
  case (PList vs)
  assume "v \<in> set (children w)"
  with PList show ?thesis using size_list_estimation' [of v vs "size v" size] by simp
next
  case (PDict kvs)
  assume "v \<in> set (children w)"
  with PDict obtain k where "(k, v) \<in> set kvs" by auto
  then have "size_prod size size (k, v) \<le> size_list (size_prod size size) kvs" by (intro size_list_estimation') auto
  with PDict show ?thesis by simp
qed auto

fun weight :: "pyval \<Rightarrow> nat" where
  "weight (PList vs) = Suc (sum_list (map weight vs))"
| "weight (PDict kvs) = Suc (sum_list (map (\<lambda>kv. weight (snd kv)) kvs))"
| "weight _ = 1"

lemma weight_children: "weight v = Suc (sum_list (map weight (children v)))"
  by (cases v) (simp_all add: comp_def)

text \<open>The \<open>while stack\<close> loop: the head of the list is the top of the stack, each entry a value with
  its depth, and \<open>members\<close> the entries of the containers seen so far.\<close>

function meta_loop :: "meta_limits \<Rightarrow> nat \<Rightarrow> (pyval \<times> nat) list \<Rightarrow> py_error + unit" where
  "meta_loop ml members [] = Inr ()"
| "meta_loop ml members ((v, depth) # stack) =
     bindE (ensure (depth \<le> 8) (ValueError ''metadata exceeds maximum depth'')) (\<lambda>_.
     if is_container v then
       let n = length (children v) in
       bindE (ensure (n \<le> ml_container ml) (ValueError ''metadata container exceeds its maximum of members'')) (\<lambda>_.
       bindE (ensure (members + n \<le> ml_members ml) (ValueError ''metadata exceeds its maximum of total members'')) (\<lambda>_.
       bindE (mapE (\<lambda>kv. metadata_key (fst kv)) (entries v)) (\<lambda>_.
         meta_loop ml (members + n) (rev (map (\<lambda>x. (x, depth + 1)) (children v)) @ stack))))
     else bindE (metadata_leaf v) (\<lambda>_. meta_loop ml members stack))"
  by pat_completeness auto

termination
proof (relation "measure (\<lambda>(_, _, stack). sum_list (map (\<lambda>vd. weight (fst vd)) stack))")
  fix v :: pyval and depth :: nat and stack :: "(pyval \<times> nat) list" and ml :: meta_limits and members x
  show "((ml, members + x, rev (map (\<lambda>x. (x, depth + 1)) (children v)) @ stack), ml, members, (v, depth) # stack)
      \<in> measure (\<lambda>(_, _, stack). sum_list (map (\<lambda>vd. weight (fst vd)) stack))"
    by (simp add: weight_children [of v] rev_map [symmetric] sum_list_rev comp_def)
next
  fix v :: pyval and depth :: nat and stack :: "(pyval \<times> nat) list" and ml :: meta_limits and members :: nat
  show "((ml, members, stack), ml, members, (v, depth) # stack) \<in> measure (\<lambda>(_, _, stack). sum_list (map (\<lambda>vd. weight (fst vd)) stack))"
    by (simp add: weight_children [of v])
qed simp

declare meta_loop.simps [simp del]

definition plain_json :: json_opts where
  "plain_json = \<lparr>jo_ascii = True, jo_sort = True, jo_nan = False\<rparr>"

definition validate_metadata :: "pyval \<Rightarrow> bool \<Rightarrow> py_error + pyval" where
  "validate_metadata v enriched =
     (case v of
        PNone \<Rightarrow> Inr (PDict [])
      | PDict kvs \<Rightarrow>
          bindE (ensure (enriched \<or> \<not> list_ex (\<lambda>kv. reserved_key (fst kv)) kvs)
                   (ValueError ''metadata contains Continuum-reserved temporal field(s)'')) (\<lambda>_.
          bindE (meta_loop (limits_of enriched) 0 [(v, 1)]) (\<lambda>_.
          bindE (case dumps plain_json v of Inl _ \<Rightarrow> Inl (ValueError ''metadata must be a finite JSON object'') | Inr t \<Rightarrow> Inr t) (\<lambda>t.
          bindE (ensure (length t \<le> ml_bytes (limits_of enriched))
                   (ValueError ''metadata exceeds its maximum of serialized bytes'')) (\<lambda>_. Inr v))))
      | _ \<Rightarrow> Inl (ValueError ''metadata must be an object''))"

section \<open>The checkpoint a caller offers\<close>

record state_input =
  si_session :: pyval
  si_agent :: pyval
  si_project :: pyval
  si_objective :: pyval
  si_repo_path :: pyval
  si_branch :: pyval
  si_commit :: pyval
  si_dirty :: pyval
  si_changed_files :: pyval
  si_decisions :: pyval
  si_open_tasks :: pyval
  si_notes :: pyval
  si_metadata :: pyval

definition nonempty_text :: "string \<Rightarrow> pyval \<Rightarrow> py_error + unit" where
  "nonempty_text field v = ensure (case v of PStr s \<Rightarrow> s \<noteq> [] | _ \<Rightarrow> False) (ValueError (field @ '' must be a non-empty string''))"

definition payload_of :: "state_input \<Rightarrow> pyval list \<Rightarrow> pyval list \<Rightarrow> pyval list \<Rightarrow> pyval \<Rightarrow> (string \<times> pyval) list" where
  "payload_of i files decisions tasks metadata =
     [(''agent_id'', si_agent i), (''branch'', si_branch i), (''changed_files'', PList files),
      (''commit'', si_commit i), (''decisions'', PList decisions), (''dirty'', si_dirty i), (''metadata'', metadata),
      (''notes'', si_notes i), (''objective'', si_objective i), (''open_tasks'', PList tasks),
      (''project_id'', si_project i), (''repo_path'', si_repo_path i), (''session_id'', si_session i)]"

definition validate_project_state_input :: "state_input \<Rightarrow> bool \<Rightarrow> py_error + pyval" where
  "validate_project_state_input i enriched =
     bindE (nonempty_text ''session_id'' (si_session i)) (\<lambda>_.
     bindE (nonempty_text ''agent_id'' (si_agent i)) (\<lambda>_.
     bindE (nonempty_text ''project_id'' (si_project i)) (\<lambda>_.
     bindE (validate_optional_text (si_objective i) ''objective'' 4096) (\<lambda>_.
     bindE (validate_optional_text (si_repo_path i) ''repo_path'' 4096) (\<lambda>_.
     bindE (validate_optional_text (si_branch i) ''branch'' 512) (\<lambda>_.
     bindE (validate_optional_text (si_commit i) ''commit'' 256) (\<lambda>_.
     bindE (validate_optional_text (si_notes i) ''notes'' 8192) (\<lambda>_.
     bindE (ensure (case si_dirty i of PNone \<Rightarrow> True | PBool _ \<Rightarrow> True | _ \<Rightarrow> False)
              (ValueError ''dirty must be a boolean when provided'')) (\<lambda>_.
     bindE (validate_string_list (si_changed_files i) ''changed_files'' 256 1024) (\<lambda>files.
     bindE (validate_string_list (si_decisions i) ''decisions'' 64 2048) (\<lambda>decisions.
     bindE (validate_string_list (si_open_tasks i) ''open_tasks'' 64 2048) (\<lambda>tasks.
     bindE (validate_metadata (si_metadata i) enriched) (\<lambda>metadata.
     let payload = payload_of i files decisions tasks metadata in
     bindE (dumps plain_json (mkdict payload)) (\<lambda>encoded.
     bindE (ensure (length encoded \<le> (if enriched then 49152 else 12288))
              (ValueError ''project state exceeds its maximum of serialized bytes'')) (\<lambda>_.
       Inr (mkdict (payload @ [(''serialized_bytes'', PInt (int (length encoded)))])))))))))))))))))"

definition stored_limits :: "pyval \<Rightarrow> pyval \<Rightarrow> pyval \<Rightarrow> pyval \<Rightarrow> pyval \<Rightarrow> py_error + unit" where
  "stored_limits summary decisions open_tasks metadata source_content =
     bindE (validate_optional_text summary ''summary'' 8192) (\<lambda>_.
     bindE (validate_string_list decisions ''decisions'' 64 2048) (\<lambda>ds.
     bindE (validate_string_list open_tasks ''open_tasks'' 64 2048) (\<lambda>ts.
     bindE (validate_metadata metadata True) (\<lambda>md.
     bindE (validate_optional_text source_content ''source_content'' 49152) (\<lambda>_.
     bindE (dumps plain_json (mkdict [(''decisions'', PList ds), (''metadata'', md), (''open_tasks'', PList ts),
              (''source_content'', source_content), (''summary'', summary)])) (\<lambda>encoded.
       ensure (length encoded \<le> 49152) (ValueError ''stored project state exceeds its maximum of serialized bytes'')))))))"

text \<open>The message of the error, or nothing.\<close>

definition stored_project_state_limit_error :: "pyval \<Rightarrow> pyval \<Rightarrow> pyval \<Rightarrow> pyval \<Rightarrow> pyval \<Rightarrow> py_error option" where
  "stored_project_state_limit_error summary decisions open_tasks metadata source_content =
     (case stored_limits summary decisions open_tasks metadata source_content of Inl e \<Rightarrow> Some e | Inr _ \<Rightarrow> None)"

section \<open>Sizes of the texts\<close>

lemma quote_utf8: "utf8_size s + 2 \<le> length (quote True s)"
proof (induction s)
  case (Cons c s)
  have "length (utf8_char c) \<le> length (escape_char True c)"
    by (auto simp: utf8_char_def escape_char_def u_escape_def)
  with Cons show ?case by (simp add: quote_def utf8_size_def)
qed (simp add: quote_def utf8_size_def)

text \<open>The length of a value's text, of an entry and of an object built by the code.\<close>

definition text_len :: "pyval \<Rightarrow> nat" where
  "text_len v = (case dumps plain_json v of Inl _ \<Rightarrow> 0 | Inr t \<Rightarrow> length t)"

definition entry_len :: "string \<times> pyval \<Rightarrow> nat" where
  "entry_len kv = length (quote True (lit (fst kv))) + Suc (text_len (snd kv))"

lemma text_len_Inr [simp]: "dumps plain_json v = Inr t \<Longrightarrow> text_len v = length t"
  by (simp add: text_len_def)

lemma plain_json_simps [simp]: "jo_ascii plain_json" "jo_sort plain_json" "\<not> jo_nan plain_json"
  by (simp_all add: plain_json_def)

lemma mkdict_entries:
  "mapE (dump_entry plain_json) (map (\<lambda>(k, v). (PStr (lit k), v)) kvs) = Inr xs \<Longrightarrow>
     (\<forall>kv\<in>set kvs. isOk (dumps plain_json (snd kv)))
     \<and> sum_list (map (\<lambda>x. length (snd x)) xs) = sum_list (map entry_len kvs) \<and> length xs = length kvs"
proof (induction kvs arbitrary: xs)
  case (Cons kv kvs)
  then show ?case by (cases kv) (auto simp: isOk_iff entry_len_def)
qed simp

lemma mkdict_length:
  assumes "dumps plain_json (mkdict kvs) = Inr s"
  shows "\<forall>kv\<in>set kvs. isOk (dumps plain_json (snd kv))"
    and "length s = 2 + sum_list (map entry_len kvs) + (length kvs - 1)"
proof -
  from assms obtain xs where xs: "mapE (dump_entry plain_json) (map (\<lambda>(k, v). (PStr (lit k), v)) kvs) = Inr xs"
    and s: "s = 123 # join (map snd (sort_items xs)) @ [125]"
    by (auto simp: mkdict_def)
  from mkdict_entries [OF xs] show "\<forall>kv\<in>set kvs. isOk (dumps plain_json (snd kv))" by blast
  from mkdict_entries [OF xs] s show "length s = 2 + sum_list (map entry_len kvs) + (length kvs - 1)"
    by (simp add: join_length sort_items_def comp_def sum_list_sort)
qed

section \<open>What the traversal accepts\<close>

text \<open>The shape of a bounded metadata value at a depth, and the entries of its containers, without
  the stack.\<close>

fun bounded_shape :: "meta_limits \<Rightarrow> nat \<Rightarrow> pyval \<Rightarrow> bool" where
  "bounded_shape ml d (PList vs) \<longleftrightarrow> d \<le> 8 \<and> length vs \<le> ml_container ml \<and> (\<forall>v\<in>set vs. bounded_shape ml (Suc d) v)"
| "bounded_shape ml d (PDict kvs) \<longleftrightarrow> d \<le> 8 \<and> length kvs \<le> ml_container ml
     \<and> (\<forall>kv\<in>set kvs. isOk (metadata_key (fst kv)) \<and> bounded_shape ml (Suc d) (snd kv))"
| "bounded_shape ml d v \<longleftrightarrow> d \<le> 8 \<and> isOk (metadata_leaf v)"

fun members_of :: "pyval \<Rightarrow> nat" where
  "members_of (PList vs) = length vs + sum_list (map members_of vs)"
| "members_of (PDict kvs) = length kvs + sum_list (map (\<lambda>kv. members_of (snd kv)) kvs)"
| "members_of _ = 0"

lemma members_children: "members_of v = length (children v) + sum_list (map members_of (children v))"
  by (cases v) (simp_all add: comp_def)

lemma bounded_children:
  "bounded_shape ml d v \<longleftrightarrow> d \<le> 8 \<and>
     (if is_container v then length (children v) \<le> ml_container ml \<and> isOk (mapE (\<lambda>kv. metadata_key (fst kv)) (entries v))
        \<and> (\<forall>w\<in>set (children v). bounded_shape ml (Suc d) w)
      else isOk (metadata_leaf v))"
  by (cases v) (auto simp: is_container_def mapE_isOk)

lemma leaf_children: "\<not> is_container v \<Longrightarrow> children v = []"
  by (cases v) (auto simp: is_container_def)

lemma meta_loop_shape:
  assumes "members \<le> ml_members ml"
  shows "isOk (meta_loop ml members stack) \<longleftrightarrow> (\<forall>(v, d)\<in>set stack. bounded_shape ml d v)
     \<and> members + sum_list (map (\<lambda>vd. members_of (fst vd)) stack) \<le> ml_members ml"
  using assms
proof (induction ml members stack rule: meta_loop.induct)
  case (2 ml members v d stack)
  let ?n = "length (children v)"
  show ?case
  proof (cases "is_container v")
    case True
    show ?thesis
    proof (cases "d \<le> 8 \<and> ?n \<le> ml_container ml \<and> members + ?n \<le> ml_members ml
        \<and> isOk (mapE (\<lambda>kv. metadata_key (fst kv)) (entries v))")
      case good: True
      then obtain u where u: "mapE (\<lambda>kv. metadata_key (fst kv)) (entries v) = Inr u" by (auto simp: isOk_iff)
      have "isOk (meta_loop ml (members + ?n) (rev (map (\<lambda>x. (x, d + 1)) (children v)) @ stack)) \<longleftrightarrow>
          (\<forall>(w, e)\<in>set (rev (map (\<lambda>x. (x, d + 1)) (children v)) @ stack). bounded_shape ml e w)
          \<and> members + ?n + sum_list (map (\<lambda>vd. members_of (fst vd)) (rev (map (\<lambda>x. (x, d + 1)) (children v)) @ stack)) \<le> ml_members ml"
        using 2(1) [of "()" ?n "()" "()" u] True good u by simp
      with True good u show ?thesis
        by (simp add: meta_loop.simps bounded_children [of ml d v] members_children [of v] rev_map [symmetric] sum_list_rev comp_def Let_def
            ball_Un add.assoc)
    next
      case False
      with True show ?thesis
        by (auto simp: meta_loop.simps bounded_children [of ml d v] members_children [of v] Let_def isOk_iff)
    qed
  next
    case False
    show ?thesis
    proof (cases "d \<le> 8 \<and> isOk (metadata_leaf v)")
      case good: True
      then obtain u where u: "metadata_leaf v = Inr u" by (auto simp: isOk_iff)
      with 2(2) [of "()" u] False good show ?thesis
        by (simp add: meta_loop.simps bounded_children [of ml d v] members_children [of v] leaf_children 2(3))
    next
      case bad: False
      with False show ?thesis by (auto simp: meta_loop.simps bounded_children [of ml d v] isOk_iff)
    qed
  qed
qed (simp add: meta_loop.simps)

lemma meta_loop_wider:
  assumes "ml_members a \<le> ml_members b" "ml_container a \<le> ml_container b" "isOk (meta_loop a members stack)"
    "members \<le> ml_members a"
  shows "isOk (meta_loop b members stack)"
proof -
  have "bounded_shape a d v \<Longrightarrow> bounded_shape b d v" for d v
    using assms(2) by (induction a d v rule: bounded_shape.induct) auto
  with assms show ?thesis by (fastforce simp: meta_loop_shape)
qed

text \<open>C26 The stack of the metadata traversal is only an implementation: an object is accepted exactly when it
  has no reserved key (unless the program wrote it), every container of it is small, keyed by short texts and at
  most eight levels deep, every leaf is a bounded finite value, the entries of all its containers together stay within the
  total, and its JSON text fits; and the object is then returned as it is.\<close>

theorem metadata_accepted:
  "validate_metadata (PDict kvs) enriched = Inr w \<longleftrightarrow>
     w = PDict kvs \<and> (enriched \<or> (\<forall>kv\<in>set kvs. \<not> reserved_key (fst kv)))
     \<and> bounded_shape (limits_of enriched) 1 (PDict kvs) \<and> members_of (PDict kvs) \<le> ml_members (limits_of enriched)
     \<and> (\<exists>t. dumps plain_json (PDict kvs) = Inr t \<and> length t \<le> ml_bytes (limits_of enriched))"
proof -
  have "isOk (meta_loop (limits_of enriched) 0 [(PDict kvs, 1)]) \<longleftrightarrow>
      bounded_shape (limits_of enriched) 1 (PDict kvs) \<and> members_of (PDict kvs) \<le> ml_members (limits_of enriched)"
    by (simp add: meta_loop_shape del: bounded_shape.simps members_of.simps)
  then show ?thesis
    unfolding validate_metadata_def
    by (cases "dumps plain_json (PDict kvs)"; cases "meta_loop (limits_of enriched) 0 [(PDict kvs, 1)]")
       (auto simp del: bounded_shape.simps members_of.simps dumps.simps simp add: list_ex_iff isOk_iff)
qed

lemma enriched_wider:
  assumes "validate_metadata v False = Inr w"
  shows "validate_metadata v True = Inr w"
proof (cases v)
  case (PDict kvs)
  with assms have "isOk (meta_loop (limits_of False) 0 [(v, 1)])"
    by (auto simp: validate_metadata_def isOk_iff)
  then have "isOk (meta_loop (limits_of True) 0 [(v, 1)])"
    by (rule meta_loop_wider [rotated 2]) (simp_all add: limits_of_def)
  with assms PDict show ?thesis
    by (auto simp: validate_metadata_def isOk_iff limits_of_def split: sum.splits)
qed (use assms in \<open>auto simp: validate_metadata_def\<close>)

section \<open>Accepted checkpoints\<close>

lemma item_size_same: "item_size f n v = Inr w \<Longrightarrow> w = v"
  by (cases v) (auto simp: item_size_def)

lemma string_list_same: "validate_string_list v f n m = Inr vs \<Longrightarrow> (v = PNone \<and> vs = []) \<or> v = PList vs"
proof (cases v)
  case (PList items)
  moreover assume "validate_string_list v f n m = Inr vs"
  ultimately have "list_all2 (\<lambda>x y. item_size f m x = Inr y) items vs"
    by (auto simp: validate_string_list_def mapE_Inr_iff)
  then have "vs = items" by (induction rule: list_all2_induct) (auto dest: item_size_same)
  with PList show ?thesis by simp
qed (auto simp: validate_string_list_def)

lemma string_list_again:
  assumes "validate_string_list v f n m = Inr vs"
  shows "validate_string_list (PList vs) g n m = Inr vs"
proof -
  have "mapE (item_size g m) us = Inr us" if "mapE (item_size f m) us = Inr us" for us
    using that by (induction us) (auto simp: item_size_def split: pyval.splits)
  with assms string_list_same [OF assms] show ?thesis by (auto simp: validate_string_list_def)
qed

lemma metadata_again: "validate_metadata v enriched = Inr w \<Longrightarrow> validate_metadata w enriched = Inr w"
  by (cases v) (auto simp: validate_metadata_def meta_loop.simps Let_def is_container_def isOk_iff ensure_def
      limits_of_def join_def sort_items_def)

lemma input_accepted:
  assumes "validate_project_state_input i enriched = Inr p"
  obtains files decisions tasks metadata encoded where
    "validate_string_list (si_changed_files i) ''changed_files'' 256 1024 = Inr files"
    "validate_string_list (si_decisions i) ''decisions'' 64 2048 = Inr decisions"
    "validate_string_list (si_open_tasks i) ''open_tasks'' 64 2048 = Inr tasks"
    "validate_metadata (si_metadata i) enriched = Inr metadata"
    "validate_optional_text (si_notes i) ''notes'' 8192 = Inr ()"
    "nonempty_text ''session_id'' (si_session i) = Inr ()" "nonempty_text ''agent_id'' (si_agent i) = Inr ()"
    "nonempty_text ''project_id'' (si_project i) = Inr ()"
    "dumps plain_json (mkdict (payload_of i files decisions tasks metadata)) = Inr encoded"
    "length encoded \<le> (if enriched then 49152 else 12288)"
    "p = mkdict (payload_of i files decisions tasks metadata @ [(''serialized_bytes'', PInt (int (length encoded)))])"
proof -
  from assms obtain files decisions tasks metadata encoded where
    "validate_string_list (si_changed_files i) ''changed_files'' 256 1024 = Inr files"
    "validate_string_list (si_decisions i) ''decisions'' 64 2048 = Inr decisions"
    "validate_string_list (si_open_tasks i) ''open_tasks'' 64 2048 = Inr tasks"
    "validate_metadata (si_metadata i) enriched = Inr metadata"
    "validate_optional_text (si_notes i) ''notes'' 8192 = Inr ()"
    "nonempty_text ''session_id'' (si_session i) = Inr ()" "nonempty_text ''agent_id'' (si_agent i) = Inr ()"
    "nonempty_text ''project_id'' (si_project i) = Inr ()"
    "dumps plain_json (mkdict (payload_of i files decisions tasks metadata)) = Inr encoded"
    "length encoded \<le> (if enriched then 49152 else 12288)"
    "p = mkdict (payload_of i files decisions tasks metadata @ [(''serialized_bytes'', PInt (int (length encoded)))])"
    by (simp add: validate_project_state_input_def Let_def) blast
  then show ?thesis by (rule that)
qed

lemma notes_summary: "validate_optional_text v ''notes'' n = Inr u \<Longrightarrow> validate_optional_text v f n = Inr ()"
  by (auto simp: validate_optional_text_def split: pyval.splits)

text \<open>The text of the Scroll event a checkpoint is stored with.\<close>

definition source_ok :: "pyval \<Rightarrow> bool" where
  "source_ok v = (case v of PNone \<Rightarrow> True | PStr s \<Rightarrow> utf8_ok s \<and> length (quote True s) \<le> 36845 | _ \<Rightarrow> False)"

lemma source_text:
  assumes "source_ok v"
  shows "validate_optional_text v f 49152 = Inr ()" "isOk (dumps plain_json v)" "text_len v \<le> 36845"
  using assms quote_utf8 [of "case v of PStr s \<Rightarrow> s | _ \<Rightarrow> []"]
  by (auto simp: source_ok_def validate_optional_text_def utf8_len_def text_len_def split: pyval.splits)


definition demo_state :: state_input where
  "demo_state = \<lparr>si_session = PStr (lit ''s''), si_agent = PStr (lit ''a''), si_project = PStr (lit ''p''),
     si_objective = PNone, si_repo_path = PNone, si_branch = PStr (lit ''main''), si_commit = PNone, si_dirty = PBool True,
     si_changed_files = PNone, si_decisions = PList [PStr (lit ''keep'')], si_open_tasks = PNone,
     si_notes = PStr (lit ''ok''), si_metadata = PDict [(PStr (lit ''k''), PList [PInt 1, PNone])]\<rparr>"

lemma demo_metadata: "validate_metadata (si_metadata demo_state) False = Inr (si_metadata demo_state)"
  by (simp add: demo_state_def validate_metadata_def limits_of_def is_container_def metadata_key_def metadata_leaf_def
      reserved_key_def reserved_metadata_keys_def fold_char_def lit_def utf8_len_def utf8_size_def utf8_ok_def surrogate_def
      utf8_char_def meta_loop.simps Let_def join_def sort_items_def quote_def escape_char_def dec_int_def dec_nat.simps)

lemma demo_state_accepted: "isOk (validate_project_state_input demo_state False)"
proof -
  let ?p = "payload_of demo_state [] [PStr (lit ''keep'')] [] (si_metadata demo_state)"
  have ok: "\<forall>kv\<in>set ?p. isOk (dumps plain_json (snd kv))"
    by (simp add: payload_of_def demo_state_def)
  obtain t where t: "dumps plain_json (mkdict ?p) = Inr t" using mkdict_ok [OF ok] by (auto simp: isOk_iff)
  have "length t \<le> 12288"
    using mkdict_length(2) [OF t]
    by (simp add: payload_of_def demo_state_def entry_len_def text_len_def quote_def lit_def escape_char_def join_def
        sort_items_def dec_int_def dec_nat.simps)
  with t demo_metadata show ?thesis
    by (simp add: validate_project_state_input_def nonempty_text_def validate_optional_text_def validate_string_list_def
        item_size_def utf8_len_def utf8_size_def utf8_ok_def surrogate_def utf8_char_def lit_def isOk_iff demo_state_def
        del: dumps.simps)
qed

theorem metadata_accepted_witness:
  "bounded_shape (limits_of False) 1 (si_metadata demo_state) \<and> members_of (si_metadata demo_state) \<le> 128"
proof -
  obtain kvs where md: "si_metadata demo_state = PDict kvs" by (simp add: demo_state_def)
  with metadata_accepted [of kvs False "PDict kvs"] demo_metadata show ?thesis
    by (simp add: limits_of_def del: bounded_shape.simps members_of.simps dumps.simps)
qed


lemma string_list_type:
  assumes "validate_string_list v f n m = Inr vs"
  shows "\<exists>us. vs = map PStr us \<and> length us \<le> n"
proof -
  have "\<exists>us. vs = map PStr us" if "list_all is_str vs" for vs
    using that by (induction vs) (auto elim!: is_str.elims intro: exI [of _ "_ # _"])
  with assms string_list_same [OF assms] show ?thesis by (force simp: validate_string_list_def)
qed

lemma metadata_type:
  "validate_metadata v enriched = Inr w \<Longrightarrow> \<exists>md. w = PDict md \<and> (enriched \<or> (\<forall>kv\<in>set md. \<not> reserved_key (fst kv)))"
  by (cases v) (auto simp: validate_metadata_def list_ex_iff)

lemma nonempty_type: "nonempty_text f v = Inr u \<Longrightarrow> \<exists>s. v = PStr s \<and> s \<noteq> []"
  by (cases v) (auto simp: nonempty_text_def)

text \<open>C39 The type of an accepted checkpoint: the three identifiers are non-empty texts, the lists are lists of at
  most so many texts, the metadata is an object, and the payload returned is the accepted one with the length of its own
  JSON text, within the limit of the call.\<close>

theorem accepted_payload:
  assumes "validate_project_state_input i enriched = Inr p"
  shows "\<exists>files ds ts md t. p = mkdict (payload_of i (map PStr files) (map PStr ds) (map PStr ts) (PDict md)
             @ [(''serialized_bytes'', PInt (int (length t)))])
     \<and> dumps plain_json (mkdict (payload_of i (map PStr files) (map PStr ds) (map PStr ts) (PDict md))) = Inr t
     \<and> length t \<le> (if enriched then 49152 else 12288)
     \<and> length files \<le> 256 \<and> length ds \<le> 64 \<and> length ts \<le> 64
     \<and> (\<forall>v\<in>{si_session i, si_agent i, si_project i}. \<exists>s. v = PStr s \<and> s \<noteq> [])
     \<and> (enriched \<or> (\<forall>kv\<in>set md. \<not> reserved_key (fst kv)))"
proof -
  from assms obtain files ds ts md t where parts:
    "validate_string_list (si_changed_files i) ''changed_files'' 256 1024 = Inr files"
    "validate_string_list (si_decisions i) ''decisions'' 64 2048 = Inr ds"
    "validate_string_list (si_open_tasks i) ''open_tasks'' 64 2048 = Inr ts"
    "validate_metadata (si_metadata i) enriched = Inr md"
    and ids: "nonempty_text ''session_id'' (si_session i) = Inr ()" "nonempty_text ''agent_id'' (si_agent i) = Inr ()"
      "nonempty_text ''project_id'' (si_project i) = Inr ()"
    and enc: "dumps plain_json (mkdict (payload_of i files ds ts md)) = Inr t" "length t \<le> (if enriched then 49152 else 12288)"
      "p = mkdict (payload_of i files ds ts md @ [(''serialized_bytes'', PInt (int (length t)))])"
    by (rule input_accepted) simp
  from parts obtain fs' ds' ts' md' where "files = map PStr fs'" "length fs' \<le> 256" "ds = map PStr ds'" "length ds' \<le> 64"
    "ts = map PStr ts'" "length ts' \<le> 64" "md = PDict md'" "enriched \<or> (\<forall>kv\<in>set md'. \<not> reserved_key (fst kv))"
    by (meson string_list_type metadata_type)
  moreover have "\<forall>v\<in>{si_session i, si_agent i, si_project i}. \<exists>s. v = PStr s \<and> s \<noteq> []"
    using ids nonempty_type by blast
  ultimately show ?thesis using enc by blast
qed

theorem accepted_payload_witness:
  "\<exists>p n. validate_project_state_input demo_state False = Inr p \<and> dget p ''serialized_bytes'' = Some (PInt (int n)) \<and> n \<le> 12288"
proof -
  obtain p where p: "validate_project_state_input demo_state False = Inr p"
    using demo_state_accepted by (auto simp: isOk_iff)
  with accepted_payload [OF p] show ?thesis by (auto simp: payload_of_def)
qed

end
