(* ===== verification/Checkpoint_Integrity.thy ===== *)
theory Checkpoint_Integrity
  imports Project_State Scroll Json_Roundtrip
begin

text \<open>
  The integrity of a stored project checkpoint (\<open>core/store.py\<close>): a Card of the type
  \<open>project_state\<close> is bound to one event of the Scroll by its source reference, its identifier is
  the digest of what it shows, and its decisions and open tasks are committed to by the digest on the last
  line of the event.  A JSON column of a Card is its text; the metadata column of an event is the
  value it was written from.  The printer of containers and the conversion of a float to an integer
  are parameters; a text bound to a statement is encoded in UTF-8 and an integer has 64 bits.
\<close>

section \<open>Lines and digests\<close>

definition line_break :: "nat \<Rightarrow> bool" where
  "line_break c \<longleftrightarrow> c = 10 \<or> c = 11 \<or> c = 12 \<or> c = 13 \<or> c = 28 \<or> c = 29 \<or> c = 30 \<or> c = 133 \<or> c = 8232 \<or> c = 8233"

text \<open>\<open>str.splitlines()\<close>: the line read so far, reversed, and whether the last character was a carriage
  return, which makes one break with a line feed after it.\<close>

fun lines_from :: "pystr \<Rightarrow> bool \<Rightarrow> pystr \<Rightarrow> pystr list" where
  "lines_from acc cr [] = (if acc = [] then [] else [rev acc])"
| "lines_from acc cr (c # s) =
     (if cr \<and> c = 10 then lines_from acc False s
      else if line_break c then rev acc # lines_from [] (c = 13) s
      else lines_from (c # acc) False s)"

definition splitlines :: "pystr \<Rightarrow> pystr list" where
  "splitlines s = lines_from [] False s"

definition content_hash :: "pystr \<Rightarrow> pystr" where
  "content_hash s = sha256_bytes (utf8_replace s)"

definition summarize_text :: "pystr \<Rightarrow> nat \<Rightarrow> pystr" where
  "summarize_text s limit =
     (let kept = filter (\<lambda>l. l \<noteq> []) (map py_strip (splitlines s));
          cleaned = (case kept of [] \<Rightarrow> [] | l # ls \<Rightarrow> l @ concat (map (\<lambda>x. 32 # x) ls))
      in if length cleaned \<le> limit then cleaned
         else py_rstrip (take (limit - 3) cleaned) @ lit ''...'')"

section \<open>The commitment to decisions and open tasks\<close>

definition payload_marker :: pystr where
  "payload_marker = lit ''Continuum-State-Payload-SHA256: ''"

definition state_payload :: "pyval list \<Rightarrow> pyval list \<Rightarrow> pyval" where
  "state_payload ds ts = mkdict [(''schema'', PStr (lit ''continuum.project_state_payload.v1'')),
     (''decisions'', PList ds), (''open_tasks'', PList ts)]"

definition project_state_payload_hash :: "pyval \<Rightarrow> pyval \<Rightarrow> py_error + pystr option" where
  "project_state_payload_hash decisions open_tasks =
     (case (decisions, open_tasks) of
        (PList ds, PList ts) \<Rightarrow> bindE (dumps store_json (state_payload ds ts)) (\<lambda>s. Inr (Some (content_hash s)))
      | _ \<Rightarrow> Inr None)"

definition starts_with :: "pystr \<Rightarrow> pystr \<Rightarrow> bool" where
  "starts_with p s = (take (length p) s = p)"

definition marker_hash :: "pystr \<Rightarrow> pystr option" where
  "marker_hash content =
     (let ls = splitlines content in
      if ls = [] \<or> \<not> starts_with payload_marker (last ls) then None
      else let h = drop (length payload_marker) (last ls) in if is_hex 64 h then Some h else None)"

definition event_binds_payload :: "pystr \<Rightarrow> pyval \<Rightarrow> pyval \<Rightarrow> py_error + bool" where
  "event_binds_payload content decisions open_tasks =
     bindE (project_state_payload_hash decisions open_tasks) (\<lambda>ph.
       case ph of None \<Rightarrow> Inr False
       | Some h \<Rightarrow>
           (let ls = splitlines content in
            if ls = [] \<or> \<not> starts_with payload_marker (last ls) then Inr True
            else case marker_hash content of None \<Rightarrow> Inr True | Some stored \<Rightarrow> Inr (stored = h)))"

text \<open>The last lines of the content of a new checkpoint event.\<close>

definition bind_content :: "pystr \<Rightarrow> pystr \<Rightarrow> pystr" where
  "bind_content content h = py_rstrip content @ [10] @ payload_marker @ h"

section \<open>Rows\<close>

record state_card =
  sc_id :: pystr
  sc_type :: pystr
  sc_title :: pystr
  sc_summary :: pystr
  sc_decisions :: pystr
  sc_open_tasks :: pystr
  sc_metadata :: pystr
  sc_source_refs :: pystr
  sc_scope :: pystr
  sc_session :: "pystr option"
  sc_project :: "pystr option"

definition state_row :: "pystr \<Rightarrow> state_card list \<Rightarrow> state_card option" where
  "state_row i cards = find (\<lambda>c. sc_id c = i \<and> sc_type c = lit ''project_state'') cards"

abbreviation or_empty :: "pystr option \<Rightarrow> pystr" where
  "or_empty v \<equiv> (case v of None \<Rightarrow> [] | Some s \<Rightarrow> s)"

abbreviation or_text :: "pystr \<Rightarrow> string \<Rightarrow> pystr" where
  "or_text s d \<equiv> (if s = [] then lit d else s)"

text \<open>\<open>str(d.get(key) or "")\<close>.\<close>

definition str_or_empty :: "(pyval \<Rightarrow> pystr) \<Rightarrow> pyval \<Rightarrow> string \<Rightarrow> pystr" where
  "str_or_empty rp d k = (case get_truthy d k of None \<Rightarrow> [] | Some v \<Rightarrow> py_str rp v)"

section \<open>The limits of a stored checkpoint\<close>

record card_sizes =
  cz_title :: nat
  cz_summary :: nat
  cz_decisions :: nat
  cz_open_tasks :: nat
  cz_metadata :: nat
  cz_source_refs :: nat

definition sizes_of :: "state_card \<Rightarrow> card_sizes" where
  "sizes_of c = \<lparr>cz_title = utf8_size (sc_title c), cz_summary = utf8_size (sc_summary c),
     cz_decisions = utf8_size (sc_decisions c), cz_open_tasks = utf8_size (sc_open_tasks c),
     cz_metadata = utf8_size (sc_metadata c), cz_source_refs = utf8_size (sc_source_refs c)\<rparr>"

definition over_limit :: "card_sizes \<Rightarrow> string option" where
  "over_limit z = map_option fst (find (\<lambda>(_, n, limit). (n :: nat) > limit)
     [(''title'', cz_title z, 512), (''summary'', cz_summary z, 8192), (''decisions'', cz_decisions z, 49152),
      (''open_tasks'', cz_open_tasks z, 49152), (''metadata'', cz_metadata z, 12288), (''source_refs'', cz_source_refs z, 49152)])"

text \<open>The single source reference of a checkpoint: the fields it may have and their bounds.\<close>

definition reference_fields :: "pyval \<Rightarrow> bool" where
  "reference_fields r \<longleftrightarrow> has_keys r [''event_id'', ''session_id'', ''seq''] \<or> has_keys r [''session_id'', ''seq'']"

definition bounded_text :: "nat \<Rightarrow> pyval option \<Rightarrow> bool" where
  "bounded_text n v = (case v of Some (PStr s) \<Rightarrow> s \<noteq> [] \<and> utf8_ok s \<and> utf8_size s \<le> n | _ \<Rightarrow> False)"

definition reference_values :: "pyval \<Rightarrow> bool" where
  "reference_values r \<longleftrightarrow> bounded_text 128 (dget r ''session_id'')
     \<and> (case dget r ''seq'' of Some (PInt n) \<Rightarrow> 1 \<le> n \<and> n \<le> 2 ^ 63 - 1 | _ \<Rightarrow> False)
     \<and> (dget r ''event_id'' = None \<or> bounded_text 256 (dget r ''event_id''))"

definition error_text :: "py_error \<Rightarrow> string" where
  "error_text e = (case e of ValueError s \<Rightarrow> s | _ \<Rightarrow> ''type error'')"

text \<open>The event the reference names: by its identifier, or by session and sequence number.\<close>

definition named_event :: "pyval \<Rightarrow> scroll_event list \<Rightarrow> scroll_event option" where
  "named_event r es =
     (case dget r ''event_id'' of
        Some (PStr i) \<Rightarrow> find (\<lambda>e. ev_id e = i \<and> ev_type e = lit ''project_state'') es
      | _ \<Rightarrow> find (\<lambda>e. Some (PStr (ev_session e)) = dget r ''session_id'' \<and> Some (PInt (ev_seq e)) = dget r ''seq''
               \<and> ev_type e = lit ''project_state'') es)"

definition reference_error :: "pyval \<Rightarrow> string option" where
  "reference_error r =
     (if \<not> is_dict r then Some ''project-state Card source reference must be an object''
      else if \<not> reference_fields r then Some ''project-state Card source reference has invalid fields''
      else if \<not> reference_values r then Some ''project-state Card source reference has invalid values''
      else None)"

definition source_error :: "state_card \<Rightarrow> pyval \<Rightarrow> pyval \<Rightarrow> pyval \<Rightarrow> pyval \<Rightarrow> scroll_event list \<Rightarrow> string option" where
  "source_error c decisions open_tasks metadata r es =
     (let stored = (\<lambda>source. map_option error_text
        (stored_project_state_limit_error (PStr (sc_summary c)) decisions open_tasks metadata source))
      in case named_event r es of
           Some e \<Rightarrow> if utf8_size (ev_content e) > 49152 then Some ''source_content exceeds stored checkpoint limit''
                     else stored (PStr (ev_content e))
         | None \<Rightarrow> stored PNone)"

definition project_state_card_limit_error ::
  "state_card list \<Rightarrow> scroll_event list \<Rightarrow> pystr \<Rightarrow> card_sizes option \<Rightarrow> string option" where
  "project_state_card_limit_error cards es i size_row =
     (case (case size_row of Some z \<Rightarrow> Some z | None \<Rightarrow> map_option sizes_of (state_row i cards)) of
        None \<Rightarrow> Some ''project-state Card is missing''
      | Some z \<Rightarrow>
     (case over_limit z of Some field \<Rightarrow> Some (field @ '' exceeds stored checkpoint limit'') | None \<Rightarrow>
     (case state_row i cards of None \<Rightarrow> Some ''project-state Card is missing'' | Some c \<Rightarrow>
     (case (loads (or_text (sc_decisions c) ''[]''), loads (or_text (sc_open_tasks c) ''[]''),
            loads (or_text (sc_metadata c) ''{}''), loads (or_text (sc_source_refs c) ''[]'')) of
        (Some decisions, Some open_tasks, Some metadata, Some source_refs) \<Rightarrow>
          (case source_refs of
             PList [r] \<Rightarrow>
               (case reference_error r of Some err \<Rightarrow> Some err | None \<Rightarrow> source_error c decisions open_tasks metadata r es)
           | _ \<Rightarrow> Some ''project-state Card source_refs must contain exactly one reference'')
      | _ \<Rightarrow> Some ''project-state Card contains malformed JSON''))))"

section \<open>The source event\<close>

text \<open>\<open>int(raw_seq)\<close> of a sequence number that is neither missing nor a boolean: what \<open>TypeError\<close> and
  \<open>ValueError\<close> leave is no number, an infinite float is not caught.\<close>

definition reference_seq :: "(pyfloat \<Rightarrow> int) \<Rightarrow> pyval option \<Rightarrow> py_error + int option" where
  "reference_seq fi v =
     (case v of
        Some (PInt n) \<Rightarrow> Inr (Some n)
      | Some (PStr s) \<Rightarrow> Inr (py_int s)
      | Some (PFloat (FInf _)) \<Rightarrow> Inl OverflowError
      | Some (PFloat FNan) \<Rightarrow> Inr None
      | Some (PFloat f) \<Rightarrow> Inr (Some (fi f))
      | _ \<Rightarrow> Inr None)"

definition bind_text :: "pystr \<Rightarrow> py_error + unit" where
  "bind_text s = ensure (utf8_ok s) (ValueError ''surrogates not allowed'')"

definition bind_integer :: "int \<Rightarrow> py_error + unit" where
  "bind_integer n = ensure (- (2 ^ 63) \<le> n \<and> n < 2 ^ 63) OverflowError"

text \<open>What a caller may see: the session and project it was granted, or the exact boundary of a
  private checkpoint.\<close>

record boundary =
  bd_session :: pystr
  bd_project :: pystr
  bd_scope :: pystr
  bd_cap_session :: "pystr option"
  bd_cap_project :: "pystr option"
  bd_max_bytes :: "nat option"
  bd_private :: bool

definition source_row ::
  "boundary \<Rightarrow> pystr \<Rightarrow> pystr \<Rightarrow> int option \<Rightarrow> scroll_event list \<Rightarrow> py_error + scroll_event option" where
  "source_row b i session seq es =
     (let fits = (\<lambda>e. case bd_max_bytes b of None \<Rightarrow> True | Some n \<Rightarrow> utf8_size (ev_content e) \<le> n) in
      if i \<noteq> [] then bindE (bind_text i) (\<lambda>_. Inr (find (\<lambda>e. ev_id e = i \<and> fits e) es))
      else case seq of
          Some n \<Rightarrow> if session \<noteq> [] then bindE (bind_text session) (\<lambda>_. bindE (bind_integer n) (\<lambda>_.
                      Inr (find (\<lambda>e. ev_session e = session \<and> ev_seq e = n \<and> fits e) es)))
                    else Inr None
        | None \<Rightarrow> Inr None)"

text \<open>The event is what was appended: its digest and its identifier still hold.\<close>

definition unaltered :: "scroll_event \<Rightarrow> bool" where
  "unaltered e \<longleftrightarrow> content_hash (ev_content e) = ev_hash e
     \<and> ev_id e = stable_id (lit ''evt'') [ev_session e, dec_int (ev_seq e), ev_hash e]"

definition expected_project :: "boundary \<Rightarrow> pystr" where
  "expected_project b = (if bd_scope b = lit ''project'' then bd_project b else [])"

definition source_admitted ::
  "(pyval \<Rightarrow> pystr) \<Rightarrow> boundary \<Rightarrow> pystr \<Rightarrow> int option \<Rightarrow> scroll_event \<Rightarrow> bool" where
  "source_admitted rp b session seq e \<longleftrightarrow> unaltered e
     \<and> ev_type e = lit ''project_state'' \<and> ev_session e = bd_session b \<and> or_empty (ev_project e) = expected_project b
     \<and> ev_scope e = bd_scope b
     \<and> (session = [] \<or> ev_session e = session) \<and> (case seq of None \<Rightarrow> True | Some n \<Rightarrow> ev_seq e = n)
     \<and> ((bd_private b \<and> bd_scope b = lit ''private'')
        \<or> metadata_scope_visible rp (mkdict [(''visibility_scope'', PStr (ev_scope e)),
              (''project_id'', case ev_project e of None \<Rightarrow> PNone | Some p \<Rightarrow> PStr p)])
            (if ev_session e = [] then None else Some (ev_session e)) (bd_cap_session b) (bd_cap_project b))"

text \<open>One round of the loop over the references, and the loop: the first reference that resolves.\<close>

definition resolve_reference ::
  "(pyval \<Rightarrow> pystr) \<Rightarrow> (pyfloat \<Rightarrow> int) \<Rightarrow> boundary \<Rightarrow> scroll_event list \<Rightarrow> pyval \<Rightarrow> py_error + scroll_event option" where
  "resolve_reference rp fi b es r =
     (if \<not> is_dict r then Inr None
      else let i = str_or_empty rp r ''event_id''; session = str_or_empty rp r ''session_id'' in
        bindE (reference_seq fi (dget r ''seq'')) (\<lambda>seq.
        bindE (source_row b i session seq es) (\<lambda>row.
          Inr (case row of None \<Rightarrow> None | Some e \<Rightarrow> if source_admitted rp b session seq e then Some e else None))))"

fun first_resolved :: "('a \<Rightarrow> py_error + 'b option) \<Rightarrow> 'a list \<Rightarrow> py_error + 'b option" where
  "first_resolved f [] = Inr None"
| "first_resolved f (x # xs) =
     bindE (f x) (\<lambda>found. case found of Some e \<Rightarrow> Inr (Some e) | None \<Rightarrow> first_resolved f xs)"

definition project_state_source_event ::
  "(pyval \<Rightarrow> pystr) \<Rightarrow> (pyfloat \<Rightarrow> int) \<Rightarrow> pyval \<Rightarrow> boundary \<Rightarrow> scroll_event list \<Rightarrow> py_error + scroll_event option" where
  "project_state_source_event rp fi source_refs b es =
     (case source_refs of PList refs \<Rightarrow> first_resolved (resolve_reference rp fi b es) refs | _ \<Rightarrow> Inr None)"

section \<open>The canonical reference\<close>

definition reference_matches ::
  "(pyval \<Rightarrow> pystr) \<Rightarrow> pyval \<Rightarrow> int option \<Rightarrow> scroll_event \<Rightarrow> bool" where
  "reference_matches rp r seq e =
     (let i = str_or_empty rp r ''event_id''; session = str_or_empty rp r ''session_id'' in
      (i = ev_id e \<and> (session = [] \<or> session = ev_session e) \<and> (seq = None \<or> seq = Some (ev_seq e)))
      \<or> (i = [] \<and> session = ev_session e \<and> seq = Some (ev_seq e)))"

definition canonical_reference :: "scroll_event \<Rightarrow> pyval" where
  "canonical_reference e = mkdict [(''event_id'', PStr (ev_id e)), (''session_id'', PStr (ev_session e)),
     (''seq'', PInt (ev_seq e))]"

text \<open>A reference with whether it matched.\<close>

definition restore_reference ::
  "(pyval \<Rightarrow> pystr) \<Rightarrow> (pyfloat \<Rightarrow> int) \<Rightarrow> scroll_event \<Rightarrow> pyval \<Rightarrow> py_error + bool \<times> pyval" where
  "restore_reference rp fi e r =
     (if \<not> is_dict r then Inr (False, r)
      else bindE (reference_seq fi (dget r ''seq'')) (\<lambda>seq.
        Inr (if reference_matches rp r seq e then (True, canonical_reference e) else (False, r))))"

definition canonical_source_refs ::
  "(pyval \<Rightarrow> pystr) \<Rightarrow> (pyfloat \<Rightarrow> int) \<Rightarrow> pyval \<Rightarrow> scroll_event \<Rightarrow> py_error + pyval list option" where
  "canonical_source_refs rp fi source_refs e =
     (case source_refs of
        PList refs \<Rightarrow> bindE (mapE (restore_reference rp fi e) refs) (\<lambda>rs.
          Inr (if list_ex fst rs then Some (map snd rs) else None))
      | _ \<Rightarrow> Inr None)"

section \<open>The integrity of a checkpoint\<close>

definition card_identity :: "state_card \<Rightarrow> pystr \<Rightarrow> pystr \<Rightarrow> pystr" where
  "card_identity c scope refs_text =
     stable_id (lit ''card'') [scope, or_empty (sc_session c), or_empty (sc_project c), sc_type c, sc_title c,
       content_hash (sc_summary c), refs_text]"

definition card_boundary :: "state_card \<Rightarrow> pystr \<Rightarrow> boundary" where
  "card_boundary c scope =
     \<lparr>bd_session = or_empty (sc_session c), bd_project = or_empty (sc_project c), bd_scope = scope,
      bd_cap_session = (if scope = lit ''session'' \<and> or_empty (sc_session c) \<noteq> [] then sc_session c else None),
      bd_cap_project = (if scope = lit ''project'' \<and> or_empty (sc_project c) \<noteq> [] then sc_project c else None),
      bd_max_bytes = Some 49152, bd_private = True\<rparr>"

definition source_metadata :: "scroll_event \<Rightarrow> scroll_event list \<Rightarrow> pyval" where
  "source_metadata e es =
     (case find (\<lambda>x. ev_id x = ev_id e \<and> (case dumps store_json (ev_metadata x) of Inr t \<Rightarrow> length t \<le> 49152 | Inl _ \<Rightarrow> False)) es of
        Some x \<Rightarrow> ev_metadata x | None \<Rightarrow> PNone)"

definition agent_bound :: "pyval \<Rightarrow> pystr \<Rightarrow> pystr \<Rightarrow> bool" where
  "agent_bound source_meta agent content \<longleftrightarrow>
     is_dict source_meta \<and> dget source_meta ''agent_id'' = Some (PStr agent)
     \<and> (case splitlines content of _ # l # _ \<Rightarrow> l = lit ''Agent: '' @ agent | _ \<Rightarrow> False)"

text \<open>The digest on the last line, in the Card and in the event's metadata must all be the digest of the
  arrays; without a digest on the last line neither may have one.\<close>

definition payload_bound :: "pystr option \<Rightarrow> pystr option \<Rightarrow> pystr \<Rightarrow> pystr \<Rightarrow> bool" where
  "payload_bound expected marker card_hash source_hash \<longleftrightarrow>
     (case marker of
        Some h \<Rightarrow> expected = Some h \<and> Some card_hash = expected \<and> Some source_hash = expected
      | None \<Rightarrow> card_hash = [] \<and> source_hash = [])"

definition bound_to_source ::
  "(pyval \<Rightarrow> pystr) \<Rightarrow> (pyfloat \<Rightarrow> int) \<Rightarrow> state_card \<Rightarrow> pystr \<Rightarrow> pystr \<Rightarrow> scroll_event \<Rightarrow> scroll_event list
     \<Rightarrow> py_error + string option" where
  "bound_to_source rp fi c agent scope e es =
     (let source_refs = json_loads (Some (sc_source_refs c)) (PList []);
          decisions = json_loads (Some (sc_decisions c)) (PList []);
          open_tasks = json_loads (Some (sc_open_tasks c)) (PList []);
          card_meta = json_loads (Some (sc_metadata c)) PNone;
          source_meta = source_metadata e es in
      if \<not> agent_bound source_meta agent (ev_content e) then Inr (Some ''project-state Card agent binding is invalid'')
      else
        bindE (canonical_source_refs rp fi source_refs e) (\<lambda>refs.
        case refs of None \<Rightarrow> Inr (Some ''project-state Card source reference is invalid'')
        | Some rs \<Rightarrow>
            bindE (dumps store_json (PList rs)) (\<lambda>refs_text.
            bindE (project_state_payload_hash decisions open_tasks) (\<lambda>expected.
            bindE (event_binds_payload (ev_content e) decisions open_tasks) (\<lambda>binds.
              Inr (if sc_summary c \<noteq> summarize_text (ev_content e) 900 \<or> card_identity c scope refs_text \<noteq> sc_id c \<or> \<not> binds
                      \<or> \<not> payload_bound expected (marker_hash (ev_content e)) (str_or_empty rp card_meta ''state_payload_hash'')
                            (str_or_empty rp source_meta ''state_payload_hash'')
                   then Some ''project-state Card payload integrity is invalid'' else None))))))"

definition project_state_card_integrity_error ::
  "(pyval \<Rightarrow> pystr) \<Rightarrow> (pyfloat \<Rightarrow> int) \<Rightarrow> state_card list \<Rightarrow> scroll_event list \<Rightarrow> pystr \<Rightarrow> card_sizes option
     \<Rightarrow> py_error + string option" where
  "project_state_card_integrity_error rp fi cards es i size_row =
     (case project_state_card_limit_error cards es i size_row of Some err \<Rightarrow> Inr (Some err) | None \<Rightarrow>
     (case state_row i cards of None \<Rightarrow> Inr (Some ''project-state Card is missing'') | Some c \<Rightarrow>
     (case dget (json_loads (Some (sc_metadata c)) PNone) ''agent_id'' of
        Some (PStr agent) \<Rightarrow>
          if agent = [] then Inr (Some ''project-state Card agent metadata is invalid'')
          else
          (case normalize_visibility_scope (sc_scope c) (lit ''global'') ''project-state Card visibility_scope'' of
             Inl _ \<Rightarrow> Inr (Some ''project-state Card has invalid visibility_scope'')
           | Inr scope \<Rightarrow>
               bindE (project_state_source_event rp fi (json_loads (Some (sc_source_refs c)) (PList [])) (card_boundary c scope) es)
                 (\<lambda>found. case found of None \<Rightarrow> Inr (Some ''project-state Card source event binding is invalid'')
                    | Some e \<Rightarrow> bound_to_source rp fi c agent scope e es))
      | _ \<Rightarrow> Inr (Some ''project-state Card agent metadata is invalid''))))"

section \<open>The commitment holds\<close>

lemma lines_no_break:
  "list_all (\<lambda>c. \<not> line_break c) s \<Longrightarrow> lines_from acc False s = (if rev acc @ s = [] then [] else [rev acc @ s])"
  by (induction s arbitrary: acc) auto

lemma lines_last:
  assumes "list_all (\<lambda>c. \<not> line_break c) s" "s \<noteq> []" "cr \<longrightarrow> acc = []"
  shows "lines_from acc cr (t @ 10 # s) \<noteq> [] \<and> last (lines_from acc cr (t @ 10 # s)) = s"
  using assms
proof (induction t arbitrary: acc cr)
  case Nil
  then show ?case by (cases cr) (auto simp: line_break_def lines_no_break)
next
  case (Cons c t)
  then show ?case by (auto simp: line_break_def)
qed

lemma hex_no_break: "list_all is_hex_char s \<Longrightarrow> list_all (\<lambda>c. \<not> line_break c) s"
  by (auto simp: list_all_iff is_hex_char_def line_break_def)

lemma marker_no_break: "list_all (\<lambda>c. \<not> line_break c) payload_marker"
  by (simp add: payload_marker_def lit_def line_break_def)

lemma marker_of_bound: "is_hex 64 h \<Longrightarrow> marker_hash (bind_content s h) = Some h"
proof -
  assume h: "is_hex 64 h"
  then have "list_all (\<lambda>c. \<not> line_break c) (payload_marker @ h)"
    using hex_no_break marker_no_break by (simp add: is_hex_def)
  moreover have "payload_marker @ h \<noteq> []" by (simp add: payload_marker_def)
  ultimately have "splitlines (bind_content s h) \<noteq> []" "last (splitlines (bind_content s h)) = payload_marker @ h"
    using lines_last [of "payload_marker @ h" False "[]" "py_rstrip s"] by (simp_all add: splitlines_def bind_content_def)
  with h show ?thesis by (simp add: marker_hash_def Let_def starts_with_def)
qed

lemma content_hash_hex: "is_hex 64 (content_hash s)"
  by (simp add: content_hash_def sha256_bytes_hex)

lemma payload_hash_hex: "project_state_payload_hash ds ts = Inr (Some h) \<Longrightarrow> is_hex 64 h"
  by (cases ds; cases ts) (auto simp: project_state_payload_hash_def content_hash_hex)

text \<open>C31 The last line of a new checkpoint event commits to the decisions and open tasks it was written with: the
  digest is read back as it was written, whatever the content before it, the event binds the very arrays, and it binds
  other arrays exactly when their digest is the same.\<close>

theorem content_commits:
  assumes "project_state_payload_hash decisions open_tasks = Inr (Some h)"
  shows "marker_hash (bind_content content h) = Some h
     \<and> event_binds_payload (bind_content content h) decisions open_tasks = Inr True
     \<and> (\<forall>decisions' open_tasks' h'. project_state_payload_hash decisions' open_tasks' = Inr (Some h') \<longrightarrow>
          event_binds_payload (bind_content content h) decisions' open_tasks' = Inr (h = h'))"
proof -
  have marker: "marker_hash (bind_content content h) = Some h"
    by (rule marker_of_bound) (rule payload_hash_hex [OF assms])
  then have "splitlines (bind_content content h) \<noteq> []" "starts_with payload_marker (last (splitlines (bind_content content h)))"
    by (auto simp: marker_hash_def Let_def split: if_splits)
  with assms marker show ?thesis by (simp add: event_binds_payload_def)
qed

theorem content_commits_witness:
  "marker_hash (bind_content (lit ''state'') (content_hash (lit ''{\"decisions\":[],\"open_tasks\":[],\"schema\":\"continuum.project_state_payload.v1\"}''))) \<noteq> None"
proof -
  have "sort_items [(PStr (lit ''schema''), x), (PStr (lit ''decisions''), y), (PStr (lit ''open_tasks''), z)]
      = [(PStr (lit ''decisions''), y), (PStr (lit ''open_tasks''), z), (PStr (lit ''schema''), x)]" for x y z :: pystr
    by (simp add: sort_items_def lit_def)
  then have "dumps store_json (state_payload [] []) =
      Inr (lit ''{\"decisions\":[],\"open_tasks\":[],\"schema\":\"continuum.project_state_payload.v1\"}'')"
    by (simp add: state_payload_def mkdict_def store_json_def join_def quote_def) (simp add: lit_def escape_char_def)
  then show ?thesis
    using content_commits [of "PList []" "PList []" _ "lit ''state''"] by (simp add: project_state_payload_hash_def)
qed

section \<open>What an intact checkpoint is bound to\<close>

lemma limits_met:
  assumes "project_state_card_limit_error cards es i z = None"
  obtains c r decisions open_tasks metadata source where "state_row i cards = Some c"
    "json_loads (Some (sc_source_refs c)) (PList []) = PList [r]" "is_dict r" "reference_fields r" "reference_values r"
    "json_loads (Some (sc_decisions c)) (PList []) = decisions" "json_loads (Some (sc_open_tasks c)) (PList []) = open_tasks"
    "json_loads (Some (sc_metadata c)) PNone = metadata \<or> sc_metadata c = []"
    "stored_project_state_limit_error (PStr (sc_summary c)) decisions open_tasks metadata source = None"
proof -
  have empty: "loads (lit ''[]'') = Some (PList [])"
    by (simp add: loads_def lit_def json_ws_def numeral_eq_Suc)
  from assms obtain c decisions open_tasks metadata source_refs where c: "state_row i cards = Some c"
    and texts: "loads (or_text (sc_decisions c) ''[]'') = Some decisions" "loads (or_text (sc_open_tasks c) ''[]'') = Some open_tasks"
      "loads (or_text (sc_metadata c) ''{}'') = Some metadata" "loads (or_text (sc_source_refs c) ''[]'') = Some source_refs"
    by (simp add: project_state_card_limit_error_def split: option.splits if_split_asm)
  have "\<exists>r. source_refs = PList [r] \<and> reference_error r = None \<and> source_error c decisions open_tasks metadata r es = None"
    using assms unfolding project_state_card_limit_error_def c texts
    by (simp split: option.splits pyval.splits list.splits) (use texts in auto)
  then obtain r source where r: "source_refs = PList [r]" "is_dict r" "reference_fields r" "reference_values r"
    "stored_project_state_limit_error (PStr (sc_summary c)) decisions open_tasks metadata source = None"
    by (auto simp: reference_error_def source_error_def Let_def split: option.splits if_split_asm)
  have "json_loads (Some (sc_source_refs c)) (PList []) = source_refs" "json_loads (Some (sc_decisions c)) (PList []) = decisions"
    "json_loads (Some (sc_open_tasks c)) (PList []) = open_tasks" "json_loads (Some (sc_metadata c)) PNone = metadata \<or> sc_metadata c = []"
    using texts empty by (auto simp: json_loads_def split: if_splits)
  with c r show ?thesis by (intro that [of c r]) auto
qed

lemma source_row_found:
  "source_row b i session seq es = Inr (Some e) \<Longrightarrow> e \<in> set es"
  by (auto simp: source_row_def Let_def split: if_splits option.splits dest: find_SomeD)

lemma resolved_source:
  assumes "project_state_source_event rp fi (PList [r]) b es = Inr (Some e)"
  obtains seq where "e \<in> set es" "source_admitted rp b (str_or_empty rp r ''session_id'') seq e"
  using assms source_row_found
  by (auto simp: project_state_source_event_def resolve_reference_def Let_def split: option.splits if_splits)

lemma restored_single: "canonical_source_refs rp fi (PList [r]) e = Inr (Some rs) \<Longrightarrow> rs = [canonical_reference e]"
  by (auto simp: canonical_source_refs_def restore_reference_def split: if_splits)

text \<open>C19 What a checkpoint that passes the integrity check is bound to: an event of the Scroll whose digest and identifier
  still hold, of the Card's session, project and visibility; its summary is the summary of that event, its
  identifier is the digest of what the Card shows and of the reference to the event, the agent it names is the one the
  event names, and if the event carries a digest of decisions and open tasks, it is the digest of the Card's.\<close>

theorem intact_checkpoint:
  assumes "project_state_card_integrity_error rp fi cards es i z = Inr None"
  shows "\<exists>c e agent refs scope. state_row i cards = Some c \<and> e \<in> set es \<and> unaltered e
     \<and> normalize_visibility_scope (sc_scope c) (lit ''global'') ''project-state Card visibility_scope'' = Inr scope
     \<and> ev_type e = lit ''project_state'' \<and> ev_session e = or_empty (sc_session c) \<and> ev_scope e = scope
     \<and> or_empty (ev_project e) = (if scope = lit ''project'' then or_empty (sc_project c) else [])
     \<and> sc_summary c = summarize_text (ev_content e) 900
     \<and> dumps store_json (PList [canonical_reference e]) = Inr refs \<and> i = card_identity c scope refs
     \<and> dget (json_loads (Some (sc_metadata c)) PNone) ''agent_id'' = Some (PStr agent)
     \<and> agent_bound (source_metadata e es) agent (ev_content e)
     \<and> (\<forall>h. marker_hash (ev_content e) = Some h \<longrightarrow> project_state_payload_hash (json_loads (Some (sc_decisions c)) (PList []))
            (json_loads (Some (sc_open_tasks c)) (PList [])) = Inr (Some h))"
proof -
  have limits: "project_state_card_limit_error cards es i z = None"
    using assms by (simp add: project_state_card_integrity_error_def split: option.splits)
  then obtain c r where c: "state_row i cards = Some c" and r: "json_loads (Some (sc_source_refs c)) (PList []) = PList [r]"
    by (rule limits_met)
  from assms limits c obtain agent where agent: "dget (json_loads (Some (sc_metadata c)) PNone) ''agent_id'' = Some (PStr agent)"
    "agent \<noteq> []"
    by (auto simp: project_state_card_integrity_error_def split: option.splits pyval.splits if_splits)
  from assms limits c agent obtain scope where
    scope: "normalize_visibility_scope (sc_scope c) (lit ''global'') ''project-state Card visibility_scope'' = Inr scope"
    by (auto simp: project_state_card_integrity_error_def split: sum.splits)
  from assms limits c r agent scope obtain e where
    found: "project_state_source_event rp fi (PList [r]) (card_boundary c scope) es = Inr (Some e)"
    and bound: "bound_to_source rp fi c agent scope e es = Inr None"
    by (auto simp: project_state_card_integrity_error_def split: option.splits)
  from found obtain seq where e: "e \<in> set es"
    and adm: "source_admitted rp (card_boundary c scope) (str_or_empty rp r ''session_id'') seq e"
    by (rule resolved_source)
  from bound r obtain rs refs expected where agents: "agent_bound (source_metadata e es) agent (ev_content e)"
    and rs: "canonical_source_refs rp fi (PList [r]) e = Inr (Some rs)" "dumps store_json (PList rs) = Inr refs"
    and hash: "project_state_payload_hash (json_loads (Some (sc_decisions c)) (PList []))
            (json_loads (Some (sc_open_tasks c)) (PList [])) = Inr expected"
    and same: "sc_summary c = summarize_text (ev_content e) 900" "card_identity c scope refs = sc_id c"
    and marker: "\<forall>h. marker_hash (ev_content e) = Some h \<longrightarrow> expected = Some h"
    by (auto simp: bound_to_source_def Let_def payload_bound_def split: if_splits option.splits)
  have "sc_id c = i" using c by (auto simp: state_row_def dest: find_SomeD)
  with same have "i = card_identity c scope refs" by simp
  moreover have "dumps store_json (PList [canonical_reference e]) = Inr refs"
    using rs restored_single by blast
  moreover have "unaltered e" "ev_type e = lit ''project_state''" "ev_session e = or_empty (sc_session c)" "ev_scope e = scope"
    "or_empty (ev_project e) = (if scope = lit ''project'' then or_empty (sc_project c) else [])"
    using adm by (simp_all add: source_admitted_def card_boundary_def expected_project_def)
  moreover have "\<forall>h. marker_hash (ev_content e) = Some h \<longrightarrow> project_state_payload_hash
      (json_loads (Some (sc_decisions c)) (PList [])) (json_loads (Some (sc_open_tasks c)) (PList [])) = Inr (Some h)"
    using hash marker by simp
  ultimately show ?thesis using c e scope agent(1) agents same(1) by blast
qed

section \<open>The check never raises\<close>

lemma stored_lists:
  assumes "stored_project_state_limit_error summary decisions open_tasks metadata source = None"
  shows "(decisions = PNone \<or> (\<exists>ds. decisions = PList (map PStr ds))) \<and> (open_tasks = PNone \<or> (\<exists>ts. open_tasks = PList (map PStr ts)))"
proof -
  from assms obtain ds ts where "validate_string_list decisions ''decisions'' 64 2048 = Inr ds"
    "validate_string_list open_tasks ''open_tasks'' 64 2048 = Inr ts"
    by (auto simp: stored_project_state_limit_error_def stored_limits_def split: sum.splits)
  then show ?thesis using string_list_same string_list_type by metis
qed

lemma string_lists_hash:
  assumes "(decisions = PNone \<or> (\<exists>ds. decisions = PList (map PStr ds))) \<and> (open_tasks = PNone \<or> (\<exists>ts. open_tasks = PList (map PStr ts)))"
  shows "\<exists>h. project_state_payload_hash decisions open_tasks = Inr h"
proof -
  have "isOk (mapE (dumps store_json) (map PStr us))" for us by (simp add: mapE_isOk)
  then have "\<exists>t. mapE (dumps store_json) (map PStr us) = Inr t" for us by (simp add: isOk_iff)
  with assms show ?thesis
    by (auto simp: project_state_payload_hash_def state_payload_def mkdict_def) metis
qed

lemma reference_texts:
  assumes "reference_values r"
  obtains session n where "dget r ''session_id'' = Some (PStr session)" "session \<noteq> []" "utf8_ok session"
    "dget r ''seq'' = Some (PInt n)" "1 \<le> n" "n \<le> 2 ^ 63 - 1"
    "dget r ''event_id'' = None \<or> (\<exists>i. dget r ''event_id'' = Some (PStr i) \<and> utf8_ok i)"
  using assms
  by (auto simp: reference_values_def bounded_text_def split: option.splits pyval.splits)

lemma resolve_total:
  assumes "reference_values r"
  shows "\<exists>found. project_state_source_event rp fi (PList [r]) b es = Inr found"
proof -
  obtain session n where r: "dget r ''session_id'' = Some (PStr session)" "session \<noteq> []" "utf8_ok session"
    "dget r ''seq'' = Some (PInt n)" "1 \<le> n" "n \<le> 2 ^ 63 - 1"
    "dget r ''event_id'' = None \<or> (\<exists>i. dget r ''event_id'' = Some (PStr i) \<and> utf8_ok i)"
    using assms by (rule reference_texts)
  then have "utf8_ok (str_or_empty rp r ''event_id'')" "str_or_empty rp r ''session_id'' = session"
    by (auto simp: str_or_empty_def get_truthy_def utf8_ok_def)
  then have "\<exists>row. source_row b (str_or_empty rp r ''event_id'') (str_or_empty rp r ''session_id'') (Some n) es = Inr row"
    using r by (auto simp: source_row_def bind_text_def bind_integer_def)
  then show ?thesis
    using r by (auto simp: project_state_source_event_def resolve_reference_def reference_seq_def Let_def bindE_def split: option.splits)
qed

lemma restore_total:
  assumes "reference_values r"
  shows "\<exists>rs. canonical_source_refs rp fi (PList [r]) e = Inr rs"
  by (rule reference_texts [OF assms]) (auto simp: canonical_source_refs_def restore_reference_def reference_seq_def)


section \<open>A checkpoint of the first format\<close>

definition demo_content :: pystr where
  "demo_content = lit ''State'' @ [10] @ lit ''Agent: a''"

definition demo_source :: scroll_event where
  "demo_source = \<lparr>ev_id = stable_id (lit ''evt'') [lit ''s'', dec_int 1, content_hash demo_content], ev_session = lit ''s'',
     ev_seq = 1, ev_type = lit ''project_state'', ev_role = lit ''agent'', ev_content = demo_content, ev_tokens = 3,
     ev_hash = content_hash demo_content, ev_scope = lit ''session'', ev_project = None,
     ev_metadata = PDict [(PStr (lit ''agent_id''), PStr (lit ''a''))], ev_created = []\<rparr>"

definition demo_refs :: pystr where
  "demo_refs = (case dumps store_json (PList [canonical_reference demo_source]) of Inr t \<Rightarrow> t | Inl _ \<Rightarrow> [])"

definition demo_checkpoint :: state_card where
  "demo_checkpoint = (let c = \<lparr>sc_id = [], sc_type = lit ''project_state'', sc_title = lit ''t'', sc_summary = lit ''State Agent: a'',
     sc_decisions = lit ''[]'', sc_open_tasks = lit ''[]'', sc_metadata = lit ''{\"agent_id\":\"a\"}'',
     sc_source_refs = lit ''[{\"session_id\":\"s\",\"seq\":1}]'', sc_scope = lit ''session'', sc_session = Some (lit ''s''),
     sc_project = None\<rparr> in c\<lparr>sc_id := card_identity c (lit ''session'') demo_refs\<rparr>)"

lemma loads_dumped:
  assumes "dumps \<lparr>jo_ascii = False, jo_sort = False, jo_nan = False\<rparr> v = Inr t" "good_json v"
    "written \<lparr>jo_ascii = False, jo_sort = False, jo_nan = False\<rparr> v = v"
  shows "loads t = Some v"
  using loads_dumps [OF assms(2) _ assms(1)] assms(3) by simp

lemma demo_texts:
  "loads (lit ''[]'') = Some (PList [])"
  "loads (lit ''{\"agent_id\":\"a\"}'') = Some (PDict [(PStr (lit ''agent_id''), PStr (lit ''a''))])"
  "loads (lit ''[{\"session_id\":\"s\",\"seq\":1}]'') = Some (PList [PDict [(PStr (lit ''session_id''), PStr (lit ''s'')), (PStr (lit ''seq''), PInt 1)]])"
  by (rule loads_dumped; simp add: join_def quote_def lit_def escape_char_def dec_int_def dec_nat.simps)+

abbreviation demo_reference :: pyval where
  "demo_reference \<equiv> PDict [(PStr (lit ''session_id''), PStr (lit ''s'')), (PStr (lit ''seq''), PInt 1)]"

lemma demo_stored:
  "stored_project_state_limit_error (PStr (lit ''State Agent: a'')) (PList []) (PList [])
     (PDict [(PStr (lit ''agent_id''), PStr (lit ''a''))]) (PStr demo_content) = None"
proof -
  let ?d = "[(''decisions'', PList []), (''metadata'', PDict [(PStr (lit ''agent_id''), PStr (lit ''a''))]),
    (''open_tasks'', PList []), (''source_content'', PStr demo_content), (''summary'', PStr (lit ''State Agent: a''))]"
  have "isOk (dumps plain_json (mkdict ?d))" by (rule mkdict_ok) simp
  then obtain t where t: "dumps plain_json (mkdict ?d) = Inr t" by (auto simp: isOk_iff)
  have "length t \<le> 49152"
    using mkdict_length(2) [OF t]
    by (simp add: entry_len_def text_len_def quote_def lit_def escape_char_def join_def sort_items_def demo_content_def)
  with t show ?thesis
    by (simp add: stored_project_state_limit_error_def stored_limits_def validate_optional_text_def validate_string_list_def
        validate_metadata_def limits_of_def is_container_def metadata_key_def metadata_leaf_def meta_loop.simps Let_def
        utf8_len_def utf8_size_def utf8_ok_def surrogate_def utf8_char_def lit_def demo_content_def quote_def escape_char_def
        join_def sort_items_def del: dumps.simps(7)) (simp add: quote_def escape_char_def join_def sort_items_def)
qed

lemma demo_reference_fits: "reference_error demo_reference = None"
  by (simp add: reference_error_def reference_fields_def reference_values_def has_keys_def bounded_text_def dget_def
      utf8_ok_def surrogate_def utf8_size_def utf8_char_def) (simp add: lit_def surrogate_def utf8_char_def)

lemma demo_named: "named_event demo_reference [demo_source] = Some demo_source"
  by (simp add: named_event_def dget_def demo_source_def)

lemma demo_limits: "project_state_card_limit_error [demo_checkpoint] [demo_source] (sc_id demo_checkpoint) None = None"
proof -
  have row: "state_row (sc_id demo_checkpoint) [demo_checkpoint] = Some demo_checkpoint"
    by (simp add: state_row_def demo_checkpoint_def Let_def)
  have "over_limit (sizes_of demo_checkpoint) = None"
    by (simp add: over_limit_def sizes_of_def demo_checkpoint_def Let_def lit_def utf8_size_def utf8_char_def)
  moreover have "utf8_size (ev_content demo_source) \<le> 49152"
    by (simp add: demo_source_def demo_content_def lit_def utf8_size_def utf8_char_def)
  ultimately show ?thesis
    using row demo_reference_fits demo_named demo_stored
    by (simp add: project_state_card_limit_error_def source_error_def demo_checkpoint_def Let_def demo_texts)
      (simp add: demo_source_def)
qed

lemma demo_ref_fields:
  "str_or_empty rp demo_reference ''event_id'' = []" "str_or_empty rp demo_reference ''session_id'' = lit ''s''"
  "reference_seq fi (dget demo_reference ''seq'') = Inr (Some 1)"
  by (simp_all add: str_or_empty_def get_truthy_def dget_def reference_seq_def)

lemma demo_admitted:
  "source_admitted rp (card_boundary demo_checkpoint (lit ''session'')) (lit ''s'') (Some 1) demo_source"
  by (simp add: source_admitted_def unaltered_def card_boundary_def demo_checkpoint_def demo_source_def expected_project_def
      metadata_scope_visible_def security_context_def normalize_visibility_scope_def valid_scopes_def get_truthy_def
      nonempty_def Let_def)

lemma demo_resolved:
  "project_state_source_event rp fi (PList [demo_reference]) (card_boundary demo_checkpoint (lit ''session'')) [demo_source]
     = Inr (Some demo_source)"
proof -
  have "source_row (card_boundary demo_checkpoint (lit ''session'')) [] (lit ''s'') (Some 1) [demo_source] = Inr (Some demo_source)"
    by (simp add: source_row_def card_boundary_def bind_text_def bind_integer_def demo_source_def demo_content_def
        utf8_ok_def surrogate_def utf8_size_def) (simp add: lit_def surrogate_def utf8_char_def)
  then show ?thesis
    using demo_admitted [of rp]
    by (simp add: project_state_source_event_def resolve_reference_def demo_ref_fields)
qed

lemma demo_lines: "splitlines demo_content = [lit ''State'', lit ''Agent: a'']"
  by (simp add: splitlines_def demo_content_def lit_def line_break_def)

lemma demo_bound: "bound_to_source rp fi demo_checkpoint (lit ''a'') (lit ''session'') demo_source [demo_source] = Inr None"
proof -
  have "isOk (dumps store_json (PList [canonical_reference demo_source]))"
    by (simp add: canonical_reference_def mkdict_def)
  then have refs: "dumps store_json (PList [canonical_reference demo_source]) = Inr demo_refs"
    by (auto simp: demo_refs_def isOk_iff)
  have "reference_matches rp demo_reference (Some 1) demo_source"
    by (simp add: reference_matches_def demo_ref_fields) (simp add: demo_source_def)
  then have canonical: "canonical_source_refs rp fi (PList [demo_reference]) demo_source = Inr (Some [canonical_reference demo_source])"
    by (simp add: canonical_source_refs_def restore_reference_def demo_ref_fields)
  have meta: "source_metadata demo_source [demo_source] = PDict [(PStr (lit ''agent_id''), PStr (lit ''a''))]"
    by (simp add: source_metadata_def demo_source_def join_def sort_items_def quote_def lit_def escape_char_def)
  have marker: "marker_hash demo_content = None" "\<not> starts_with payload_marker (lit ''Agent: a'')"
    by (simp_all add: marker_hash_def demo_lines starts_with_def payload_marker_def lit_def)
  have summary: "summarize_text demo_content 900 = lit ''State Agent: a''"
    by (simp add: summarize_text_def demo_lines py_strip_def) (simp add: lit_def py_space_def)
  obtain h where hash: "project_state_payload_hash (PList []) (PList []) = Inr (Some h)"
    by (auto simp: project_state_payload_hash_def state_payload_def mkdict_def)
  have binds: "event_binds_payload demo_content (PList []) (PList []) = Inr True"
    using marker by (simp add: event_binds_payload_def hash demo_lines)
  have fields: "ev_content demo_source = demo_content" "sc_summary demo_checkpoint = lit ''State Agent: a''"
    "sc_id demo_checkpoint = card_identity demo_checkpoint (lit ''session'') demo_refs"
    by (simp_all add: demo_source_def demo_checkpoint_def card_identity_def Let_def)
  have columns: "json_loads (Some (sc_decisions demo_checkpoint)) (PList []) = PList []"
    "json_loads (Some (sc_open_tasks demo_checkpoint)) (PList []) = PList []"
    "json_loads (Some (sc_source_refs demo_checkpoint)) (PList []) = PList [demo_reference]"
    "json_loads (Some (sc_metadata demo_checkpoint)) PNone = PDict [(PStr (lit ''agent_id''), PStr (lit ''a''))]"
    by (simp_all add: json_loads_def demo_checkpoint_def Let_def demo_texts)
  have "str_or_empty rp (PDict [(PStr (lit ''agent_id''), PStr (lit ''a''))]) ''state_payload_hash'' = []"
    by (simp add: str_or_empty_def get_truthy_def dget_def)
  moreover have "agent_bound (PDict [(PStr (lit ''agent_id''), PStr (lit ''a''))]) (lit ''a'') demo_content"
    by (simp add: agent_bound_def demo_lines dget_def) (simp add: lit_def)
  ultimately show ?thesis
    unfolding bound_to_source_def Let_def fields columns meta canonical hash binds marker(1) summary
    by (simp add: refs payload_bound_def fields summary hash binds marker(1) canonical del: dumps.simps)
qed

text \<open>The hypothesis of \<open>intact_checkpoint\<close> holds of this checkpoint.\<close>

theorem intact_checkpoint_witness:
  "\<exists>c\<in>{demo_checkpoint}. project_state_card_integrity_error (\<lambda>_. []) (\<lambda>_. 0) [c] [demo_source] (sc_id c) None = Inr None
     \<and> unaltered demo_source \<and> sc_summary c = summarize_text demo_content 900"
proof -
  have row: "state_row (sc_id demo_checkpoint) [demo_checkpoint] = Some demo_checkpoint"
    by (simp add: state_row_def demo_checkpoint_def Let_def)
  have columns: "json_loads (Some (sc_source_refs demo_checkpoint)) (PList []) = PList [demo_reference]"
    "dget (json_loads (Some (sc_metadata demo_checkpoint)) PNone) ''agent_id'' = Some (PStr (lit ''a''))"
    "normalize_visibility_scope (sc_scope demo_checkpoint) (lit ''global'') f = Inr (lit ''session'')" for f
    by (simp_all add: json_loads_def demo_checkpoint_def Let_def demo_texts dget_def normalize_visibility_scope_def valid_scopes_def)
  have ok: "project_state_card_integrity_error (\<lambda>_. []) (\<lambda>_. 0) [demo_checkpoint] [demo_source] (sc_id demo_checkpoint) None = Inr None"
    using demo_limits row columns demo_resolved demo_bound by (simp add: project_state_card_integrity_error_def)
  from intact_checkpoint [OF ok] row show ?thesis
    using ok by (auto simp: demo_source_def)
qed

end
