(* ===== verification/Authority_Graph.thy ===== *)
theory Authority_Graph
  imports Cycle_Components Checkpoint_Integrity
begin

text \<open>
  The supersession graph of the Cards and the checks workers run on it (\<open>core/workers.py\<close>): the
  topological check every conflict resolution makes before and after its writes, the reachability
  test, and which Cards are current.  A Card names its predecessor and its successor in two columns; an edge
  leads from the predecessor to the successor.
\<close>

section \<open>Cards\<close>

record card = state_card +
  cd_rowid :: int
  cd_status :: pystr
  cd_group :: "pystr option"
  cd_supersedes :: "pystr option"
  cd_superseded_by :: "pystr option"
  cd_created :: pystr
  cd_updated :: pystr

definition predecessor :: "card \<Rightarrow> pystr" where
  "predecessor c = py_strip (or_empty (cd_supersedes c))"

definition successor :: "card \<Rightarrow> pystr" where
  "successor c = py_strip (or_empty (cd_superseded_by c))"

definition conflict_group :: "card \<Rightarrow> pystr" where
  "conflict_group c = py_strip (or_empty (cd_group c))"

definition casefold :: "pystr \<Rightarrow> pystr" where
  "casefold s = concat (map fold_char s)"

definition non_current_statuses :: "pystr list" where
  "non_current_statuses = map lit [''archived'', ''summary_only'', ''historical'', ''superseded'', ''pruned'']"

definition find_card :: "pystr \<Rightarrow> card list \<Rightarrow> card option" where
  "find_card i cards = find (\<lambda>c. sc_id c = i) cards"

text \<open>The current Cards: of a current status, without a successor and nobody's predecessor.\<close>

definition is_current :: "card list \<Rightarrow> card \<Rightarrow> bool" where
  "is_current cards c \<longleftrightarrow> casefold (cd_status c) \<notin> set non_current_statuses \<and> successor c = []
     \<and> \<not> list_ex (\<lambda>d. predecessor d \<noteq> [] \<and> or_empty (cd_supersedes d) = sc_id c) cards"

definition current_ids :: "card list \<Rightarrow> pystr list" where
  "current_ids cards = map sc_id (filter (is_current cards) (sort_key cd_rowid cards))"

section \<open>The graph\<close>

definition add_edge :: "'a \<Rightarrow> 'a \<Rightarrow> 'a graph \<Rightarrow> 'a graph" where
  "add_edge a b g = oset a (List.insert b (targets g a)) g"

definition no_edges :: "card list \<Rightarrow> pystr graph" where
  "no_edges cards = map (\<lambda>c. (sc_id c, [])) cards"

definition missing_card :: py_error where
  "missing_card = ValueError ''supersession graph references missing card''"

definition link_card :: "pystr set \<Rightarrow> pystr graph \<Rightarrow> card \<Rightarrow> py_error + pystr graph" where
  "link_card ids g c =
     bindE (if successor c = [] then Inr g
            else if successor c \<in> ids then Inr (add_edge (sc_id c) (successor c) g) else Inl missing_card) (\<lambda>g1.
     if predecessor c = [] then Inr g1
     else if predecessor c \<in> ids then Inr (add_edge (predecessor c) (sc_id c) g1) else Inl missing_card)"

definition supersession_graph :: "card list \<Rightarrow> py_error + pystr graph" where
  "supersession_graph cards =
     (let rows = sort_key sc_id cards in foldE (link_card (set (map sc_id rows))) (no_edges rows) rows)"

text \<open>The graph of a selection of Cards leaves out the edges that lead out of it.\<close>

definition link_inside :: "pystr set \<Rightarrow> pystr graph \<Rightarrow> card \<Rightarrow> pystr graph" where
  "link_inside ids g c =
     (let g1 = (if successor c \<in> ids then add_edge (sc_id c) (successor c) g else g)
      in if predecessor c \<in> ids then add_edge (predecessor c) (sc_id c) g1 else g1)"

definition bounded_graph :: "card list \<Rightarrow> pystr graph" where
  "bounded_graph cards = foldl (link_inside (set (map sc_id cards))) (no_edges cards) cards"

section \<open>The topological check\<close>

definition count_incoming :: "'a graph \<Rightarrow> ('a, int) odict" where
  "count_incoming g = fold (\<lambda>t inc. oset t ((case oget inc t of None \<Rightarrow> 0 | Some n \<Rightarrow> n) + 1) inc)
     (concat (map snd g)) (map (\<lambda>(n, _). (n, 0)) g)"

text \<open>One target of the node just popped: its count drops, and at zero it is ready (the end of the Python list
  is the head here).\<close>

definition drop_incoming :: "'a \<Rightarrow> ('a, int) odict \<times> 'a list \<Rightarrow> ('a, int) odict \<times> 'a list" where
  "drop_incoming t s =
     (case s of (inc, ready) \<Rightarrow>
        let n = (case oget inc t of None \<Rightarrow> 0 | Some n \<Rightarrow> n) - 1
        in (oset t n inc, if n = 0 then t # ready else ready))"

definition load :: "('a, int) odict \<Rightarrow> nat" where
  "load inc = (\<Sum>t\<in>dom (oget inc). nat (the (oget inc t)))"

lemma load_oset:
  "load (oset t n inc) + nat (case oget inc t of None \<Rightarrow> 0 | Some m \<Rightarrow> m) = load inc + nat n"
proof -
  have fin: "finite (dom (oget inc) - {t})" by (simp add: finite_dom_map_of)
  have "load (oset t n inc) = nat n + (\<Sum>s\<in>dom (oget inc) - {t}. nat (the (oget inc s)))"
  proof -
    have "dom (oget (oset t n inc)) = insert t (dom (oget inc) - {t})" by (auto simp: dom_def)
    moreover have "(\<Sum>s\<in>dom (oget inc) - {t}. nat (the (oget (oset t n inc) s))) = (\<Sum>s\<in>dom (oget inc) - {t}. nat (the (oget inc s)))"
      by (intro sum.cong) auto
    ultimately show ?thesis using fin by (simp add: load_def sum.insert_remove del: oget_oset) simp
  qed
  moreover have "load inc = nat (case oget inc t of None \<Rightarrow> 0 | Some m \<Rightarrow> m) + (\<Sum>s\<in>dom (oget inc) - {t}. nat (the (oget inc s)))"
  proof (cases "oget inc t")
    case (Some m)
    then show ?thesis using sum.remove [of "dom (oget inc)" t "\<lambda>s. nat (the (oget inc s))"] by (simp add: load_def domI finite_dom_map_of)
  qed (simp add: load_def domIff)
  ultimately show ?thesis by simp
qed

lemma drop_incoming_load:
  "load (fst (fold drop_incoming ts s)) + length (snd (fold drop_incoming ts s)) \<le> load (fst s) + length (snd s)"
proof (induction ts arbitrary: s)
  case (Cons t ts)
  obtain inc ready where s: "s = (inc, ready)" by force
  let ?m = "case oget inc t of None \<Rightarrow> 0 | Some m \<Rightarrow> m"
  have "load (oset t (?m - 1) inc) + length (if ?m - 1 = 0 then t # ready else ready) \<le> load inc + length ready"
    using load_oset [of t "?m - 1" inc] by (auto split: if_splits)
  then have "load (fst (drop_incoming t s)) + length (snd (drop_incoming t s)) \<le> load (fst s) + length (snd s)"
    by (simp add: s drop_incoming_def Let_def)
  with Cons.IH [of "drop_incoming t s"] show ?case by simp
qed simp

function ready_loop :: "('a::linorder) graph \<Rightarrow> ('a, int) odict \<Rightarrow> 'a list \<Rightarrow> nat \<Rightarrow> nat" where
  "ready_loop g inc [] visited = visited"
| "ready_loop g inc (n # ready) visited =
     (let s = fold drop_incoming (sort (remdups (targets g n))) (inc, ready) in ready_loop g (fst s) (snd s) (visited + 1))"
  by pat_completeness auto

termination
proof (relation "measure (\<lambda>(g, inc, ready, visited). load inc + length ready)", goal_cases)
  case (2 g inc n ready visited s)
  then show ?case using drop_incoming_load [of "sort (remdups (targets g n))" "(inc, ready)"] by simp
qed simp

definition ready_nodes :: "('a::linorder, int) odict \<Rightarrow> 'a list" where
  "ready_nodes inc = rev (sort (map fst (filter (\<lambda>(_, n). n = 0) inc)))"

definition topological :: "('a::linorder) graph \<Rightarrow> bool" where
  "topological g = (let inc = count_incoming g in ready_loop g inc (ready_nodes inc) 0 = length g)"

definition cyclic_graph :: py_error where
  "cyclic_graph = ValueError ''supersession graph must be acyclic''"

definition assert_supersession_dag :: "card list \<Rightarrow> py_error + pystr graph" where
  "assert_supersession_dag cards =
     bindE (supersession_graph cards) (\<lambda>g. bindE (ensure (topological g) cyclic_graph) (\<lambda>_. Inr g))"

definition assert_bounded_supersession_dag :: "card list \<Rightarrow> py_error + unit" where
  "assert_bounded_supersession_dag cards = ensure (topological (bounded_graph cards)) cyclic_graph"

section \<open>Reachability\<close>

text \<open>The end of the Python list of pending nodes is the head here.\<close>

function reach_loop :: "'a graph \<Rightarrow> 'a \<Rightarrow> 'a list \<Rightarrow> 'a set \<Rightarrow> bool" where
  "reach_loop g goal [] seen = False"
| "reach_loop g goal (n # pending) seen =
     (if n \<in> seen then reach_loop g goal pending seen
      else n = goal \<or> reach_loop g goal (rev (targets g n) @ pending) (insert n seen))"
  by pat_completeness auto

termination
proof (relation "inv_image (less_than <*lex*> less_than)
    (\<lambda>(g, goal, pending, seen). (card (set pending \<union> graph_nodes g - seen), length pending))", goal_cases)
  case (2 g goal n pending seen)
  have "card (set pending \<union> graph_nodes g - seen) \<le> card (set (n # pending) \<union> graph_nodes g - seen)"
    by (intro card_mono) auto
  then show ?case by (auto simp: less_le)
next
  case (3 g goal n pending seen)
  have "set (rev (targets g n) @ pending) \<union> graph_nodes g - insert n seen \<subseteq> set (n # pending) \<union> graph_nodes g - seen - {n}"
    using targets_nodes [of _ g n] by auto
  moreover have "n \<in> set (n # pending) \<union> graph_nodes g - seen" using 3 by simp
  ultimately have "set (rev (targets g n) @ pending) \<union> graph_nodes g - insert n seen \<subset> set (n # pending) \<union> graph_nodes g - seen"
    by blast
  then have "card (set (rev (targets g n) @ pending) \<union> graph_nodes g - insert n seen) < card (set (n # pending) \<union> graph_nodes g - seen)"
    by (intro psubset_card_mono) auto
  then show ?case by simp
qed auto

definition supersession_reaches :: "'a graph \<Rightarrow> 'a \<Rightarrow> 'a \<Rightarrow> bool" where
  "supersession_reaches g start goal = reach_loop g goal [start] {}"

section \<open>The topological check finds every cycle\<close>

lemma closed_targets:
  assumes "closed_graph g"
  shows "distinct (targets g n)" "m \<in> set (targets g n) \<Longrightarrow> m \<in> fst ` set g"
  using assms by (auto simp: closed_graph_def targets_def list_all_iff split: option.splits dest!: map_of_SomeD)

lemma finite_edge: "finite (edge g)"
proof -
  have "edge g \<subseteq> fst ` set g \<times> graph_nodes g" by (auto simp: edge_def targets_key targets_nodes)
  then show ?thesis by (rule finite_subset) simp
qed

definition sources_of :: "'a graph \<Rightarrow> 'a \<Rightarrow> 'a set" where
  "sources_of g n = {m. n \<in> set (targets g m)}"

lemma finite_sources [simp]: "finite (sources_of g n)"
  by (rule finite_subset [of _ "fst ` set g"]) (auto simp: sources_of_def targets_key)

lemma count_all:
  assumes "set ts \<subseteq> fst ` set inc"
  shows "oget (fold (\<lambda>t inc. oset t ((case oget inc t of None \<Rightarrow> 0 | Some n \<Rightarrow> n) + 1) inc) ts inc) n
     = map_option (\<lambda>k. k + int (length (filter ((=) n) ts))) (oget inc n)"
  using assms
proof (induction ts arbitrary: inc)
  case Nil
  then show ?case by (simp add: option.map_ident)
next
  case (Cons t ts)
  then obtain k where "oget inc t = Some k" by (metis list.set_intros(1) map_of_eq_None_iff not_None_eq subsetD)
  with Cons show ?case by (cases "oget inc n") (auto simp: insert_absorb)
qed

lemma count_incoming_exact:
  assumes "closed_graph g"
  shows "oget (count_incoming g) n = (if n \<in> fst ` set g then Some (int (card (sources_of g n))) else None)"
proof -
  let ?inc = "map (\<lambda>(n, _). (n, 0 :: int)) g"
  have keys: "fst ` set ?inc = fst ` set g" by force
  have zero: "oget ?inc n = (if n \<in> fst ` set g then Some 0 else None)" for n
    by (induction g) auto
  have "set (concat (map snd g)) \<subseteq> fst ` set ?inc"
    using assms unfolding keys by (fastforce simp: closed_graph_def list_all_iff)
  from count_all [OF this] have "oget (count_incoming g) n = map_option (\<lambda>k. k + int (length (filter ((=) n) (concat (map snd g))))) (oget ?inc n)"
    by (simp add: count_incoming_def)
  moreover have "length (filter ((=) n) (concat (map snd g))) = card {m \<in> fst ` set g. n \<in> set (targets g m)}"
    if "\<And>m ts. (m, ts) \<in> set g \<Longrightarrow> distinct ts" "distinct (map fst g)"
    using that
  proof (induction g)
    case (Cons p g)
    obtain m ts where p: "p = (m, ts)" by force
    have new: "m \<notin> fst ` set g" using Cons.prems(2) p by simp
    have IH: "length (filter ((=) n) (concat (map snd g))) = card {k \<in> fst ` set g. n \<in> set (targets g k)}"
      using Cons by auto
    have same: "targets ((m, ts) # g) k = (if k = m then ts else targets g k)" for k by (simp add: targets_def)
    have "{k \<in> fst ` set (p # g). n \<in> set (targets (p # g) k)}
        = (if n \<in> set ts then {m} else {}) \<union> {k \<in> fst ` set g. n \<in> set (targets g k)}"
      using new unfolding p by (auto simp: same split: if_splits)
    moreover have "length (filter ((=) n) ts) = (if n \<in> set ts then 1 else 0)"
      using Cons.prems(1) [of m ts] p by (auto simp: distinct_length_filter distinct_card [symmetric] card_Suc_eq Collect_conv_if)
    ultimately show ?case using IH new p by (auto simp: card_insert_if)
  qed simp
  moreover have "sources_of g n = {m \<in> fst ` set g. n \<in> set (targets g m)}"
    by (auto simp: sources_of_def targets_key)
  ultimately show ?thesis using assms zero by (fastforce simp: closed_graph_def list_all_iff)
qed

text \<open>The nodes popped so far come before everything they lead to, and each count is the number of sources not
  popped.\<close>

definition ready_inv :: "'a graph \<Rightarrow> ('a, int) odict \<Rightarrow> 'a list \<Rightarrow> 'a list \<Rightarrow> bool" where
  "ready_inv g inc ready popped \<longleftrightarrow>
     (\<forall>n. oget inc n = (if n \<in> fst ` set g then Some (int (card (sources_of g n - set popped))) else None))
     \<and> distinct (ready @ popped) \<and> set ready \<union> set popped = {n \<in> fst ` set g. sources_of g n \<subseteq> set popped}
     \<and> (\<forall>A n B. popped = A @ n # B \<longrightarrow> sources_of g n \<subseteq> set A)"

lemma drop_all:
  assumes "distinct ts" "set ts \<subseteq> dom (oget inc)"
  shows "\<exists>inc'. fold drop_incoming ts (inc, ready) = (inc', rev (filter (\<lambda>t. oget inc t = Some 1) ts) @ ready)
    \<and> (\<forall>s. oget inc' s = (if s \<in> set ts then map_option (\<lambda>n. n - 1) (oget inc s) else oget inc s))"
  using assms
proof (induction ts arbitrary: inc ready)
  case (Cons t ts)
  then obtain n where n: "oget inc t = Some n" by auto
  let ?inc = "oset t (n - 1) inc" and ?ready = "if n = 1 then t # ready else ready"
  have step: "drop_incoming t (inc, ready) = (?inc, ?ready)" by (simp add: drop_incoming_def n)
  have "set ts \<subseteq> dom (oget ?inc)" using Cons.prems by auto
  moreover have "distinct ts" using Cons.prems by simp
  ultimately obtain inc' where
    inc': "fold drop_incoming ts (?inc, ?ready) = (inc', rev (filter (\<lambda>t. oget ?inc t = Some 1) ts) @ ?ready)"
    "\<forall>s. oget inc' s = (if s \<in> set ts then map_option (\<lambda>n. n - 1) (oget ?inc s) else oget ?inc s)"
    using Cons.IH by blast
  have "filter (\<lambda>s. oget ?inc s = Some 1) ts = filter (\<lambda>s. oget inc s = Some 1) ts"
    using Cons.prems by (intro filter_cong) auto
  with inc' step n Cons.prems show ?case by (intro exI [of _ inc']) auto
qed simp

lemma card_sources:
  "n \<notin> P \<Longrightarrow> int (card (sources_of g m - insert n P)) = int (card (sources_of g m - P)) - (if n \<in> sources_of g m then 1 else 0)"
proof (cases "n \<in> sources_of g m")
  case True
  assume "n \<notin> P"
  with True have "card (sources_of g m - P) = Suc (card (sources_of g m - P - {n}))" by (intro card.remove) auto
  moreover have "sources_of g m - insert n P = sources_of g m - P - {n}" by auto
  ultimately show ?thesis using True by simp
qed simp

lemma ready_sets:
  assumes ready: "insert n (R \<union> P) = {m \<in> V. sources_of g m \<subseteq> P}"
    and ts: "\<And>m. m \<in> T \<longleftrightarrow> n \<in> sources_of g m" "T \<subseteq> V"
    and one: "\<And>m. m \<in> T \<Longrightarrow> one m \<longleftrightarrow> sources_of g m - P = {n}"
    and R': "R' = {m \<in> T. one m} \<union> R"
  shows "R' \<union> insert n P = {m \<in> V. sources_of g m \<subseteq> insert n P}"
proof (intro set_eqI iffI)
  fix m
  assume "m \<in> R' \<union> insert n P"
  then consider "m \<in> insert n (R \<union> P)" | "m \<in> T" "one m" using R' by auto
  then show "m \<in> {m \<in> V. sources_of g m \<subseteq> insert n P}"
  proof cases
    case 1
    then have "m \<in> {m \<in> V. sources_of g m \<subseteq> P}" using ready by simp
    then show ?thesis by auto
  next
    case 2
    with one [of m] ts(2) show ?thesis by auto
  qed
next
  fix m
  assume m: "m \<in> {m \<in> V. sources_of g m \<subseteq> insert n P}"
  show "m \<in> R' \<union> insert n P"
  proof (cases "sources_of g m \<subseteq> P")
    case True
    with m have "m \<in> insert n (R \<union> P)" using ready by auto
    with R' show ?thesis by auto
  next
    case False
    with m have "sources_of g m - P = {n}" by auto
    then have "m \<in> T" "one m" using ts(1) [of m] one [of m] by blast+
    with R' show ?thesis by auto
  qed
qed

lemma ready_step:
  assumes inv: "ready_inv g inc (n # ready) popped" and closed: "closed_graph g"
    and fold: "fold drop_incoming (sort (remdups (targets g n))) (inc, ready) = (inc', ready')"
  shows "ready_inv g inc' ready' (popped @ [n])"
proof -
  let ?ts = "sort (remdups (targets g n))"
  have inv': "\<And>m. oget inc m = (if m \<in> fst ` set g then Some (int (card (sources_of g m - set popped))) else None)"
    "distinct (n # ready @ popped)" "insert n (set ready \<union> set popped) = {m \<in> fst ` set g. sources_of g m \<subseteq> set popped}"
    "\<And>A m B. popped = A @ m # B \<Longrightarrow> sources_of g m \<subseteq> set A"
    using inv by (simp_all add: ready_inv_def)
  have ts: "m \<in> set ?ts \<longleftrightarrow> n \<in> sources_of g m" for m by (simp add: sources_of_def)
  have keys: "set ?ts \<subseteq> fst ` set g" using closed_targets(2) [OF closed] by auto
  then have "set ?ts \<subseteq> dom (oget inc)" using inv'(1) by (auto simp: dom_def)
  from drop_all [OF _ this, of ready] fold
  have inc': "\<And>m. oget inc' m = (if m \<in> set ?ts then map_option (\<lambda>n. n - 1) (oget inc m) else oget inc m)"
    and ready': "ready' = rev (filter (\<lambda>t. oget inc t = Some 1) ?ts) @ ready"
    by auto
  have "n \<notin> set popped" using inv'(2) by simp
  then have count: "oget inc' m = (if m \<in> fst ` set g then Some (int (card (sources_of g m - insert n (set popped)))) else None)" for m
    using inc' [of m] inv'(1) [of m] ts [of m] keys by (auto simp: card_sources)
  have one: "oget inc m = Some 1 \<longleftrightarrow> sources_of g m - set popped = {n}" if "m \<in> set ?ts" for m
  proof -
    have "n \<in> sources_of g m - set popped" using that ts \<open>n \<notin> set popped\<close> by simp
    then have "card (sources_of g m - set popped) = 1 \<longleftrightarrow> sources_of g m - set popped = {n}"
      by (metis card_1_singletonE card_1_singleton_iff One_nat_def singletonD)
    moreover have "m \<in> fst ` set g" using that keys by blast
    ultimately show ?thesis using inv'(1) [of m] by simp
  qed
  have fresh: "m \<notin> insert n (set ready \<union> set popped)" if "m \<in> set ?ts" for m
    using that ts [of m] \<open>n \<notin> set popped\<close> inv'(3) by auto
  have "set ready' = {m \<in> set ?ts. oget inc m = Some 1} \<union> set ready" using ready' by auto
  with inv'(3) ts one keys have sets: "set ready' \<union> set (popped @ [n]) = {m \<in> fst ` set g. sources_of g m \<subseteq> set (popped @ [n])}"
    using ready_sets [of n "set ready" "set popped" "fst ` set g" g "set ?ts" "\<lambda>m. oget inc m = Some 1" "set ready'"]
    by (simp only: set_append list.set Un_insert_right Un_empty_right)
  have "distinct (ready' @ popped @ [n])"
    using inv'(2) fresh ready' by auto
  moreover have "sources_of g m \<subseteq> set A" if "popped @ [n] = A @ m # B" for A m B
  proof (cases B rule: rev_cases)
    case Nil
    with that have "m = n" "A = popped" by auto
    with inv'(3) show ?thesis by auto
  next
    case (snoc B' b)
    with that have "popped = A @ m # B'" by auto
    then show ?thesis by (rule inv'(4))
  qed
  ultimately show ?thesis using count sets by (simp add: ready_inv_def)
qed

lemma ready_loop_inv:
  assumes "closed_graph g"
  shows "ready_inv g inc ready popped \<Longrightarrow>
    \<exists>inc' popped'. ready_inv g inc' [] popped' \<and> ready_loop g inc ready (length popped) = length popped'"
  using assms
proof (induction g inc ready "length popped" arbitrary: popped rule: ready_loop.induct)
  case (2 g inc n ready)
  obtain inc' ready' where step: "fold drop_incoming (sort (remdups (targets g n))) (inc, ready) = (inc', ready')" by fastforce
  have "ready_inv g inc' ready' (popped @ [n])" using 2(2,3) step by (rule ready_step)
  then show ?case using 2(1) [OF refl, of "popped @ [n]"] 2(3) step by simp
qed auto

lemma popped_acyclic:
  assumes order: "\<forall>A n B. popped = A @ n # B \<longrightarrow> sources_of g n \<subseteq> set A" and all: "fst ` set g \<subseteq> set popped"
    and closed: "closed_graph g" and dist: "distinct popped"
  shows "acyclic (edge g)"
proof -
  define pos where "pos n = length (takeWhile ((\<noteq>) n) popped)" for n
  have "pos m < pos n" if "(m, n) \<in> edge g" for m n
  proof -
    from that have "n \<in> fst ` set g" using closed_targets(2) [OF closed] by (auto simp: edge_def)
    with all obtain A B where AB: "popped = A @ n # B" by (meson split_list subsetD)
    moreover have "m \<in> sources_of g n" using that by (simp add: edge_def sources_of_def)
    ultimately have "m \<in> set A" using order by blast
    then obtain A1 A2 where A: "A = A1 @ m # A2" "m \<notin> set A1" by (meson split_list_first)
    have "n \<notin> set A" using AB dist by auto
    then have "takeWhile ((\<noteq>) n) popped = A" unfolding AB by (auto simp: takeWhile_append)
    moreover have "takeWhile ((\<noteq>) m) popped = A1" unfolding AB A using A(2) by (auto simp: takeWhile_append)
    ultimately show ?thesis using A by (simp add: pos_def)
  qed
  then have "edge g \<subseteq> measure pos" by auto
  then show ?thesis using wf_acyclic wf_measure wf_subset by blast
qed

lemma acyclic_popped:
  assumes inv: "ready_inv g inc [] popped" and acyclic: "acyclic (edge g)"
  shows "fst ` set g \<subseteq> set popped"
proof (rule ccontr)
  assume "\<not> ?thesis"
  then obtain n where n: "n \<in> fst ` set g - set popped" by blast
  have "wf (edge g)" by (intro finite_acyclic_wf finite_edge acyclic)
  then obtain m where m: "m \<in> fst ` set g - set popped" "\<And>k. (k, m) \<in> edge g \<Longrightarrow> k \<notin> fst ` set g - set popped"
    using wfE_min [of "edge g" n "fst ` set g - set popped"] n by blast
  then have "\<not> sources_of g m \<subseteq> set popped" using inv by (auto simp: ready_inv_def)
  then obtain k where "k \<in> sources_of g m" "k \<notin> set popped" by blast
  with m(2) [of k] show False by (auto simp: sources_of_def edge_def targets_key)
qed

lemma distinct_count_all:
  "distinct (map fst inc) \<Longrightarrow>
     distinct (map fst (fold (\<lambda>t inc. oset t ((case oget inc t of None \<Rightarrow> (0 :: int) | Some n \<Rightarrow> n) + 1) inc) ts inc))"
  by (induction ts arbitrary: inc) simp_all

lemma ready_start:
  assumes closed: "closed_graph g"
  shows "ready_inv g (count_incoming g) (ready_nodes (count_incoming g)) []"
proof -
  let ?inc = "count_incoming g"
  have "map fst (map (\<lambda>(n, _). (n, 0 :: int)) g) = map fst g" by (induction g) auto
  then have "distinct (map fst (map (\<lambda>(n, _). (n, 0 :: int)) g))" using closed unfolding closed_graph_def by metis
  then have dist: "distinct (map fst ?inc)" unfolding count_incoming_def by (rule distinct_count_all)
  have "n \<in> set (ready_nodes ?inc) \<longleftrightarrow> oget ?inc n = Some 0" for n
    using dist by (force simp: ready_nodes_def)
  then have "n \<in> set (ready_nodes ?inc) \<longleftrightarrow> n \<in> fst ` set g \<and> sources_of g n = {}" for n
    by (simp add: count_incoming_exact [OF closed])
  then have "set (ready_nodes ?inc) = {n \<in> fst ` set g. sources_of g n \<subseteq> {}}" by blast
  moreover have "distinct (ready_nodes ?inc)" using dist by (simp add: ready_nodes_def distinct_map_filter)
  ultimately show ?thesis by (simp add: ready_inv_def count_incoming_exact [OF closed])
qed

lemma topological_acyclic:
  assumes closed: "closed_graph g"
  shows "topological g \<longleftrightarrow> acyclic (edge g)"
proof -
  let ?inc = "count_incoming g"
  from ready_loop_inv [OF closed ready_start [OF closed]] obtain inc popped where
    popped: "ready_inv g inc [] popped" "ready_loop g ?inc (ready_nodes ?inc) 0 = length popped" by auto
  have sub: "set popped \<subseteq> fst ` set g" "distinct popped" using popped(1) by (auto simp: ready_inv_def)
  have "length g = card (fst ` set g)" using closed by (metis closed_graph_def distinct_card length_map set_map)
  then have "topological g \<longleftrightarrow> card (set popped) = card (fst ` set g)"
    using popped(2) sub(2) by (simp add: topological_def distinct_card)
  also have "\<dots> \<longleftrightarrow> fst ` set g \<subseteq> set popped"
    using sub(1) by (metis card_subset_eq finite_imageI finite_set order_refl subset_antisym)
  also have "\<dots> \<longleftrightarrow> acyclic (edge g)"
    using popped(1) closed acyclic_popped [OF popped(1)] popped_acyclic [of popped g] sub(2) by (auto simp: ready_inv_def)
  finally show ?thesis .
qed

section \<open>Reachability is decided\<close>

lemma leaves_set:
  assumes "(x, y) \<in> (edge g)\<^sup>*" "x \<in> S" "y \<notin> S" "\<forall>n\<in>S. set (targets g n) \<subseteq> S \<union> T"
  shows "\<exists>z\<in>T. (z, y) \<in> (edge g)\<^sup>*"
  using assms(1-2)
proof (induction rule: converse_rtrancl_induct)
  case (step x z)
  with assms(4) have "z \<in> S \<union> T" by (auto simp: edge_def)
  with step show ?case by blast
qed (use assms(3) in simp)

lemma reach_loop_exact:
  assumes "\<forall>n\<in>seen. set (targets g n) \<subseteq> seen \<union> set pending" "goal \<notin> seen"
  shows "reach_loop g goal pending seen \<longleftrightarrow> (\<exists>n\<in>set pending. (n, goal) \<in> (edge g)\<^sup>*)"
  using assms
proof (induction g goal pending seen rule: reach_loop.induct)
  case (2 g goal n pending seen)
  show ?case
  proof (cases "n \<in> seen")
    case True
    with 2(3) have closed: "\<forall>m\<in>seen. set (targets g m) \<subseteq> seen \<union> set pending" by auto
    have "\<exists>z\<in>set pending. (z, goal) \<in> (edge g)\<^sup>*" if "(n, goal) \<in> (edge g)\<^sup>*"
      using that True 2(4) closed by (rule leaves_set)
    with 2(1) [OF True closed 2(4)] True show ?thesis by auto
  next
    case False
    show ?thesis
    proof (cases "n = goal")
      case neq: False
      have closed: "\<forall>m\<in>insert n seen. set (targets g m) \<subseteq> insert n seen \<union> set (rev (targets g n) @ pending)"
        using 2(3) by auto
      have "(n, goal) \<in> (edge g)\<^sup>* \<longleftrightarrow> (\<exists>m\<in>set (targets g n). (m, goal) \<in> (edge g)\<^sup>*)"
        using neq by (auto simp: edge_def elim: converse_rtranclE intro: converse_rtrancl_into_rtrancl)
      moreover have "goal \<notin> insert n seen" using 2(4) neq by simp
      ultimately show ?thesis using 2(2) [OF False closed] neq False by auto
    qed (use False in auto)
  qed
qed simp

lemma supersession_reaches_exact: "supersession_reaches g start goal \<longleftrightarrow> (start, goal) \<in> (edge g)\<^sup>*"
  using reach_loop_exact [of "{}" g "[start]" goal] by (simp add: supersession_reaches_def)

section \<open>The graph of the Cards\<close>

definition links :: "card set \<Rightarrow> (pystr \<times> pystr) set" where
  "links C = {(sc_id c, successor c) |c. c \<in> C \<and> successor c \<noteq> []} \<union> {(predecessor c, sc_id c) |c. c \<in> C \<and> predecessor c \<noteq> []}"

lemma links_insert: "links (insert c C) = links C \<union> (if successor c = [] then {} else {(sc_id c, successor c)})
    \<union> (if predecessor c = [] then {} else {(predecessor c, sc_id c)})"
  by (auto simp: links_def)

lemma edge_add [simp]: "edge (add_edge a b g) = insert (a, b) (edge g)"
  by (auto simp: edge_def add_edge_def targets_oset split: if_splits)

definition graph_of :: "pystr set \<Rightarrow> (pystr \<times> pystr) set \<Rightarrow> pystr graph \<Rightarrow> bool" where
  "graph_of ids E g \<longleftrightarrow> fst ` set g = ids \<and> distinct (map fst g) \<and> edge g = E \<and> E \<subseteq> ids \<times> ids
     \<and> (\<forall>ts\<in>snd ` set g. distinct ts)"

lemma graph_of_closed: "graph_of ids E g \<Longrightarrow> closed_graph g"
proof -
  assume g: "graph_of ids E g"
  have "t \<in> ids" if "(n, ts) \<in> set g" "t \<in> set ts" for n ts t
  proof -
    have "oget g n = Some ts" using that g by (simp add: graph_of_def)
    then have "(n, t) \<in> edge g" using that by (simp add: edge_def targets_def)
    then show ?thesis using g by (auto simp: graph_of_def)
  qed
  with g show ?thesis by (fastforce simp: graph_of_def closed_graph_def list_all_iff)
qed

lemma graph_of_add: "graph_of ids E g \<Longrightarrow> a \<in> ids \<Longrightarrow> b \<in> ids \<Longrightarrow> graph_of ids (insert (a, b) E) (add_edge a b g)"
proof -
  assume g: "graph_of ids E g" and ab: "a \<in> ids" "b \<in> ids"
  have "distinct (targets g a)"
    using g by (force simp: graph_of_def targets_def split: option.splits dest: map_of_SomeD)
  then have "\<forall>ts\<in>snd ` set (add_edge a b g). distinct ts"
    using g by (auto simp: graph_of_def add_edge_def dest!: in_set_oset)
  moreover have "fst ` set (add_edge a b g) = ids" "distinct (map fst (add_edge a b g))"
    using g ab by (auto simp: graph_of_def add_edge_def)
  ultimately show ?thesis using g ab by (auto simp: graph_of_def)
qed

lemma graph_of_empty:
  assumes "distinct (map sc_id cards)"
  shows "graph_of (sc_id ` set cards) {} (no_edges cards)"
proof -
  have "oget (no_edges cards) n = None \<or> oget (no_edges cards) n = Some []" for n
    by (induction cards) (auto simp: no_edges_def)
  then have "targets (no_edges cards) n = []" for n by (metis option.case targets_def)
  then have "edge (no_edges cards) = {}" by (simp add: edge_def)
  with assms show ?thesis by (auto simp: graph_of_def no_edges_def comp_def image_image)
qed

lemma link_card_graph:
  assumes "graph_of ids (links C) g" "sc_id c \<in> ids" "link_card ids g c = Inr g'"
  shows "graph_of ids (links (insert c C)) g'"
proof -
  let ?E = "links C \<union> (if successor c = [] then {} else {(sc_id c, successor c)})"
  from assms(3) obtain g1 where g1: "(if successor c = [] then Inr g else if successor c \<in> ids
        then Inr (add_edge (sc_id c) (successor c) g) else Inl missing_card) = Inr g1"
    and g': "(if predecessor c = [] then Inr g1 else if predecessor c \<in> ids
        then Inr (add_edge (predecessor c) (sc_id c) g1) else Inl missing_card) = Inr g'"
    by (auto simp: link_card_def)
  have "graph_of ids ?E g1"
    using g1 graph_of_add [OF assms(1,2), of "successor c"] assms(1) by (auto split: if_splits)
  then show ?thesis
    using g' graph_of_add [of ids ?E g1 "predecessor c" "sc_id c"] assms(2) by (auto simp: links_insert split: if_splits)
qed

lemma supersession_graph_of:
  assumes dist: "distinct (map sc_id cards)" and g: "supersession_graph cards = Inr g"
  shows "graph_of (sc_id ` set cards) (links (set cards)) g"
proof -
  let ?rows = "sort_key sc_id cards"
  have "distinct (map sc_id ?rows)" using dist by (metis distinct_map distinct_sort set_sort)
  then have "graph_of (sc_id ` set cards) (links {}) (no_edges ?rows)"
    using graph_of_empty [of ?rows] by (simp add: links_def)
  moreover have run: "foldE (link_card (sc_id ` set cards)) (no_edges ?rows) ?rows = Inr g"
    using g by (simp add: supersession_graph_def Let_def)
  ultimately have "graph_of (sc_id ` set cards) (links (set ?rows)) g"
  proof -
    assume "graph_of (sc_id ` set cards) (links {}) (no_edges ?rows)"
    with run show ?thesis
      using foldE_prefix_invariant [of "link_card (sc_id ` set cards)" "no_edges ?rows" ?rows g
          "\<lambda>g part. graph_of (sc_id ` set cards) (links (set part)) g"] link_card_graph by fastforce
  qed
  then show ?thesis by simp
qed

lemma graph_of_exists:
  assumes "distinct (map sc_id cards)" "links (set cards) \<subseteq> sc_id ` set cards \<times> sc_id ` set cards"
  shows "\<exists>g. supersession_graph cards = Inr g"
proof -
  let ?ids = "sc_id ` set cards"
  have "\<exists>g'. foldE (link_card ?ids) g rows = Inr g'" if "links (set rows) \<subseteq> ?ids \<times> ?ids" for g rows
    using that
  proof (induction rows arbitrary: g)
    case (Cons c rows)
    then have "successor c = [] \<or> successor c \<in> ?ids" "predecessor c = [] \<or> predecessor c \<in> ?ids" "links (set rows) \<subseteq> ?ids \<times> ?ids"
      by (auto simp: links_insert split: if_splits)
    with Cons.IH show ?case by (auto simp: link_card_def)
  qed simp
  then show ?thesis using assms(2) by (simp add: supersession_graph_def Let_def)
qed

text \<open>C12 The two cycle checks of the program agree: on the supersession graph of any Cards, the topological check that
  guards every conflict resolution passes exactly when the integrity report finds no cyclic component.\<close>

theorem cycle_checks_agree:
  assumes "distinct (map sc_id cards)" "supersession_graph cards = Inr g"
  shows "assert_supersession_dag cards = Inr g \<longleftrightarrow> supersession_cycle_components g = Inr []"
proof -
  have "closed_graph g" by (rule graph_of_closed) (rule supersession_graph_of [OF assms])
  then show ?thesis
    using topological_acyclic [of g] components_exact [of g] assms(2)
    by (auto simp: assert_supersession_dag_def ensure_def)
qed

text \<open>Two Cards, the first superseded by the second.\<close>

definition demo_card :: "string \<Rightarrow> pystr option \<Rightarrow> pystr option \<Rightarrow> card" where
  "demo_card i pred succ = \<lparr>sc_id = lit i, sc_type = lit ''note'', sc_title = [], sc_summary = [], sc_decisions = [],
     sc_open_tasks = [], sc_metadata = [], sc_source_refs = [], sc_scope = lit ''project'', sc_session = None,
     sc_project = None, cd_rowid = 1, cd_status = lit ''open'', cd_group = None, cd_supersedes = pred,
     cd_superseded_by = succ, cd_created = [], cd_updated = []\<rparr>"

theorem cycle_checks_agree_witness:
  "\<exists>g. assert_supersession_dag [demo_card ''a'' None (Some (lit ''b'')), demo_card ''b'' (Some (lit ''a'')) None] = Inr g
     \<and> supersession_cycle_components g = Inr []"
proof -
  let ?cards = "[demo_card ''a'' None (Some (lit ''b'')), demo_card ''b'' (Some (lit ''a'')) None]"
  have g: "supersession_graph ?cards = Inr [(lit ''a'', [lit ''b'']), (lit ''b'', [])]"
    by (simp add: supersession_graph_def demo_card_def link_card_def successor_def predecessor_def no_edges_def
        add_edge_def targets_def lit_def py_strip_def py_space_def)
  moreover have "distinct (map sc_id ?cards)" by (simp add: demo_card_def lit_def)
  ultimately have agree: "assert_supersession_dag ?cards = Inr [(lit ''a'', [lit ''b'']), (lit ''b'', [])]
      \<longleftrightarrow> supersession_cycle_components [(lit ''a'', [lit ''b'']), (lit ''b'', [])] = Inr []"
    by (intro cycle_checks_agree)
  have "assert_supersession_dag ?cards = Inr [(lit ''a'', [lit ''b'']), (lit ''b'', [])]"
    using g by (simp add: assert_supersession_dag_def topological_def count_incoming_def ready_nodes_def drop_incoming_def
        targets_def lit_def ensure_def)
  with agree show ?thesis by blast
qed

end
