(* ===== verification/Conflict_Receipts.thy ===== *)
theory Conflict_Receipts
  imports Authority_Graph
begin

text \<open>
  The receipts of resolved conflicts (\<open>core/temporal_authority.py\<close>, and
  \<open>_record_conflict_resolution_receipt\<close> of \<open>core/workers.py\<close>): a resolution stores a receipt, a row per
  member Card and an audit event, and a receipt counts only while all three still agree with each other and with
  the Cards.  The columns have their declared types; the digests are those of the canonical JSON text.  The
  secret redaction of the audit event, the clock and \<open>unique_id\<close> are the environment.
\<close>

section \<open>Rows\<close>

record receipt =
  rc_id :: pystr
  rc_action :: pystr
  rc_fingerprint :: pystr
  rc_group :: pystr
  rc_scope :: pystr
  rc_project :: pystr
  rc_session :: pystr
  rc_selected :: pystr
  rc_count :: int
  rc_actor :: pystr
  rc_audit :: pystr
  rc_created :: pystr

record receipt_member =
  mb_receipt :: pystr
  mb_card :: pystr
  mb_ordinal :: int
  mb_hash :: pystr

record audit_row =
  au_id :: pystr
  au_actor :: pystr
  au_action :: pystr
  au_target_type :: pystr
  au_target :: "pystr option"
  au_payload :: pystr
  au_created :: pystr

record outbox_row =
  ob_card :: pystr
  ob_reason :: pystr
  ob_generation :: pystr
  ob_created :: pystr
  ob_updated :: pystr
  ob_attempts :: int
  ob_error :: "pystr option"

text \<open>The tables, and the counter that the triggers of the Cards and of the outbox advance on every row they touch.\<close>

record authority_db =
  ad_cards :: "card list"
  ad_events :: "scroll_event list"
  ad_receipts :: "receipt list"
  ad_members :: "receipt_member list"
  ad_audits :: "audit_row list"
  ad_outbox :: "outbox_row list"
  ad_epoch :: int

section \<open>What a receipt binds\<close>

definition conflict_boundary :: "card \<Rightarrow> pystr \<times> pystr \<times> pystr" where
  "conflict_boundary c =
     (let scope = or_text (sc_scope c) ''session''; project = or_empty (sc_project c); session = or_empty (sc_session c)
      in if scope = lit ''project'' \<and> project \<noteq> [] then (lit ''project'', project, [])
         else if scope = lit ''global'' then (lit ''global'', [], [])
         else (scope, project, session))"

definition boundary_list :: "pystr \<times> pystr \<times> pystr \<Rightarrow> pyval" where
  "boundary_list b = (case b of (scope, project, session) \<Rightarrow> PList [PStr scope, PStr project, PStr session])"

definition conflict_member_material :: "card \<Rightarrow> pyval" where
  "conflict_member_material c = mkdict [(''id'', PStr (sc_id c)), (''card_type'', PStr (sc_type c)),
     (''title'', PStr (sc_title c)), (''summary'', PStr (sc_summary c)), (''boundary'', boundary_list (conflict_boundary c))]"

definition canonical_hash :: "pyval \<Rightarrow> py_error + pystr" where
  "canonical_hash v = bindE (dumps store_json v) (\<lambda>s. Inr (sha256 s))"

definition the_card :: "card list \<Rightarrow> pystr \<Rightarrow> py_error + card" where
  "the_card cards i = (case find_card i cards of None \<Rightarrow> Inl KeyError | Some c \<Rightarrow> Inr c)"

definition conflict_component_fingerprint :: "card list \<Rightarrow> pystr list \<Rightarrow> py_error + pystr" where
  "conflict_component_fingerprint cards ids =
     bindE (mapE (the_card cards) (sort (remdups ids))) (\<lambda>cs.
       canonical_hash (mkdict [(''schema'', PStr (lit ''continuum.conflict_resolution_component.v1'')),
         (''members'', PList (map conflict_member_material cs))]))"

definition conflict_member_binding_hash :: "card \<Rightarrow> py_error + pystr" where
  "conflict_member_binding_hash c = canonical_hash (mkdict
     [(''schema'', PStr (lit ''continuum.conflict_resolution_member.v1'')), (''member'', conflict_member_material c)])"

definition receipt_members :: "pystr \<Rightarrow> receipt_member list \<Rightarrow> receipt_member list" where
  "receipt_members i ms = sort_key (\<lambda>m. (mb_ordinal m, mb_card m)) (filter (\<lambda>m. mb_receipt m = i) ms)"

section \<open>The validity of a receipt\<close>

definition valid_visibility_scopes :: "pystr list" where
  "valid_visibility_scopes = map lit [''global'', ''session'', ''project'', ''private'']"

definition stored_boundary :: "receipt \<Rightarrow> pystr \<times> pystr \<times> pystr" where
  "stored_boundary r = (rc_scope r, rc_project r, rc_session r)"

text \<open>The part of the check before the members are read.\<close>

definition receipt_head_error :: "receipt \<Rightarrow> pystr option \<Rightarrow> pystr option \<Rightarrow> string option" where
  "receipt_head_error r expected_action expected_fingerprint =
     (if rc_id r = [] then Some ''resolution receipt id is missing''
      else if rc_action r \<notin> {lit ''dismiss'', lit ''supersede''} then Some ''resolution receipt action is invalid''
      else if expected_action \<noteq> None \<and> Some (rc_action r) \<noteq> expected_action then Some ''resolution receipt action does not match''
      else if \<not> is_hex 64 (rc_fingerprint r) then Some ''resolution receipt component fingerprint is invalid''
      else if expected_fingerprint \<noteq> None \<and> Some (rc_fingerprint r) \<noteq> expected_fingerprint
        then Some ''resolution receipt component fingerprint does not match''
      else if rc_group r = [] then Some ''resolution receipt conflict group is missing''
      else if rc_actor r \<noteq> lit ''system'' then Some ''resolution receipt actor is invalid''
      else None)"

definition members_closed :: "receipt \<Rightarrow> receipt_member list \<Rightarrow> bool" where
  "members_closed r rows \<longleftrightarrow> 2 \<le> length rows \<and> distinct (map mb_card rows) \<and> [] \<notin> set (map mb_card rows)
     \<and> map mb_ordinal rows = map int [0..<length rows] \<and> rc_count r = int (length rows)"

definition receipt_member_error ::
  "card list \<Rightarrow> receipt \<Rightarrow> receipt_member list \<Rightarrow> pystr list option \<Rightarrow> pystr set \<Rightarrow> string option" where
  "receipt_member_error cards r rows expected_ids divergent =
     (let ids = map mb_card rows; boundary_ok = (\<lambda>i. case find_card i cards of None \<Rightarrow> False
            | Some c \<Rightarrow> conflict_boundary c = stored_boundary r)
      in if \<not> members_closed r rows then Some ''resolution receipt member closure is invalid''
         else if (case expected_ids of None \<Rightarrow> False | Some es \<Rightarrow> sort ids \<noteq> sort (remdups es))
           then Some ''resolution receipt members do not match''
         else if rc_selected r \<notin> set ids then Some ''resolution receipt selected Card is not a member''
         else if list_ex (\<lambda>i. find_card i cards = None) ids then Some ''resolution receipt references a missing Card''
         else if \<not> divergent \<subseteq> set ids then Some ''resolution receipt retirement members do not match''
         else if rc_scope r \<notin> set valid_visibility_scopes then Some ''resolution receipt boundary binding is invalid''
         else if list_ex (\<lambda>i. i \<notin> divergent \<and> \<not> boundary_ok i) ids
           then Some ''resolution receipt members cross authority boundaries''
         else if divergent = {} \<and> list_ex (\<lambda>i. \<not> boundary_ok i) ids
           then Some ''resolution receipt boundary binding is invalid''
         else None)"

definition binding_broken :: "card list \<Rightarrow> receipt_member \<Rightarrow> py_error + bool" where
  "binding_broken cards m = bindE (the_card cards (mb_card m)) (\<lambda>c.
     bindE (conflict_member_binding_hash c) (\<lambda>h. Inr (mb_hash m \<noteq> h)))"

fun any_broken :: "card list \<Rightarrow> pystr set \<Rightarrow> receipt_member list \<Rightarrow> py_error + bool" where
  "any_broken cards divergent [] = Inr False"
| "any_broken cards divergent (m # ms) =
     (if mb_card m \<in> divergent then any_broken cards divergent ms
      else bindE (binding_broken cards m) (\<lambda>b. if b then Inr True else any_broken cards divergent ms))"

definition superseded_by_selected :: "card list \<Rightarrow> receipt \<Rightarrow> pystr \<Rightarrow> bool" where
  "superseded_by_selected cards r i \<longleftrightarrow> i = rc_selected r \<or>
     (case find_card i cards of None \<Rightarrow> False | Some c \<Rightarrow> successor c = rc_selected r)"

section \<open>The audit event of a receipt\<close>

definition json_object :: "pystr \<Rightarrow> pyval option" where
  "json_object s = (case loads (or_text s ''{}'') of Some v \<Rightarrow> if is_dict v then Some v else None | None \<Rightarrow> None)"

text \<open>\<open>value == n\<close> for an integer that is at least two.\<close>

definition equals_count :: "pyval option \<Rightarrow> nat \<Rightarrow> bool" where
  "equals_count v n = (case v of Some (PInt i) \<Rightarrow> i = int n
     | Some (PFloat (FDec neg m e)) \<Rightarrow> \<not> neg \<and> 0 \<le> e \<and> m * 10 ^ nat e = n | _ \<Rightarrow> False)"

definition expected_boundary :: "pystr \<times> pystr \<times> pystr \<Rightarrow> pyval" where
  "expected_boundary b = (case b of (scope, project, session) \<Rightarrow>
     mkdict [(''visibility_scope'', PStr scope), (''project_id'', PStr project), (''session_id'', PStr session)])"

definition same_boundary :: "pyval option \<Rightarrow> pystr \<times> pystr \<times> pystr \<Rightarrow> bool" where
  "same_boundary v b = (case v of None \<Rightarrow> False
     | Some d \<Rightarrow> has_keys d [''visibility_scope'', ''project_id'', ''session_id'']
         \<and> list_all (\<lambda>k. dget d k = dget (expected_boundary b) k) [''visibility_scope'', ''project_id'', ''session_id''])"

definition audit_payload_ok :: "(pyval \<Rightarrow> pystr) \<Rightarrow> receipt \<Rightarrow> pystr list \<Rightarrow> pyval \<Rightarrow> bool" where
  "audit_payload_ok rp r ids p \<longleftrightarrow>
     dget p ''schema'' = Some (PStr (lit ''continuum.conflict_resolution.v1''))
     \<and> str_or_empty rp p ''resolution_id'' = rc_id r \<and> str_or_empty rp p ''resolution'' = rc_action r
     \<and> str_or_empty rp p ''conflict_group'' = rc_group r
     \<and> str_or_empty rp p ''component_fingerprint'' = rc_fingerprint r
     \<and> str_or_empty rp p ''selected_card_id'' = rc_selected r
     \<and> dget p ''member_card_ids'' = Some (PList (map PStr (sort ids)))
     \<and> dget p ''resolved_peer_ids'' = Some (PList (map PStr (sort (filter (\<lambda>i. i \<noteq> rc_selected r) ids))))
     \<and> equals_count (dget p ''member_count'') (length ids)
     \<and> same_boundary (dget p ''boundary'') (stored_boundary r)
     \<and> dget p ''whole_group'' = Some (PBool True)"

definition audit_error :: "(pyval \<Rightarrow> pystr) \<Rightarrow> audit_row list \<Rightarrow> receipt \<Rightarrow> pystr list \<Rightarrow> string option" where
  "audit_error rp audits r ids =
     (case find (\<lambda>a. au_id a = rc_audit r) audits of
        None \<Rightarrow> Some ''resolution receipt audit binding is invalid''
      | Some a \<Rightarrow>
          if au_actor a \<noteq> lit ''system'' \<or> au_action a \<noteq> lit ''librarian_resolve_conflict'' \<or> au_target_type a \<noteq> lit ''card''
             \<or> or_empty (au_target a) \<noteq> rc_selected r then Some ''resolution receipt audit binding is invalid''
          else case json_object (au_payload a) of
              None \<Rightarrow> Some ''resolution receipt audit payload is invalid''
            | Some p \<Rightarrow> if audit_payload_ok rp r ids p then None else Some ''resolution receipt audit payload is invalid'')"

definition conflict_resolution_receipt_error ::
  "(pyval \<Rightarrow> pystr) \<Rightarrow> card list \<Rightarrow> authority_db \<Rightarrow> receipt \<Rightarrow> pystr option \<Rightarrow> pystr option \<Rightarrow> pystr list option
     \<Rightarrow> pystr set \<Rightarrow> bool \<Rightarrow> py_error + string option" where
  "conflict_resolution_receipt_error rp cards db r expected_action expected_fingerprint expected_ids divergent any_topology =
     (let rows = receipt_members (rc_id r) (ad_members db); ids = map mb_card rows in
      case receipt_head_error r expected_action expected_fingerprint of Some e \<Rightarrow> Inr (Some e) | None \<Rightarrow>
      (case receipt_member_error cards r rows expected_ids divergent of Some e \<Rightarrow> Inr (Some e) | None \<Rightarrow>
       bindE (conflict_component_fingerprint cards ids) (\<lambda>actual.
         if rc_fingerprint r \<noteq> actual \<and> divergent = {} then Inr (Some ''resolution receipt component binding is invalid'')
         else bindE (any_broken cards divergent rows) (\<lambda>broken.
           if broken then Inr (Some ''resolution receipt member binding is invalid'')
           else if rc_action r = lit ''supersede'' \<and> \<not> any_topology
               \<and> list_ex (\<lambda>i. \<not> superseded_by_selected cards r i) ids
             then Inr (Some ''resolution receipt supersession topology is invalid'')
           else Inr (audit_error rp (ad_audits db) r ids)))))"

text \<open>The newest receipt first; receipts have different identifiers.\<close>

definition valid_conflict_resolution_receipt ::
  "(pyval \<Rightarrow> pystr) \<Rightarrow> card list \<Rightarrow> authority_db \<Rightarrow> pystr \<Rightarrow> pystr \<Rightarrow> pystr list \<Rightarrow> py_error + receipt option" where
  "valid_conflict_resolution_receipt rp cards db action fingerprint ids =
     first_resolved (\<lambda>r. bindE (conflict_resolution_receipt_error rp cards db r (Some action) (Some fingerprint) (Some ids) {} False)
         (\<lambda>e. Inr (if e = None then Some r else None)))
       (rev (sort_key (\<lambda>r. (rc_created r, rc_id r))
         (filter (\<lambda>r. rc_action r = action \<and> rc_fingerprint r = fingerprint) (ad_receipts db))))"

section \<open>Recording a receipt\<close>

record authority_env =
  ae_redact_value :: "pyval \<Rightarrow> pyval"
  ae_redact_text :: "pystr \<Rightarrow> pystr"
  ae_resolution_id :: pystr
  ae_audit_id :: pystr
  ae_generation :: "nat \<Rightarrow> pystr"
  ae_now :: pystr
  ae_audit_now :: pystr
  ae_outbox_now :: pystr

definition audit_event ::
  "authority_env \<Rightarrow> pystr \<Rightarrow> pystr \<Rightarrow> pystr option \<Rightarrow> pystr \<Rightarrow> pyval \<Rightarrow> authority_db \<Rightarrow> py_error + authority_db \<times> pystr" where
  "audit_event env action target_type target actor payload db =
     bindE (dumps store_json (ae_redact_value env payload)) (\<lambda>text.
     bindE (ensure (ae_audit_id env \<notin> set (map au_id (ad_audits db))) IntegrityError) (\<lambda>_.
       Inr (db\<lparr>ad_audits := ad_audits db @ [\<lparr>au_id = ae_audit_id env, au_actor = ae_redact_text env actor, au_action = action,
              au_target_type = target_type,
              au_target = (if or_empty target = [] then None else map_option (ae_redact_text env) target),
              au_payload = text, au_created = ae_audit_now env\<rparr>]\<rparr>, ae_audit_id env)))"

definition insert_receipt :: "receipt \<Rightarrow> authority_db \<Rightarrow> py_error + authority_db" where
  "insert_receipt r db =
     bindE (ensure (rc_id r \<notin> set (map rc_id (ad_receipts db)) \<and> rc_action r \<in> {lit ''dismiss'', lit ''supersede''}
         \<and> rc_selected r \<in> set (map sc_id (ad_cards db)) \<and> 2 \<le> rc_count r
         \<and> rc_audit r \<notin> set (map rc_audit (ad_receipts db)) \<and> rc_audit r \<in> set (map au_id (ad_audits db))
         \<and> (rc_action r, rc_fingerprint r) \<notin> set (map (\<lambda>x. (rc_action x, rc_fingerprint x)) (ad_receipts db))) IntegrityError)
       (\<lambda>_. Inr (db\<lparr>ad_receipts := ad_receipts db @ [r]\<rparr>))"

definition insert_member :: "receipt_member \<Rightarrow> authority_db \<Rightarrow> py_error + authority_db" where
  "insert_member m db =
     bindE (ensure (mb_receipt m \<in> set (map rc_id (ad_receipts db)) \<and> mb_card m \<in> set (map sc_id (ad_cards db))
         \<and> 0 \<le> mb_ordinal m
         \<and> (mb_receipt m, mb_card m) \<notin> set (map (\<lambda>x. (mb_receipt x, mb_card x)) (ad_members db))
         \<and> (mb_receipt m, mb_ordinal m) \<notin> set (map (\<lambda>x. (mb_receipt x, mb_ordinal x)) (ad_members db))) IntegrityError)
       (\<lambda>_. Inr (db\<lparr>ad_members := ad_members db @ [m]\<rparr>))"

definition record_member :: "card list \<Rightarrow> pystr \<Rightarrow> authority_db \<Rightarrow> nat \<times> pystr \<Rightarrow> py_error + authority_db" where
  "record_member cards i db entry =
     bindE (the_card cards (snd entry)) (\<lambda>c. bindE (conflict_member_binding_hash c) (\<lambda>h.
       insert_member \<lparr>mb_receipt = i, mb_card = snd entry, mb_ordinal = int (fst entry), mb_hash = h\<rparr> db))"

definition resolution_payload :: "pystr \<Rightarrow> pystr \<Rightarrow> pystr \<Rightarrow> pystr \<Rightarrow> pystr \<Rightarrow> pystr list \<Rightarrow> pystr \<times> pystr \<times> pystr \<Rightarrow> pyval" where
  "resolution_payload i action grp fingerprint selected ordered b =
     mkdict [(''schema'', PStr (lit ''continuum.conflict_resolution.v1'')), (''resolution_id'', PStr i),
       (''resolution'', PStr action), (''conflict_group'', PStr grp), (''component_fingerprint'', PStr fingerprint),
       (''selected_card_id'', PStr selected), (''member_card_ids'', PList (map PStr ordered)),
       (''member_count'', PInt (int (length ordered))),
       (''resolved_peer_ids'', PList (map PStr (filter (\<lambda>m. m \<noteq> selected) ordered))),
       (''boundary'', expected_boundary b), (''whole_group'', PBool True)]"

definition first_card :: "card list \<Rightarrow> pystr list \<Rightarrow> py_error + card" where
  "first_card cards ordered = (case ordered of [] \<Rightarrow> Inl IndexError | i # _ \<Rightarrow> the_card cards i)"

definition record_conflict_resolution_receipt ::
  "authority_env \<Rightarrow> card list \<Rightarrow> pystr \<Rightarrow> pystr \<Rightarrow> pystr \<Rightarrow> pystr list \<Rightarrow> pystr \<Rightarrow> authority_db \<Rightarrow> py_error + authority_db \<times> pystr" where
  "record_conflict_resolution_receipt env cards action grp selected ids fingerprint db =
     (let ordered = sort ids; i = ae_resolution_id env in
      bindE (first_card cards ordered) (\<lambda>c.
      let b = conflict_boundary c in
      bindE (audit_event env (lit ''librarian_resolve_conflict'') (lit ''card'') (Some selected) (lit ''system'')
               (resolution_payload i action grp fingerprint selected ordered b) db) (\<lambda>(db1, audit).
      bindE (case find (\<lambda>a. au_id a = audit) (ad_audits db1) of
               None \<Rightarrow> Inl (RuntimeError ''conflict resolution audit event was not recorded'') | Some a \<Rightarrow> Inr (au_created a))
        (\<lambda>created.
      bindE (insert_receipt \<lparr>rc_id = i, rc_action = action, rc_fingerprint = fingerprint, rc_group = grp, rc_scope = fst b,
               rc_project = fst (snd b), rc_session = snd (snd b), rc_selected = selected, rc_count = int (length ordered),
               rc_actor = lit ''system'', rc_audit = audit, rc_created = created\<rparr> db1) (\<lambda>db2.
      bindE (foldE (record_member cards i) db2 (enumerate 0 ordered)) (\<lambda>db3. Inr (db3, i)))))))"

text \<open>The outbox of the Card files: one row per Card, and a new generation every time.\<close>

definition mark_outbox :: "authority_env \<Rightarrow> pystr \<Rightarrow> nat \<times> pystr \<Rightarrow> authority_db \<Rightarrow> authority_db" where
  "mark_outbox env reason entry db =
     (case entry of (k, i) \<Rightarrow>
        db\<lparr>ad_outbox := (if list_ex (\<lambda>row. ob_card row = i) (ad_outbox db)
             then map (\<lambda>row. if ob_card row = i then row\<lparr>ob_reason := reason, ob_generation := ae_generation env k,
                            ob_updated := ae_outbox_now env\<rparr> else row) (ad_outbox db)
             else ad_outbox db @ [\<lparr>ob_card = i, ob_reason = reason, ob_generation = ae_generation env k,
                    ob_created = ae_outbox_now env, ob_updated = ae_outbox_now env, ob_attempts = 0, ob_error = None\<rparr>]),
           ad_epoch := ad_epoch db + 1\<rparr>)"

definition mark_card_sidecar_outbox :: "authority_env \<Rightarrow> pystr list \<Rightarrow> pystr \<Rightarrow> authority_db \<Rightarrow> authority_db \<times> nat" where
  "mark_card_sidecar_outbox env ids reason db =
     (let marked = enumerate 0 (filter (\<lambda>i. i \<noteq> []) (rev (remdups (rev ids))))
      in (fold (mark_outbox env reason) marked db, length marked))"

section \<open>The digests always exist\<close>

lemma mapE_good: "(\<And>v. v \<in> set vs \<Longrightarrow> isOk (f v)) \<Longrightarrow> isOk (mapE f vs)"
  by (simp add: mapE_isOk)

lemma material_ok: "isOk (dumps store_json (conflict_member_material c))"
  by (simp add: conflict_member_material_def mkdict_def boundary_list_def split: prod.splits)

lemma canonical_hash_dict:
  assumes "\<forall>kv\<in>set kvs. isOk (dumps store_json (snd kv))"
  shows "\<exists>h. canonical_hash (mkdict kvs) = Inr h \<and> is_hex 64 h"
proof -
  obtain s where "dumps store_json (mkdict kvs) = Inr s" using mkdict_ok [OF assms] by (auto simp: isOk_iff)
  then show ?thesis by (simp add: canonical_hash_def sha256_hex)
qed

lemma binding_hash_ok: "\<exists>h. conflict_member_binding_hash c = Inr h"
  using canonical_hash_dict [of "[(''schema'', PStr (lit ''continuum.conflict_resolution_member.v1'')), (''member'', conflict_member_material c)]"]
    material_ok [of c] by (force simp: conflict_member_binding_hash_def)

lemma the_card_iff: "the_card cards i = Inr c \<longleftrightarrow> find_card i cards = Some c"
  by (auto simp: the_card_def split: option.splits)

lemma fingerprint_ok:
  assumes "\<forall>i\<in>set ids. find_card i cards \<noteq> None"
  shows "\<exists>h. conflict_component_fingerprint cards ids = Inr h \<and> is_hex 64 h"
proof -
  have "isOk (mapE (the_card cards) (sort (remdups ids)))"
    using assms unfolding mapE_isOk by (auto simp: isOk_iff the_card_iff)
  then obtain cs where cs: "mapE (the_card cards) (sort (remdups ids)) = Inr cs" by (auto simp: isOk_iff)
  have "isOk (dumps store_json (PList (map conflict_member_material cs)))"
    using material_ok unfolding dumps.simps isOk_bindE mapE_isOk by (auto simp: mapE_isOk simp flip: isOk_iff)
  then show ?thesis
    using cs canonical_hash_dict [of "[(''schema'', PStr (lit ''continuum.conflict_resolution_component.v1'')),
      (''members'', PList (map conflict_member_material cs))]"]
    by (auto simp: conflict_component_fingerprint_def)
qed

text \<open>The digests depend on nothing but the material of the members.\<close>

lemma fingerprint_cong:
  assumes "\<And>i. i \<in> set ids \<Longrightarrow>
    map_option conflict_member_material (find_card i cards) = map_option conflict_member_material (find_card i cards')"
  shows "conflict_component_fingerprint cards ids = conflict_component_fingerprint cards' ids"
proof -
  have "bindE (mapE (the_card cards) is) (\<lambda>cs. f (map conflict_member_material cs))
      = bindE (mapE (the_card cards') is) (\<lambda>cs. f (map conflict_member_material cs))"
    if "set is \<subseteq> set ids" for "is" and f :: "pyval list \<Rightarrow> py_error + pystr"
    using that
  proof (induction "is" arbitrary: f)
    case (Cons i "is")
    from Cons.prems assms [of i] show ?case
    proof (cases "find_card i cards")
      case (Some c)
      with Cons.prems assms [of i] obtain d where "find_card i cards' = Some d"
        "conflict_member_material c = conflict_member_material d" by (cases "find_card i cards'") auto
      with Some Cons show ?thesis
        using Cons.IH [of "\<lambda>vs. f (conflict_member_material d # vs)"] by (simp add: the_card_def bindE_assoc)
    qed (simp add: the_card_def)
  qed simp
  from this [of "sort (remdups ids)" "\<lambda>vs. canonical_hash (mkdict
     [(''schema'', PStr (lit ''continuum.conflict_resolution_component.v1'')), (''members'', PList vs)])"]
  show ?thesis by (simp add: conflict_component_fingerprint_def)
qed

lemma binding_hash_cong:
  "conflict_member_material c = conflict_member_material d \<Longrightarrow> conflict_member_binding_hash c = conflict_member_binding_hash d"
  by (simp add: conflict_member_binding_hash_def)

section \<open>The audit payload reads back\<close>

lemma written_strs [simp]: "written jo (PList (map PStr xs)) = PList (map PStr xs)"
  by (simp add: comp_def)

lemma has_keys_mkdict: "has_keys (mkdict kvs) (map fst kvs)"
proof -
  have "\<exists>k\<in>set (map fst kvs). fst kv = PStr (lit k)" if "kv \<in> set (map (\<lambda>(k, v). (PStr (lit k), v)) kvs)" for kv
    using that by force
  moreover have "\<exists>kv\<in>set (map (\<lambda>(k, v). (PStr (lit k), v)) kvs). fst kv = PStr (lit k)" if "k \<in> set (map fst kvs)" for k
    using that by force
  ultimately show ?thesis unfolding has_keys_def mkdict_def pyval.case list_all_iff list_ex_iff by blast
qed

lemma payload_good: "good_json (resolution_payload i action grp fp selected ordered b)"
  by (cases b) (simp add: resolution_payload_def mkdict_def expected_boundary_def list_all_iff)

lemma payload_plain:
  assumes "list_all (readable True) ([i, action, grp, fp, selected, fst b, fst (snd b), snd (snd b)] @ ordered)"
  shows "plain_texts True (resolution_payload i action grp fp selected ordered b)"
  using assms
  by (cases b) (auto simp: resolution_payload_def mkdict_def expected_boundary_def list_all_iff readable_def lit_def surrogate_def)

lemma payload_ok:
  assumes "rc_id r = i" "rc_action r = action" "rc_group r = grp" "rc_fingerprint r = fp" "rc_selected r = selected"
    "stored_boundary r = b" "sort ids = ordered"
  shows "audit_payload_ok rp r ids (written store_json (resolution_payload i action grp fp selected ordered b))"
proof -
  let ?p = "resolution_payload i action grp fp selected ordered b"
  obtain scope project session where b: "b = (scope, project, session)" by (cases b)
  have str: "str_or_empty rp (written store_json ?p) k = s" if "dget ?p k = Some (PStr s)" for k s
    using that by (simp add: str_or_empty_def get_truthy_def dget_written [OF payload_good])
  have eb: "good_json (expected_boundary b)" by (simp add: b expected_boundary_def mkdict_def)
  have "same_boundary (Some (written store_json (expected_boundary b))) b"
    unfolding same_boundary_def by (simp add: dget_written [OF eb] has_keys_written)
      (use has_keys_mkdict [of "[(''visibility_scope'', PStr scope), (''project_id'', PStr project), (''session_id'', PStr session)]"]
        in \<open>simp add: b expected_boundary_def\<close>)
  moreover have "sort (filter P ids) = filter P ordered" for P
    using assms(7) by (metis filter_sort)
  moreover have "length ids = length ordered" using assms(7) by (metis length_sort)
  moreover have "str_or_empty rp (written store_json ?p) ''resolution_id'' = i"
    "str_or_empty rp (written store_json ?p) ''resolution'' = action"
    "str_or_empty rp (written store_json ?p) ''conflict_group'' = grp"
    "str_or_empty rp (written store_json ?p) ''component_fingerprint'' = fp"
    "str_or_empty rp (written store_json ?p) ''selected_card_id'' = selected"
    by (rule str; simp add: resolution_payload_def)+
  ultimately show ?thesis
    using assms unfolding audit_payload_ok_def dget_written [OF payload_good]
    by simp (simp add: resolution_payload_def equals_count_def)
qed

section \<open>A recorded receipt is valid\<close>

lemma receipt_members_new:
  assumes "i \<notin> set (map mb_receipt old)" "\<forall>m\<in>set new. mb_receipt m = i" "map mb_ordinal new = map int [0..<length new]"
  shows "receipt_members i (old @ new) = new"
proof -
  have "filter (\<lambda>m. mb_receipt m = i) old = []" using assms(1) by (auto simp: filter_empty_conv)
  moreover have "filter (\<lambda>m. mb_receipt m = i) new = new" using assms(2) by (simp add: filter_id_conv)
  moreover have "sorted (map (\<lambda>m. (mb_ordinal m, mb_card m)) new)"
  proof (unfold sorted_iff_nth_mono_less, intro allI impI)
    fix j k
    assume jk: "j < k" "k < length (map (\<lambda>m. (mb_ordinal m, mb_card m)) new)"
    then have "mb_ordinal (new ! j) = int j" "mb_ordinal (new ! k) = int k"
      using arg_cong [OF assms(3), of "\<lambda>xs. xs ! j"] arg_cong [OF assms(3), of "\<lambda>xs. xs ! k"] by auto
    with jk show "map (\<lambda>m. (mb_ordinal m, mb_card m)) new ! j \<le> map (\<lambda>m. (mb_ordinal m, mb_card m)) new ! k" by simp
  qed
  ultimately show ?thesis by (simp add: receipt_members_def sort_key_id_if_sorted)
qed

definition member_of :: "card list \<Rightarrow> pystr \<Rightarrow> nat \<times> pystr \<Rightarrow> receipt_member \<Rightarrow> bool" where
  "member_of cards i entry m \<longleftrightarrow> mb_receipt m = i \<and> mb_card m = snd entry \<and> mb_ordinal m = int (fst entry)
     \<and> (\<exists>c. find_card (snd entry) cards = Some c \<and> conflict_member_binding_hash c = Inr (mb_hash m))"

lemma record_members:
  assumes "foldE (record_member cards i) db ps = Inr db'"
  shows "\<exists>new. db' = db\<lparr>ad_members := ad_members db @ new\<rparr> \<and> list_all2 (member_of cards i) ps new"
  using assms
proof (induction ps arbitrary: db)
  case (Cons e es)
  then obtain db1 where db1: "record_member cards i db e = Inr db1" "foldE (record_member cards i) db1 es = Inr db'" by auto
  from db1(1) obtain c h where ch: "find_card (snd e) cards = Some c" "conflict_member_binding_hash c = Inr h"
    and ins: "insert_member \<lparr>mb_receipt = i, mb_card = snd e, mb_ordinal = int (fst e), mb_hash = h\<rparr> db = Inr db1"
    by (auto simp: record_member_def the_card_iff)
  then obtain m where m: "db1 = db\<lparr>ad_members := ad_members db @ [m]\<rparr>" "member_of cards i e m"
    by (fastforce simp: insert_member_def member_of_def)
  from Cons.IH [OF db1(2)] obtain new where "db' = db1\<lparr>ad_members := ad_members db1 @ new\<rparr>" "list_all2 (member_of cards i) es new"
    by blast
  with m show ?case by (intro exI [of _ "m # new"]) simp
qed simp

lemma members_of_enumerate:
  assumes "list_all2 (member_of cards i) (enumerate 0 xs) ms"
  shows "map mb_card ms = xs" "map mb_ordinal ms = map int [0..<length ms]" "\<forall>m\<in>set ms. mb_receipt m = i"
    "\<forall>m\<in>set ms. \<exists>c. find_card (mb_card m) cards = Some c \<and> conflict_member_binding_hash c = Inr (mb_hash m)"
proof -
  have len: "length ms = length xs" using list_all2_lengthD [OF assms] by simp
  have nth: "member_of cards i (k, xs ! k) (ms ! k)" if "k < length xs" for k
    using list_all2_nthD [OF assms, of k] that by (simp add: nth_enumerate_eq)
  show "map mb_card ms = xs" using len nth by (intro nth_equalityI) (auto simp: member_of_def)
  show "map mb_ordinal ms = map int [0..<length ms]" using len nth by (intro nth_equalityI) (auto simp: member_of_def)
  show "\<forall>m\<in>set ms. mb_receipt m = i"
    "\<forall>m\<in>set ms. \<exists>c. find_card (mb_card m) cards = Some c \<and> conflict_member_binding_hash c = Inr (mb_hash m)"
    using len nth by (fastforce simp: member_of_def in_set_conv_nth)+
qed

definition recorded :: "authority_env \<Rightarrow> pystr \<Rightarrow> pystr \<Rightarrow> pystr \<Rightarrow> nat \<Rightarrow> pystr \<Rightarrow> pystr \<times> pystr \<times> pystr \<Rightarrow> receipt" where
  "recorded env action grp selected n fingerprint b =
     \<lparr>rc_id = ae_resolution_id env, rc_action = action, rc_fingerprint = fingerprint, rc_group = grp, rc_scope = fst b,
      rc_project = fst (snd b), rc_session = snd (snd b), rc_selected = selected, rc_count = int n,
      rc_actor = lit ''system'', rc_audit = ae_audit_id env, rc_created = ae_audit_now env\<rparr>"

lemma record_receipt_cases:
  assumes "record_conflict_resolution_receipt env cards action grp selected ids fp db = Inr (db', i)"
  obtains c body new where "find_card (hd (sort ids)) cards = Some c" "ids \<noteq> []" "i = ae_resolution_id env"
    "dumps store_json (ae_redact_value env
       (resolution_payload i action grp fp selected (sort ids) (conflict_boundary c))) = Inr body"
    "list_all2 (member_of cards i) (enumerate 0 (sort ids)) new"
    "ad_cards db' = ad_cards db" "ad_members db' = ad_members db @ new" "ad_events db' = ad_events db"
    "ad_receipts db' = ad_receipts db @ [recorded env action grp selected (length ids) fp (conflict_boundary c)]"
    "ad_audits db' = ad_audits db @ [\<lparr>au_id = ae_audit_id env, au_actor = ae_redact_text env (lit ''system''),
       au_action = lit ''librarian_resolve_conflict'', au_target_type = lit ''card'',
       au_target = (if selected = [] then None else Some (ae_redact_text env selected)), au_payload = body,
       au_created = ae_audit_now env\<rparr>]"
    "ae_audit_id env \<notin> set (map au_id (ad_audits db))" "2 \<le> length ids" "action \<in> {lit ''dismiss'', lit ''supersede''}"
    "(action, fp) \<notin> set (map (\<lambda>x. (rc_action x, rc_fingerprint x)) (ad_receipts db))"
    "i \<notin> set (map rc_id (ad_receipts db))" "selected \<in> set (map sc_id (ad_cards db))"
proof -
  let ?i = "ae_resolution_id env"
  from assms obtain c where first: "first_card cards (sort ids) = Inr c"
    unfolding record_conflict_resolution_receipt_def Let_def bindE_Inr_iff by blast
  then have c: "find_card (hd (sort ids)) cards = Some c" "ids \<noteq> []"
    by (auto simp: first_card_def the_card_iff split: list.splits)
  let ?pay = "resolution_payload ?i action grp fp selected (sort ids) (conflict_boundary c)"
  from assms obtain db1 au where db1: "audit_event env (lit ''librarian_resolve_conflict'') (lit ''card'') (Some selected)
      (lit ''system'') ?pay db = Inr (db1, au)"
    unfolding record_conflict_resolution_receipt_def Let_def first bindE_simps by (force simp only: bindE_Inr_iff)
  then obtain body where body: "dumps store_json (ae_redact_value env ?pay) = Inr body" "au = ae_audit_id env"
    "ae_audit_id env \<notin> set (map au_id (ad_audits db))"
    and db1_eq: "db1 = db\<lparr>ad_audits := ad_audits db @ [\<lparr>au_id = ae_audit_id env, au_actor = ae_redact_text env (lit ''system''),
       au_action = lit ''librarian_resolve_conflict'', au_target_type = lit ''card'',
       au_target = (if selected = [] then None else Some (ae_redact_text env selected)), au_payload = body,
       au_created = ae_audit_now env\<rparr>]\<rparr>"
    by (auto simp: audit_event_def)
  have none: "find (\<lambda>a. au_id a = au) (ad_audits db) = None" using body(2,3) by (force simp: find_None_all)
  then have found: "find (\<lambda>a. au_id a = au) (ad_audits db1) = Some (last (ad_audits db1))"
    using none by (simp add: db1_eq find_snoc body(2))
  have len: "length (sort ids) = length ids" by simp
  let ?r = "recorded env action grp selected (length ids) fp (conflict_boundary c)"
  from assms obtain db2 db3 where db2: "insert_receipt ?r db1 = Inr db2"
    and db3: "foldE (record_member cards ?i) db2 (enumerate 0 (sort ids)) = Inr db3" and out: "db' = db3" "i = ?i"
    unfolding record_conflict_resolution_receipt_def Let_def first bindE_simps db1 split_conv found option.case len
    by (force simp: recorded_def db1_eq body(2))
  from db2 have ins: "db2 = db1\<lparr>ad_receipts := ad_receipts db1 @ [?r]\<rparr>" "2 \<le> length ids" "action \<in> {lit ''dismiss'', lit ''supersede''}"
    "(action, fp) \<notin> set (map (\<lambda>x. (rc_action x, rc_fingerprint x)) (ad_receipts db))"
    "?i \<notin> set (map rc_id (ad_receipts db))" "selected \<in> set (map sc_id (ad_cards db))"
    by (auto simp: insert_receipt_def recorded_def db1_eq)
  from record_members [OF db3] obtain new where new: "db3 = db2\<lparr>ad_members := ad_members db2 @ new\<rparr>"
    "list_all2 (member_of cards ?i) (enumerate 0 (sort ids)) new" by blast
  show thesis
    by (rule that [of c body new]) (use c body ins new out db1_eq in auto)
qed

lemma material_boundary: "conflict_member_material c = conflict_member_material d \<Longrightarrow> conflict_boundary c = conflict_boundary d"
  by (cases "conflict_boundary c"; cases "conflict_boundary d")
     (simp add: conflict_member_material_def mkdict_def boundary_list_def)

text \<open>The redaction leaves the audit event of a resolution alone.\<close>

definition not_redacted :: "authority_env \<Rightarrow> pystr \<Rightarrow> pyval \<Rightarrow> bool" where
  "not_redacted env selected payload \<longleftrightarrow> ae_redact_value env payload = payload \<and> ae_redact_text env selected = selected
     \<and> ae_redact_text env (lit ''system'') = lit ''system''"

text \<open>A member Card as it was when the receipt was recorded and as it is now.\<close>

definition kept_member :: "card list \<Rightarrow> card list \<Rightarrow> pystr \<times> pystr \<times> pystr \<Rightarrow> pystr \<Rightarrow> pystr \<Rightarrow> pystr \<Rightarrow> bool" where
  "kept_member cards cards' b action selected i \<longleftrightarrow> i \<noteq> [] \<and> (\<exists>c c'. find_card i cards = Some c \<and> find_card i cards' = Some c'
     \<and> conflict_boundary c = b \<and> conflict_member_material c' = conflict_member_material c
     \<and> (action = lit ''supersede'' \<and> i \<noteq> selected \<longrightarrow> successor c' = selected))"

lemma recorded_audit:
  assumes payload: "dumps store_json (resolution_payload i action grp fp selected (sort ids) b) = Inr body"
    and plain: "list_all (readable True) ([i, action, grp, fp, selected, fst b, fst (snd b), snd (snd b)] @ ids)"
    and r: "r = recorded env action grp selected n fp b" "i = ae_resolution_id env"
    and row: "find (\<lambda>a. au_id a = ae_audit_id env) audits = Some \<lparr>au_id = ae_audit_id env, au_actor = lit ''system'',
       au_action = lit ''librarian_resolve_conflict'', au_target_type = lit ''card'',
       au_target = (if selected = [] then None else Some selected), au_payload = body, au_created = t\<rparr>"
  shows "audit_error rp audits r ids = None"
proof -
  let ?p = "resolution_payload i action grp fp selected (sort ids) b"
  have "plain_texts True ?p" using plain by (intro payload_plain) (simp add: list_all_iff)
  then have loads: "loads body = Some (written store_json ?p)"
    using loads_dumps_plain [OF payload_good _ payload] by (simp add: store_json_def)
  then have "body \<noteq> []" by (auto simp: loads_def)
  moreover have "is_dict ?p" by (simp add: resolution_payload_def mkdict_def)
  ultimately have "json_object body = Some (written store_json ?p)" using loads by (simp add: json_object_def)
  moreover have "audit_payload_ok rp r ids (written store_json ?p)"
    by (rule payload_ok) (simp_all add: r recorded_def stored_boundary_def)
  ultimately show ?thesis using row by (auto simp: audit_error_def r recorded_def)
qed

lemma recorded_members:
  assumes members: "list_all2 (member_of cards i) (enumerate 0 (sort ids)) new" and two: "2 \<le> length ids"
    and kept: "\<forall>j\<in>set ids. kept_member cards cards' b action selected j" and ids: "distinct ids" "selected \<in> set ids"
    and scope: "fst b \<in> set valid_visibility_scopes" and r: "r = recorded env action grp selected (length ids) fp b"
  shows "receipt_member_error cards' r new (Some ids) {} = None" "any_broken cards' {} new = Inr False"
    "map mb_card new = sort ids"
proof -
  note new = members_of_enumerate [OF members]
  have len: "length new = length ids" using new(1) by (metis length_map length_sort)
  have set_new: "set (map mb_card new) = set ids" using new(1) by simp
  have boundary: "\<exists>c. find_card j cards' = Some c \<and> conflict_boundary c = b" if "j \<in> set ids" for j
    using kept that material_boundary unfolding kept_member_def by metis
  have dist: "distinct (map mb_card new)" using new(1) ids(1) by simp
  have "[] \<notin> set ids" using kept by (auto simp: kept_member_def)
  then have closed: "members_closed r new"
    using two len new(2) dist set_new by (simp add: members_closed_def r recorded_def)
  have "stored_boundary r = b" by (simp add: r recorded_def stored_boundary_def)
  moreover have "sort (map mb_card new) = sort (remdups ids)" using new(1) ids(1) by (simp add: distinct_remdups_id sort_key_id_if_sorted)
  moreover have "rc_selected r \<in> set ids" "rc_scope r \<in> set valid_visibility_scopes" using ids(2) scope by (simp_all add: r recorded_def)
  moreover have "\<forall>j\<in>set ids. find_card j cards' \<noteq> None
      \<and> (case find_card j cards' of None \<Rightarrow> False | Some c \<Rightarrow> conflict_boundary c = stored_boundary r)"
    using boundary calculation(1) by fastforce
  ultimately show "receipt_member_error cards' r new (Some ids) {} = None"
    using closed unfolding receipt_member_error_def Let_def list_ex_iff set_new by (auto simp del: set_map)
  have "binding_broken cards' m = Inr False" if m: "m \<in> set new" for m
  proof -
    obtain c where c: "find_card (mb_card m) cards = Some c" "conflict_member_binding_hash c = Inr (mb_hash m)"
      using new(4) m by blast
    moreover have "mb_card m \<in> set ids" using set_new m by auto
    with kept c(1) obtain c' where "find_card (mb_card m) cards' = Some c'" "conflict_member_material c' = conflict_member_material c"
      by (fastforce simp: kept_member_def)
    ultimately show ?thesis using binding_hash_cong [of c' c] by (simp add: binding_broken_def the_card_def)
  qed
  then show "any_broken cards' {} new = Inr False" by (induction new) auto
  show "map mb_card new = sort ids" by (rule new(1))
qed

lemma recorded_receipt_accepted:
  assumes run: "record_conflict_resolution_receipt env cards action grp selected ids fp db = Inr (db', i)"
    and quiet: "not_redacted env selected (resolution_payload i action grp fp selected (sort ids) b)"
    and plain: "list_all (readable True) ([i, action, grp, fp, selected, fst b, fst (snd b), snd (snd b)] @ ids)"
    and names: "i \<noteq> []" "grp \<noteq> []" "i \<notin> set (map mb_receipt (ad_members db))"
    and fp: "conflict_component_fingerprint cards ids = Inr fp"
    and kept: "\<forall>j\<in>set ids. kept_member cards cards' b action selected j" and ids: "distinct ids" "selected \<in> set ids"
    and scope: "fst b \<in> set valid_visibility_scopes"
    and same: "ad_receipts db'' = ad_receipts db'" "ad_members db'' = ad_members db'" "ad_audits db'' = ad_audits db'"
  shows "conflict_resolution_receipt_error rp cards' db'' (recorded env action grp selected (length ids) fp b)
      (Some action) (Some fp) (Some ids) {} False = Inr None" (is ?accepted)
    and "filter (\<lambda>r. rc_action r = action \<and> rc_fingerprint r = fp) (ad_receipts db'') = [recorded env action grp selected (length ids) fp b]"
      (is ?only)
proof -
  let ?r = "recorded env action grp selected (length ids) fp b"
  from run obtain c body new where c: "find_card (hd (sort ids)) cards = Some c" "ids \<noteq> []" and i: "i = ae_resolution_id env"
    and body: "dumps store_json (ae_redact_value env (resolution_payload i action grp fp selected (sort ids) (conflict_boundary c))) = Inr body"
    and new: "list_all2 (member_of cards i) (enumerate 0 (sort ids)) new" "ad_members db' = ad_members db @ new"
    and rc: "ad_receipts db' = ad_receipts db @ [recorded env action grp selected (length ids) fp (conflict_boundary c)]"
    and audits: "ad_audits db' = ad_audits db @ [\<lparr>au_id = ae_audit_id env, au_actor = ae_redact_text env (lit ''system''),
       au_action = lit ''librarian_resolve_conflict'', au_target_type = lit ''card'',
       au_target = (if selected = [] then None else Some (ae_redact_text env selected)), au_payload = body,
       au_created = ae_audit_now env\<rparr>]"
    and fresh: "ae_audit_id env \<notin> set (map au_id (ad_audits db))" "2 \<le> length ids" "action \<in> {lit ''dismiss'', lit ''supersede''}"
    "(action, fp) \<notin> set (map (\<lambda>x. (rc_action x, rc_fingerprint x)) (ad_receipts db))"
    by (rule record_receipt_cases)
  have "hd (sort ids) \<in> set ids" using c(2) by (metis hd_in_set set_empty set_sort)
  with kept c(1) have b: "conflict_boundary c = b" by (auto simp: kept_member_def)
  note q = quiet [unfolded not_redacted_def]
  have rows: "receipt_members i (ad_members db'') = new"
    unfolding same new(2) using names(3) members_of_enumerate(2,3) [OF new(1)] by (intro receipt_members_new) auto
  note mem = recorded_members [where env = env and grp = grp and fp = fp, OF new(1) fresh(2) kept ids scope refl]
  have hex: "is_hex 64 fp" and same_fp: "conflict_component_fingerprint cards' (sort ids) = Inr fp"
  proof -
    have "\<forall>j\<in>set ids. find_card j cards \<noteq> None" using kept by (auto simp: kept_member_def)
    from fingerprint_ok [OF this] fp show "is_hex 64 fp" by auto
    have "conflict_component_fingerprint cards' ids = conflict_component_fingerprint cards ids"
      using kept by (intro fingerprint_cong) (fastforce simp: kept_member_def)
    moreover have "conflict_component_fingerprint cards' (sort ids) = conflict_component_fingerprint cards' ids"
      using ids(1) by (simp add: conflict_component_fingerprint_def distinct_remdups_id sort_key_id_if_sorted)
    ultimately show "conflict_component_fingerprint cards' (sort ids) = Inr fp" using fp by simp
  qed
  have head: "receipt_head_error ?r (Some action) (Some fp) = None"
    using names i fresh(3) hex by (auto simp: receipt_head_error_def recorded_def)
  have topology: "action = lit ''supersede'' \<Longrightarrow> \<not> list_ex (\<lambda>j. \<not> superseded_by_selected cards' ?r j) (sort ids)"
    using kept unfolding list_ex_iff by (fastforce simp: superseded_by_selected_def kept_member_def recorded_def)
  have audit: "audit_error rp (ad_audits db'') ?r (sort ids) = None"
  proof (rule recorded_audit)
    show "dumps store_json (resolution_payload i action grp fp selected (sort (sort ids)) b) = Inr body"
      using body b q by (simp add: sort_key_id_if_sorted)
    have "find (\<lambda>a. au_id a = ae_audit_id env) (ad_audits db) = None" using fresh(1) by (force simp: find_None_all)
    then show "find (\<lambda>a. au_id a = ae_audit_id env) (ad_audits db'') = Some \<lparr>au_id = ae_audit_id env, au_actor = lit ''system'',
       au_action = lit ''librarian_resolve_conflict'', au_target_type = lit ''card'',
       au_target = (if selected = [] then None else Some selected), au_payload = body, au_created = ae_audit_now env\<rparr>"
      unfolding same audits using q by (simp add: find_snoc)
  qed (use plain i in \<open>simp_all add: list_all_iff\<close>)
  have rid: "rc_id ?r = i" "rc_fingerprint ?r = fp" "rc_action ?r = action" by (simp_all add: recorded_def i)
  show ?accepted
    unfolding conflict_resolution_receipt_error_def Let_def rid rows mem head option.case same_fp bindE_simps audit
    using topology by auto
  show ?only
    unfolding same rc b using fresh(4) rid by (force simp: filter_empty_conv)
qed


lemma recorded_receipt_valid:
  assumes run: "record_conflict_resolution_receipt env cards action grp selected ids fp db = Inr (db', i)"
    and quiet: "not_redacted env selected (resolution_payload i action grp fp selected (sort ids) b)"
    and plain: "list_all (readable True) ([i, action, grp, fp, selected, fst b, fst (snd b), snd (snd b)] @ ids)"
    and names: "i \<noteq> []" "grp \<noteq> []" "i \<notin> set (map mb_receipt (ad_members db))"
    and fp: "conflict_component_fingerprint cards ids = Inr fp"
    and kept: "\<forall>j\<in>set ids. kept_member cards cards' b action selected j" and ids: "distinct ids" "selected \<in> set ids"
    and scope: "fst b \<in> set valid_visibility_scopes"
    and same: "ad_receipts db'' = ad_receipts db'" "ad_members db'' = ad_members db'" "ad_audits db'' = ad_audits db'"
  shows "valid_conflict_resolution_receipt rp cards' db'' action fp ids = Inr (Some (recorded env action grp selected (length ids) fp b))"
  using recorded_receipt_accepted [OF run quiet plain names fp kept ids scope same]
  by (simp add: valid_conflict_resolution_receipt_def)

text \<open>Recording succeeds for fresh identifiers and a component without a receipt.\<close>

lemma payload_dumps: "isOk (dumps store_json (resolution_payload i action grp fp selected ordered b))"
proof -
  have strs: "isOk (mapE (dumps store_json) (map PStr xs))" for xs by (simp add: mapE_isOk)
  then show ?thesis
    unfolding resolution_payload_def
    by (intro mkdict_ok) (auto simp: expected_boundary_def mkdict_def isOk_iff split: prod.splits)
qed

lemma record_members_ok:
  assumes "distinct (map snd ps)" "distinct (map fst ps)" "\<forall>p\<in>set ps. find_card (snd p) cards \<noteq> None \<and> snd p \<in> set (map sc_id (ad_cards db))"
    "i \<in> set (map rc_id (ad_receipts db))"
    "\<forall>p\<in>set ps. (i, snd p) \<notin> set (map (\<lambda>x. (mb_receipt x, mb_card x)) (ad_members db))
       \<and> (i, int (fst p)) \<notin> set (map (\<lambda>x. (mb_receipt x, mb_ordinal x)) (ad_members db))"
  shows "isOk (foldE (record_member cards i) db ps)"
  using assms
proof (induction ps arbitrary: db)
  case (Cons p ps)
  from Cons.prems(3) obtain c where c: "find_card (snd p) cards = Some c" by auto
  obtain h where h: "conflict_member_binding_hash c = Inr h" using binding_hash_ok by blast
  let ?m = "\<lparr>mb_receipt = i, mb_card = snd p, mb_ordinal = int (fst p), mb_hash = h\<rparr>"
  have "insert_member ?m db = Inr (db\<lparr>ad_members := ad_members db @ [?m]\<rparr>)"
    using Cons.prems(3,4,5) by (simp add: insert_member_def ensure_def)
  then have step: "record_member cards i db p = Inr (db\<lparr>ad_members := ad_members db @ [?m]\<rparr>)"
    by (simp add: record_member_def the_card_def c h)
  have "isOk (foldE (record_member cards i) (db\<lparr>ad_members := ad_members db @ [?m]\<rparr>) ps)"
    by (rule Cons.IH) (use Cons.prems in \<open>auto simp: image_iff\<close>)
  with step show ?case by simp
qed simp

lemma record_ok:
  assumes ids: "distinct ids" "2 \<le> length ids" "\<forall>j\<in>set ids. find_card j cards \<noteq> None \<and> j \<in> set (map sc_id (ad_cards db))"
    and sel: "selected \<in> set ids" "action \<in> {lit ''dismiss'', lit ''supersede''}"
    and quiet: "ae_redact_value env = (\<lambda>v. v)"
    and fresh: "ae_audit_id env \<notin> set (map au_id (ad_audits db))" "ae_audit_id env \<notin> set (map rc_audit (ad_receipts db))"
      "ae_resolution_id env \<notin> set (map rc_id (ad_receipts db))" "ae_resolution_id env \<notin> set (map mb_receipt (ad_members db))"
      "(action, fp) \<notin> set (map (\<lambda>x. (rc_action x, rc_fingerprint x)) (ad_receipts db))"
  shows "isOk (record_conflict_resolution_receipt env cards action grp selected ids fp db)"
proof -
  obtain i0 rest where so: "sort ids = i0 # rest" using ids(2) by (cases "sort ids") (auto dest: arg_cong [of _ _ length])
  then have "i0 \<in> set ids" by (metis list.set_intros(1) set_sort)
  with ids(3) obtain c where "find_card i0 cards = Some c" by fastforce
  then have first: "first_card cards (sort ids) = Inr c" by (simp add: first_card_def so the_card_def)
  let ?pay = "resolution_payload (ae_resolution_id env) action grp fp selected (sort ids) (conflict_boundary c)"
  obtain body where body: "dumps store_json ?pay = Inr body" using payload_dumps [of "ae_resolution_id env" action grp fp selected "sort ids" "conflict_boundary c"]
    by (auto simp: isOk_iff)
  let ?a = "\<lparr>au_id = ae_audit_id env, au_actor = ae_redact_text env (lit ''system''), au_action = lit ''librarian_resolve_conflict'',
     au_target_type = lit ''card'', au_target = (if selected = [] then None else Some (ae_redact_text env selected)),
     au_payload = body, au_created = ae_audit_now env\<rparr>"
  let ?db1 = "db\<lparr>ad_audits := ad_audits db @ [?a]\<rparr>"
  have audit: "audit_event env (lit ''librarian_resolve_conflict'') (lit ''card'') (Some selected) (lit ''system'') ?pay db
      = Inr (?db1, ae_audit_id env)"
    using fresh(1) by (simp add: audit_event_def quiet body ensure_def)
  have "find (\<lambda>a. au_id a = ae_audit_id env) (ad_audits db) = None" using fresh(1) by (force simp: find_None_all)
  then have found: "find (\<lambda>a. au_id a = ae_audit_id env) (ad_audits ?db1) = Some ?a" by (simp add: find_snoc)
  let ?r = "recorded env action grp selected (length ids) fp (conflict_boundary c)"
  have "selected \<in> set (map sc_id (ad_cards db))" using sel(1) ids(3) by auto
  then have ins: "insert_receipt ?r ?db1 = Inr (?db1\<lparr>ad_receipts := ad_receipts ?db1 @ [?r]\<rparr>)"
    using ids(2) sel(2) fresh by (simp add: insert_receipt_def recorded_def ensure_def)
  have "isOk (foldE (record_member cards (ae_resolution_id env)) (?db1\<lparr>ad_receipts := ad_receipts ?db1 @ [?r]\<rparr>) (enumerate 0 (sort ids)))"
  proof (rule record_members_ok)
    show "\<forall>p\<in>set (enumerate 0 (sort ids)). find_card (snd p) cards \<noteq> None
        \<and> snd p \<in> set (map sc_id (ad_cards (?db1\<lparr>ad_receipts := ad_receipts ?db1 @ [?r]\<rparr>)))"
    proof
      fix p
      assume "p \<in> set (enumerate 0 (sort ids))"
      then have "snd p \<in> set ids" by (metis in_set_zip enumerate_eq_zip nth_mem set_sort)
      with ids(3) show "find_card (snd p) cards \<noteq> None
        \<and> snd p \<in> set (map sc_id (ad_cards (?db1\<lparr>ad_receipts := ad_receipts ?db1 @ [?r]\<rparr>)))" by simp
    qed
  qed (use ids(1) fresh(4) in \<open>auto simp: recorded_def image_iff\<close>)
  then show ?thesis
    unfolding record_conflict_resolution_receipt_def Let_def first bindE_simps audit split_conv found option.case
    using ins by (simp add: recorded_def isOk_iff)
qed

end
