(* ===== verification/Conflict_Resolution.thy ===== *)
theory Conflict_Resolution
  imports Conflict_Receipts
begin

text \<open>
  \<open>resolve_conflict\<close> of \<open>core/workers.py\<close>: one transaction that promotes a Card over all its peers, or dismisses
  their conflict.  The peers are the other Cards of the conflict group, or, for the checkpoints of a project, all
  other current heads of the same visibility boundary.
\<close>

section \<open>The peers\<close>

definition member_type :: "card \<Rightarrow> pystr" where
  "member_type c = py_strip (casefold (sc_type c))"

definition project_state_type :: pystr where
  "project_state_type = lit ''project_state''"

text \<open>\<open>dict.fromkeys\<close> keeps the first of equal values.\<close>

definition requested_ids :: "pystr list option \<Rightarrow> pystr list" where
  "requested_ids xs = rev (remdups (rev (filter (\<lambda>s. s \<noteq> []) (map py_strip (case xs of None \<Rightarrow> [] | Some l \<Rightarrow> l)))))"

definition group_peers :: "card list \<Rightarrow> pystr \<Rightarrow> pystr \<Rightarrow> card list" where
  "group_peers cards i grp =
     (if grp = [] then [] else filter (\<lambda>c. cd_group c = Some grp \<and> sc_id c \<noteq> i) (sort_key sc_id cards))"

definition check_peers :: "card list \<Rightarrow> card \<Rightarrow> card list \<Rightarrow> pystr \<Rightarrow> py_error + unit" where
  "check_peers cards winner peers action =
     (let types = map member_type (winner # peers) in
      bindE (ensure (\<forall>p\<in>set peers. sc_id p \<in> set (current_ids cards))
        (ValueError ''conflict group contains historical or superseded cards'')) (\<lambda>_.
      bindE (ensure (\<forall>p\<in>set peers. conflict_boundary p = conflict_boundary winner)
        (ValueError ''conflict group crosses visibility boundaries'')) (\<lambda>_.
      ensure (\<not> (action = lit ''supersede'' \<and> project_state_type \<in> set types \<and> 1 < length (remdups types)))
        (ValueError ''project_state conflict groups cannot include non-project_state cards''))))"

definition confirm :: "pystr list \<Rightarrow> pystr list \<Rightarrow> string \<Rightarrow> string \<Rightarrow> py_error + unit" where
  "confirm requested peer_ids unknown omitted =
     bindE (ensure (set requested \<subseteq> set peer_ids) (ValueError unknown)) (\<lambda>_.
     ensure (set peer_ids \<subseteq> set requested) (ValueError omitted))"

definition confirm_group :: "pystr list \<Rightarrow> pystr list \<Rightarrow> py_error + unit" where
  "confirm_group requested peer_ids =
     (if requested = [] then Inr ()
      else confirm requested peer_ids ''cards are not peers in conflict group''
             ''partial conflict resolution is not allowed'')"

definition authority_peers :: "card list \<Rightarrow> card \<Rightarrow> pystr list" where
  "authority_peers cards winner =
     sort (filter (\<lambda>i. i \<noteq> sc_id winner \<and> (case find_card i cards of None \<Rightarrow> False
         | Some c \<Rightarrow> member_type c = project_state_type \<and> conflict_boundary c = conflict_boundary winner)) (current_ids cards))"

text \<open>No group may be only partly inside the boundary.\<close>

definition check_authority_group :: "card list \<Rightarrow> pystr list \<Rightarrow> pystr \<Rightarrow> py_error + unit" where
  "check_authority_group cards all_ids grp =
     (let members = map sc_id (filter (\<lambda>c. conflict_group c = grp) cards) in
      ensure (2 \<le> length members \<and> set members \<subseteq> set all_ids)
        (ValueError ''project-state authority boundary intersects an incomplete conflict group''))"

definition authority_groups :: "card list \<Rightarrow> pystr list \<Rightarrow> pystr list" where
  "authority_groups cards all_ids =
     sort (remdups (filter (\<lambda>g. g \<noteq> []) (map (\<lambda>i. case find_card i cards of None \<Rightarrow> [] | Some c \<Rightarrow> conflict_group c) all_ids)))"

definition all_members :: "pystr \<Rightarrow> pystr list \<Rightarrow> pystr list" where
  "all_members i peer_ids = sort (remdups (i # peer_ids))"

definition authority_name :: "pystr list \<Rightarrow> pystr" where
  "authority_name all_ids = take 16 (content_hash (lit ''continuum_project_state_authority_resolution_v1|''
     @ (case all_ids of [] \<Rightarrow> [] | x # xs \<Rightarrow> x @ concat (map (\<lambda>y. 124 # y) xs))))"

definition confirm_authority :: "card list \<Rightarrow> card \<Rightarrow> pystr list \<Rightarrow> pystr list \<Rightarrow> py_error + pystr list \<times> pystr" where
  "confirm_authority cards winner authority requested =
     (let all_ids = all_members (sc_id winner) authority in
      bindE (ensure (authority \<noteq> []) (ValueError ''project-state authority boundary has no other current heads'')) (\<lambda>_.
      bindE (ensure (requested \<noteq> [])
        (ValueError ''project-state authority resolution requires explicit confirmation of every other current head'')) (\<lambda>_.
      bindE (confirm requested authority ''cards are not current project-state authority peers in the selected boundary''
        ''partial authority resolution is not allowed'') (\<lambda>_.
      bindE (mapE (check_authority_group cards all_ids) (authority_groups cards all_ids)) (\<lambda>_.
        Inr (authority, authority_name all_ids))))))"

text \<open>The peers and the name of the conflict.\<close>

definition select_peers :: "card list \<Rightarrow> card \<Rightarrow> pystr \<Rightarrow> pystr list \<Rightarrow> py_error + pystr list \<times> pystr" where
  "select_peers cards winner action requested =
     (let grp = conflict_group winner; peers = group_peers cards (sc_id winner) grp; peer_ids = map sc_id peers in
      bindE (check_peers cards winner peers action) (\<lambda>_.
      bindE (if action = lit ''supersede'' \<and> member_type winner = project_state_type then
               (let authority = authority_peers cards winner in
                if grp = [] \<or> set authority \<noteq> set peer_ids then confirm_authority cards winner authority requested
                else bindE (confirm_group requested peer_ids) (\<lambda>_. Inr (peer_ids, grp)))
             else bindE (ensure (grp \<noteq> []) (ValueError ''card is not contested'')) (\<lambda>_.
                  bindE (confirm_group requested peer_ids) (\<lambda>_. Inr (peer_ids, grp)))) (\<lambda>(ids, name).
      bindE (ensure (ids \<noteq> []) (ValueError ''conflict group has no peers'')) (\<lambda>_. Inr (ids, name)))))"

section \<open>The updates\<close>

definition check_integrity ::
  "(pyval \<Rightarrow> pystr) \<Rightarrow> (pyfloat \<Rightarrow> int) \<Rightarrow> authority_db \<Rightarrow> pystr \<Rightarrow> py_error + unit" where
  "check_integrity rp fi db i =
     bindE (project_state_card_integrity_error rp fi (map state_card.truncate (ad_cards db)) (ad_events db) i None) (\<lambda>e.
       ensure (e = None) (ValueError ''project-state authority member failed integrity validation''))"

text \<open>\<open>max(xs, key=...)\<close>: the first of the greatest.\<close>

fun max_by :: "('a \<Rightarrow> 'b::linorder) \<Rightarrow> 'a \<Rightarrow> 'a list \<Rightarrow> 'a" where
  "max_by key best [] = best"
| "max_by key best (x # xs) = max_by key (if key best < key x then x else best) xs"

definition direct_predecessor :: "card list \<Rightarrow> pystr list \<Rightarrow> pystr" where
  "direct_predecessor cards ids =
     (let key = (\<lambda>i. case find_card i cards of None \<Rightarrow> ([], 0) | Some c \<Rightarrow> (cd_created c, cd_rowid c))
      in case ids of [] \<Rightarrow> [] | i # is \<Rightarrow> max_by key i is)"

definition update_cards :: "(card \<Rightarrow> card) \<Rightarrow> pystr list \<Rightarrow> authority_db \<Rightarrow> authority_db" where
  "update_cards f ids db =
     db\<lparr>ad_cards := map (\<lambda>c. if sc_id c \<in> set ids then f c else c) (ad_cards db),
        ad_epoch := ad_epoch db + int (length (filter (\<lambda>c. sc_id c \<in> set ids) (ad_cards db)))\<rparr>"

definition retire_peer :: "pystr \<Rightarrow> pystr \<Rightarrow> card \<Rightarrow> card" where
  "retire_peer winner now c = c\<lparr>cd_superseded_by := Some winner, cd_group := None, cd_updated := now\<rparr>"

definition promote :: "pystr \<Rightarrow> pystr \<Rightarrow> card \<Rightarrow> card" where
  "promote pred now c =
     c\<lparr>cd_supersedes := (case cd_supersedes c of None \<Rightarrow> Some pred | Some p \<Rightarrow> Some p), cd_group := None,
       cd_status := (if cd_status c = lit ''pending_librarian_review'' then lit ''active'' else cd_status c), cd_updated := now\<rparr>"

definition release :: "pystr \<Rightarrow> card \<Rightarrow> card" where
  "release now c = c\<lparr>cd_group := None, cd_updated := now\<rparr>"

definition apply_supersede :: "authority_env \<Rightarrow> pystr graph \<Rightarrow> pystr \<Rightarrow> pystr list \<Rightarrow> authority_db \<Rightarrow> py_error + authority_db" where
  "apply_supersede env g i peer_ids db =
     bindE (ensure (\<not> list_ex (supersession_reaches g i) peer_ids)
       (ValueError ''conflict resolution would reverse existing supersession'')) (\<lambda>_.
     Inr (update_cards (promote (direct_predecessor (ad_cards db) peer_ids) (ae_now env)) [i]
       (update_cards (retire_peer i (ae_now env)) peer_ids db)))"

definition apply_action :: "authority_env \<Rightarrow> pystr graph \<Rightarrow> pystr \<Rightarrow> pystr \<Rightarrow> pystr list \<Rightarrow> authority_db \<Rightarrow> py_error + authority_db" where
  "apply_action env g action i peer_ids db =
     (if action = lit ''supersede'' then apply_supersede env g i peer_ids db
      else Inr (foldl (\<lambda>d m. update_cards (release (ae_now env)) [m] d) db (all_members i peer_ids)))"

section \<open>The transaction\<close>

record resolution =
  rs_peers :: "pystr list"
  rs_group :: pystr
  rs_id :: pystr
  rs_fingerprint :: pystr

text \<open>Everything before the final check.\<close>

definition resolution_writes ::
  "(pyval \<Rightarrow> pystr) \<Rightarrow> (pyfloat \<Rightarrow> int) \<Rightarrow> authority_env \<Rightarrow> pystr \<Rightarrow> pystr \<Rightarrow> pystr list option \<Rightarrow> authority_db
     \<Rightarrow> py_error + authority_db \<times> resolution" where
  "resolution_writes rp fi env i action superseded db =
     bindE (ensure (action \<in> {lit ''supersede'', lit ''dismiss''}) (ValueError ''action must be supersede or dismiss'')) (\<lambda>_.
     bindE (assert_supersession_dag (ad_cards db)) (\<lambda>g.
     bindE (case find_card i (ad_cards db) of None \<Rightarrow> Inl (ValueError ''card not found'') | Some c \<Rightarrow> Inr c) (\<lambda>winner.
     bindE (ensure (i \<in> set (current_ids (ad_cards db))) (ValueError ''historical or superseded card cannot win a conflict'')) (\<lambda>_.
     bindE (select_peers (ad_cards db) winner action (requested_ids superseded)) (\<lambda>(peer_ids, grp).
     bindE (if member_type winner = project_state_type then mapE (check_integrity rp fi db) (all_members i peer_ids) else Inr []) (\<lambda>_.
     bindE (conflict_component_fingerprint (ad_cards db) (all_members i peer_ids)) (\<lambda>fingerprint.
     bindE (apply_action env g action i peer_ids db) (\<lambda>db1.
     bindE (record_conflict_resolution_receipt env (ad_cards db) action grp i (all_members i peer_ids) fingerprint db1) (\<lambda>(db2, rid).
       Inr (db2, \<lparr>rs_peers = peer_ids, rs_group = grp, rs_id = rid, rs_fingerprint = fingerprint\<rparr>))))))))))"

definition resolve_conflict ::
  "(pyval \<Rightarrow> pystr) \<Rightarrow> (pyfloat \<Rightarrow> int) \<Rightarrow> authority_env \<Rightarrow> pystr \<Rightarrow> pystr \<Rightarrow> pystr list option \<Rightarrow> authority_db
     \<Rightarrow> py_error + authority_db \<times> resolution" where
  "resolve_conflict rp fi env i action superseded db =
     bindE (resolution_writes rp fi env i action superseded db) (\<lambda>(db1, rs).
     bindE (assert_supersession_dag (ad_cards db1)) (\<lambda>_.
       Inr (fst (mark_card_sidecar_outbox env (all_members i (rs_peers rs))
              (if action = lit ''supersede'' then lit ''conflict_supersede_resolved'' else lit ''conflict_dismiss_resolved'') db1), rs)))"

section \<open>The peers\<close>

lemma find_cardD: "find_card i cards = Some c \<Longrightarrow> c \<in> set cards \<and> sc_id c = i"
  by (auto simp: find_card_def dest: find_SomeD)

lemma find_card_distinct: "distinct (map sc_id cards) \<Longrightarrow> c \<in> set cards \<Longrightarrow> find_card (sc_id c) cards = Some c"
  by (induction cards) (auto simp: find_card_def)

lemma current_iff: "i \<in> set (current_ids cards) \<longleftrightarrow> (\<exists>c\<in>set cards. sc_id c = i \<and> is_current cards c)"
  by (auto simp: current_ids_def)

lemma distinct_current: "distinct (map sc_id cards) \<Longrightarrow> distinct (current_ids cards)"
proof -
  assume "distinct (map sc_id cards)"
  then have "distinct (map sc_id (sort_key cd_rowid cards))" by (simp add: distinct_map)
  then show ?thesis unfolding current_ids_def by (rule distinct_map_filter)
qed

definition is_peer :: "card list \<Rightarrow> card \<Rightarrow> pystr \<Rightarrow> pystr \<Rightarrow> bool" where
  "is_peer cards winner action p \<longleftrightarrow> p \<noteq> sc_id winner
     \<and> (\<exists>c. find_card p cards = Some c \<and> is_current cards c \<and> conflict_boundary c = conflict_boundary winner
        \<and> (action = lit ''supersede'' \<longrightarrow> (member_type c = project_state_type \<longleftrightarrow> member_type winner = project_state_type)))"

definition whole :: "card list \<Rightarrow> card \<Rightarrow> pystr \<Rightarrow> pystr list \<Rightarrow> pystr \<Rightarrow> bool" where
  "whole cards winner action ids name \<longleftrightarrow>
     (if action = lit ''supersede'' \<and> member_type winner = project_state_type
      then set ids = set (authority_peers cards winner)
      else name = conflict_group winner \<and> set ids = {sc_id c |c. c \<in> set cards \<and> cd_group c = Some name \<and> sc_id c \<noteq> sc_id winner})"

lemma authority_name_ne: "authority_name ids \<noteq> []"
proof -
  have "content_hash s \<noteq> []" for s
    using sha256_bytes_hex [of "utf8_replace s"] by (auto simp: content_hash_def is_hex_def)
  then show ?thesis by (simp add: authority_name_def)
qed

lemma current_card:
  assumes "distinct (map sc_id cards)" "find_card i cards = Some c"
  shows "i \<in> set (current_ids cards) \<longleftrightarrow> is_current cards c"
proof -
  have "d = c" if "d \<in> set cards" "sc_id d = i" for d
    using find_card_distinct [OF assms(1) that(1)] that(2) assms(2) by simp
  with find_cardD [OF assms(2)] show ?thesis unfolding current_iff by blast
qed

lemma authority_peer: "p \<in> set (authority_peers cards winner) \<longleftrightarrow> p \<in> set (current_ids cards) \<and> p \<noteq> sc_id winner
    \<and> (\<exists>c. find_card p cards = Some c \<and> member_type c = project_state_type \<and> conflict_boundary c = conflict_boundary winner)"
  by (auto simp: authority_peers_def split: option.splits)

lemma length_le_one: "distinct xs \<Longrightarrow> \<not> 1 < length xs \<longleftrightarrow> (\<forall>x\<in>set xs. \<forall>y\<in>set xs. x = y)"
proof (cases xs)
  case (Cons a l)
  assume "distinct xs"
  with Cons show ?thesis by (cases l) auto
qed simp

lemma select_peers_props:
  assumes sel: "select_peers cards winner action requested = Inr (ids, name)"
    and dist: "distinct (map sc_id cards)"
  shows "ids \<noteq> []" "name \<noteq> []" "distinct ids" "whole cards winner action ids name"
    "\<forall>p\<in>set ids. is_peer cards winner action p"
proof -
  let ?grp = "conflict_group winner" and ?peers = "group_peers cards (sc_id winner) (conflict_group winner)"
  let ?auth = "authority_peers cards winner" and ?heads = "action = lit ''supersede'' \<and> member_type winner = project_state_type"
  have gp: "check_peers cards winner ?peers action = Inr ()" and ne: "ids \<noteq> []"
    and cases: "?heads \<and> ids = ?auth \<and> name \<noteq> [] \<or> ?grp \<noteq> [] \<and> ids = map sc_id ?peers \<and> name = ?grp \<and> (?heads \<longrightarrow> set ?auth = set ids)"
    using sel by (auto simp: select_peers_def Let_def confirm_authority_def authority_name_ne split: if_splits)
  show "ids \<noteq> []" by (rule ne)
  show "name \<noteq> []" using cases by auto
  have "distinct (map sc_id ?peers)"
    using dist by (auto simp: group_peers_def distinct_map intro: inj_on_subset)
  moreover have "distinct ?auth" using distinct_current [OF dist] by (simp add: authority_peers_def)
  ultimately show "distinct ids" using cases by auto
  have "set (map sc_id ?peers) = {sc_id c |c. c \<in> set cards \<and> cd_group c = Some ?grp \<and> sc_id c \<noteq> sc_id winner}" if "?grp \<noteq> []"
    using that by (auto simp: group_peers_def)
  with cases show "whole cards winner action ids name" by (auto simp: whole_def)
  have one: "is_peer cards winner action p" if p: "p \<in> set (map sc_id ?peers)" for p
  proof -
    from p obtain c where c: "c \<in> set ?peers" "p = sc_id c" by auto
    with gp have "sc_id c \<in> set (current_ids cards)" "conflict_boundary c = conflict_boundary winner"
      by (auto simp: check_peers_def Let_def)
    moreover have "find_card p cards = Some c" "p \<noteq> sc_id winner"
      using c find_card_distinct [OF dist] by (auto simp: group_peers_def split: if_splits)
    moreover have "member_type c = project_state_type \<longleftrightarrow> member_type winner = project_state_type" if "action = lit ''supersede''"
    proof -
      let ?types = "map member_type (winner # ?peers)"
      have "\<not> (project_state_type \<in> set ?types \<and> 1 < length (remdups ?types))"
        using gp that unfolding check_peers_def Let_def bindE_Inr_iff ensure_Inr by blast
      then have "project_state_type \<in> set ?types \<longrightarrow> (\<forall>x\<in>set ?types. \<forall>y\<in>set ?types. x = y)"
        using length_le_one [of "remdups ?types"] unfolding set_remdups by (metis distinct_remdups)
      moreover have "member_type c \<in> set ?types" "member_type winner \<in> set ?types" using c(1) by simp_all
      ultimately show ?thesis by metis
    qed
    ultimately show ?thesis using current_card [OF dist] c(2) by (auto simp: is_peer_def)
  qed
  moreover have "is_peer cards winner action p" if "p \<in> set ?auth" "?heads" for p
    using that current_card [OF dist] by (auto simp: authority_peer is_peer_def)
  ultimately show "\<forall>p\<in>set ids. is_peer cards winner action p" using cases by auto
qed

text \<open>A resolution never leaves a conflict group half resolved, where group names have no blanks around them.\<close>

definition plain_groups :: "card list \<Rightarrow> bool" where
  "plain_groups cards \<longleftrightarrow> (\<forall>c\<in>set cards. \<forall>g. cd_group c = Some g \<longrightarrow> py_strip g = g)"

lemma plain_group: "plain_groups cards \<Longrightarrow> c \<in> set cards \<Longrightarrow> conflict_group c = g \<Longrightarrow> g \<noteq> [] \<Longrightarrow> cd_group c = Some g"
  by (cases "cd_group c") (auto simp: plain_groups_def conflict_group_def py_strip_def)

lemma select_peers_closed:
  assumes sel: "select_peers cards winner action requested = Inr (ids, name)"
    and dist: "distinct (map sc_id cards)" and winner: "winner \<in> set cards" and plain: "plain_groups cards"
    and c: "c \<in> set cards" "sc_id c \<in> insert (sc_id winner) (set ids)"
    and d: "d \<in> set cards" "conflict_group d = conflict_group c" "conflict_group c \<noteq> []"
  shows "sc_id d \<in> insert (sc_id winner) (set ids)"
proof -
  let ?grp = "conflict_group winner" and ?all = "all_members (sc_id winner) ids"
  have set_all: "set ?all = insert (sc_id winner) (set ids)" unfolding all_members_def by (simp only: set_sort set_remdups list.set)
  have "(\<exists>u. mapE (check_authority_group cards ?all) (authority_groups cards ?all) = Inr u)
      \<or> ?grp \<noteq> [] \<and> ids = map sc_id (group_peers cards (sc_id winner) ?grp)"
    using sel by (auto simp: select_peers_def Let_def confirm_authority_def split: if_splits)
  then show ?thesis
  proof
    assume "\<exists>u. mapE (check_authority_group cards ?all) (authority_groups cards ?all) = Inr u"
    then obtain u where u: "mapE (check_authority_group cards ?all) (authority_groups cards ?all) = Inr u" by blast
    have "conflict_group c \<in> set (authority_groups cards ?all)"
    proof -
      have "(case find_card (sc_id c) cards of None \<Rightarrow> [] | Some c \<Rightarrow> conflict_group c) = conflict_group c"
        by (simp add: find_card_distinct [OF dist c(1)])
      then show ?thesis using c(2) d(3) unfolding authority_groups_def set_sort set_remdups set_filter set_map set_all by force
    qed
    from mapE_memD [OF u this] have "set (map sc_id (filter (\<lambda>x. conflict_group x = conflict_group c) cards)) \<subseteq> set ?all"
      by (auto simp: check_authority_group_def Let_def)
    with d(1,2) show ?thesis unfolding set_all by auto
  next
    assume group: "?grp \<noteq> [] \<and> ids = map sc_id (group_peers cards (sc_id winner) ?grp)"
    have "conflict_group c = ?grp"
    proof (cases "sc_id c = sc_id winner")
      case True
      then show ?thesis using find_card_distinct [OF dist c(1)] find_card_distinct [OF dist winner] by (metis option.inject)
    next
      case False
      with c(2) group obtain p where "p \<in> set cards" "cd_group p = Some ?grp" "sc_id p = sc_id c"
        by (auto simp: group_peers_def)
      then have "p = c" using find_card_distinct [OF dist, of p] find_card_distinct [OF dist c(1)] by (metis option.inject)
      then have "cd_group c = Some ?grp" using \<open>cd_group p = Some ?grp\<close> by simp
      then show ?thesis using plain c(1) by (auto simp: plain_groups_def conflict_group_def)
    qed
    with plain_group [OF plain d(1)] d(2) group have "cd_group d = Some ?grp" by simp
    with group d(1) show ?thesis by (auto simp: group_peers_def)
  qed
qed

section \<open>The Cards after a resolution\<close>

definition superseded_card :: "pystr \<Rightarrow> pystr list \<Rightarrow> pystr \<Rightarrow> pystr \<Rightarrow> card \<Rightarrow> card" where
  "superseded_card i ids pred now c =
     (if sc_id c = i then promote pred now c else if sc_id c \<in> set ids then retire_peer i now c else c)"

definition released_card :: "pystr list \<Rightarrow> pystr \<Rightarrow> card \<Rightarrow> card" where
  "released_card ids now c = (if sc_id c \<in> set ids then release now c else c)"

lemma promote_fields [simp]: "sc_id (promote p now c) = sc_id c" "cd_group (promote p now c) = None"
  "cd_superseded_by (promote p now c) = cd_superseded_by c"
  by (simp_all add: promote_def)

lemma retire_fields [simp]: "sc_id (retire_peer w now c) = sc_id c" "cd_group (retire_peer w now c) = None"
  "cd_superseded_by (retire_peer w now c) = Some w" "cd_supersedes (retire_peer w now c) = cd_supersedes c"
  "cd_status (retire_peer w now c) = cd_status c"
  by (simp_all add: retire_peer_def)

lemma release_fields [simp]: "sc_id (release now c) = sc_id c" "cd_group (release now c) = None"
  "cd_superseded_by (release now c) = cd_superseded_by c" "cd_supersedes (release now c) = cd_supersedes c"
  "cd_status (release now c) = cd_status c"
  by (simp_all add: release_def)

lemma superseded_id [simp]: "sc_id (superseded_card i ids pred now c) = sc_id c"
  by (simp add: superseded_card_def)

lemma released_id [simp]: "sc_id (released_card ids now c) = sc_id c"
  by (simp add: released_card_def)

lemma apply_supersede_cards:
  assumes "apply_supersede env g i ids db = Inr db'" "i \<notin> set ids"
  shows "ad_cards db' = map (superseded_card i ids (direct_predecessor (ad_cards db) ids) (ae_now env)) (ad_cards db)"
    "\<forall>p\<in>set ids. \<not> supersession_reaches g i p"
    "ad_receipts db' = ad_receipts db" "ad_members db' = ad_members db" "ad_audits db' = ad_audits db" "ad_events db' = ad_events db"
  using assms by (auto simp: apply_supersede_def update_cards_def superseded_card_def list_ex_iff)

lemma release_all:
  "\<exists>n. foldl (\<lambda>d m. update_cards (release now) [m] d) db ms = db\<lparr>ad_cards := map (released_card ms now) (ad_cards db), ad_epoch := n\<rparr>"
proof (induction ms arbitrary: db)
  case Nil
  then show ?case by (intro exI [of _ "ad_epoch db"]) (simp add: released_card_def [abs_def])
next
  case (Cons m ms)
  have step: "released_card ms now (if sc_id c = m then release now c else c) = released_card (m # ms) now c" for c
    by (simp add: released_card_def release_def)
  from Cons.IH obtain n where "foldl (\<lambda>d m. update_cards (release now) [m] d) (update_cards (release now) [m] db) ms
      = (update_cards (release now) [m] db)\<lparr>ad_cards := map (released_card ms now) (ad_cards (update_cards (release now) [m] db)), ad_epoch := n\<rparr>"
    by blast
  then show ?case by (intro exI [of _ n]) (simp add: update_cards_def comp_def step)
qed

lemma apply_dismiss_cards:
  assumes "apply_action env g (lit ''dismiss'') i ids db = Inr db'"
  shows "ad_cards db' = map (released_card (all_members i ids) (ae_now env)) (ad_cards db)"
    "ad_receipts db' = ad_receipts db" "ad_members db' = ad_members db" "ad_audits db' = ad_audits db" "ad_events db' = ad_events db"
proof -
  from release_all [of "ae_now env" db "all_members i ids"] assms obtain n where
    "db' = db\<lparr>ad_cards := map (released_card (all_members i ids) (ae_now env)) (ad_cards db), ad_epoch := n\<rparr>"
    by (auto simp: apply_action_def)
  then show "ad_cards db' = map (released_card (all_members i ids) (ae_now env)) (ad_cards db)"
    "ad_receipts db' = ad_receipts db" "ad_members db' = ad_members db" "ad_audits db' = ad_audits db" "ad_events db' = ad_events db"
    by simp_all
qed

lemma find_card_map: "(\<And>c. sc_id (f c) = sc_id c) \<Longrightarrow> find_card i (map f cards) = map_option f (find_card i cards)"
  by (induction cards) (auto simp: find_card_def)

text \<open>An identifier that a column names and that reads back unchanged.\<close>

definition clean_id :: "pystr \<Rightarrow> bool" where
  "clean_id s \<longleftrightarrow> s \<noteq> [] \<and> py_strip s = s"

lemma max_by_in: "max_by key x xs \<in> set (x # xs)"
proof (induction xs arbitrary: x)
  case (Cons y ys)
  from Cons.IH [of "if key x < key y then y else x"] show ?case by (auto split: if_splits)
qed simp

lemma direct_predecessor_in: "ids \<noteq> [] \<Longrightarrow> direct_predecessor cards ids \<in> set ids"
proof (cases ids)
  case (Cons a l)
  have "max_by key a l \<in> set ids" for key :: "pystr \<Rightarrow> pystr \<times> int" unfolding Cons by (rule max_by_in)
  then show ?thesis by (simp add: direct_predecessor_def Cons Let_def)
qed simp

lemma current_successor: "is_current cards c \<Longrightarrow> successor c = []"
  by (simp add: is_current_def)

lemma links_iff: "(a, b) \<in> links C \<longleftrightarrow> (\<exists>c\<in>C. a = sc_id c \<and> b = successor c \<and> b \<noteq> []) \<or> (\<exists>c\<in>C. b = sc_id c \<and> a = predecessor c \<and> a \<noteq> [])"
  by (auto simp: links_def)

text \<open>The edges the transaction adds are those from the peers to the winner.\<close>

lemma superseded_links:
  assumes dist: "distinct (map sc_id cards)" and clean: "\<forall>c\<in>set cards. clean_id (sc_id c)"
    and winner: "\<exists>c. find_card i cards = Some c" and peers: "\<forall>p\<in>set ids. \<exists>c. find_card p cards = Some c \<and> is_current cards c"
    and i: "i \<notin> set ids" and pred: "pred \<in> set ids"
  shows "links (set (map (superseded_card i ids pred now) cards)) = links (set cards) \<union> {(p, i) |p. p \<in> set ids}"
proof -
  let ?U = "superseded_card i ids pred now"
  have ci: "py_strip i = i" "i \<noteq> []" using winner clean find_cardD by (fastforce simp: clean_id_def)+
  have cp: "py_strip pred = pred" "pred \<noteq> []" using peers pred clean find_cardD by (fastforce simp: clean_id_def)+
  have peer: "successor c = []" if "c \<in> set cards" "sc_id c \<in> set ids" for c
    using peers that find_card_distinct [OF dist] current_successor by fastforce
  have succ: "successor (?U c) = (if sc_id c \<in> set ids then i else successor c)" for c
    using i ci by (auto simp: superseded_card_def successor_def)
  have pre: "predecessor (?U c) = (if sc_id c = i \<and> cd_supersedes c = None then pred else predecessor c)" for c
    using cp by (auto simp: superseded_card_def predecessor_def promote_def split: option.splits)
  have "(a, b) \<in> links (set (map ?U cards)) \<longleftrightarrow> (a, b) \<in> links (set cards) \<or> (a \<in> set ids \<and> b = i)" for a b
  proof
    assume "(a, b) \<in> links (set (map ?U cards))"
    then show "(a, b) \<in> links (set cards) \<or> (a \<in> set ids \<and> b = i)"
      using pred by (auto simp: links_iff succ pre split: if_splits)
  next
    assume "(a, b) \<in> links (set cards) \<or> (a \<in> set ids \<and> b = i)"
    then consider c where "c \<in> set cards" "a = sc_id c" "b = successor c" "b \<noteq> []"
      | c where "c \<in> set cards" "b = sc_id c" "a = predecessor c" "a \<noteq> []" | "a \<in> set ids" "b = i"
      by (auto simp: links_iff)
    then show "(a, b) \<in> links (set (map ?U cards))"
    proof cases
      case 1
      with peer [of c] have "sc_id c \<notin> set ids" by auto
      with 1 show ?thesis by (auto simp: links_iff succ pre intro!: bexI [of _ c])
    next
      case 2
      then have "cd_supersedes c \<noteq> None" by (cases "cd_supersedes c") (simp_all add: predecessor_def py_strip_def)
      with 2 have "b = sc_id (?U c)" "a = predecessor (?U c)" by (auto simp: pre)
      with 2 show ?thesis unfolding links_iff by (metis image_eqI list.set_map)
    next
      case 3
      with peers obtain c where "c \<in> set cards" "sc_id c = a" using find_cardD by blast
      with 3 ci have "a = sc_id (?U c)" "b = successor (?U c)" by (simp_all add: succ)
      with \<open>c \<in> set cards\<close> 3 ci show ?thesis unfolding links_iff by (metis image_eqI list.set_map)
    qed
  qed
  then show ?thesis by auto
qed

lemma rtrancl_into_point: "(i, x) \<in> (E \<union> {(p, i) |p. p \<in> P})\<^sup>* \<Longrightarrow> (i, x) \<in> E\<^sup>*"
  by (induction rule: rtrancl_induct) (auto intro: rtrancl_into_rtrancl)

lemma acyclic_add_point:
  assumes "acyclic E" "finite P" "\<forall>p\<in>P. (i, p) \<notin> E\<^sup>*"
  shows "acyclic (E \<union> {(p, i) |p. p \<in> P})"
  using assms(2,3)
proof (induction P)
  case (insert p P)
  have "E \<union> {(q, i) |q. q \<in> insert p P} = insert (p, i) (E \<union> {(q, i) |q. q \<in> P})" by auto
  moreover have "(i, p) \<notin> (E \<union> {(q, i) |q. q \<in> P})\<^sup>*" using insert.prems rtrancl_into_point by fastforce
  ultimately show ?case using insert by (simp add: acyclic_insert)
qed (use assms(1) in simp)

text \<open>The topological check of any Cards is the acyclicity of their links.\<close>

lemma assert_dag_iff:
  assumes "distinct (map sc_id cards)"
  shows "assert_supersession_dag cards = Inr g \<Longrightarrow>
      edge g = links (set cards) \<and> links (set cards) \<subseteq> sc_id ` set cards \<times> sc_id ` set cards \<and> acyclic (links (set cards))"
    and "links (set cards) \<subseteq> sc_id ` set cards \<times> sc_id ` set cards \<Longrightarrow> acyclic (links (set cards)) \<Longrightarrow>
      \<exists>g. assert_supersession_dag cards = Inr g"
proof -
  assume "assert_supersession_dag cards = Inr g"
  then have g: "supersession_graph cards = Inr g" "topological g" by (auto simp: assert_supersession_dag_def)
  from supersession_graph_of [OF assms g(1)] have of: "graph_of (sc_id ` set cards) (links (set cards)) g" .
  with topological_acyclic [OF graph_of_closed [OF of]] g(2) show "edge g = links (set cards)
      \<and> links (set cards) \<subseteq> sc_id ` set cards \<times> sc_id ` set cards \<and> acyclic (links (set cards))"
    by (auto simp: graph_of_def)
next
  assume inside: "links (set cards) \<subseteq> sc_id ` set cards \<times> sc_id ` set cards" and acyc: "acyclic (links (set cards))"
  from graph_of_exists [OF assms inside] obtain g where g: "supersession_graph cards = Inr g" by blast
  from supersession_graph_of [OF assms g] have of: "graph_of (sc_id ` set cards) (links (set cards)) g" .
  with topological_acyclic [OF graph_of_closed [OF of]] acyc have "topological g" by (simp add: graph_of_def)
  with g have "assert_supersession_dag cards = Inr g" by (simp add: assert_supersession_dag_def)
  then show "\<exists>g. assert_supersession_dag cards = Inr g" by blast
qed

text \<open>What a successful run did before its final check.\<close>

definition resolved :: "authority_db \<Rightarrow> authority_env \<Rightarrow> pystr \<Rightarrow> pystr \<Rightarrow> pystr list \<Rightarrow> card list" where
  "resolved db env action i ids =
     (if action = lit ''supersede''
      then map (superseded_card i ids (direct_predecessor (ad_cards db) ids) (ae_now env)) (ad_cards db)
      else map (released_card (all_members i ids) (ae_now env)) (ad_cards db))"

lemma writes_cases:
  assumes run: "resolution_writes rp fi env i action superseded db = Inr (db', rs)" and dist: "distinct (map sc_id (ad_cards db))"
  obtains g winner db1 where "assert_supersession_dag (ad_cards db) = Inr g" "find_card i (ad_cards db) = Some winner"
    "is_current (ad_cards db) winner" "sc_id winner = i" "action \<in> {lit ''supersede'', lit ''dismiss''}"
    "whole (ad_cards db) winner action (rs_peers rs) (rs_group rs)"
    "\<forall>p\<in>set (rs_peers rs). is_peer (ad_cards db) winner action p" "rs_peers rs \<noteq> []" "distinct (rs_peers rs)" "rs_group rs \<noteq> []"
    "i \<notin> set (rs_peers rs)"
    "action = lit ''supersede'' \<Longrightarrow> \<forall>p\<in>set (rs_peers rs). \<not> supersession_reaches g i p"
    "\<exists>requested. select_peers (ad_cards db) winner action requested = Inr (rs_peers rs, rs_group rs)"
    "conflict_component_fingerprint (ad_cards db) (all_members i (rs_peers rs)) = Inr (rs_fingerprint rs)"
    "record_conflict_resolution_receipt env (ad_cards db) action (rs_group rs) i (all_members i (rs_peers rs)) (rs_fingerprint rs) db1
       = Inr (db', rs_id rs)"
    "ad_cards db1 = resolved db env action i (rs_peers rs)"
    "ad_receipts db1 = ad_receipts db" "ad_members db1 = ad_members db" "ad_audits db1 = ad_audits db"
proof -
  from run obtain g where g: "assert_supersession_dag (ad_cards db) = Inr g" and act: "action \<in> {lit ''supersede'', lit ''dismiss''}"
    by (auto simp: resolution_writes_def)
  from run g obtain winner where winner: "find_card i (ad_cards db) = Some winner" and cur: "i \<in> set (current_ids (ad_cards db))"
    by (auto simp: resolution_writes_def split: option.splits)
  from run g winner obtain ids name where sel: "select_peers (ad_cards db) winner action (requested_ids superseded) = Inr (ids, name)"
    by (auto simp: resolution_writes_def)
  from run g winner sel obtain fp db1 rid where fp: "conflict_component_fingerprint (ad_cards db) (all_members i ids) = Inr fp"
    and app: "apply_action env g action i ids db = Inr db1"
    and rec: "record_conflict_resolution_receipt env (ad_cards db) action name i (all_members i ids) fp db1 = Inr (db', rid)"
    and rs: "rs = \<lparr>rs_peers = ids, rs_group = name, rs_id = rid, rs_fingerprint = fp\<rparr>"
    by (auto simp: resolution_writes_def)
  note sp = select_peers_props [OF sel dist]
  have wid: "sc_id winner = i" using find_cardD [OF winner] by simp
  have out: "i \<notin> set ids" using sp(5) wid by (auto simp: is_peer_def)
  have upd: "ad_cards db1 = resolved db env action i ids" "ad_receipts db1 = ad_receipts db" "ad_members db1 = ad_members db"
    "ad_audits db1 = ad_audits db" "action = lit ''supersede'' \<Longrightarrow> \<forall>p\<in>set ids. \<not> supersession_reaches g i p"
    using act apply_supersede_cards [of env g i ids db db1] apply_dismiss_cards [of env g i ids db db1] app out
    by (auto simp: resolved_def apply_action_def)
  show thesis
    by (rule that [of g winner db1])
       (use g winner current_card [OF dist winner] cur wid act sel sp out upd fp rec in \<open>auto simp: rs\<close>)
qed

definition wf_authority :: "authority_db \<Rightarrow> bool" where
  "wf_authority db \<longleftrightarrow> distinct (map sc_id (ad_cards db)) \<and> (\<forall>c\<in>set (ad_cards db). clean_id (sc_id c))"

lemma released_links: "links (released_card ids now ` set cards) = links (set cards)"
proof -
  have "successor (released_card ids now c) = successor c" "predecessor (released_card ids now c) = predecessor c" for c
    by (simp_all add: released_card_def successor_def predecessor_def)
  then have "x \<in> links (released_card ids now ` set cards) \<longleftrightarrow> x \<in> links (set cards)" for x
    by (cases x) (simp add: links_iff)
  then show ?thesis by blast
qed

lemma writes_acyclic:
  assumes wf: "wf_authority db" and run: "resolution_writes rp fi env i action superseded db = Inr (db', rs)"
  shows "\<exists>g. assert_supersession_dag (ad_cards db') = Inr g"
proof -
  have dist: "distinct (map sc_id (ad_cards db))" and clean: "\<forall>c\<in>set (ad_cards db). clean_id (sc_id c)"
    using wf by (simp_all add: wf_authority_def)
  let ?ids = "rs_peers rs"
  from writes_cases [OF run dist] obtain g winner db1 where w: "assert_supersession_dag (ad_cards db) = Inr g"
    "find_card i (ad_cards db) = Some winner" "i \<notin> set ?ids" "?ids \<noteq> []" "\<forall>p\<in>set ?ids. is_peer (ad_cards db) winner action p"
    "action = lit ''supersede'' \<Longrightarrow> \<forall>p\<in>set ?ids. \<not> supersession_reaches g i p" "ad_cards db1 = resolved db env action i ?ids"
    "record_conflict_resolution_receipt env (ad_cards db) action (rs_group rs) i (all_members i ?ids) (rs_fingerprint rs) db1
       = Inr (db', rs_id rs)" by metis
  have cards: "ad_cards db' = resolved db env action i ?ids"
    by (rule record_receipt_cases [OF w(8)]) (use w(7) in simp)
  note E = assert_dag_iff(1) [OF dist w(1)]
  have "distinct (map sc_id (resolved db env action i ?ids))" using dist by (simp add: resolved_def comp_def)
  moreover have "links (set (resolved db env action i ?ids)) =
      links (set (ad_cards db)) \<union> (if action = lit ''supersede'' then {(p, i) |p. p \<in> set ?ids} else {})"
  proof (cases "action = lit ''supersede''")
    case True
    have "\<forall>p\<in>set ?ids. \<exists>c. find_card p (ad_cards db) = Some c \<and> is_current (ad_cards db) c"
      using w(5) by (auto simp: is_peer_def)
    with superseded_links [OF dist clean _ _ w(3) direct_predecessor_in [OF w(4)]] w(2) True show ?thesis
      by (simp add: resolved_def)
  qed (simp add: resolved_def released_links)
  moreover have "sc_id ` set (resolved db env action i ?ids) = sc_id ` set (ad_cards db)" by (simp add: resolved_def image_image)
  moreover have "{(p, i) |p. p \<in> set ?ids} \<subseteq> sc_id ` set (ad_cards db) \<times> sc_id ` set (ad_cards db)"
    using w(2,5) find_cardD unfolding is_peer_def by fast
  moreover have "acyclic (links (set (ad_cards db)) \<union> (if action = lit ''supersede'' then {(p, i) |p. p \<in> set ?ids} else {}))"
    using E w(6) acyclic_add_point [of "links (set (ad_cards db))" "set ?ids" i] by (auto simp: supersession_reaches_exact)
  ultimately show ?thesis unfolding cards using E by (intro assert_dag_iff(2)) auto
qed

text \<open>What a Card was and what it is.\<close>

definition changed_card :: "authority_db \<Rightarrow> authority_env \<Rightarrow> pystr \<Rightarrow> pystr \<Rightarrow> pystr list \<Rightarrow> card \<Rightarrow> card" where
  "changed_card db env action i ids =
     (if action = lit ''supersede'' then superseded_card i ids (direct_predecessor (ad_cards db) ids) (ae_now env)
      else released_card (all_members i ids) (ae_now env))"

lemma resolved_map: "resolved db env action i ids = map (changed_card db env action i ids) (ad_cards db)"
  by (simp add: resolved_def changed_card_def)

lemma changed_fields [simp]: "sc_id (changed_card db env action i ids c) = sc_id c"
  "sc_type (changed_card db env action i ids c) = sc_type c" "sc_title (changed_card db env action i ids c) = sc_title c"
  "sc_summary (changed_card db env action i ids c) = sc_summary c" "sc_scope (changed_card db env action i ids c) = sc_scope c"
  "sc_project (changed_card db env action i ids c) = sc_project c" "sc_session (changed_card db env action i ids c) = sc_session c"
  by (simp_all add: changed_card_def superseded_card_def released_card_def promote_def retire_peer_def release_def)

lemma changed_material: "conflict_boundary (changed_card db env action i ids c) = conflict_boundary c"
  "conflict_member_material (changed_card db env action i ids c) = conflict_member_material c"
  "member_type (changed_card db env action i ids c) = member_type c"
proof -
  show b: "conflict_boundary (changed_card db env action i ids c) = conflict_boundary c"
    unfolding conflict_boundary_def changed_fields ..
  show "conflict_member_material (changed_card db env action i ids c) = conflict_member_material c"
    unfolding conflict_member_material_def changed_fields b ..
  show "member_type (changed_card db env action i ids c) = member_type c" by (simp add: member_type_def)
qed

lemma pending_current: "casefold (lit ''active'') \<notin> set non_current_statuses"
  "casefold (lit ''pending_librarian_review'') \<notin> set non_current_statuses"
  by (simp_all add: casefold_def non_current_statuses_def lit_def fold_char_def)

lemma changed_current:
  assumes dist: "distinct (map sc_id cards)" and clean: "clean_id i" and i: "i \<notin> set ids" and pred: "pred \<in> set ids"
    and c: "c \<in> set cards"
  shows "is_current (map (superseded_card i ids pred now) cards) (superseded_card i ids pred now c) \<longleftrightarrow>
    is_current cards c \<and> sc_id c \<notin> set ids"
proof -
  let ?U = "superseded_card i ids pred now"
  have status: "casefold (cd_status (?U c)) \<in> set non_current_statuses \<longleftrightarrow> casefold (cd_status c) \<in> set non_current_statuses"
    using pending_current by (auto simp: superseded_card_def promote_def)
  have succ: "successor (?U c) = [] \<longleftrightarrow> successor c = [] \<and> sc_id c \<notin> set ids"
    using i clean by (auto simp: superseded_card_def successor_def clean_id_def)
  have sup: "cd_supersedes (?U d) = (if sc_id d = i \<and> cd_supersedes d = None then Some pred else cd_supersedes d)" for d
    by (auto simp: superseded_card_def promote_def split: option.splits)
  have ref: "(predecessor (?U d) \<noteq> [] \<and> or_empty (cd_supersedes (?U d)) = sc_id c) \<longleftrightarrow>
      (predecessor d \<noteq> [] \<and> or_empty (cd_supersedes d) = sc_id c)" if "sc_id c \<notin> set ids" for d
  proof (cases "cd_supersedes d")
    case None
    with that pred show ?thesis by (auto simp: predecessor_def sup py_strip_def)
  qed (simp add: predecessor_def sup)
  show ?thesis
  proof (cases "sc_id c \<in> set ids")
    case False
    then show ?thesis using status succ ref [OF False]
      by (simp add: is_current_def list_ex_iff del: not_ex)
  qed (use succ in \<open>simp add: is_current_def\<close>)
qed

lemma mark_outbox_fields:
  "ad_cards (fold (mark_outbox env reason) es db) = ad_cards db" "ad_receipts (fold (mark_outbox env reason) es db) = ad_receipts db"
  "ad_members (fold (mark_outbox env reason) es db) = ad_members db" "ad_audits (fold (mark_outbox env reason) es db) = ad_audits db"
  by (induction es arbitrary: db) (auto simp: mark_outbox_def)

lemma resolve_cases:
  assumes "resolve_conflict rp fi env i action superseded db = Inr (db', rs)"
  obtains db1 where "resolution_writes rp fi env i action superseded db = Inr (db1, rs)" "ad_cards db' = ad_cards db1"
    "ad_receipts db' = ad_receipts db1" "ad_members db' = ad_members db1" "ad_audits db' = ad_audits db1"
  using assms by (auto simp: resolve_conflict_def mark_card_sidecar_outbox_def Let_def mark_outbox_fields)

lemma resolved_cards:
  assumes run: "resolve_conflict rp fi env i action superseded db = Inr (db', rs)" and wf: "wf_authority db"
  obtains winner where "find_card i (ad_cards db) = Some winner" "is_current (ad_cards db) winner"
    "action \<in> {lit ''supersede'', lit ''dismiss''}"
    "whole (ad_cards db) winner action (rs_peers rs) (rs_group rs)" "rs_peers rs \<noteq> []" "i \<notin> set (rs_peers rs)"
    "\<forall>p\<in>set (rs_peers rs). is_peer (ad_cards db) winner action p"
    "\<exists>requested. select_peers (ad_cards db) winner action requested = Inr (rs_peers rs, rs_group rs)"
    "ad_cards db' = map (changed_card db env action i (rs_peers rs)) (ad_cards db)"
proof -
  have dist: "distinct (map sc_id (ad_cards db))" using wf by (simp add: wf_authority_def)
  from run obtain db1 where db1: "resolution_writes rp fi env i action superseded db = Inr (db1, rs)" "ad_cards db' = ad_cards db1"
    by (rule resolve_cases)
  from writes_cases [OF db1(1) dist] obtain winner db0 where w: "find_card i (ad_cards db) = Some winner"
    "is_current (ad_cards db) winner" "action \<in> {lit ''supersede'', lit ''dismiss''}"
    "whole (ad_cards db) winner action (rs_peers rs) (rs_group rs)" "rs_peers rs \<noteq> []" "i \<notin> set (rs_peers rs)"
    "\<forall>p\<in>set (rs_peers rs). is_peer (ad_cards db) winner action p"
    "ad_cards db0 = resolved db env action i (rs_peers rs)"
    "\<exists>requested. select_peers (ad_cards db) winner action requested = Inr (rs_peers rs, rs_group rs)"
    "record_conflict_resolution_receipt env (ad_cards db) action (rs_group rs) i (all_members i (rs_peers rs)) (rs_fingerprint rs) db0
       = Inr (db1, rs_id rs)" by metis
  have "ad_cards db' = map (changed_card db env action i (rs_peers rs)) (ad_cards db)"
    by (rule record_receipt_cases [OF w(10)]) (use w(8) db1(2) in \<open>simp add: resolved_map\<close>)
  with w show thesis by (intro that [of winner]) auto
qed

lemma released_current:
  "is_current (map (released_card ids now) cards) (released_card ids now c) \<longleftrightarrow> is_current cards c"
proof -
  have "cd_status (released_card ids now d) = cd_status d" "successor (released_card ids now d) = successor d"
    "predecessor (released_card ids now d) = predecessor d" "cd_supersedes (released_card ids now d) = cd_supersedes d" for d
    by (simp_all add: released_card_def successor_def predecessor_def)
  then show ?thesis by (simp add: is_current_def list_ex_iff)
qed

lemma changed_is_current:
  assumes "distinct (map sc_id (ad_cards db))" "clean_id i" "i \<notin> set ids" "ids \<noteq> []" "c \<in> set (ad_cards db)"
  shows "is_current (map (changed_card db env action i ids) (ad_cards db)) (changed_card db env action i ids c) \<longleftrightarrow>
    is_current (ad_cards db) c \<and> (action = lit ''supersede'' \<longrightarrow> sc_id c \<notin> set ids)"
  using changed_current [OF assms(1-3) direct_predecessor_in [OF assms(4)] assms(5)]
  by (simp add: changed_card_def released_current)

lemma resolution_changes:
  assumes wf: "wf_authority db" and run: "resolve_conflict rp fi env i action superseded db = Inr (db', rs)"
  shows "set (current_ids (ad_cards db')) = set (current_ids (ad_cards db)) - (if action = lit ''supersede'' then set (rs_peers rs) else {})"
    and "i \<in> set (current_ids (ad_cards db'))"
    and "j \<in> insert i (set (rs_peers rs)) \<Longrightarrow> find_card j (ad_cards db') = Some c \<Longrightarrow> conflict_group c = []"
    and "j \<notin> insert i (set (rs_peers rs)) \<Longrightarrow> find_card j (ad_cards db') = find_card j (ad_cards db)"
proof -
  let ?ids = "rs_peers rs" and ?U = "changed_card db env action i (rs_peers rs)"
  from resolved_cards [OF run wf] obtain winner where w: "find_card i (ad_cards db) = Some winner" "is_current (ad_cards db) winner"
    "?ids \<noteq> []" "i \<notin> set ?ids" "ad_cards db' = map ?U (ad_cards db)" by metis
  have dist: "distinct (map sc_id (ad_cards db))" and clean: "clean_id i"
    using wf find_cardD [OF w(1)] by (auto simp: wf_authority_def)
  note cur = changed_is_current [OF dist clean w(4) w(3)]
  show eq: "set (current_ids (ad_cards db')) = set (current_ids (ad_cards db)) - (if action = lit ''supersede'' then set ?ids else {})"
  proof (intro set_eqI)
    fix j
    show "j \<in> set (current_ids (ad_cards db')) \<longleftrightarrow>
      j \<in> set (current_ids (ad_cards db)) - (if action = lit ''supersede'' then set ?ids else {})"
      unfolding current_iff w(5) using cur by (auto simp: current_iff)
  qed
  show "i \<in> set (current_ids (ad_cards db'))" unfolding eq using current_card [OF dist w(1)] w(2,4) by simp
  have found: "find_card j (ad_cards db') = map_option ?U (find_card j (ad_cards db))" for j
    unfolding w(5) by (rule find_card_map) simp
  { assume "j \<in> insert i (set ?ids)" "find_card j (ad_cards db') = Some c"
    then obtain d where "c = ?U d" "sc_id d \<in> insert i (set ?ids)" using found [of j] find_cardD by auto
    then show "conflict_group c = []"
      by (auto simp: conflict_group_def changed_card_def superseded_card_def released_card_def all_members_def py_strip_def) }
  { assume "j \<notin> insert i (set ?ids)"
    then show "find_card j (ad_cards db') = find_card j (ad_cards db)"
      using found [of j] find_cardD [of j "ad_cards db"]
      by (cases "find_card j (ad_cards db)") (auto simp: changed_card_def superseded_card_def released_card_def all_members_def) }
qed

section \<open>Two notes in conflict\<close>

definition demo_member :: "string \<Rightarrow> card" where
  "demo_member i = (demo_card i None None)\<lparr>cd_group := Some (lit ''g''), sc_scope := lit ''global''\<rparr>"

definition demo_db :: authority_db where
  "demo_db = \<lparr>ad_cards = [demo_member ''a'', demo_member ''b''], ad_events = [], ad_receipts = [], ad_members = [], ad_audits = [],
     ad_outbox = [], ad_epoch = 0\<rparr>"

definition demo_env :: authority_env where
  "demo_env = \<lparr>ae_redact_value = (\<lambda>v. v), ae_redact_text = (\<lambda>s. s), ae_resolution_id = lit ''r'', ae_audit_id = lit ''u'',
     ae_generation = (\<lambda>k. dec_nat k), ae_now = lit ''t1'', ae_audit_now = lit ''t2'', ae_outbox_now = lit ''t3''\<rparr>"

lemma demo_ids: "sc_id (demo_member i) = lit i" "find_card (lit ''a'') (ad_cards demo_db) = Some (demo_member ''a'')"
  "find_card (lit ''b'') (ad_cards demo_db) = Some (demo_member ''b'')"
  by (simp_all add: demo_member_def demo_card_def find_card_def demo_db_def)

lemma demo_fields: "successor (demo_member i) = []" "predecessor (demo_member i) = []" "conflict_group (demo_member i) = lit ''g''"
  "cd_group (demo_member i) = Some (lit ''g'')" "conflict_boundary (demo_member i) = (lit ''global'', [], [])"
  "member_type (demo_member i) = lit ''note''" "is_current cards (demo_member i) \<longleftrightarrow> \<not> list_ex (\<lambda>d. predecessor d \<noteq> [] \<and> or_empty (cd_supersedes d) = lit i) cards"
  by (simp_all add: demo_member_def demo_card_def successor_def predecessor_def conflict_group_def conflict_boundary_def Let_def
      member_type_def casefold_def fold_char_def is_current_def non_current_statuses_def py_strip_def)
    (simp_all add: lit_def fold_char_def py_space_def)

lemma demo_wf: "wf_authority demo_db"
  by (simp add: wf_authority_def demo_db_def demo_ids clean_id_def py_strip_def) (simp add: lit_def py_space_def)

lemma demo_current: "set (current_ids (ad_cards demo_db)) = {lit ''a'', lit ''b''}"
  by (auto simp: current_iff demo_db_def demo_ids demo_fields)

lemma demo_select: "select_peers (ad_cards demo_db) (demo_member ''a'') (lit ''supersede'') (requested_ids None) = Inr ([lit ''b''], lit ''g'')"
proof -
  have "sort_key sc_id (ad_cards demo_db) = [demo_member ''a'', demo_member ''b'']"
    by (simp add: demo_db_def demo_ids) (simp add: lit_def)
  then have peers: "group_peers (ad_cards demo_db) (lit ''a'') (lit ''g'') = [demo_member ''b'']"
    by (simp add: group_peers_def demo_fields demo_ids)
  have "lit ''note'' \<noteq> project_state_type" by (simp add: project_state_type_def)
  then show ?thesis
    by (simp add: select_peers_def demo_fields demo_ids peers check_peers_def demo_current requested_ids_def confirm_group_def Let_def)
qed

lemma demo_dag: "assert_supersession_dag (ad_cards demo_db) = Inr [(lit ''a'', []), (lit ''b'', [])]"
proof -
  have "sort_key sc_id (ad_cards demo_db) = [demo_member ''a'', demo_member ''b'']"
    by (simp add: demo_db_def demo_ids) (simp add: lit_def)
  then have "supersession_graph (ad_cards demo_db) = Inr [(lit ''a'', []), (lit ''b'', [])]"
    by (simp add: supersession_graph_def link_card_def demo_fields no_edges_def demo_ids)
  then show ?thesis
    by (simp add: assert_supersession_dag_def topological_def count_incoming_def ready_nodes_def targets_def ensure_def)
qed

lemma demo_resolution: "\<exists>db' rs. resolution_writes (\<lambda>_. []) (\<lambda>_. 0) demo_env (lit ''a'') (lit ''supersede'') None demo_db = Inr (db', rs)
    \<and> rs_peers rs = [lit ''b''] \<and> rs_group rs = lit ''g'' \<and> rs_id rs = lit ''r''"
proof -
  have members: "all_members (lit ''a'') [lit ''b''] = [lit ''a'', lit ''b'']" by (simp add: all_members_def) (simp add: lit_def)
  obtain fp where fp: "conflict_component_fingerprint (ad_cards demo_db) [lit ''a'', lit ''b''] = Inr fp"
    using fingerprint_ok [of "[lit ''a'', lit ''b'']" "ad_cards demo_db"] demo_ids by auto
  have "\<not> supersession_reaches [(lit ''a'', []), (lit ''b'', [])] (lit ''a'') (lit ''b'')"
    by (simp add: supersession_reaches_def targets_def)
  then obtain db1 where db1: "apply_action demo_env [(lit ''a'', []), (lit ''b'', [])] (lit ''supersede'') (lit ''a'') [lit ''b''] demo_db = Inr db1"
    "set (map sc_id (ad_cards db1)) = {lit ''a'', lit ''b''}" "ad_receipts db1 = []" "ad_members db1 = []" "ad_audits db1 = []"
    by (auto simp: apply_action_def apply_supersede_def update_cards_def demo_db_def demo_ids)
  have "isOk (record_conflict_resolution_receipt demo_env (ad_cards demo_db) (lit ''supersede'') (lit ''g'') (lit ''a'') [lit ''a'', lit ''b''] fp db1)"
    using db1(2-5) by (intro record_ok) (auto simp: demo_env_def demo_ids)
  then obtain db2 i where rec: "record_conflict_resolution_receipt demo_env (ad_cards demo_db) (lit ''supersede'') (lit ''g'') (lit ''a'')
      [lit ''a'', lit ''b''] fp db1 = Inr (db2, i)"
    by (auto simp: isOk_iff)
  then have "i = lit ''r''" by (rule record_receipt_cases) (simp add: demo_env_def)
  moreover have "lit ''note'' \<noteq> project_state_type" by (simp add: project_state_type_def)
  ultimately show ?thesis
    using fp db1 rec by (simp add: resolution_writes_def demo_dag demo_ids demo_current demo_select members demo_fields ensure_def)
qed

section \<open>Properties\<close>

text \<open>C17 A resolution never makes a cycle: when the transaction has come to its final check, the check passes,
  so the resolution commits and leaves a supersession graph that passes it.\<close>

theorem resolution_acyclic:
  assumes "wf_authority db" "resolution_writes rp fi env i action superseded db = Inr (db', rs)"
  shows "\<exists>g db''. assert_supersession_dag (ad_cards db') = Inr g
    \<and> resolve_conflict rp fi env i action superseded db = Inr (db'', rs) \<and> ad_cards db'' = ad_cards db'"
  using writes_acyclic [OF assms] assms(2)
  by (auto simp: resolve_conflict_def mark_card_sidecar_outbox_def Let_def mark_outbox_fields)

theorem resolution_acyclic_witness:
  "\<exists>db' rs g. resolve_conflict (\<lambda>_. []) (\<lambda>_. 0) demo_env (lit ''a'') (lit ''supersede'') None demo_db = Inr (db', rs)
     \<and> assert_supersession_dag (ad_cards db') = Inr g"
proof -
  obtain db' rs where w: "resolution_writes (\<lambda>_. []) (\<lambda>_. 0) demo_env (lit ''a'') (lit ''supersede'') None demo_db = Inr (db', rs)"
    using demo_resolution by blast
  from resolution_acyclic [OF demo_wf w] show ?thesis by metis
qed

lemma demo_run: "\<exists>db' rs. resolve_conflict (\<lambda>_. []) (\<lambda>_. 0) demo_env (lit ''a'') (lit ''supersede'') None demo_db = Inr (db', rs)
    \<and> rs_peers rs = [lit ''b''] \<and> rs_group rs = lit ''g'' \<and> rs_id rs = lit ''r''"
proof -
  obtain db' rs where w: "resolution_writes (\<lambda>_. []) (\<lambda>_. 0) demo_env (lit ''a'') (lit ''supersede'') None demo_db = Inr (db', rs)"
    and rs: "rs_peers rs = [lit ''b'']" "rs_group rs = lit ''g''" "rs_id rs = lit ''r''"
    using demo_resolution by blast
  from writes_acyclic [OF demo_wf w] w rs show ?thesis by (auto simp: resolve_conflict_def)
qed

text \<open>C5 What a resolution changes, exactly: its peers are the whole group (or all other heads of the boundary), a
  superseding resolution takes exactly them out of the current Cards and a dismissal none, the winner stays current, no
  member is in a conflict group any more, and every other Card is as it was.\<close>

theorem resolution_exact:
  assumes "wf_authority db" "resolve_conflict rp fi env i action superseded db = Inr (db', rs)"
  shows "set (current_ids (ad_cards db')) = set (current_ids (ad_cards db)) - (if action = lit ''supersede'' then set (rs_peers rs) else {})
    \<and> i \<in> set (current_ids (ad_cards db'))
    \<and> (\<exists>winner. find_card i (ad_cards db) = Some winner \<and> whole (ad_cards db) winner action (rs_peers rs) (rs_group rs))
    \<and> (\<forall>j\<in>insert i (set (rs_peers rs)). \<forall>c. find_card j (ad_cards db') = Some c \<longrightarrow> conflict_group c = [])
    \<and> (\<forall>j. j \<notin> insert i (set (rs_peers rs)) \<longrightarrow> find_card j (ad_cards db') = find_card j (ad_cards db))"
proof -
  obtain winner where "find_card i (ad_cards db) = Some winner" "whole (ad_cards db) winner action (rs_peers rs) (rs_group rs)"
    using resolved_cards [OF assms(2,1)] by metis
  with resolution_changes [OF assms] show ?thesis by blast
qed

theorem resolution_exact_witness:
  "\<exists>db' rs. resolve_conflict (\<lambda>_. []) (\<lambda>_. 0) demo_env (lit ''a'') (lit ''supersede'') None demo_db = Inr (db', rs)
     \<and> set (current_ids (ad_cards db')) = {lit ''a''}"
proof -
  obtain db' rs where r: "resolve_conflict (\<lambda>_. []) (\<lambda>_. 0) demo_env (lit ''a'') (lit ''supersede'') None demo_db = Inr (db', rs)"
    "rs_peers rs = [lit ''b'']" using demo_run by blast
  from resolution_exact [OF demo_wf r(1)] have "set (current_ids (ad_cards db')) = {lit ''a'', lit ''b''} - {lit ''b''}"
    using r(2) demo_current by simp
  also have "\<dots> = {lit ''a''}" by auto
  finally show ?thesis using r(1) by blast
qed

text \<open>C18 One head per boundary: once a checkpoint has superseded the peers selected for it, no other current checkpoint of
  the same visibility boundary is left.\<close>

theorem resolution_unique_head:
  assumes "wf_authority db" "find_card i (ad_cards db) = Some winner" "is_current (ad_cards db) winner"
    and "member_type winner = project_state_type"
    and "select_peers (ad_cards db) winner (lit ''supersede'') requested = Inr (ids, name)"
    and "apply_action env g (lit ''supersede'') i ids db = Inr db'"
  shows "\<exists>head. find_card i (ad_cards db') = Some head \<and> is_current (ad_cards db') head \<and> authority_peers (ad_cards db') head = []"
proof -
  let ?U = "changed_card db env (lit ''supersede'') i ids"
  have dist: "distinct (map sc_id (ad_cards db))" and clean: "clean_id i"
    using assms(1) find_cardD [OF assms(2)] by (auto simp: wf_authority_def)
  note sel = select_peers_props [OF assms(5) dist]
  have wid: "sc_id winner = i" using find_cardD [OF assms(2)] by simp
  then have i: "i \<notin> set ids" using sel(5) by (auto simp: is_peer_def)
  have cards: "ad_cards db' = map ?U (ad_cards db)"
    using apply_supersede_cards(1) [of env g i ids db db'] assms(6) i by (simp add: apply_action_def changed_card_def)
  note cur = changed_is_current [OF dist clean i sel(1), of _ env "lit ''supersede''", folded cards]
  have found: "find_card j (ad_cards db') = map_option ?U (find_card j (ad_cards db))" for j
    unfolding cards by (rule find_card_map) simp
  have dist': "distinct (map sc_id (ad_cards db'))" using dist unfolding cards by (simp add: comp_def)
  have peers: "set ids = set (authority_peers (ad_cards db) winner)" using sel(4) assms(4) by (simp add: whole_def)
  have none: "j \<notin> set (authority_peers (ad_cards db') (?U winner))" for j
  proof
    assume j: "j \<in> set (authority_peers (ad_cards db') (?U winner))"
    then obtain c where c: "find_card j (ad_cards db) = Some c" "member_type c = project_state_type"
      "conflict_boundary c = conflict_boundary winner" "j \<in> set (current_ids (ad_cards db'))" "j \<noteq> sc_id winner"
      by (auto simp: authority_peer found changed_material)
    have "is_current (ad_cards db') (?U c)" using current_card [OF dist'] c(1,4) found by simp
    then have "is_current (ad_cards db) c" "j \<notin> set ids" using cur find_cardD [OF c(1)] by auto
    moreover have "j \<in> set ids"
      unfolding peers authority_peer using c current_card [OF dist c(1)] \<open>is_current (ad_cards db) c\<close> by blast
    ultimately show False by blast
  qed
  then have "authority_peers (ad_cards db') (?U winner) = []" by (metis last_in_set)
  moreover have "is_current (ad_cards db') (?U winner)" using cur find_cardD [OF assms(2)] assms(3) i by simp
  ultimately show ?thesis using found assms(2) by simp
qed

definition demo_heads :: authority_db where
  "demo_heads = demo_db\<lparr>ad_cards := map (\<lambda>c. c\<lparr>sc_type := project_state_type, cd_group := None\<rparr>) (ad_cards demo_db)\<rparr>"

theorem resolution_unique_head_witness:
  "\<exists>ids name db' head. ids = [lit ''b''] \<and> select_peers (ad_cards demo_heads) (hd (ad_cards demo_heads)) (lit ''supersede'') [lit ''b''] = Inr (ids, name)
     \<and> apply_action demo_env [] (lit ''supersede'') (lit ''a'') ids demo_heads = Inr db'
     \<and> find_card (lit ''a'') (ad_cards db') = Some head \<and> authority_peers (ad_cards db') head = []"
proof -
  let ?a = "(demo_member ''a'')\<lparr>sc_type := project_state_type, cd_group := None\<rparr>"
  let ?b = "(demo_member ''b'')\<lparr>sc_type := project_state_type, cd_group := None\<rparr>"
  have cards: "ad_cards demo_heads = [?a, ?b]" by (simp add: demo_heads_def demo_db_def)
  have type: "member_type (c\<lparr>sc_type := project_state_type, cd_group := None\<rparr>) = project_state_type" for c :: card
    by (simp add: member_type_def project_state_type_def casefold_def) (simp add: lit_def fold_char_def py_strip_def py_space_def)
  have fields: "conflict_group ?a = []" "conflict_group ?b = []" "conflict_boundary ?a = (lit ''global'', [], [])"
    "conflict_boundary ?b = (lit ''global'', [], [])" "successor ?a = []" "successor ?b = []" "predecessor ?a = []" "predecessor ?b = []"
    "cd_rowid ?a = 1" "cd_rowid ?b = 1" "sc_id ?a = lit ''a''" "sc_id ?b = lit ''b''"
    by (simp_all add: demo_member_def demo_card_def conflict_group_def conflict_boundary_def successor_def predecessor_def py_strip_def)
  have status: "casefold (cd_status (demo_member i)) \<notin> set non_current_statuses" for i
    by (simp add: demo_member_def demo_card_def casefold_def non_current_statuses_def lit_def fold_char_def)
  have cur: "is_current [?a, ?b] ?a" "is_current [?a, ?b] ?b" by (simp_all add: is_current_def fields status)
  have find: "find_card (lit ''a'') [?a, ?b] = Some ?a" "find_card (lit ''b'') [?a, ?b] = Some ?b"
    by (simp_all add: find_card_def fields)
  have "current_ids [?a, ?b] = [lit ''a'', lit ''b'']" using cur by (simp add: current_ids_def fields)
  then have auth: "authority_peers [?a, ?b] ?a = [lit ''b'']" by (simp add: authority_peers_def find fields type)
  have "all_members (lit ''a'') [lit ''b''] = [lit ''a'', lit ''b'']" by (simp add: all_members_def) (simp add: lit_def)
  then have sel: "\<exists>name. select_peers [?a, ?b] ?a (lit ''supersede'') [lit ''b''] = Inr ([lit ''b''], name)"
    by (simp add: select_peers_def fields group_peers_def check_peers_def type auth confirm_authority_def confirm_def find
        authority_groups_def Let_def ensure_def)
  then obtain name where name: "select_peers (ad_cards demo_heads) ?a (lit ''supersede'') [lit ''b''] = Inr ([lit ''b''], name)"
    unfolding cards by blast
  have app: "\<exists>db'. apply_action demo_env [] (lit ''supersede'') (lit ''a'') [lit ''b''] demo_heads = Inr db'"
    by (simp add: apply_action_def apply_supersede_def supersession_reaches_def targets_def ensure_def)
  then obtain db' where db': "apply_action demo_env [] (lit ''supersede'') (lit ''a'') [lit ''b''] demo_heads = Inr db'" by blast
  have "wf_authority demo_heads"
    by (simp add: wf_authority_def cards fields clean_id_def py_strip_def) (simp add: lit_def py_space_def)
  then obtain head where "find_card (lit ''a'') (ad_cards db') = Some head" "authority_peers (ad_cards db') head = []"
    using resolution_unique_head [OF _ _ _ type name db'] find cur unfolding cards by blast
  then show ?thesis using name db' by (simp add: cards)
qed

lemma set_all_members [simp]: "set (all_members i ids) = insert i (set ids)"
  unfolding all_members_def by (simp only: set_sort set_remdups list.set)

lemma resolution_keeps_members:
  assumes wf: "wf_authority db" and run: "resolve_conflict rp fi env i action superseded db = Inr (db', rs)"
    and winner: "find_card i (ad_cards db) = Some winner"
  shows "\<forall>j\<in>set (all_members i (rs_peers rs)).
    kept_member (ad_cards db) (ad_cards db') (conflict_boundary winner) action i j"
proof
  fix j
  assume j: "j \<in> set (all_members i (rs_peers rs))"
  let ?U = "changed_card db env action i (rs_peers rs)"
  obtain w where w: "find_card i (ad_cards db) = Some w" "ad_cards db' = map ?U (ad_cards db)" "i \<notin> set (rs_peers rs)"
    "\<forall>p\<in>set (rs_peers rs). is_peer (ad_cards db) w action p"
    using resolved_cards [OF run wf] by metis
  then obtain c where c: "find_card j (ad_cards db) = Some c" "conflict_boundary c = conflict_boundary winner"
    using j winner unfolding set_all_members by (auto simp: is_peer_def)
  have found: "find_card j (ad_cards db') = Some (?U c)"
    unfolding w(2) by (subst find_card_map) (simp_all add: c(1))
  have ids: "clean_id j" "clean_id i" using wf find_cardD c(1) winner by (auto simp: wf_authority_def)
  have "successor (?U c) = i" if "action = lit ''supersede''" "j \<noteq> i"
    using that j ids find_cardD [OF c(1)]
    by (simp add: changed_card_def superseded_card_def successor_def clean_id_def)
  with c found ids show "kept_member (ad_cards db) (ad_cards db') (conflict_boundary winner) action i j"
    by (auto simp: kept_member_def changed_material clean_id_def)
qed

text \<open>C15 The receipt of a resolution counts: after a resolution commits, looking up the receipt of its action and component
  finds the one it recorded, every check of the receipt, its members, its audit event and the links passing.  Nothing in the
  audit event is a secret, and its texts are Unicode texts.\<close>

theorem resolution_receipt_valid:
  assumes wf: "wf_authority db" and run: "resolve_conflict rp fi env i action superseded db = Inr (db', rs)"
    and winner: "find_card i (ad_cards db) = Some winner" and b: "conflict_boundary winner = b"
    and members: "all_members i (rs_peers rs) = ids"
    and quiet: "not_redacted env i (resolution_payload (rs_id rs) action (rs_group rs) (rs_fingerprint rs) i ids b)"
    and plain: "list_all (readable True) ([rs_id rs, action, rs_group rs, rs_fingerprint rs, i, fst b, fst (snd b), snd (snd b)] @ ids)"
    and fresh: "rs_id rs \<noteq> []" "rs_id rs \<notin> set (map mb_receipt (ad_members db))"
    and scope: "fst b \<in> set valid_visibility_scopes"
  shows "\<exists>r. valid_conflict_resolution_receipt rp' (ad_cards db') db' action (rs_fingerprint rs) ids = Inr (Some r)
    \<and> rc_id r = rs_id rs \<and> rc_selected r = i"
proof -
  have dist: "distinct (map sc_id (ad_cards db))" using wf by (simp add: wf_authority_def)
  obtain db1 where db1: "resolution_writes rp fi env i action superseded db = Inr (db1, rs)" "ad_receipts db' = ad_receipts db1"
    "ad_members db' = ad_members db1" "ad_audits db' = ad_audits db1" by (rule resolve_cases [OF run])
  from writes_cases [OF db1(1) dist] obtain db0 where w: "rs_group rs \<noteq> []"
    "conflict_component_fingerprint (ad_cards db) (all_members i (rs_peers rs)) = Inr (rs_fingerprint rs)"
    "record_conflict_resolution_receipt env (ad_cards db) action (rs_group rs) i (all_members i (rs_peers rs)) (rs_fingerprint rs) db0
       = Inr (db1, rs_id rs)" "ad_members db0 = ad_members db" by metis
  have sorted: "sort ids = ids" and ids: "distinct ids" "i \<in> set ids"
    unfolding members [symmetric] all_members_def by (simp_all add: sorted_sort_id)
  have kept: "\<forall>j\<in>set ids. kept_member (ad_cards db) (ad_cards db') b action i j"
    using resolution_keeps_members [OF wf run winner] unfolding members b .
  have "valid_conflict_resolution_receipt rp' (ad_cards db') db' action (rs_fingerprint rs) ids
      = Inr (Some (recorded env action (rs_group rs) i (length ids) (rs_fingerprint rs) b))"
    by (rule recorded_receipt_valid [OF w(3) [unfolded members] _ plain fresh(1) w(1) _ w(2) [unfolded members] kept ids scope db1(2-4)])
       (use quiet fresh(2) w(4) sorted in simp_all)
  moreover have "rs_id rs = ae_resolution_id env" by (rule record_receipt_cases [OF w(3)])
  ultimately show ?thesis by (simp add: recorded_def)
qed

lemma demo_fingerprint:
  assumes run: "resolve_conflict (\<lambda>_. []) (\<lambda>_. 0) demo_env (lit ''a'') (lit ''supersede'') None demo_db = Inr (db', rs)"
    and members: "all_members (lit ''a'') (rs_peers rs) = [lit ''a'', lit ''b'']"
  shows "list_all (readable True) [rs_fingerprint rs]"
proof -
  have "is_hex 64 (rs_fingerprint rs)"
  proof -
    obtain db1 where "resolution_writes (\<lambda>_. []) (\<lambda>_. 0) demo_env (lit ''a'') (lit ''supersede'') None demo_db = Inr (db1, rs)"
      by (rule resolve_cases [OF run])
    then have "conflict_component_fingerprint (ad_cards demo_db) [lit ''a'', lit ''b''] = Inr (rs_fingerprint rs)"
      using demo_wf unfolding wf_authority_def by (metis writes_cases members)
    then show ?thesis using fingerprint_ok [of "[lit ''a'', lit ''b'']" "ad_cards demo_db"] demo_ids by auto
  qed
  then show ?thesis
    by (auto simp: readable_def is_hex_def list_all_iff is_hex_char_def surrogate_def)
qed

theorem resolution_receipt_valid_witness:
  "\<exists>db' rs r. resolve_conflict (\<lambda>_. []) (\<lambda>_. 0) demo_env (lit ''a'') (lit ''supersede'') None demo_db = Inr (db', rs)
     \<and> valid_conflict_resolution_receipt (\<lambda>_. []) (ad_cards db') db' (lit ''supersede'') (rs_fingerprint rs) [lit ''a'', lit ''b''] = Inr (Some r)
     \<and> rc_id r = lit ''r''"
proof -
  obtain db' rs where r: "resolve_conflict (\<lambda>_. []) (\<lambda>_. 0) demo_env (lit ''a'') (lit ''supersede'') None demo_db = Inr (db', rs)"
    "rs_peers rs = [lit ''b'']" "rs_group rs = lit ''g''" "rs_id rs = lit ''r''" using demo_run by blast
  have members: "all_members (lit ''a'') (rs_peers rs) = [lit ''a'', lit ''b'']"
    by (simp add: r(2) all_members_def) (simp add: lit_def)
  note demo_fingerprint [OF r(1) members]
  then have "list_all (readable True) ([rs_id rs, lit ''supersede'', rs_group rs, rs_fingerprint rs, lit ''a'',
      lit ''global'', [], []] @ [lit ''a'', lit ''b''])"
    by (simp add: r readable_def) (simp add: lit_def surrogate_def)
  then show ?thesis
    using resolution_receipt_valid [OF demo_wf r(1) demo_ids(2) demo_fields(5) members] r
    by (auto simp: not_redacted_def demo_env_def valid_visibility_scopes_def demo_db_def)
qed

end
