(* ===== verification/Authority_Report.thy ===== *)
theory Authority_Report
  imports Conflict_Resolution
begin

text \<open>
  \<open>temporal_authority_integrity_report\<close> of \<open>core/temporal_authority.py\<close>: the check of the whole temporal
  authority in one snapshot.  It verifies every receipt, every link of the supersession graph in both directions, the heads of
  the project checkpoints and the conflict groups.  The checkpoints whose agent is proven and the quarantined ones are given by
  the caller.  The report is given in full; the program shows the first few entries of each list.
\<close>

section \<open>The receipts\<close>

definition receipt_less :: "receipt \<Rightarrow> pystr \<times> pystr" where
  "receipt_less r = (rc_created r, rc_id r)"

datatype verdict = Valid | Retired | Invalid string

definition column :: "(card \<Rightarrow> pystr) \<Rightarrow> card list \<Rightarrow> pystr \<Rightarrow> pystr" where
  "column f cards i = (case find_card i cards of None \<Rightarrow> [] | Some c \<Rightarrow> f c)"

definition non_current :: "card list \<Rightarrow> pystr \<Rightarrow> bool" where
  "non_current cards i \<longleftrightarrow> casefold (column cd_status cards i) \<in> set non_current_statuses"

text \<open>A receipt whose checkpoint was quarantined: the other members must have been taken out of it.\<close>

definition retirement_error ::
  "card list \<Rightarrow> (pystr, pystr option) odict \<Rightarrow> receipt \<Rightarrow> pystr list \<Rightarrow> pystr set \<Rightarrow> string option" where
  "retirement_error cards quarantines r ids quarantined =
     (let permitted = set (filter (\<lambda>p. p \<noteq> []) (map (\<lambda>q. or_empty (case oget quarantines q of Some p \<Rightarrow> p | None \<Rightarrow> None))
            (filter (\<lambda>q. q \<in> quarantined) ids)))
      in if rc_action r = lit ''supersede'' \<and> list_ex (\<lambda>m. m \<notin> quarantined \<and>
              (column successor cards m \<noteq> [] \<or> column conflict_group cards m \<noteq> [] \<or> (m \<notin> permitted \<and> \<not> non_current cards m))) ids
         then Some ''retired supersession member topology is invalid'' else None)"

definition receipt_verdict ::
  "(pyval \<Rightarrow> pystr) \<Rightarrow> card list \<Rightarrow> authority_db \<Rightarrow> (pystr, pystr option) odict \<Rightarrow> receipt \<Rightarrow> py_error + verdict" where
  "receipt_verdict rp cards db quarantines r =
     (let ids = map mb_card (receipt_members (rc_id r) (ad_members db)); quarantined = set ids \<inter> fst ` set quarantines in
      if quarantined \<noteq> {} then
        bindE (conflict_resolution_receipt_error rp cards db r None None None quarantined True) (\<lambda>e.
          Inr (case e of Some err \<Rightarrow> Invalid err
             | None \<Rightarrow> (case retirement_error cards quarantines r ids quarantined of Some err \<Rightarrow> Invalid err | None \<Rightarrow> Retired)))
      else bindE (conflict_resolution_receipt_error rp cards db r None None None {} False) (\<lambda>e.
          Inr (case e of Some err \<Rightarrow> Invalid err | None \<Rightarrow> Valid)))"

definition orphan_members :: "authority_db \<Rightarrow> receipt_member list" where
  "orphan_members db = filter (\<lambda>m. mb_receipt m \<notin> set (map rc_id (ad_receipts db))) (ad_members db)"

section \<open>The dismissals a Card claims\<close>

definition dismissal_key :: string where
  "dismissal_key = ''dismissed_conflict_components''"

definition infix_of :: "pystr \<Rightarrow> pystr \<Rightarrow> bool" where
  "infix_of p s \<longleftrightarrow> list_ex (\<lambda>n. take (length p) (drop n s) = p) [0..<Suc (length s)]"

text \<open>The fingerprint an entry names, and the entries without a valid dismissal of the Card.\<close>

definition entry_fingerprint :: "(pyval \<Rightarrow> pystr) \<Rightarrow> pyval \<Rightarrow> pystr" where
  "entry_fingerprint rp entry = (if is_dict entry then str_or_empty rp entry ''fingerprint'' else [])"

definition unproven_entries :: "(pyval \<Rightarrow> pystr) \<Rightarrow> (pystr \<Rightarrow> pystr set) \<Rightarrow> card \<Rightarrow> (pystr \<times> pystr \<times> string) list" where
  "unproven_entries rp proven c =
     (case (case json_object (sc_metadata c) of Some m \<Rightarrow> dget m dismissal_key | None \<Rightarrow> None) of
        Some (PList es) \<Rightarrow> map (\<lambda>e. (sc_id c, entry_fingerprint rp e, ''no valid exact-component dismissal receipt''))
          (filter (\<lambda>e. \<not> is_hex 64 (entry_fingerprint rp e) \<or> sc_id c \<notin> proven (entry_fingerprint rp e)) es)
      | _ \<Rightarrow> [(sc_id c, [], ''malformed'')])"

record receipt_report =
  rr_invalid :: "(pystr \<times> string) list"
  rr_unproven :: "(pystr \<times> pystr \<times> string) list"
  rr_fan_in :: "(pystr \<times> pystr) list"
  rr_valid :: "pystr list"
  rr_retired :: "pystr list"

definition fan_in_of :: "authority_db \<Rightarrow> receipt \<Rightarrow> (pystr \<times> pystr) list" where
  "fan_in_of db r =
     (if rc_action r = lit ''supersede''
      then map (\<lambda>m. (m, rc_selected r)) (filter (\<lambda>m. m \<noteq> rc_selected r) (map mb_card (receipt_members (rc_id r) (ad_members db))))
      else [])"

definition dismissed_members :: "authority_db \<Rightarrow> receipt list \<Rightarrow> pystr \<Rightarrow> pystr set" where
  "dismissed_members db valid fp =
     set (concat (map (\<lambda>r. map mb_card (receipt_members (rc_id r) (ad_members db)))
       (filter (\<lambda>r. rc_action r = lit ''dismiss'' \<and> rc_fingerprint r = fp) valid)))"

definition resolution_receipt_report ::
  "(pyval \<Rightarrow> pystr) \<Rightarrow> card list \<Rightarrow> authority_db \<Rightarrow> (pystr, pystr option) odict \<Rightarrow> py_error + receipt_report" where
  "resolution_receipt_report rp cards db quarantines =
     bindE (mapE (\<lambda>r. bindE (receipt_verdict rp cards db quarantines r) (\<lambda>v. Inr (r, v))) (sort_key receipt_less (ad_receipts db)))
       (\<lambda>vs.
      let valid = map fst (filter (\<lambda>(_, v). v = Valid) vs) in
      Inr \<lparr>rr_invalid = concat (map (\<lambda>(r, v). case v of Invalid e \<Rightarrow> [(rc_id r, e)] | _ \<Rightarrow> []) vs)
              @ map (\<lambda>_. ([], ''orphan conflict resolution member row'')) (orphan_members db),
           rr_unproven = concat (map (unproven_entries rp (dismissed_members db valid))
              (filter (\<lambda>c. infix_of (lit dismissal_key) (sc_metadata c)) (sort_key sc_id (ad_cards db)))),
           rr_fan_in = concat (map (fan_in_of db) valid),
           rr_valid = map rc_id valid,
           rr_retired = map (\<lambda>(r, _). rc_id r) (filter (\<lambda>(_, v). v = Retired) vs)\<rparr>)"

section \<open>The repair of forked checkpoints\<close>

text \<open>The predecessors an audit event of a checkpoint proves besides its direct one.\<close>

definition string_list :: "pyval option \<Rightarrow> pystr list option" where
  "string_list v = (case v of Some (PList xs) \<Rightarrow>
       if xs \<noteq> [] \<and> list_all (\<lambda>x. case x of PStr s \<Rightarrow> s \<noteq> [] | _ \<Rightarrow> False) xs \<and> distinct xs
       then Some (map (\<lambda>x. case x of PStr s \<Rightarrow> s | _ \<Rightarrow> []) xs) else None
     | _ \<Rightarrow> None)"

definition project_state_card :: "card \<Rightarrow> bool" where
  "project_state_card c \<longleftrightarrow> sc_type c = lit ''project_state''"

definition audited_boundary :: "(pyval \<Rightarrow> pystr) \<Rightarrow> pyval \<Rightarrow> pystr \<times> pystr \<times> pystr" where
  "audited_boundary rp a = (str_or_empty rp a ''visibility_scope'', str_or_empty rp a ''project_id'', str_or_empty rp a ''session_id'')"

definition proven_agent :: "(pystr, pystr) odict \<Rightarrow> pystr \<Rightarrow> pystr" where
  "proven_agent agents i = or_empty (oget agents i)"

definition audited_successor ::
  "(pyval \<Rightarrow> pystr) \<Rightarrow> (pystr, pystr) odict \<Rightarrow> audit_row \<Rightarrow> pyval \<Rightarrow> card \<Rightarrow> pystr \<Rightarrow> bool" where
  "audited_successor rp agents a authority c direct \<longleftrightarrow>
     (let agent = proven_agent agents (sc_id c) in
      agent \<noteq> [] \<and> au_actor a = agent \<and> str_or_empty rp authority ''agent_id'' = agent
      \<and> audited_boundary rp authority = conflict_boundary c \<and> or_empty (cd_supersedes c) = direct)"

definition audited_predecessor :: "(pystr, pystr) odict \<Rightarrow> card list \<Rightarrow> card \<Rightarrow> pystr \<Rightarrow> bool" where
  "audited_predecessor agents cards c p \<longleftrightarrow>
     (case find_card p cards of None \<Rightarrow> False
      | Some d \<Rightarrow> project_state_card d \<and> conflict_boundary d = conflict_boundary c
          \<and> oget agents p = oget agents (sc_id c) \<and> or_empty (cd_superseded_by d) = sc_id c)"

definition audited_fan_in ::
  "(pyval \<Rightarrow> pystr) \<Rightarrow> card list \<Rightarrow> (pystr, pystr) odict \<Rightarrow> audit_row \<Rightarrow> (pystr \<times> pystr) list" where
  "audited_fan_in rp cards agents a =
     (case (find_card (or_empty (au_target a)) cards, json_object (au_payload a)) of
        (Some c, Some p) \<Rightarrow>
          (case (dget p ''authority'', string_list (dget p ''superseded_card_ids'')) of
             (Some (PDict kvs), Some ids) \<Rightarrow>
               (let direct = str_or_empty rp p ''direct_predecessor_card_id'' in
                if direct \<in> set ids \<and> list_all (\<lambda>i. find_card i cards \<noteq> None) ids \<and> project_state_card c
                   \<and> audited_successor rp agents a (PDict kvs) c direct \<and> list_all (audited_predecessor agents cards c) ids
                then map (\<lambda>i. (i, sc_id c)) (filter (\<lambda>i. i \<noteq> direct) ids) else [])
           | _ \<Rightarrow> [])
      | _ \<Rightarrow> [])"

definition project_state_fan_in ::
  "(pyval \<Rightarrow> pystr) \<Rightarrow> card list \<Rightarrow> authority_db \<Rightarrow> (pystr, pystr) odict \<Rightarrow> (pystr \<times> pystr) list" where
  "project_state_fan_in rp cards db agents =
     concat (map (audited_fan_in rp cards agents)
       (sort_key (\<lambda>a. (au_created a, au_id a))
         (filter (\<lambda>a. au_action a = lit ''project_state_superseded'' \<and> au_target_type a = lit ''card'') (ad_audits db))))"

section \<open>The links\<close>

record link_findings =
  lf_missing :: "(pystr \<times> string \<times> pystr) list"
  lf_asymmetric :: "(pystr \<times> pystr \<times> string) list"
  lf_cross :: "(pystr \<times> pystr) list"
  lf_edges :: "pystr graph"
  lf_referenced :: "pystr list"

text \<open>The sets of the program are lists without repetitions.\<close>

definition check_predecessor :: "card list \<Rightarrow> card \<Rightarrow> link_findings \<Rightarrow> link_findings" where
  "check_predecessor cards c f =
     (let p = predecessor c in
      if p = [] then f
      else let f = f\<lparr>lf_referenced := List.insert p (lf_referenced f)\<rparr> in
        (case find_card p cards of
           None \<Rightarrow> f\<lparr>lf_missing := List.insert (sc_id c, ''supersedes_card_id'', p) (lf_missing f)\<rparr>
         | Some d \<Rightarrow>
             f\<lparr>lf_edges := add_edge p (sc_id c) (lf_edges f),
               lf_cross := (if conflict_boundary d \<noteq> conflict_boundary c then List.insert (p, sc_id c) (lf_cross f) else lf_cross f),
               lf_asymmetric := (if successor d \<noteq> sc_id c
                  then List.insert (p, sc_id c, ''direct predecessor backlink'') (lf_asymmetric f) else lf_asymmetric f)\<rparr>))"

definition check_successor :: "card list \<Rightarrow> (pystr \<times> pystr) set \<Rightarrow> card \<Rightarrow> link_findings \<Rightarrow> link_findings" where
  "check_successor cards fan_in c f =
     (let s = successor c in
      if s = [] then f
      else (case find_card s cards of
           None \<Rightarrow> f\<lparr>lf_missing := List.insert (sc_id c, ''superseded_by_card_id'', s) (lf_missing f)\<rparr>
         | Some d \<Rightarrow>
             f\<lparr>lf_edges := add_edge (sc_id c) s (lf_edges f),
               lf_cross := (if conflict_boundary c \<noteq> conflict_boundary d then List.insert (sc_id c, s) (lf_cross f) else lf_cross f),
               lf_asymmetric := (if predecessor d \<noteq> sc_id c \<and> (sc_id c, s) \<notin> fan_in
                  then List.insert (sc_id c, s, ''successor forward link'') (lf_asymmetric f) else lf_asymmetric f)\<rparr>))"

definition check_links :: "card list \<Rightarrow> (pystr \<times> pystr) set \<Rightarrow> link_findings" where
  "check_links cards fan_in =
     fold (\<lambda>c f. check_successor cards fan_in c (check_predecessor cards c f)) cards
       \<lparr>lf_missing = [], lf_asymmetric = [], lf_cross = [], lf_edges = no_edges cards, lf_referenced = []\<rparr>"

definition graph_edges :: "pystr graph \<Rightarrow> (pystr \<times> pystr) list" where
  "graph_edges g = concat (map (\<lambda>(p, ss). map (\<lambda>s. (p, s)) ss) g)"

definition type_of :: "card list \<Rightarrow> pystr \<Rightarrow> bool" where
  "type_of cards i = (column member_type cards i = project_state_type)"

definition known :: "card list \<Rightarrow> pystr \<times> pystr \<Rightarrow> bool" where
  "known cards e \<longleftrightarrow> find_card (fst e) cards \<noteq> None \<and> find_card (snd e) cards \<noteq> None"

definition mixed_edges :: "card list \<Rightarrow> pystr graph \<Rightarrow> (pystr \<times> pystr) list" where
  "mixed_edges cards g =
     remdups (filter (\<lambda>e. known cards e \<and> type_of cards (fst e) \<noteq> type_of cards (snd e)) (graph_edges g))"

definition cross_agent_edges ::
  "card list \<Rightarrow> pystr graph \<Rightarrow> (pystr, pystr) odict \<Rightarrow> (pystr \<times> pystr) set \<Rightarrow> (pystr \<times> pystr) list" where
  "cross_agent_edges cards g agents fan_in =
     remdups (filter (\<lambda>e. known cards e \<and> type_of cards (fst e) \<and> type_of cards (snd e)
         \<and> proven_agent agents (fst e) \<noteq> [] \<and> proven_agent agents (snd e) \<noteq> []
         \<and> proven_agent agents (fst e) \<noteq> proven_agent agents (snd e) \<and> e \<notin> fan_in) (graph_edges g))"

section \<open>Heads and groups\<close>

definition unsuperseded :: "pystr list \<Rightarrow> card \<Rightarrow> bool" where
  "unsuperseded referenced c \<longleftrightarrow> casefold (cd_status c) \<notin> set non_current_statuses \<and> successor c = [] \<and> sc_id c \<notin> set referenced"

definition heads :: "card list \<Rightarrow> pystr list \<Rightarrow> (pystr, pystr) odict \<Rightarrow> ((pystr \<times> pystr \<times> pystr) \<times> pystr \<times> pystr) list" where
  "heads cards referenced agents =
     concat (map (\<lambda>(i, agent). case find_card i cards of
         None \<Rightarrow> [] | Some c \<Rightarrow> if unsuperseded referenced c then [(conflict_boundary c, agent, i)] else []) (sort agents))"

definition duplicate_heads ::
  "card list \<Rightarrow> pystr list \<Rightarrow> (pystr, pystr) odict \<Rightarrow> (((pystr \<times> pystr \<times> pystr) \<times> pystr) \<times> pystr list) list" where
  "duplicate_heads cards referenced agents =
     (let hs = heads cards referenced agents; keys = sort (remdups (map (\<lambda>(b, agent, _). (b, agent)) hs));
          ids_of = (\<lambda>k. map (\<lambda>(_, _, i). i) (filter (\<lambda>(b, agent, _). (b, agent) = k) hs))
      in map (\<lambda>k. (k, sort (ids_of k))) (filter (\<lambda>k. 1 < length (ids_of k)) keys))"

definition group_reasons :: "card list \<Rightarrow> pystr list \<Rightarrow> card list \<Rightarrow> string list" where
  "group_reasons cards referenced members =
     (let types = map member_type members in
      (if length members < 2 then [''group has fewer than two members''] else [])
      @ (if list_ex (\<lambda>c. \<not> unsuperseded referenced c) members then [''group contains a historical or superseded Card''] else [])
      @ (if length (remdups (map conflict_boundary members)) \<noteq> 1 then [''group crosses authority boundaries''] else [])
      @ (if project_state_type \<in> set types \<and> 1 < length (remdups types) then [''project-state group contains another Card type''] else []))"

definition invalid_groups :: "card list \<Rightarrow> pystr list \<Rightarrow> (pystr \<times> pystr list \<times> string list) list" where
  "invalid_groups cards referenced =
     map (\<lambda>c. ([], [sc_id c], [''blank group id''])) (sort_key sc_id (filter (\<lambda>c. cd_group c \<noteq> None \<and> conflict_group c = []) cards))
     @ concat (map (\<lambda>g. let members = filter (\<lambda>c. conflict_group c = g) cards; rs = group_reasons cards referenced members
                       in if rs = [] then [] else [(g, sort (map sc_id members), rs)])
          (sort (remdups (filter (\<lambda>g. g \<noteq> []) (map conflict_group cards)))))"

section \<open>The report\<close>

record authority_report =
  ar_links :: link_findings
  ar_cycles :: "pystr list list"
  ar_mixed :: "(pystr \<times> pystr) list"
  ar_cross_agent :: "(pystr \<times> pystr) list"
  ar_heads :: "(((pystr \<times> pystr \<times> pystr) \<times> pystr) \<times> pystr list) list"
  ar_groups :: "(pystr \<times> pystr list \<times> string list) list"
  ar_receipts :: receipt_report

definition temporal_authority_report ::
  "(pyval \<Rightarrow> pystr) \<Rightarrow> authority_db \<Rightarrow> (pystr, pystr) odict \<Rightarrow> (pystr, pystr option) odict \<Rightarrow> py_error + authority_report" where
  "temporal_authority_report rp db agents quarantines =
     (let cards = sort_key sc_id (ad_cards db) in
      bindE (resolution_receipt_report rp cards db quarantines) (\<lambda>rr.
      let fan_in = set (rr_fan_in rr) \<union> set (project_state_fan_in rp cards db agents); f = check_links cards fan_in in
      bindE (supersession_cycle_components (lf_edges f)) (\<lambda>cycles.
      Inr \<lparr>ar_links = f, ar_cycles = cycles, ar_mixed = mixed_edges cards (lf_edges f),
           ar_cross_agent = cross_agent_edges cards (lf_edges f) agents fan_in,
           ar_heads = duplicate_heads cards (lf_referenced f) agents,
           ar_groups = invalid_groups cards (lf_referenced f), ar_receipts = rr\<rparr>)))"

text \<open>The ten counts, in the order of the report, and its verdict.\<close>

definition report_checks :: "authority_report \<Rightarrow> nat list" where
  "report_checks a =
     [length (lf_missing (ar_links a)), length (lf_asymmetric (ar_links a)), length (lf_cross (ar_links a)), length (ar_cycles a),
      length (ar_mixed a), length (ar_cross_agent a), length (ar_heads a), length (ar_groups a),
      length (rr_invalid (ar_receipts a)), length (rr_unproven (ar_receipts a))]"

definition report_ok :: "authority_report \<Rightarrow> bool" where
  "report_ok a \<longleftrightarrow> list_all (\<lambda>n. n = 0) (report_checks a)"

section \<open>What the links of a report are\<close>

lemma fold_union:
  "(\<And>c f. S (step c f) = S f \<union> K c) \<Longrightarrow> S (fold step cs f) = S f \<union> (\<Union>c\<in>set cs. K c)"
  by (induction cs arbitrary: f) auto

definition missing_of :: "card list \<Rightarrow> card \<Rightarrow> (pystr \<times> string \<times> pystr) set" where
  "missing_of cards c =
     (if predecessor c \<noteq> [] \<and> find_card (predecessor c) cards = None then {(sc_id c, ''supersedes_card_id'', predecessor c)} else {})
     \<union> (if successor c \<noteq> [] \<and> find_card (successor c) cards = None then {(sc_id c, ''superseded_by_card_id'', successor c)} else {})"

definition asymmetric_of :: "card list \<Rightarrow> (pystr \<times> pystr) set \<Rightarrow> card \<Rightarrow> (pystr \<times> pystr \<times> string) set" where
  "asymmetric_of cards fan_in c =
     (if predecessor c = [] then {} else case find_card (predecessor c) cards of None \<Rightarrow> {}
        | Some d \<Rightarrow> if successor d \<noteq> sc_id c then {(predecessor c, sc_id c, ''direct predecessor backlink'')} else {})
     \<union> (if successor c = [] then {} else case find_card (successor c) cards of None \<Rightarrow> {}
        | Some d \<Rightarrow> if predecessor d \<noteq> sc_id c \<and> (sc_id c, successor c) \<notin> fan_in
            then {(sc_id c, successor c, ''successor forward link'')} else {})"

definition crossing_of :: "card list \<Rightarrow> card \<Rightarrow> (pystr \<times> pystr) set" where
  "crossing_of cards c =
     (if predecessor c = [] then {} else case find_card (predecessor c) cards of None \<Rightarrow> {}
        | Some d \<Rightarrow> if conflict_boundary d \<noteq> conflict_boundary c then {(predecessor c, sc_id c)} else {})
     \<union> (if successor c = [] then {} else case find_card (successor c) cards of None \<Rightarrow> {}
        | Some d \<Rightarrow> if conflict_boundary c \<noteq> conflict_boundary d then {(sc_id c, successor c)} else {})"

lemma check_links_sets:
  "set (lf_missing (check_links cards fan_in)) = (\<Union>c\<in>set cards. missing_of cards c)"
  "set (lf_asymmetric (check_links cards fan_in)) = (\<Union>c\<in>set cards. asymmetric_of cards fan_in c)"
  "set (lf_cross (check_links cards fan_in)) = (\<Union>c\<in>set cards. crossing_of cards c)"
  "set (lf_referenced (check_links cards fan_in)) = {p. p \<noteq> [] \<and> p \<in> predecessor ` set cards}"
proof -
  let ?step = "\<lambda>c f. check_successor cards fan_in c (check_predecessor cards c f)"
  let ?init = "\<lparr>lf_missing = [], lf_asymmetric = [], lf_cross = [], lf_edges = no_edges cards, lf_referenced = []\<rparr>"
  have "set (lf_missing (?step c f)) = set (lf_missing f) \<union> missing_of cards c" for c f
    by (auto simp: check_predecessor_def check_successor_def missing_of_def Let_def split: option.splits)
  from fold_union [of "\<lambda>f. set (lf_missing f)" ?step, OF this, of cards ?init]
  show "set (lf_missing (check_links cards fan_in)) = (\<Union>c\<in>set cards. missing_of cards c)" by (simp add: check_links_def)
  have "set (lf_asymmetric (?step c f)) = set (lf_asymmetric f) \<union> asymmetric_of cards fan_in c" for c f
    by (auto simp: check_predecessor_def check_successor_def asymmetric_of_def Let_def split: option.splits)
  from fold_union [of "\<lambda>f. set (lf_asymmetric f)" ?step, OF this, of cards ?init]
  show "set (lf_asymmetric (check_links cards fan_in)) = (\<Union>c\<in>set cards. asymmetric_of cards fan_in c)" by (simp add: check_links_def)
  have "set (lf_cross (?step c f)) = set (lf_cross f) \<union> crossing_of cards c" for c f
    by (auto simp: check_predecessor_def check_successor_def crossing_of_def Let_def split: option.splits)
  from fold_union [of "\<lambda>f. set (lf_cross f)" ?step, OF this, of cards ?init]
  show "set (lf_cross (check_links cards fan_in)) = (\<Union>c\<in>set cards. crossing_of cards c)" by (simp add: check_links_def)
  have "set (lf_referenced (?step c f)) = set (lf_referenced f) \<union> (if predecessor c = [] then {} else {predecessor c})" for c f
    by (auto simp: check_predecessor_def check_successor_def Let_def split: option.splits)
  from fold_union [of "\<lambda>f. set (lf_referenced f)" ?step, OF this, of cards ?init]
  show "set (lf_referenced (check_links cards fan_in)) = {p. p \<noteq> [] \<and> p \<in> predecessor ` set cards}"
    by (auto simp: check_links_def)
qed

definition inside_links :: "card list \<Rightarrow> card \<Rightarrow> (pystr \<times> pystr) set" where
  "inside_links cards c =
     (if predecessor c \<noteq> [] \<and> find_card (predecessor c) cards \<noteq> None then {(predecessor c, sc_id c)} else {})
     \<union> (if successor c \<noteq> [] \<and> find_card (successor c) cards \<noteq> None then {(sc_id c, successor c)} else {})"

lemma find_card_iff: "find_card i cards \<noteq> None \<longleftrightarrow> i \<in> sc_id ` set cards"
  by (force simp: find_card_def find_None_all)

lemma check_links_edges:
  assumes "distinct (map sc_id cards)"
  shows "graph_of (sc_id ` set cards) (\<Union>c\<in>set cards. inside_links cards c) (lf_edges (check_links cards fan_in))"
proof -
  let ?step = "\<lambda>c f. check_successor cards fan_in c (check_predecessor cards c f)" and ?ids = "sc_id ` set cards"
  have step: "graph_of ?ids (E \<union> inside_links cards c) (lf_edges (?step c f))"
    if "graph_of ?ids E (lf_edges f)" "c \<in> set cards" for E c f
  proof -
    let ?p = "predecessor c \<noteq> [] \<and> find_card (predecessor c) cards \<noteq> None"
    let ?s = "successor c \<noteq> [] \<and> find_card (successor c) cards \<noteq> None"
    have "lf_edges (check_predecessor cards c f) = (if ?p then add_edge (predecessor c) (sc_id c) (lf_edges f) else lf_edges f)"
      by (auto simp: check_predecessor_def Let_def split: option.splits)
    with that have one: "graph_of ?ids (E \<union> (if ?p then {(predecessor c, sc_id c)} else {})) (lf_edges (check_predecessor cards c f))"
      using graph_of_add [of ?ids E "lf_edges f" "predecessor c" "sc_id c"] find_card_iff by auto
    have "lf_edges (?step c f) = (if ?s then add_edge (sc_id c) (successor c) (lf_edges (check_predecessor cards c f))
        else lf_edges (check_predecessor cards c f))"
      by (auto simp: check_successor_def Let_def split: option.splits)
    with one that(2) show ?thesis
      using graph_of_add [of ?ids _ "lf_edges (check_predecessor cards c f)" "sc_id c" "successor c"] find_card_iff
      by (auto simp: inside_links_def Un_commute)
  qed
  have "graph_of ?ids (E \<union> (\<Union>c\<in>set cs. inside_links cards c)) (lf_edges (fold ?step cs f))"
    if "graph_of ?ids E (lf_edges f)" "set cs \<subseteq> set cards" for E cs f
    using that
  proof (induction cs arbitrary: E f)
    case (Cons c cs)
    from Cons.IH [OF step [OF Cons.prems(1), of c]] Cons.prems(2) show ?case by (simp add: Un_assoc)
  qed simp
  from this [of "{}" _ cards] graph_of_empty [OF assms] show ?thesis by (simp add: check_links_def)
qed

section \<open>What a clean report says\<close>

definition proper_links :: "card list \<Rightarrow> (pystr \<times> pystr) set \<Rightarrow> bool" where
  "proper_links cards fan_in \<longleftrightarrow> (\<forall>c\<in>set cards.
     (predecessor c \<noteq> [] \<longrightarrow> (\<exists>d. find_card (predecessor c) cards = Some d
         \<and> conflict_boundary d = conflict_boundary c \<and> successor d = sc_id c))
   \<and> (successor c \<noteq> [] \<longrightarrow> (\<exists>d. find_card (successor c) cards = Some d \<and> conflict_boundary c = conflict_boundary d
         \<and> (predecessor d = sc_id c \<or> (sc_id c, successor c) \<in> fan_in))))"

definition uniform_edges :: "card list \<Rightarrow> (pystr, pystr) odict \<Rightarrow> (pystr \<times> pystr) set \<Rightarrow> bool" where
  "uniform_edges cards agents fan_in \<longleftrightarrow> (\<forall>p s. (p, s) \<in> links (set cards) \<longrightarrow> type_of cards p = type_of cards s
     \<and> (type_of cards p \<and> proven_agent agents p \<noteq> [] \<and> proven_agent agents s \<noteq> [] \<and> (p, s) \<notin> fan_in
        \<longrightarrow> proven_agent agents p = proven_agent agents s))"

definition one_head :: "card list \<Rightarrow> pystr list \<Rightarrow> (pystr, pystr) odict \<Rightarrow> bool" where
  "one_head cards referenced agents \<longleftrightarrow> (\<forall>i j c d agent. (i, agent) \<in> set agents \<and> (j, agent) \<in> set agents
     \<and> find_card i cards = Some c \<and> find_card j cards = Some d \<and> unsuperseded referenced c \<and> unsuperseded referenced d
     \<and> conflict_boundary c = conflict_boundary d \<longrightarrow> i = j)"

definition sound_groups :: "card list \<Rightarrow> pystr list \<Rightarrow> bool" where
  "sound_groups cards referenced \<longleftrightarrow> (\<forall>c\<in>set cards. (cd_group c \<noteq> None \<longrightarrow> conflict_group c \<noteq> [])
     \<and> (conflict_group c \<noteq> [] \<longrightarrow>
         (\<exists>d\<in>set cards. sc_id d \<noteq> sc_id c \<and> conflict_group d = conflict_group c)
       \<and> (\<forall>d\<in>set cards. conflict_group d = conflict_group c \<longrightarrow> unsuperseded referenced d \<and> conflict_boundary d = conflict_boundary c
            \<and> (\<forall>e\<in>set cards. conflict_group e = conflict_group c \<and> member_type d = project_state_type \<longrightarrow> member_type e = project_state_type))))"

lemma empty_iff_set: "xs = [] \<longleftrightarrow> set xs = {}"
  by simp

lemma clean_links_iff:
  "lf_missing (check_links cards fan_in) = [] \<and> lf_asymmetric (check_links cards fan_in) = [] \<and> lf_cross (check_links cards fan_in) = []
    \<longleftrightarrow> proper_links cards fan_in"
proof -
  have one: "missing_of cards c = {} \<and> asymmetric_of cards fan_in c = {} \<and> crossing_of cards c = {} \<longleftrightarrow>
     (predecessor c \<noteq> [] \<longrightarrow> (\<exists>d. find_card (predecessor c) cards = Some d
         \<and> conflict_boundary d = conflict_boundary c \<and> successor d = sc_id c))
   \<and> (successor c \<noteq> [] \<longrightarrow> (\<exists>d. find_card (successor c) cards = Some d \<and> conflict_boundary c = conflict_boundary d
         \<and> (predecessor d = sc_id c \<or> (sc_id c, successor c) \<in> fan_in)))" for c
    by (cases "predecessor c = []"; cases "successor c = []"; cases "find_card (predecessor c) cards"; cases "find_card (successor c) cards")
       (auto simp: missing_of_def asymmetric_of_def crossing_of_def)
  have "proper_links cards fan_in \<longleftrightarrow>
      (\<forall>c\<in>set cards. missing_of cards c = {} \<and> asymmetric_of cards fan_in c = {} \<and> crossing_of cards c = {})"
    unfolding proper_links_def by (intro ball_cong refl) (rule one [symmetric])
  then show ?thesis unfolding empty_iff_set check_links_sets by blast
qed

lemma proper_edges: "proper_links cards fan_in \<Longrightarrow> (\<Union>c\<in>set cards. inside_links cards c) = links (set cards)"
proof -
  assume proper: "proper_links cards fan_in"
  have "inside_links cards c = (if predecessor c = [] then {} else {(predecessor c, sc_id c)})
      \<union> (if successor c = [] then {} else {(sc_id c, successor c)})" if "c \<in> set cards" for c
  proof -
    have "predecessor c \<noteq> [] \<longrightarrow> find_card (predecessor c) cards \<noteq> None" "successor c \<noteq> [] \<longrightarrow> find_card (successor c) cards \<noteq> None"
      using proper that unfolding proper_links_def by (metis option.distinct(1))+
    then show ?thesis by (simp add: inside_links_def)
  qed
  then have "(\<Union>c\<in>set cards. inside_links cards c) = (\<Union>c\<in>set cards. (if predecessor c = [] then {} else {(predecessor c, sc_id c)})
      \<union> (if successor c = [] then {} else {(sc_id c, successor c)}))" by (intro SUP_cong) auto
  also have "\<dots> = links (set cards)" by (auto simp: links_def split: if_splits)
  finally show ?thesis .
qed

lemma graph_edges_set: "distinct (map fst g) \<Longrightarrow> set (graph_edges g) = edge g"
proof -
  assume dist: "distinct (map fst g)"
  have "(p, s) \<in> set (graph_edges g) \<longleftrightarrow> (p, s) \<in> edge g" for p s
  proof -
    have "(p, s) \<in> set (graph_edges g) \<longleftrightarrow> (\<exists>ss. (p, ss) \<in> set g \<and> s \<in> set ss)" by (auto simp: graph_edges_def)
    also have "\<dots> \<longleftrightarrow> s \<in> set (targets g p)"
      using dist by (auto simp: targets_def dest: map_of_SomeD split: option.splits)
    finally show ?thesis by (simp add: edge_def)
  qed
  then show ?thesis by auto
qed

lemma clean_edges_iff:
  assumes "graph_of (sc_id ` set cards) (links (set cards)) g"
  shows "mixed_edges cards g = [] \<and> cross_agent_edges cards g agents fan_in = [] \<longleftrightarrow> uniform_edges cards agents fan_in"
proof -
  have "set (graph_edges g) = links (set cards)" using assms graph_edges_set [of g] by (simp add: graph_of_def)
  moreover have "known cards e" if "e \<in> links (set cards)" for e
    using assms that unfolding known_def find_card_iff by (cases e) (auto simp: graph_of_def)
  ultimately have "mixed_edges cards g = [] \<longleftrightarrow> (\<forall>e\<in>links (set cards). type_of cards (fst e) = type_of cards (snd e))"
    "cross_agent_edges cards g agents fan_in = [] \<longleftrightarrow> (\<forall>e\<in>links (set cards). \<not> (type_of cards (fst e) \<and> type_of cards (snd e)
       \<and> proven_agent agents (fst e) \<noteq> [] \<and> proven_agent agents (snd e) \<noteq> []
       \<and> proven_agent agents (fst e) \<noteq> proven_agent agents (snd e) \<and> e \<notin> fan_in))"
    by (simp_all add: mixed_edges_def cross_agent_edges_def filter_empty_conv)
  then show ?thesis unfolding uniform_edges_def by fastforce
qed

lemma heads_set: "(b, agent, i) \<in> set (heads cards referenced agents) \<longleftrightarrow>
    (i, agent) \<in> set agents \<and> (\<exists>c. find_card i cards = Some c \<and> unsuperseded referenced c \<and> conflict_boundary c = b)"
  by (cases "find_card i cards") (auto simp: heads_def split: option.splits if_splits)

lemma heads_distinct:
  assumes "distinct (map fst agents)"
  shows "distinct (map (\<lambda>(_, _, i). i) (heads cards referenced agents))"
proof -
  let ?pick = "\<lambda>(i, agent). case find_card i cards of
      None \<Rightarrow> [] | Some c \<Rightarrow> if unsuperseded referenced c then [(conflict_boundary c, agent :: pystr, i)] else []"
  have "distinct (map fst xs) \<Longrightarrow> distinct (map (\<lambda>(_, _, i). i) (concat (map ?pick xs)))
      \<and> (\<lambda>(_, _, i). i) ` set (concat (map ?pick xs)) \<subseteq> fst ` set xs" for xs :: "(pystr \<times> pystr) list"
  proof (induction xs)
    case (Cons x xs)
    obtain i agent where x: "x = (i, agent)" by force
    define rest where "rest = concat (map ?pick xs)"
    have "(\<lambda>(_, _, i). i) ` set rest \<subseteq> fst ` set xs" "distinct (map (\<lambda>(_, _, i). i) rest)" "i \<notin> fst ` set xs"
      using Cons by (simp_all add: x rest_def)
    moreover have "concat (map ?pick (x # xs)) = ?pick x @ rest" by (simp add: rest_def)
    ultimately show ?case unfolding x by (cases "find_card i cards") auto
  qed simp
  moreover have "distinct (map fst (sort agents))" using assms by (simp add: distinct_map)
  ultimately show ?thesis by (simp add: heads_def)
qed

lemma clean_heads_iff:
  assumes "distinct (map fst agents)"
  shows "duplicate_heads cards referenced agents = [] \<longleftrightarrow> one_head cards referenced agents"
proof -
  let ?hs = "heads cards referenced agents"
  let ?ids = "\<lambda>k. map (\<lambda>(_, _, i). i) (filter (\<lambda>(b, agent, _). (b, agent) = k) ?hs)"
  have dist: "distinct (?ids k)" for k using heads_distinct [OF assms] by (rule distinct_map_filter)
  have ids: "i \<in> set (?ids (b, agent)) \<longleftrightarrow> (b, agent, i) \<in> set ?hs" for b agent i by force
  have "duplicate_heads cards referenced agents = [] \<longleftrightarrow> (\<forall>k. \<not> 1 < length (?ids k))"
  proof -
    have "k \<in> set (map (\<lambda>(b, agent, _). (b, agent)) ?hs)" if "1 < length (?ids k)" for k
    proof -
      from that have "?ids k \<noteq> []" by auto
      then obtain h where "h \<in> set ?hs" "(\<lambda>(b, agent, _). (b, agent) = k) h" by (auto simp: filter_empty_conv)
      then show ?thesis by force
    qed
    then show ?thesis unfolding duplicate_heads_def Let_def map_is_Nil_conv filter_empty_conv set_sort set_remdups by blast
  qed
  also have "\<dots> \<longleftrightarrow> (\<forall>b agent i j. (b, agent, i) \<in> set ?hs \<and> (b, agent, j) \<in> set ?hs \<longrightarrow> i = j)"
    unfolding length_le_one [OF dist] using ids by (metis surj_pair)
  also have "\<dots> \<longleftrightarrow> one_head cards referenced agents" unfolding heads_set one_head_def by blast
  finally show ?thesis .
qed

lemma all_equal: "x \<in> A \<Longrightarrow> (\<forall>a\<in>A. \<forall>b\<in>A. a = b) \<longleftrightarrow> (\<forall>a\<in>A. a = x)"
  by metis

lemma same_key_cards:
  assumes "distinct (map sc_id cards)" "c \<in> set cards" and that: "P c"
  shows "2 \<le> length (filter P cards) \<longleftrightarrow> (\<exists>d\<in>set cards. sc_id d \<noteq> sc_id c \<and> P d)"
proof -
  have dist: "distinct (map sc_id (filter P cards))" using assms(1) by (rule distinct_map_filter)
  have "\<not> 1 < length (map sc_id (filter P cards)) \<longleftrightarrow> (\<forall>x\<in>sc_id ` set (filter P cards). \<forall>y\<in>sc_id ` set (filter P cards). x = y)"
    using length_le_one [OF dist] by simp
  also have "\<dots> \<longleftrightarrow> (\<forall>x\<in>sc_id ` set (filter P cards). x = sc_id c)" using assms(2) that by (intro all_equal) simp
  finally show ?thesis by auto
qed

lemma remdups_uniform: "x \<in> set xs \<Longrightarrow> length (remdups xs) = 1 \<longleftrightarrow> (\<forall>y\<in>set xs. y = x)"
proof -
  assume x: "x \<in> set xs"
  have "length (remdups xs) = 1 \<longleftrightarrow> \<not> 1 < length (remdups xs)"
    using x by (cases "remdups xs") (auto simp: remdups_eq_nil_iff)
  also have "\<dots> \<longleftrightarrow> (\<forall>y\<in>set xs. y = x)" using length_le_one [of "remdups xs"] all_equal [OF x] by simp
  finally show ?thesis .
qed

lemma group_reasons_iff:
  assumes dist: "distinct (map sc_id cards)" and c: "c \<in> set cards" and m: "members = filter (\<lambda>d. conflict_group d = conflict_group c) cards"
  shows "group_reasons cards referenced members = [] \<longleftrightarrow>
    (\<exists>d\<in>set cards. sc_id d \<noteq> sc_id c \<and> conflict_group d = conflict_group c)
    \<and> (\<forall>d\<in>set members. unsuperseded referenced d \<and> conflict_boundary d = conflict_boundary c)
    \<and> (\<forall>d\<in>set members. \<forall>e\<in>set members. member_type d = project_state_type \<longrightarrow> member_type e = project_state_type)"
proof -
  have cm: "c \<in> set members" using c m by simp
  have two: "length members < 2 \<longleftrightarrow> \<not> (\<exists>d\<in>set cards. sc_id d \<noteq> sc_id c \<and> conflict_group d = conflict_group c)"
    using same_key_cards [OF dist c, of "\<lambda>d. conflict_group d = conflict_group c"] m by auto
  have bound: "length (remdups (map conflict_boundary members)) \<noteq> 1 \<longleftrightarrow> \<not> (\<forall>d\<in>set members. conflict_boundary d = conflict_boundary c)"
    using remdups_uniform [of "conflict_boundary c" "map conflict_boundary members"] cm by auto
  have types: "project_state_type \<in> set (map member_type members) \<and> 1 < length (remdups (map member_type members)) \<longleftrightarrow>
      \<not> (\<forall>d\<in>set members. \<forall>e\<in>set members. member_type d = project_state_type \<longrightarrow> member_type e = project_state_type)"
    (is "?ps \<and> ?more \<longleftrightarrow> _")
  proof (cases ?ps)
    case True
    then have "length (remdups (map member_type members)) \<noteq> 0" by auto
    then have "?more \<longleftrightarrow> length (remdups (map member_type members)) \<noteq> 1" by linarith
    moreover have "(\<forall>y\<in>set (map member_type members). y = project_state_type) \<longleftrightarrow>
        (\<forall>d\<in>set members. \<forall>e\<in>set members. member_type d = project_state_type \<longrightarrow> member_type e = project_state_type)"
      using True by (simp add: image_iff) metis
    ultimately show ?thesis using True unfolding remdups_uniform [OF True] by blast
  next
    case False
    then show ?thesis by (force simp: image_iff)
  qed
  show ?thesis unfolding group_reasons_def Let_def types bound two by (auto simp: list_ex_iff)
qed

lemma clean_groups_iff:
  assumes dist: "distinct (map sc_id cards)"
  shows "invalid_groups cards referenced = [] \<longleftrightarrow> sound_groups cards referenced"
proof -
  let ?members = "\<lambda>g. filter (\<lambda>d. conflict_group d = g) cards"
  have "invalid_groups cards referenced = [] \<longleftrightarrow> (\<forall>c\<in>set cards. cd_group c \<noteq> None \<longrightarrow> conflict_group c \<noteq> [])
      \<and> (\<forall>c\<in>set cards. conflict_group c \<noteq> [] \<longrightarrow> group_reasons cards referenced (?members (conflict_group c)) = [])"
    unfolding invalid_groups_def Let_def append_is_Nil_conv map_is_Nil_conv empty_iff_set set_sort
    by (auto simp: filter_empty_conv split: if_splits)
  also have "\<dots> \<longleftrightarrow> sound_groups cards referenced"
  proof -
    have "group_reasons cards referenced (?members (conflict_group c)) = [] \<longleftrightarrow>
        (\<exists>d\<in>set cards. sc_id d \<noteq> sc_id c \<and> conflict_group d = conflict_group c)
      \<and> (\<forall>d\<in>set cards. conflict_group d = conflict_group c \<longrightarrow> unsuperseded referenced d \<and> conflict_boundary d = conflict_boundary c
            \<and> (\<forall>e\<in>set cards. conflict_group e = conflict_group c \<and> member_type d = project_state_type \<longrightarrow> member_type e = project_state_type))"
      if "c \<in> set cards" for c
      unfolding group_reasons_iff [OF dist that refl] set_filter by blast
    then show ?thesis unfolding sound_groups_def by blast
  qed
  finally show ?thesis .
qed

definition sorted_cards :: "authority_db \<Rightarrow> card list" where
  "sorted_cards db = sort_key sc_id (ad_cards db)"

lemma sorted_cards_simps [simp]: "set (sorted_cards db) = set (ad_cards db)"
  "distinct (map sc_id (ad_cards db)) \<Longrightarrow> distinct (map sc_id (sorted_cards db))"
  by (simp_all add: sorted_cards_def distinct_map)

lemma find_sorted: "distinct (map sc_id (ad_cards db)) \<Longrightarrow> find_card i (sorted_cards db) = find_card i (ad_cards db)"
proof -
  assume dist: "distinct (map sc_id (ad_cards db))"
  show ?thesis
  proof (cases "find_card i (ad_cards db)")
    case None
    then have "i \<notin> sc_id ` set (sorted_cards db)" using find_card_iff [of i "ad_cards db"] by simp
    then show ?thesis using find_card_iff [of i "sorted_cards db"] None by auto
  next
    case (Some c)
    then have "c \<in> set (sorted_cards db)" "sc_id c = i" using find_cardD [OF Some] by simp_all
    then show ?thesis using find_card_distinct [of "sorted_cards db" c] dist Some by simp
  qed
qed

definition fan_in_links :: "(pyval \<Rightarrow> pystr) \<Rightarrow> authority_db \<Rightarrow> (pystr, pystr) odict \<Rightarrow> receipt_report \<Rightarrow> (pystr \<times> pystr) set" where
  "fan_in_links rp db agents rr = set (rr_fan_in rr) \<union> set (project_state_fan_in rp (sorted_cards db) db agents)"

definition referenced :: "card list \<Rightarrow> pystr list" where
  "referenced cards = lf_referenced (check_links cards {})"

lemma referenced_set: "set (lf_referenced (check_links cards fan_in)) = {p. p \<noteq> [] \<and> p \<in> predecessor ` set cards}"
  by (rule check_links_sets)

text \<open>A report is clean exactly when all of this holds.\<close>

definition clean_authority ::
  "card list \<Rightarrow> (pystr \<times> pystr) set \<Rightarrow> (pystr, pystr) odict \<Rightarrow> bool" where
  "clean_authority cards fan_in agents \<longleftrightarrow> proper_links cards fan_in \<and> acyclic (links (set cards))
     \<and> uniform_edges cards agents fan_in \<and> one_head cards (lf_referenced (check_links cards fan_in)) agents
     \<and> sound_groups cards (lf_referenced (check_links cards fan_in))"

lemma report_ok_iff:
  assumes dist: "distinct (map sc_id (ad_cards db))" and agents: "distinct (map fst agents)"
    and rr: "resolution_receipt_report rp (sorted_cards db) db quarantines = Inr rr"
  shows "(\<exists>a. temporal_authority_report rp db agents quarantines = Inr a \<and> report_ok a) \<longleftrightarrow>
    rr_invalid rr = [] \<and> rr_unproven rr = [] \<and> clean_authority (sorted_cards db) (fan_in_links rp db agents rr) agents"
proof -
  let ?cards = "sorted_cards db" and ?fan = "fan_in_links rp db agents rr"
  let ?f = "check_links ?cards ?fan"
  have d: "distinct (map sc_id ?cards)" using dist by simp
  note edges = check_links_edges [OF d, of ?fan]
  have closed: "closed_graph (lf_edges ?f)" by (rule graph_of_closed [OF edges])
  obtain cs where cs: "supersession_cycle_components (lf_edges ?f) = Inr cs" "cs = [] \<longleftrightarrow> acyclic (edge (lf_edges ?f))"
    using components_exact [OF closed] by metis
  have run: "temporal_authority_report rp db agents quarantines = Inr
      \<lparr>ar_links = ?f, ar_cycles = cs, ar_mixed = mixed_edges ?cards (lf_edges ?f),
       ar_cross_agent = cross_agent_edges ?cards (lf_edges ?f) agents ?fan,
       ar_heads = duplicate_heads ?cards (lf_referenced ?f) agents,
       ar_groups = invalid_groups ?cards (lf_referenced ?f), ar_receipts = rr\<rparr>"
    unfolding temporal_authority_report_def Let_def sorted_cards_def [symmetric] rr bindE_simps fan_in_links_def [symmetric] cs(1) ..
  have "(\<exists>a. temporal_authority_report rp db agents quarantines = Inr a \<and> report_ok a) \<longleftrightarrow>
      (lf_missing ?f = [] \<and> lf_asymmetric ?f = [] \<and> lf_cross ?f = []) \<and> cs = []
      \<and> (mixed_edges ?cards (lf_edges ?f) = [] \<and> cross_agent_edges ?cards (lf_edges ?f) agents ?fan = [])
      \<and> duplicate_heads ?cards (lf_referenced ?f) agents = [] \<and> invalid_groups ?cards (lf_referenced ?f) = []
      \<and> rr_invalid rr = [] \<and> rr_unproven rr = []"
    unfolding run by (auto simp: report_ok_def report_checks_def)
  also have "\<dots> \<longleftrightarrow> proper_links ?cards ?fan \<and> cs = []
      \<and> (mixed_edges ?cards (lf_edges ?f) = [] \<and> cross_agent_edges ?cards (lf_edges ?f) agents ?fan = [])
      \<and> one_head ?cards (lf_referenced ?f) agents \<and> sound_groups ?cards (lf_referenced ?f) \<and> rr_invalid rr = [] \<and> rr_unproven rr = []"
    unfolding clean_links_iff clean_heads_iff [OF agents] clean_groups_iff [OF d] ..
  also have "\<dots> \<longleftrightarrow> rr_invalid rr = [] \<and> rr_unproven rr = [] \<and> clean_authority ?cards ?fan agents"
  proof (cases "proper_links ?cards ?fan")
    case True
    from edges have g: "graph_of (sc_id ` set ?cards) (links (set ?cards)) (lf_edges ?f)" unfolding proper_edges [OF True] .
    then have "cs = [] \<longleftrightarrow> acyclic (links (set ?cards))" using cs(2) by (simp add: graph_of_def)
    then show ?thesis unfolding clean_edges_iff [OF g] clean_authority_def using True by blast
  qed (simp add: clean_authority_def)
  finally show ?thesis .
qed

lemma clean_report_cases:
  assumes "distinct (map sc_id (ad_cards db))" "distinct (map fst agents)"
    and run: "temporal_authority_report rp db agents quarantines = Inr a" "report_ok a"
  obtains rr where "resolution_receipt_report rp (sorted_cards db) db quarantines = Inr rr" "rr_invalid rr = []" "rr_unproven rr = []"
    "clean_authority (sorted_cards db) (fan_in_links rp db agents rr) agents"
proof -
  from run(1) obtain rr where rr: "resolution_receipt_report rp (sorted_cards db) db quarantines = Inr rr"
    unfolding temporal_authority_report_def Let_def sorted_cards_def [symmetric] bindE_Inr_iff by blast
  from report_ok_iff [OF assms(1,2) rr] run that [OF rr] show thesis by blast
qed

lemma clean_link:
  assumes dist: "distinct (map sc_id cards)" and ids: "\<forall>c\<in>set cards. sc_id c \<noteq> []"
    and proper: "proper_links cards fan_in" and link: "(p, s) \<in> links (set cards)"
  shows "\<exists>c d. find_card p cards = Some c \<and> find_card s cards = Some d \<and> conflict_boundary c = conflict_boundary d
    \<and> successor c = s \<and> s \<noteq> []"
  using link unfolding links_iff
proof
  assume "\<exists>c\<in>set cards. p = sc_id c \<and> s = successor c \<and> s \<noteq> []"
  then obtain c where "c \<in> set cards" "p = sc_id c" "s = successor c" "s \<noteq> []" by blast
  with proper find_card_distinct [OF dist] show ?thesis unfolding proper_links_def by metis
next
  assume "\<exists>c\<in>set cards. s = sc_id c \<and> p = predecessor c \<and> p \<noteq> []"
  then obtain c where c: "c \<in> set cards" "s = sc_id c" "p = predecessor c" "p \<noteq> []" by blast
  with proper obtain d where d: "find_card p cards = Some d" "conflict_boundary d = conflict_boundary c" "successor d = s"
    unfolding proper_links_def by blast
  have "s \<noteq> []" using ids c(1,2) by simp
  then show ?thesis using d c find_card_distinct [OF dist c(1)] by metis
qed

lemma clean_authority_links:
  assumes wf: "wf_authority db" and clean: "clean_authority (sorted_cards db) fan_in agents"
  shows "acyclic (links (set (ad_cards db)))" "finite (links (set (ad_cards db)))"
    "(p, s) \<in> links (set (ad_cards db)) \<Longrightarrow> \<exists>c d. find_card p (ad_cards db) = Some c \<and> find_card s (ad_cards db) = Some d
      \<and> conflict_boundary c = conflict_boundary d \<and> successor c = s \<and> s \<noteq> []"
proof -
  have dist: "distinct (map sc_id (ad_cards db))" and ids: "\<forall>c\<in>set (sorted_cards db). sc_id c \<noteq> []"
    using wf by (auto simp: wf_authority_def clean_id_def)
  show "acyclic (links (set (ad_cards db)))" using clean by (simp add: clean_authority_def)
  show fin: "finite (links (set (ad_cards db)))"
  proof -
    have "links (set (ad_cards db)) = (\<lambda>c. (sc_id c, successor c)) ` {c \<in> set (ad_cards db). successor c \<noteq> []}
        \<union> (\<lambda>c. (predecessor c, sc_id c)) ` {c \<in> set (ad_cards db). predecessor c \<noteq> []}" by (auto simp: links_def)
    then show ?thesis by simp
  qed
  show "(p, s) \<in> links (set (ad_cards db)) \<Longrightarrow> \<exists>c d. find_card p (ad_cards db) = Some c \<and> find_card s (ad_cards db) = Some d
      \<and> conflict_boundary c = conflict_boundary d \<and> successor c = s \<and> s \<noteq> []"
    using clean_link [of "sorted_cards db" fan_in p s] dist ids clean find_sorted [OF dist]
    by (simp add: clean_authority_def)
qed

text \<open>Following the successors from any Card.\<close>

lemma head_exists:
  assumes wf: "wf_authority db" and clean: "clean_authority (sorted_cards db) fan_in agents"
    and card: "find_card i (ad_cards db) = Some c"
  shows "\<exists>h d. (i, h) \<in> (links (set (ad_cards db)))\<^sup>* \<and> find_card h (ad_cards db) = Some d \<and> successor d = []
    \<and> conflict_boundary d = conflict_boundary c"
proof -
  let ?L = "links (set (ad_cards db))"
  have "wf (?L\<inverse>)" using clean_authority_links(1,2) [OF wf clean] by (rule finite_acyclic_wf_converse [rotated])
  then show ?thesis using card
  proof (induction i arbitrary: c rule: wf_induct_rule)
    case (less i)
    show ?case
    proof (cases "successor c = []")
      case False
      have "(i, successor c) \<in> ?L" using find_cardD [OF less.prems] False by (auto simp: links_iff)
      moreover obtain d where d: "find_card (successor c) (ad_cards db) = Some d" "conflict_boundary c = conflict_boundary d"
        using clean_authority_links(3) [OF wf clean calculation] less.prems by auto
      moreover obtain h e where "(successor c, h) \<in> ?L\<^sup>*" "find_card h (ad_cards db) = Some e" "successor e = []"
        "conflict_boundary e = conflict_boundary d" using less.IH [OF _ d(1)] calculation(1) by blast
      ultimately show ?thesis by (metis converse_rtrancl_into_rtrancl)
    qed (use less.prems in blast)
  qed
qed

lemma head_unique:
  assumes wf: "wf_authority db" and clean: "clean_authority (sorted_cards db) fan_in agents"
    and g: "(i, g) \<in> (links (set (ad_cards db)))\<^sup>*" "find_card g (ad_cards db) = Some d" "successor d = []"
    and h: "(i, h) \<in> (links (set (ad_cards db)))\<^sup>*" "find_card h (ad_cards db) = Some e" "successor e = []"
  shows "g = h"
proof -
  let ?L = "links (set (ad_cards db))"
  note one = clean_authority_links(3) [OF wf clean]
  have "single_valued ?L"
  proof (rule single_valuedI)
    fix x y z
    assume "(x, y) \<in> ?L" "(x, z) \<in> ?L"
    from one [OF this(1)] one [OF this(2)] show "y = z" by auto
  qed
  from single_valued_confluent [OF this g(1) h(1)] have "(g, h) \<in> ?L\<^sup>* \<or> (h, g) \<in> ?L\<^sup>*" .
  moreover have "h = g" if "(g, h) \<in> ?L\<^sup>*" using that
  proof (cases rule: converse_rtranclE)
    case (step y)
    from one [OF step(1)] g(2,3) show ?thesis by auto
  qed simp
  moreover have "g = h" if "(h, g) \<in> ?L\<^sup>*" using that
  proof (cases rule: converse_rtranclE)
    case (step y)
    from one [OF step(1)] h(2,3) show ?thesis by auto
  qed simp
  ultimately show ?thesis by blast
qed

section \<open>A Card and its successor\<close>

definition demo_chain :: authority_db where
  "demo_chain = \<lparr>ad_cards = [demo_card ''a'' None (Some (lit ''b'')), demo_card ''b'' (Some (lit ''a'')) None], ad_events = [],
     ad_receipts = [], ad_members = [], ad_audits = [], ad_outbox = [], ad_epoch = 0\<rparr>"

lemma demo_chain_fields:
  "sc_id (demo_card i p n) = lit i" "cd_group (demo_card i p n) = None" "conflict_group (demo_card i p n) = []"
  "conflict_boundary (demo_card i p n) = (lit ''project'', [], [])" "member_type (demo_card i p n) = lit ''note''"
  "sc_metadata (demo_card i p n) = []"
  by (simp_all add: demo_card_def conflict_group_def py_strip_def conflict_boundary_def member_type_def casefold_def)
    (simp_all add: lit_def fold_char_def py_space_def)

lemma demo_chain_links:
  "successor (demo_card i p None) = []" "predecessor (demo_card i None n) = []"
  "successor (demo_card i p (Some (lit ''b''))) = lit ''b''" "predecessor (demo_card i (Some (lit ''a'')) n) = lit ''a''"
  by (simp_all add: demo_card_def successor_def predecessor_def py_strip_def) (simp_all add: lit_def py_space_def)

lemma demo_chain_cards: "sorted_cards demo_chain = ad_cards demo_chain"
  by (simp add: sorted_cards_def demo_chain_def demo_chain_fields) (simp add: lit_def)

lemma demo_chain_found:
  "find_card (lit ''a'') (ad_cards demo_chain) = Some (demo_card ''a'' None (Some (lit ''b'')))"
  "find_card (lit ''b'') (ad_cards demo_chain) = Some (demo_card ''b'' (Some (lit ''a'')) None)"
  by (simp_all add: find_card_def demo_chain_def demo_chain_fields)

lemma demo_chain_wf: "wf_authority demo_chain"
  by (simp add: wf_authority_def demo_chain_def demo_chain_fields clean_id_def py_strip_def) (simp add: lit_def py_space_def)

lemma demo_chain_report: "\<exists>a. temporal_authority_report (\<lambda>_. []) demo_chain [] [] = Inr a \<and> report_ok a"
proof -
  have dist: "distinct (map sc_id (ad_cards demo_chain))" using demo_chain_wf by (simp add: wf_authority_def)
  have "\<not> infix_of (lit dismissal_key) []" by (simp add: infix_of_def dismissal_key_def)
  then have rr: "resolution_receipt_report (\<lambda>_. []) (sorted_cards demo_chain) demo_chain [] = Inr
      \<lparr>rr_invalid = [], rr_unproven = [], rr_fan_in = [], rr_valid = [], rr_retired = []\<rparr>"
    by (simp add: resolution_receipt_report_def orphan_members_def demo_chain_def demo_chain_fields)
  have cards: "set (ad_cards demo_chain) = {demo_card ''a'' None (Some (lit ''b'')), demo_card ''b'' (Some (lit ''a'')) None}"
    by (simp add: demo_chain_def)
  have links: "links (set (ad_cards demo_chain)) = {(lit ''a'', lit ''b'')}"
  proof -
    have "links {} = {}" by (simp add: links_def)
    then show ?thesis unfolding cards by (simp add: links_insert demo_chain_fields demo_chain_links)
  qed
  have "acyclic {(lit ''a'', lit ''b'')}" by (simp add: acyclic_insert) (simp add: acyclic_def)
  moreover have "proper_links (ad_cards demo_chain) fan_in" for fan_in
    unfolding proper_links_def cards by (simp add: demo_chain_found demo_chain_links demo_chain_fields)
  moreover have "uniform_edges (ad_cards demo_chain) [] fan_in" for fan_in
    by (simp add: uniform_edges_def links type_of_def column_def demo_chain_found demo_chain_fields proven_agent_def)
  moreover have "sound_groups (ad_cards demo_chain) r" for r
    unfolding sound_groups_def cards by (simp add: demo_chain_fields)
  ultimately show ?thesis
    unfolding report_ok_iff [OF dist _ rr, of "[]", simplified] demo_chain_cards clean_authority_def links
    by (simp add: one_head_def)
qed

section \<open>Properties\<close>

text \<open>A clean report means a sound supersession graph: the topological check that guards every resolution passes, and
  along every link both Cards exist, lie in one visibility boundary, and the successor named by the older one is the newer one.\<close>

lemma clean_report_links:
  assumes "wf_authority db" "distinct (map fst agents)"
    and "temporal_authority_report rp db agents quarantines = Inr a" "report_ok a"
  shows "(\<exists>g. assert_supersession_dag (ad_cards db) = Inr g)
    \<and> (\<forall>p s. (p, s) \<in> links (set (ad_cards db)) \<longrightarrow> (\<exists>c d. find_card p (ad_cards db) = Some c \<and> find_card s (ad_cards db) = Some d
          \<and> conflict_boundary c = conflict_boundary d \<and> successor c = s))"
proof -
  have dist: "distinct (map sc_id (ad_cards db))" using assms(1) by (simp add: wf_authority_def)
  obtain rr where clean: "clean_authority (sorted_cards db) (fan_in_links rp db agents rr) agents"
    by (rule clean_report_cases [OF dist assms(2-4)])
  note L = clean_authority_links [OF assms(1) clean]
  have "links (set (ad_cards db)) \<subseteq> sc_id ` set (ad_cards db) \<times> sc_id ` set (ad_cards db)"
  proof (rule subrelI)
    fix p s
    assume "(p, s) \<in> links (set (ad_cards db))"
    from L(3) [OF this] show "(p, s) \<in> sc_id ` set (ad_cards db) \<times> sc_id ` set (ad_cards db)"
      using find_card_iff by (metis SigmaI option.distinct(1))
  qed
  from assert_dag_iff(2) [OF dist this L(1)] L(3) show ?thesis by metis
qed

lemma clean_report_links_witness:
  "\<exists>a. temporal_authority_report (\<lambda>_. []) demo_chain [] [] = Inr a \<and> report_ok a
     \<and> (\<exists>g. assert_supersession_dag (ad_cards demo_chain) = Inr g)"
proof -
  obtain a where a: "temporal_authority_report (\<lambda>_. []) demo_chain [] [] = Inr a" "report_ok a" using demo_chain_report by blast
  then show ?thesis using clean_report_links [OF demo_chain_wf _ a] by auto
qed

text \<open>C6 Every Card has one current version: with a clean report, following the successors from any Card ends at exactly one Card
  without a successor, in the same visibility boundary.\<close>

theorem unique_current_version:
  assumes "wf_authority db" "distinct (map fst agents)"
    and "temporal_authority_report rp db agents quarantines = Inr a" "report_ok a" and "find_card i (ad_cards db) = Some c"
  shows "\<exists>!h. (i, h) \<in> (links (set (ad_cards db)))\<^sup>*
    \<and> (\<exists>d. find_card h (ad_cards db) = Some d \<and> successor d = [] \<and> conflict_boundary d = conflict_boundary c)"
proof -
  have dist: "distinct (map sc_id (ad_cards db))" using assms(1) by (simp add: wf_authority_def)
  obtain rr where clean: "clean_authority (sorted_cards db) (fan_in_links rp db agents rr) agents"
    by (rule clean_report_cases [OF dist assms(2-4)])
  from head_exists [OF assms(1) clean assms(5)] head_unique [OF assms(1) clean] show ?thesis by (metis (no_types, lifting))
qed

theorem unique_current_version_witness:
  "\<exists>!h. (lit ''a'', h) \<in> (links (set (ad_cards demo_chain)))\<^sup>*
     \<and> (\<exists>d. find_card h (ad_cards demo_chain) = Some d \<and> successor d = [] \<and> conflict_boundary d = (lit ''project'', [], []))"
proof -
  obtain a where a: "temporal_authority_report (\<lambda>_. []) demo_chain [] [] = Inr a" "report_ok a" using demo_chain_report by blast
  show ?thesis
    using unique_current_version [OF demo_chain_wf _ a demo_chain_found(1)] by (simp add: demo_chain_fields)
qed

end
