(* ===== verification/Authority_Invariant.thy ===== *)
theory Authority_Invariant
  imports Authority_Report
begin

text \<open>
  A resolution keeps the report clean: from a store whose temporal authority report passes, every resolution that commits
  leads to a store whose report passes.  The lemmas follow the parts of the report: receipts, links, edges, heads, groups.
\<close>

section \<open>Receipts\<close>

lemma receipt_error_unrestricted:
  assumes "conflict_resolution_receipt_error rp cards db r (Some action) (Some fp) (Some ids) {} False = Inr None"
  shows "conflict_resolution_receipt_error rp cards db r None None None {} False = Inr None"
proof -
  let ?rows = "receipt_members (rc_id r) (ad_members db)"
  from assms have head: "receipt_head_error r (Some action) (Some fp) = None"
    and member: "receipt_member_error cards r ?rows (Some ids) {} = None"
    by (auto simp: conflict_resolution_receipt_error_def Let_def split: option.splits)
  from head have "receipt_head_error r None None = None" by (auto simp: receipt_head_error_def split: if_splits)
  moreover from member have "receipt_member_error cards r ?rows None {} = None"
    by (auto simp: receipt_member_error_def Let_def split: if_splits)
  ultimately show ?thesis using assms head member by (simp add: conflict_resolution_receipt_error_def Let_def)
qed

text \<open>What the acceptance of a receipt says of its members.\<close>

lemma accepted_members:
  assumes "conflict_resolution_receipt_error rp cards db r None None None {} False = Inr None"
  shows "[] \<notin> set (map mb_card (receipt_members (rc_id r) (ad_members db)))"
    "rc_selected r \<in> set (map mb_card (receipt_members (rc_id r) (ad_members db)))"
    "\<forall>m\<in>set (map mb_card (receipt_members (rc_id r) (ad_members db))). find_card m cards \<noteq> None"
proof -
  let ?rows = "receipt_members (rc_id r) (ad_members db)"
  from assms have member: "receipt_member_error cards r ?rows None {} = None"
    by (auto simp: conflict_resolution_receipt_error_def Let_def split: option.splits)
  show "[] \<notin> set (map mb_card ?rows)" "rc_selected r \<in> set (map mb_card ?rows)"
    "\<forall>m\<in>set (map mb_card ?rows). find_card m cards \<noteq> None"
    using member unfolding receipt_member_error_def Let_def members_closed_def list_ex_iff
    by (auto split: if_splits)
qed

text \<open>A change of the Cards that keeps the material of the members and the successors of those a receipt superseded keeps
  the receipt valid.\<close>

lemma accepted_changed:
  assumes ok: "conflict_resolution_receipt_error rp cards db r None None None {} False = Inr None"
    and found: "\<And>i. find_card i cards' = map_option U (find_card i cards)"
    and mat: "\<And>c. conflict_member_material (U c) = conflict_member_material c"
    and succ: "\<And>i c. find_card i cards = Some c \<Longrightarrow> successor c \<noteq> [] \<Longrightarrow> successor (U c) = successor c"
    and rows: "receipt_members (rc_id r) (ad_members db') = receipt_members (rc_id r) (ad_members db)"
    and audits: "\<And>a. find (\<lambda>a. au_id a = rc_audit r) (ad_audits db) = Some a \<Longrightarrow>
      find (\<lambda>a. au_id a = rc_audit r) (ad_audits db') = Some a"
  shows "conflict_resolution_receipt_error rp cards' db' r None None None {} False = Inr None"
proof -
  let ?rows = "receipt_members (rc_id r) (ad_members db)"
  let ?ids = "map mb_card ?rows"
  note mem = accepted_members [OF ok]
  have boundary: "conflict_boundary (U c) = conflict_boundary c" for c using material_boundary [OF mat] .
  from ok have head: "receipt_head_error r None None = None" and member: "receipt_member_error cards r ?rows None {} = None"
    by (auto simp: conflict_resolution_receipt_error_def Let_def split: option.splits)
  from mem(3) have "\<forall>i\<in>set ?ids. find_card i cards \<noteq> None" .
  then obtain fp where fp: "conflict_component_fingerprint cards ?ids = Inr fp" using fingerprint_ok by blast
  have fp': "conflict_component_fingerprint cards' ?ids = Inr fp"
    unfolding fp [symmetric] by (rule fingerprint_cong) (simp add: found option.map_comp comp_def mat)
  from ok head member fp obtain broken where fp_eq: "rc_fingerprint r = fp" and broken: "any_broken cards {} ?rows = Inr broken" "\<not> broken"
    and topo: "\<not> (rc_action r = lit ''supersede'' \<and> list_ex (\<lambda>i. \<not> superseded_by_selected cards r i) ?ids)"
    and audit: "audit_error rp (ad_audits db) r ?ids = None"
    by (auto simp: conflict_resolution_receipt_error_def Let_def split: if_splits)
  have member': "receipt_member_error cards' r ?rows None {} = None"
    using member unfolding receipt_member_error_def Let_def found
    by (auto simp: list_ex_iff boundary split: if_splits option.splits)
  have bind: "binding_broken cards' m = binding_broken cards m" for m
    by (cases "find_card (mb_card m) cards") (simp_all add: binding_broken_def the_card_def found binding_hash_cong [OF mat])
  have "any_broken cards' {} ms = any_broken cards {} ms" for ms by (induction ms) (simp_all add: bind cong: if_cong)
  then have broken': "any_broken cards' {} ?rows = Inr broken" using broken(1) by simp
  have topo': "\<not> (rc_action r = lit ''supersede'' \<and> list_ex (\<lambda>i. \<not> superseded_by_selected cards' r i) ?ids)"
  proof
    assume *: "rc_action r = lit ''supersede'' \<and> list_ex (\<lambda>i. \<not> superseded_by_selected cards' r i) ?ids"
    then obtain i where i: "i \<in> set ?ids" "\<not> superseded_by_selected cards' r i" by (auto simp: list_ex_iff)
    with * topo have "superseded_by_selected cards r i" by (auto simp: list_ex_iff)
    with i(2) obtain c where c: "find_card i cards = Some c" "successor c = rc_selected r"
      by (auto simp: superseded_by_selected_def split: option.splits)
    moreover have "rc_selected r \<noteq> []" using mem(1,2) by metis
    ultimately have "successor (U c) = rc_selected r" using succ by simp
    with c(1) i(2) show False by (simp add: superseded_by_selected_def found)
  qed
  have audit': "audit_error rp (ad_audits db') r ?ids = None"
    using audit audits by (auto simp: audit_error_def split: option.splits)
  show ?thesis
    unfolding conflict_resolution_receipt_error_def Let_def rows head member' option.case fp' bindE_simps broken' audit'
    using fp_eq broken(2) topo' by auto
qed

lemma verdict_iff:
  "receipt_verdict rp cards db [] r = bindE (conflict_resolution_receipt_error rp cards db r None None None {} False)
     (\<lambda>e. Inr (case e of Some err \<Rightarrow> Invalid err | None \<Rightarrow> Valid))"
  by (simp add: receipt_verdict_def Let_def)

definition all_accepted :: "(pyval \<Rightarrow> pystr) \<Rightarrow> card list \<Rightarrow> authority_db \<Rightarrow> bool" where
  "all_accepted rp cards db \<longleftrightarrow>
     (\<forall>r\<in>set (ad_receipts db). conflict_resolution_receipt_error rp cards db r None None None {} False = Inr None)"

definition plain_receipt_report :: "(pyval \<Rightarrow> pystr) \<Rightarrow> authority_db \<Rightarrow> receipt_report" where
  "plain_receipt_report rp db =
     (let rs = sort_key receipt_less (ad_receipts db) in
      \<lparr>rr_invalid = [], rr_unproven = concat (map (unproven_entries rp (dismissed_members db rs))
         (filter (\<lambda>c. infix_of (lit dismissal_key) (sc_metadata c)) (sort_key sc_id (ad_cards db)))),
       rr_fan_in = concat (map (fan_in_of db) rs), rr_valid = map rc_id rs, rr_retired = []\<rparr>)"

lemma accepted_report:
  assumes "all_accepted rp cards db" "orphan_members db = []"
  shows "resolution_receipt_report rp cards db [] = Inr (plain_receipt_report rp db)"
proof -
  have "mapE (\<lambda>r. bindE (receipt_verdict rp cards db [] r) (\<lambda>v. Inr (r, v))) rs = Inr (map (\<lambda>r. (r, Valid)) rs)"
    if "set rs \<subseteq> set (ad_receipts db)" for rs
    using that assms(1) by (induction rs) (auto simp: verdict_iff all_accepted_def)
  from this [of "sort_key receipt_less (ad_receipts db)"] show ?thesis
    using assms(2) by (simp add: resolution_receipt_report_def plain_receipt_report_def Let_def comp_def)
qed

lemma report_accepted:
  assumes run: "resolution_receipt_report rp cards db [] = Inr rr" and clean: "rr_invalid rr = []"
  shows "all_accepted rp cards db" "orphan_members db = []"
proof -
  from run obtain vs where vs: "mapE (\<lambda>r. bindE (receipt_verdict rp cards db [] r) (\<lambda>v. Inr (r, v))) (sort_key receipt_less (ad_receipts db)) = Inr vs"
    and rr: "rr_invalid rr = concat (map (\<lambda>(r, v). case v of Invalid e \<Rightarrow> [(rc_id r, e)] | _ \<Rightarrow> []) vs)
       @ map (\<lambda>_. ([], ''orphan conflict resolution member row'')) (orphan_members db)"
    by (auto simp: resolution_receipt_report_def Let_def)
  show "orphan_members db = []" using rr clean by simp
  show "all_accepted rp cards db"
    unfolding all_accepted_def
  proof
    fix r
    assume "r \<in> set (ad_receipts db)"
    then have "r \<in> set (sort_key receipt_less (ad_receipts db))" by simp
    from mapE_memD [OF vs this] obtain v where v: "(r, v) \<in> set vs" "receipt_verdict rp cards db [] r = Inr v" by auto
    from v(1) rr clean have "\<nexists>e. v = Invalid e" by (cases v) force+
    with v(2) show "conflict_resolution_receipt_error rp cards db r None None None {} False = Inr None"
      by (auto simp: verdict_iff split: option.splits)
  qed
qed

lemma report_is_plain:
  "resolution_receipt_report rp cards db [] = Inr rr \<Longrightarrow> rr_invalid rr = [] \<Longrightarrow> rr = plain_receipt_report rp db"
  using report_accepted [of rp cards db rr] accepted_report [of rp cards db] by simp

section \<open>The step\<close>

text \<open>What a resolution does to the Cards: the retired peers \<open>P\<close> get the winner as successor, the winner may get one of
  them as predecessor, and the members \<open>M\<close> leave their groups.\<close>

definition changed_by :: "(card \<Rightarrow> card) \<Rightarrow> pystr set \<Rightarrow> pystr set \<Rightarrow> pystr \<Rightarrow> card \<Rightarrow> bool" where
  "changed_by U P M i c \<longleftrightarrow> sc_id (U c) = sc_id c \<and> conflict_member_material (U c) = conflict_member_material c
     \<and> member_type (U c) = member_type c \<and> sc_metadata (U c) = sc_metadata c
     \<and> (casefold (cd_status (U c)) \<in> set non_current_statuses \<longleftrightarrow> casefold (cd_status c) \<in> set non_current_statuses)
     \<and> successor (U c) = (if sc_id c \<in> P then i else successor c)
     \<and> (cd_superseded_by (U c) = cd_superseded_by c \<or> sc_id c \<in> P) \<and> (cd_supersedes (U c) = cd_supersedes c \<or> cd_supersedes c = None)
     \<and> (predecessor (U c) = predecessor c \<or> predecessor c = [] \<and> sc_id c = i \<and> predecessor (U c) \<in> P)
     \<and> cd_group (U c) = (if sc_id c \<in> M then None else cd_group c)"

definition retired_by :: "card list \<Rightarrow> pystr set \<Rightarrow> card \<Rightarrow> bool" where
  "retired_by cards P w \<longleftrightarrow> (\<forall>p\<in>P. \<exists>c. find_card p cards = Some c \<and> successor c = []
     \<and> conflict_boundary c = conflict_boundary w \<and> (member_type c = project_state_type \<longleftrightarrow> member_type w = project_state_type))"

definition closed_members :: "card list \<Rightarrow> pystr set \<Rightarrow> bool" where
  "closed_members cards M \<longleftrightarrow> (\<forall>c\<in>set cards. \<forall>d\<in>set cards.
     sc_id c \<in> M \<and> conflict_group d = conflict_group c \<and> conflict_group c \<noteq> [] \<longrightarrow> sc_id d \<in> M)"

definition resolution_step ::
  "card list \<Rightarrow> (card \<Rightarrow> card) \<Rightarrow> pystr set \<Rightarrow> pystr set \<Rightarrow> pystr \<Rightarrow> bool" where
  "resolution_step cards U P M i \<longleftrightarrow> distinct (map sc_id cards) \<and> (\<forall>c\<in>set cards. clean_id (sc_id c)) \<and> P \<subseteq> M \<and> i \<notin> P
     \<and> (\<forall>c. changed_by U P M i c) \<and> (\<exists>w. find_card i cards = Some w \<and> retired_by cards P w) \<and> closed_members cards M"

lemma step_simps:
  assumes "resolution_step cards U P M i"
  shows "sc_id (U c) = sc_id c" "conflict_member_material (U c) = conflict_member_material c" "member_type (U c) = member_type c"
    "sc_metadata (U c) = sc_metadata c" "successor (U c) = (if sc_id c \<in> P then i else successor c)"
    "cd_group (U c) = (if sc_id c \<in> M then None else cd_group c)" "conflict_boundary (U c) = conflict_boundary c"
    "find_card j (map U cards) = map_option U (find_card j cards)"
proof -
  have basic: "changed_by U P M i c" for c using assms by (simp add: resolution_step_def)
  then show "sc_id (U c) = sc_id c" "conflict_member_material (U c) = conflict_member_material c" "member_type (U c) = member_type c"
    "sc_metadata (U c) = sc_metadata c" "successor (U c) = (if sc_id c \<in> P then i else successor c)"
    "cd_group (U c) = (if sc_id c \<in> M then None else cd_group c)"
    by (simp_all add: changed_by_def)
  show "conflict_boundary (U c) = conflict_boundary c" using basic [of c] by (intro material_boundary) (simp add: changed_by_def)
  show "find_card j (map U cards) = map_option U (find_card j cards)"
    by (rule find_card_map) (use basic in \<open>simp add: changed_by_def\<close>)
qed

lemma step_predecessor:
  "resolution_step cards U P M i \<Longrightarrow> predecessor (U c) = predecessor c \<or> predecessor c = [] \<and> sc_id c = i \<and> predecessor (U c) \<in> P"
  by (simp add: resolution_step_def changed_by_def)

lemma step_peer:
  "retired_by cards P w \<Longrightarrow> find_card p cards = Some c \<Longrightarrow> p \<in> P \<Longrightarrow> successor c = [] \<and> conflict_boundary c = conflict_boundary w
     \<and> (member_type c = project_state_type \<longleftrightarrow> member_type w = project_state_type)"
  by (fastforce simp: retired_by_def)

lemma step_links:
  assumes step: "resolution_step cards U P M i" and link: "(p, s) \<in> links (set (map U cards))"
  shows "(p, s) \<in> links (set cards) \<or> p \<in> P \<and> s = i"
proof -
  from link consider c where "c \<in> set cards" "p = sc_id c" "s = successor (U c)" "s \<noteq> []"
    | c where "c \<in> set cards" "s = sc_id c" "p = predecessor (U c)" "p \<noteq> []"
    using step_simps(1) [OF step] by (auto simp: links_iff)
  then show ?thesis
  proof cases
    case 1
    then show ?thesis using step_simps(5) [OF step, of c] by (auto simp: links_iff)
  next
    case 2
    with step_predecessor [OF step, of c] show ?thesis by (auto simp: links_iff)
  qed
qed

lemma step_proper:
  assumes step: "resolution_step cards U P M i" and proper: "proper_links cards F"
    and fan: "F \<union> {(p, i) |p. p \<in> P} \<subseteq> F'"
  shows "proper_links (map U cards) F'"
  unfolding proper_links_def
proof (intro ballI conjI impI)
  note U = step_simps [OF step]
  obtain w where w: "find_card i cards = Some w" "retired_by cards P w" using step by (auto simp: resolution_step_def)
  have dist: "distinct (map sc_id cards)" using step by (simp add: resolution_step_def)
  fix c'
  assume "c' \<in> set (map U cards)"
  then obtain c where c: "c \<in> set cards" "c' = U c" by auto
  note found = find_card_distinct [OF dist c(1)]
  have ne: "sc_id c \<noteq> []" using step c(1) by (simp add: resolution_step_def clean_id_def)
  { assume pre: "predecessor c' \<noteq> []"
    from step_predecessor [OF step, of c]
    show "\<exists>d. find_card (predecessor c') (map U cards) = Some d \<and> conflict_boundary d = conflict_boundary c' \<and> successor d = sc_id c'"
    proof
      assume same: "predecessor (U c) = predecessor c"
      with pre proper c obtain d where d: "find_card (predecessor c) cards = Some d" "conflict_boundary d = conflict_boundary c"
        "successor d = sc_id c" unfolding proper_links_def by auto
      have "sc_id d \<notin> P"
        using step_peer [OF w(2) d(1)] find_cardD [OF d(1)] d(3) ne by auto
      with same d c(2) show ?thesis by (simp add: U)
    next
      assume new: "predecessor c = [] \<and> sc_id c = i \<and> predecessor (U c) \<in> P"
      then obtain d where d: "find_card (predecessor (U c)) cards = Some d" using w(2) unfolding retired_by_def by blast
      with step_peer [OF w(2) d] new found w(1) find_cardD [OF d] c(2) show ?thesis by (simp add: U)
    qed }
  { assume suc: "successor c' \<noteq> []"
    show "\<exists>d. find_card (successor c') (map U cards) = Some d \<and> conflict_boundary c' = conflict_boundary d
        \<and> (predecessor d = sc_id c' \<or> (sc_id c', successor c') \<in> F')"
    proof (cases "sc_id c \<in> P")
      case True
      with step_peer [OF w(2) found] w(1) fan c(2) show ?thesis by (auto simp: U)
    next
      case False
      with suc c(2) have "successor c \<noteq> []" by (simp add: U)
      with proper c(1) obtain d where d: "find_card (successor c) cards = Some d" "conflict_boundary c = conflict_boundary d"
        "predecessor d = sc_id c \<or> (sc_id c, successor c) \<in> F" unfolding proper_links_def by blast
      with False fan step_predecessor [OF step, of d] ne c(2) show ?thesis by (auto simp: U)
    qed }
qed

lemma step_uniform:
  assumes step: "resolution_step cards U P M i" and uniform: "uniform_edges cards agents F"
    and fan: "F \<union> {(p, i) |p. p \<in> P} \<subseteq> F'"
  shows "uniform_edges (map U cards) agents F'"
proof -
  have type: "type_of (map U cards) j = type_of cards j" for j
    by (cases "find_card j cards") (simp_all add: type_of_def column_def step_simps [OF step])
  obtain w where w: "find_card i cards = Some w" "retired_by cards P w" using step by (auto simp: resolution_step_def)
  have "type_of cards p = type_of cards i" if p: "p \<in> P" for p
  proof -
    from p w(2) obtain c where c: "find_card p cards = Some c" unfolding retired_by_def by blast
    from step_peer [OF w(2) c p] c w(1) show ?thesis by (simp add: type_of_def column_def)
  qed
  then show ?thesis
    using step_links [OF step] uniform fan unfolding uniform_edges_def type by blast
qed

text \<open>The predecessors a report collects, before and after.\<close>

lemma step_referenced:
  assumes step: "resolution_step cards U P M i"
  shows "set (lf_referenced (check_links cards F)) \<subseteq> set (lf_referenced (check_links (map U cards) F'))"
    "set (lf_referenced (check_links (map U cards) F')) \<subseteq> set (lf_referenced (check_links cards F)) \<union> P"
proof -
  have "predecessor c \<in> predecessor ` set (map U cards)" if "c \<in> set cards" "predecessor c \<noteq> []" for c
  proof -
    have "predecessor c = predecessor (U c)" using step_predecessor [OF step, of c] that(2) by auto
    then show ?thesis using that(1) by (metis image_eqI list.set_map)
  qed
  then show "set (lf_referenced (check_links cards F)) \<subseteq> set (lf_referenced (check_links (map U cards) F'))"
    unfolding referenced_set by auto
  have "predecessor (U c) \<in> predecessor ` set cards \<or> predecessor (U c) \<in> P" if "c \<in> set cards" for c
    using step_predecessor [OF step, of c] that by auto
  then show "set (lf_referenced (check_links (map U cards) F')) \<subseteq> set (lf_referenced (check_links cards F)) \<union> P"
    unfolding referenced_set by auto
qed

lemma step_unsuperseded:
  assumes step: "resolution_step cards U P M i" and c: "c \<in> set cards"
  shows "unsuperseded (lf_referenced (check_links (map U cards) F')) (U c) \<Longrightarrow> unsuperseded (lf_referenced (check_links cards F)) c"
    and "unsuperseded (lf_referenced (check_links cards F)) c \<Longrightarrow> sc_id c \<notin> P \<Longrightarrow>
      unsuperseded (lf_referenced (check_links (map U cards) F')) (U c)"
proof -
  have status: "casefold (cd_status (U c)) \<in> set non_current_statuses \<longleftrightarrow> casefold (cd_status c) \<in> set non_current_statuses"
    using step by (simp add: resolution_step_def changed_by_def)
  obtain w where w: "find_card i cards = Some w" using step by (auto simp: resolution_step_def)
  then have "i \<noteq> []" using step find_cardD [OF w] by (auto simp: resolution_step_def clean_id_def)
  note facts = status step_simps(1,5) [OF step, of c] step_referenced(1) [OF step, of F F'] step_referenced(2) [OF step, of F' F]
    \<open>i \<noteq> []\<close>
  show "unsuperseded (lf_referenced (check_links (map U cards) F')) (U c) \<Longrightarrow> unsuperseded (lf_referenced (check_links cards F)) c"
    using facts by (auto simp: unsuperseded_def split: if_splits)
  show "unsuperseded (lf_referenced (check_links cards F)) c \<Longrightarrow> sc_id c \<notin> P \<Longrightarrow>
      unsuperseded (lf_referenced (check_links (map U cards) F')) (U c)"
    using facts by (auto simp: unsuperseded_def)
qed

lemma step_heads:
  assumes step: "resolution_step cards U P M i" and one: "one_head cards (lf_referenced (check_links cards F)) agents"
  shows "one_head (map U cards) (lf_referenced (check_links (map U cards) F')) agents"
  unfolding one_head_def
proof (intro allI impI, elim conjE)
  fix a b c' d' agent
  let ?ref = "lf_referenced (check_links (map U cards) F')"
  assume ag: "(a, agent) \<in> set agents" "(b, agent) \<in> set agents"
    and found: "find_card a (map U cards) = Some c'" "find_card b (map U cards) = Some d'"
    and un: "unsuperseded ?ref c'" "unsuperseded ?ref d'" and bound: "conflict_boundary c' = conflict_boundary d'"
  from found obtain c d where cd: "find_card a cards = Some c" "c' = U c" "find_card b cards = Some d" "d' = U d"
    by (auto simp: step_simps(8) [OF step])
  moreover have "unsuperseded (lf_referenced (check_links cards F)) c" "unsuperseded (lf_referenced (check_links cards F)) d"
    using step_unsuperseded(1) [OF step, of _ F' F] un cd find_cardD by blast+
  moreover have "conflict_boundary c = conflict_boundary d" using bound cd by (simp add: step_simps(7) [OF step])
  ultimately show "a = b" using one ag unfolding one_head_def by blast
qed

lemma step_groups:
  assumes step: "resolution_step cards U P M i" and sound: "sound_groups cards (lf_referenced (check_links cards F))"
  shows "sound_groups (map U cards) (lf_referenced (check_links (map U cards) F'))"
  unfolding sound_groups_def
proof (intro ballI conjI impI)
  note U = step_simps [OF step]
  have grp: "conflict_group (U c) = (if sc_id c \<in> M then [] else conflict_group c)" for c
    by (simp add: conflict_group_def U py_strip_def)
  have "P \<subseteq> M" and closed: "closed_members cards M" using step by (simp_all add: resolution_step_def)
  fix c'
  assume "c' \<in> set (map U cards)"
  then obtain c where c: "c \<in> set cards" "c' = U c" by auto
  from sound c(1) have sc: "cd_group c \<noteq> None \<Longrightarrow> conflict_group c \<noteq> []" by (auto simp: sound_groups_def)
  { assume "cd_group c' \<noteq> None"
    then show "conflict_group c' \<noteq> []" using sc c(2) by (auto simp: U grp split: if_splits) }
  assume ne: "conflict_group c' \<noteq> []"
  then have out: "sc_id c \<notin> M" "conflict_group c \<noteq> []" "conflict_group c' = conflict_group c" using c(2) by (auto simp: grp split: if_splits)
  have outside: "sc_id d \<notin> M" if "d \<in> set cards" "conflict_group d = conflict_group c" for d
    using closed that out c(1) unfolding closed_members_def by metis
  from sound c(1) out(2) have own: "\<exists>d\<in>set cards. sc_id d \<noteq> sc_id c \<and> conflict_group d = conflict_group c"
    and all: "\<And>d. d \<in> set cards \<Longrightarrow> conflict_group d = conflict_group c \<Longrightarrow>
        unsuperseded (lf_referenced (check_links cards F)) d \<and> conflict_boundary d = conflict_boundary c"
    and types: "\<And>d e. d \<in> set cards \<Longrightarrow> conflict_group d = conflict_group c \<Longrightarrow> e \<in> set cards \<Longrightarrow> conflict_group e = conflict_group c \<Longrightarrow>
        member_type d = project_state_type \<Longrightarrow> member_type e = project_state_type"
    unfolding sound_groups_def by blast+
  { from own obtain d where d: "d \<in> set cards" "sc_id d \<noteq> sc_id c" "conflict_group d = conflict_group c" by blast
    with outside have "conflict_group (U d) = conflict_group c'" by (simp add: grp out(3))
    with d show "\<exists>d\<in>set (map U cards). sc_id d \<noteq> sc_id c' \<and> conflict_group d = conflict_group c'"
      by (auto simp: U c(2)) }
  fix d'
  assume "d' \<in> set (map U cards)" "conflict_group d' = conflict_group c'"
  then obtain d where d: "d \<in> set cards" "d' = U d" "conflict_group d = conflict_group c"
    using ne out(3) by (auto simp: grp split: if_splits)
  with outside have "sc_id d \<notin> P" using \<open>P \<subseteq> M\<close> by blast
  with all [OF d(1,3)] show "unsuperseded (lf_referenced (check_links (map U cards) F')) d'"
    using step_unsuperseded(2) [OF step d(1)] d(2) by blast
  show "conflict_boundary d' = conflict_boundary c'" using all [OF d(1,3)] d(2) c(2) by (simp add: U)
  fix e'
  assume "e' \<in> set (map U cards)" "conflict_group e' = conflict_group c' \<and> member_type d' = project_state_type"
  then obtain e where "e \<in> set cards" "e' = U e" "conflict_group e = conflict_group c" "member_type d = project_state_type"
    using ne out(3) d(2) by (auto simp: grp U split: if_splits)
  with types [OF d(1,3)] show "member_type e' = project_state_type" by (simp add: U)
qed

lemma step_clean:
  assumes step: "resolution_step cards U P M i" and clean: "clean_authority cards F agents"
    and fan: "F \<union> {(p, i) |p. p \<in> P} \<subseteq> F'" and acyc: "acyclic (links (set (map U cards)))"
  shows "clean_authority (map U cards) F' agents"
proof -
  note c = clean [unfolded clean_authority_def]
  show ?thesis
    unfolding clean_authority_def
    by (intro conjI acyc step_proper [OF step c [THEN conjunct1] fan]
        step_uniform [OF step c [THEN conjunct2, THEN conjunct2, THEN conjunct1] fan]
        step_heads [OF step c [THEN conjunct2, THEN conjunct2, THEN conjunct2, THEN conjunct1]]
        step_groups [OF step c [THEN conjunct2, THEN conjunct2, THEN conjunct2, THEN conjunct2]])
qed

section \<open>The proven links\<close>

lemma material_type: "conflict_member_material c = conflict_member_material d \<Longrightarrow> sc_type c = sc_type d"
  by (simp add: conflict_member_material_def mkdict_def)

lemma string_list_ne: "string_list v = Some ids \<Longrightarrow> s \<in> set ids \<Longrightarrow> s \<noteq> []"
proof -
  assume a: "string_list v = Some ids" "s \<in> set ids"
  then obtain xs where "v = Some (PList xs)" "list_all (\<lambda>x. case x of PStr s \<Rightarrow> s \<noteq> [] | _ \<Rightarrow> False) xs"
      "ids = map (\<lambda>x. case x of PStr s \<Rightarrow> s | _ \<Rightarrow> []) xs"
    unfolding string_list_def by (cases v) (auto split: pyval.split_asm if_split_asm)
  with a(2) obtain x where "case x of PStr s \<Rightarrow> s \<noteq> [] | _ \<Rightarrow> False" "s = (case x of PStr s \<Rightarrow> s | _ \<Rightarrow> [])"
    unfolding list_all_iff by auto
  then show ?thesis by (cases x) simp_all
qed

lemma step_audited:
  assumes step: "resolution_step cards U P M i"
  shows "set (audited_fan_in rp cards agents a) \<subseteq> set (audited_fan_in rp (map U cards) agents a)"
proof
  note U = step_simps [OF step]
  have type: "project_state_card (U c) = project_state_card c" for c
    using material_type [OF U(2)] by (simp add: project_state_card_def)
  fix e
  assume e: "e \<in> set (audited_fan_in rp cards agents a)"
  obtain c where c0: "find_card (or_empty (au_target a)) cards = Some c"
    using e by (cases "find_card (or_empty (au_target a)) cards") (auto simp: audited_fan_in_def)
  obtain p where p0: "json_object (au_payload a) = Some p"
    using e by (cases "json_object (au_payload a)") (auto simp: audited_fan_in_def c0)
  obtain kvs where k0: "dget p ''authority'' = Some (PDict kvs)"
  proof (cases "dget p ''authority''")
    case (Some v)
    then show ?thesis using that e by (cases v) (auto simp: audited_fan_in_def c0 p0)
  qed (use e in \<open>simp add: audited_fan_in_def c0 p0\<close>)
  obtain ids where i0: "string_list (dget p ''superseded_card_ids'') = Some ids"
    using e by (cases "string_list (dget p ''superseded_card_ids'')") (auto simp: audited_fan_in_def c0 p0 k0)
  define direct where direct0: "direct = str_or_empty rp p ''direct_predecessor_card_id''"
  note c = c0 p0 k0 i0
  from e have direct: "direct = str_or_empty rp p ''direct_predecessor_card_id''" "direct \<in> set ids"
    and ok: "list_all (\<lambda>i. find_card i cards \<noteq> None) ids" "project_state_card c"
      "audited_successor rp agents a (PDict kvs) c direct" "list_all (audited_predecessor agents cards c) ids"
    and e_in: "e \<in> set (map (\<lambda>i. (i, sc_id c)) (filter (\<lambda>i. i \<noteq> direct) ids))"
    unfolding audited_fan_in_def c option.case prod.case pyval.case Let_def direct0 [symmetric]
    by (simp_all only: direct0 split: if_splits) (simp_all only: empty_iff list.set)
  have "cd_supersedes c \<noteq> None"
    using ok(3) string_list_ne [OF c(4) direct(2)] unfolding audited_successor_def Let_def by (cases "cd_supersedes c") simp_all
  then have "cd_supersedes (U c) = cd_supersedes c" using step by (auto simp: resolution_step_def changed_by_def)
  with ok(3) have succ: "audited_successor rp agents a (PDict kvs) (U c) direct"
    by (simp add: audited_successor_def Let_def U)
  have clean: "py_strip (sc_id c) \<noteq> []" using step find_cardD [OF c(1)] by (auto simp: resolution_step_def clean_id_def)
  obtain w where w: "retired_by cards P w" using step by (auto simp: resolution_step_def)
  have "audited_predecessor agents (map U cards) (U c) j" if "audited_predecessor agents cards c j" for j
  proof -
    from that obtain d where d: "find_card j cards = Some d" "or_empty (cd_superseded_by d) = sc_id c"
      and rest: "project_state_card d" "conflict_boundary d = conflict_boundary c" "oget agents j = oget agents (sc_id c)"
      by (auto simp: audited_predecessor_def split: option.splits)
    have "sc_id d \<notin> P"
      using step_peer [OF w d(1)] find_cardD [OF d(1)] d(2) clean by (auto simp: successor_def)
    then have "cd_superseded_by (U d) = cd_superseded_by d" using step by (auto simp: resolution_step_def changed_by_def)
    with d rest show ?thesis by (simp add: audited_predecessor_def U type)
  qed
  with ok(4) have "list_all (audited_predecessor agents (map U cards) (U c)) ids" by (simp add: list_all_iff)
  with c direct ok succ e_in show "e \<in> set (audited_fan_in rp (map U cards) agents a)"
    by (simp add: audited_fan_in_def Let_def U type)
qed

lemma fan_in_grows:
  assumes step: "resolution_step (sorted_cards db) U P M i" and cards: "sorted_cards db' = map U (sorted_cards db)"
    and audits: "ad_audits db' = ad_audits db @ [a]" "au_action a = lit ''librarian_resolve_conflict''"
    and receipts: "set (ad_receipts db) \<subseteq> set (ad_receipts db')"
    and rows: "\<And>r. r \<in> set (ad_receipts db) \<Longrightarrow> receipt_members (rc_id r) (ad_members db') = receipt_members (rc_id r) (ad_members db)"
  shows "fan_in_links rp db agents (plain_receipt_report rp db) \<subseteq> fan_in_links rp db' agents (plain_receipt_report rp db')"
proof -
  have same: "fan_in_of db' r = fan_in_of db r" if "r \<in> set (ad_receipts db)" for r
    using rows [OF that] by (simp add: fan_in_of_def)
  have fan: "set (rr_fan_in (plain_receipt_report rp d)) = (\<Union>r\<in>set (ad_receipts d). set (fan_in_of d r))" for d
    by (simp add: plain_receipt_report_def Let_def)
  have "set (rr_fan_in (plain_receipt_report rp db)) \<subseteq> set (rr_fan_in (plain_receipt_report rp db'))"
    unfolding fan using same receipts by (intro UN_mono) simp_all
  moreover have "set (project_state_fan_in rp (sorted_cards db) db agents) \<subseteq> set (project_state_fan_in rp (sorted_cards db') db' agents)"
  proof -
    have audited: "set (project_state_fan_in rp cs d agents) = (\<Union>x\<in>{x \<in> set (ad_audits d). au_action x = lit ''project_state_superseded''
        \<and> au_target_type x = lit ''card''}. set (audited_fan_in rp cs agents x))" for cs d
      by (simp add: project_state_fan_in_def)
    show ?thesis
      unfolding audited cards using step_audited [OF step, of rp agents] audits(1) by (intro UN_mono) auto
  qed
  ultimately show ?thesis by (auto simp: fan_in_links_def)
qed

lemma unproven_monotone:
  assumes "unproven_entries rp proven c = []" "\<And>fp. proven fp \<subseteq> proven' fp" "sc_id c' = sc_id c" "sc_metadata c' = sc_metadata c"
  shows "unproven_entries rp proven' c' = []"
proof -
  let ?d = "case json_object (sc_metadata c) of Some m \<Rightarrow> dget m dismissal_key | None \<Rightarrow> None"
  from assms(1) obtain es where es: "?d = Some (PList es)"
    by (cases ?d) (auto simp: unproven_entries_def split: pyval.split_asm)
  from assms(1) have "sc_id c \<in> proven (entry_fingerprint rp x) \<and> is_hex 64 (entry_fingerprint rp x)" if "x \<in> set es" for x
    using that unfolding unproven_entries_def es by (simp add: filter_empty_conv)
  with assms(2) have "sc_id c \<in> proven' (entry_fingerprint rp x) \<and> is_hex 64 (entry_fingerprint rp x)" if "x \<in> set es" for x
    using that by blast
  then show ?thesis unfolding unproven_entries_def assms(3,4) es by (simp add: filter_empty_conv)
qed

section \<open>A resolution is a step\<close>

lemma changed_metadata: "sc_metadata (changed_card db env action i ids c) = sc_metadata c"
  by (simp add: changed_card_def superseded_card_def released_card_def promote_def retire_peer_def release_def)

lemma superseded_changed_by:
  assumes "clean_id i" "i \<notin> set ids" "pred \<in> set ids" "clean_id pred"
    and U: "U = superseded_card i ids pred now"
    and same: "\<And>c. conflict_member_material (U c) = conflict_member_material c" "\<And>c. member_type (U c) = member_type c"
      "\<And>c. sc_metadata (U c) = sc_metadata c"
  shows "changed_by U (set ids) (insert i (set ids)) i c"
proof -
  have "casefold (cd_status (U c)) \<in> set non_current_statuses \<longleftrightarrow> casefold (cd_status c) \<in> set non_current_statuses"
    unfolding U using pending_current by (auto simp: superseded_card_def promote_def)
  moreover have "sc_id (U c) = sc_id c" "successor (U c) = (if sc_id c \<in> set ids then i else successor c)"
    "cd_superseded_by (U c) = cd_superseded_by c \<or> sc_id c \<in> set ids"
    "cd_group (U c) = (if sc_id c \<in> insert i (set ids) then None else cd_group c)"
    using assms(1,2) by (auto simp: U superseded_card_def successor_def clean_id_def)
  moreover have "cd_supersedes (U c) = (if sc_id c = i \<and> cd_supersedes c = None then Some pred else cd_supersedes c)"
    by (auto simp: U superseded_card_def promote_def split: option.splits)
  ultimately show ?thesis
    using same assms(3,4) by (auto simp: changed_by_def predecessor_def clean_id_def py_strip_def)
qed

lemma released_changed_by:
  assumes U: "U = released_card ids now"
    and same: "\<And>c. conflict_member_material (U c) = conflict_member_material c" "\<And>c. member_type (U c) = member_type c"
      "\<And>c. sc_metadata (U c) = sc_metadata c"
  shows "changed_by U {} (set ids) i c"
  using same by (simp add: changed_by_def) (simp add: U released_card_def successor_def predecessor_def)

lemma resolution_is_step:
  assumes run: "resolve_conflict rp fi env i action superseded db = Inr (db', rs)" and wf: "wf_authority db"
    and plain: "plain_groups (ad_cards db)"
  obtains U P where "resolution_step (sorted_cards db) U P (insert i (set (rs_peers rs))) i" "sorted_cards db' = map U (sorted_cards db)"
    "wf_authority db'" "P = (if action = lit ''supersede'' then set (rs_peers rs) else {})"
proof -
  let ?ids = "rs_peers rs" and ?U = "changed_card db env action i (rs_peers rs)"
  let ?P = "if action = lit ''supersede'' then set ?ids else {}"
  from resolved_cards [OF run wf] obtain w where w: "find_card i (ad_cards db) = Some w" "?ids \<noteq> []" "i \<notin> set ?ids"
    "\<forall>p\<in>set ?ids. is_peer (ad_cards db) w action p" "ad_cards db' = map ?U (ad_cards db)"
    and sel: "\<exists>requested. select_peers (ad_cards db) w action requested = Inr (?ids, rs_group rs)" by metis
  have dist: "distinct (map sc_id (ad_cards db))" and clean: "\<forall>c\<in>set (ad_cards db). clean_id (sc_id c)"
    using wf by (simp_all add: wf_authority_def)
  let ?pred = "direct_predecessor (ad_cards db) ?ids"
  have pred: "?pred \<in> set ?ids" using direct_predecessor_in [OF w(2)] .
  with w(4) obtain d where "find_card ?pred (ad_cards db) = Some d" by (auto simp: is_peer_def)
  from find_cardD [OF this] find_cardD [OF w(1)] clean have ids: "clean_id ?pred" "clean_id i" by auto
  note same = changed_material(2,3) changed_metadata
  have "changed_by ?U ?P (insert i (set ?ids)) i c" for c
  proof (cases "action = lit ''supersede''")
    case True
    have "?U = superseded_card i ?ids ?pred (ae_now env)" using True by (simp add: changed_card_def)
    from superseded_changed_by [OF ids(2) w(3) pred ids(1) this same] True show ?thesis by simp
  next
    case False
    have "?U = released_card (all_members i ?ids) (ae_now env)" using False by (simp add: changed_card_def)
    from released_changed_by [OF this same] False show ?thesis by simp
  qed
  then have "\<forall>c. changed_by ?U ?P (insert i (set ?ids)) i c" ..
  moreover have "retired_by (sorted_cards db) ?P w"
    using w(4) unfolding retired_by_def find_sorted [OF dist] is_peer_def by (auto simp: current_successor)
  moreover have "closed_members (sorted_cards db) (insert i (set ?ids))"
  proof -
    obtain requested where requested: "select_peers (ad_cards db) w action requested = Inr (?ids, rs_group rs)" using sel by blast
    have "w \<in> set (ad_cards db)" and wid: "sc_id w = i" using find_cardD [OF w(1)] by simp_all
    note closed = select_peers_closed [OF requested dist this(1) plain, unfolded wid]
    show ?thesis
      unfolding closed_members_def sorted_cards_simps(1) by (intro ballI impI) (elim conjE, rule closed)
  qed
  ultimately have "resolution_step (sorted_cards db) ?U ?P (insert i (set ?ids)) i"
    using dist clean w(1,3) unfolding resolution_step_def find_sorted [OF dist] by (intro conjI exI [of _ w]) (simp_all only: sorted_cards_simps, auto)
  moreover have "sorted_cards db' = map ?U (sorted_cards db)"
    unfolding sorted_cards_def w(5) sort_key_map by (simp add: comp_def)
  moreover have "wf_authority db'" using wf unfolding wf_authority_def w(5) by (simp add: comp_def)
  ultimately show thesis using that by blast
qed

section \<open>The receipts after a resolution\<close>

lemma receipt_members_other:
  "\<forall>m\<in>set new. mb_receipt m = i \<Longrightarrow> j \<noteq> i \<Longrightarrow> receipt_members j (old @ new) = receipt_members j old"
proof -
  assume "\<forall>m\<in>set new. mb_receipt m = i" "j \<noteq> i"
  then have "filter (\<lambda>m. mb_receipt m = j) new = []" by (auto simp: filter_empty_conv)
  then show ?thesis by (simp add: receipt_members_def)
qed

text \<open>What a recorded receipt adds.\<close>

lemma record_rows:
  assumes run: "record_conflict_resolution_receipt env cards action grp i ids fp db = Inr (db', rid)"
    and orphans: "orphan_members db = []"
  shows "map mb_card (receipt_members rid (ad_members db')) = sort ids"
    and "\<And>r. r \<in> set (ad_receipts db) \<Longrightarrow> receipt_members (rc_id r) (ad_members db') = receipt_members (rc_id r) (ad_members db)"
    and "orphan_members db' = []" "rid \<notin> set (map mb_receipt (ad_members db))"
    and "\<exists>b. ad_receipts db' = ad_receipts db @ [recorded env action grp i (length ids) fp b]"
    and "\<exists>a. ad_audits db' = ad_audits db @ [a] \<and> au_action a = lit ''librarian_resolve_conflict'' \<and> au_id a \<notin> set (map au_id (ad_audits db))"
    and "rid = ae_resolution_id env"
proof -
  from run obtain new b where new: "list_all2 (member_of cards rid) (enumerate 0 (sort ids)) new"
    "ad_members db' = ad_members db @ new" "ad_receipts db' = ad_receipts db @ [recorded env action grp i (length ids) fp b]"
    "rid \<notin> set (map rc_id (ad_receipts db))" "rid = ae_resolution_id env"
    by (rule record_receipt_cases)
  note rows = members_of_enumerate [OF new(1)]
  have own: "\<forall>m\<in>set (ad_members db). mb_receipt m \<in> set (map rc_id (ad_receipts db))"
    using orphans by (auto simp: orphan_members_def filter_empty_conv)
  with new(4) show fresh: "rid \<notin> set (map mb_receipt (ad_members db))" by auto
  have "receipt_members rid (ad_members db @ new) = new" by (rule receipt_members_new [OF fresh rows(3,2)])
  with rows(1) new(2) show "map mb_card (receipt_members rid (ad_members db')) = sort ids" by simp
  show "receipt_members (rc_id r) (ad_members db') = receipt_members (rc_id r) (ad_members db)" if "r \<in> set (ad_receipts db)" for r
    unfolding new(2) using that new(4) by (intro receipt_members_other [OF rows(3)]) auto
  show "orphan_members db' = []"
    using own rows(3) new(5) by (auto simp: orphan_members_def filter_empty_conv new(2,3) recorded_def)
  show "\<exists>b. ad_receipts db' = ad_receipts db @ [recorded env action grp i (length ids) fp b]" using new(3) by blast
  show "\<exists>a. ad_audits db' = ad_audits db @ [a] \<and> au_action a = lit ''librarian_resolve_conflict'' \<and> au_id a \<notin> set (map au_id (ad_audits db))"
    by (rule record_receipt_cases [OF run]) (intro exI conjI, assumption, simp_all)
  show "rid = ae_resolution_id env" by (rule new(5))
qed

lemma unproven_step:
  assumes step: "resolution_step (sorted_cards db) U P M i" and cards: "sorted_cards db' = map U (sorted_cards db)"
    and clean: "rr_unproven (plain_receipt_report rp db) = []"
    and receipts: "set (ad_receipts db) \<subseteq> set (ad_receipts db')"
    and rows: "\<And>r. r \<in> set (ad_receipts db) \<Longrightarrow> receipt_members (rc_id r) (ad_members db') = receipt_members (rc_id r) (ad_members db)"
  shows "rr_unproven (plain_receipt_report rp db') = []"
proof -
  have proven: "dismissed_members d (sort_key receipt_less (ad_receipts d)) fp
      = (\<Union>r\<in>{r \<in> set (ad_receipts d). rc_action r = lit ''dismiss'' \<and> rc_fingerprint r = fp}.
          set (map mb_card (receipt_members (rc_id r) (ad_members d))))" for d fp
    by (simp add: dismissed_members_def)
  let ?dis = "\<lambda>d. dismissed_members d (sort_key receipt_less (ad_receipts d))"
  have grow: "?dis db fp \<subseteq> ?dis db' fp" for fp
    unfolding proven using receipts rows by (intro UN_mono) auto
  have unproven: "rr_unproven (plain_receipt_report rp d) = [] \<longleftrightarrow>
      (\<forall>c\<in>set (sorted_cards d). infix_of (lit dismissal_key) (sc_metadata c) \<longrightarrow> unproven_entries rp (?dis d) c = [])" for d
    by (auto simp: plain_receipt_report_def Let_def)
  show ?thesis
    using clean unproven_monotone [of rp "?dis db" _ "?dis db'", OF _ grow] step_simps(1,4) [OF step]
    unfolding unproven cards by auto
qed

section \<open>Properties\<close>

text \<open>The receipts of the new store are all accepted.\<close>

lemma receipts_step:
  assumes step: "resolution_step (sorted_cards db) U P M i" and cards: "sorted_cards db' = map U (sorted_cards db)"
    and accepted: "all_accepted rp (sorted_cards db) db"
    and rows: "\<And>r. r \<in> set (ad_receipts db) \<Longrightarrow> receipt_members (rc_id r) (ad_members db') = receipt_members (rc_id r) (ad_members db)"
    and audits: "ad_audits db' = ad_audits db @ [a]"
    and receipts: "ad_receipts db' = ad_receipts db @ [r]"
    and new: "conflict_resolution_receipt_error rp (sorted_cards db') db' r None None None {} False = Inr None"
  shows "all_accepted rp (sorted_cards db') db'"
  unfolding all_accepted_def
proof
  fix q
  assume "q \<in> set (ad_receipts db')"
  then consider "q = r" | "q \<in> set (ad_receipts db)" by (auto simp: receipts)
  then show "conflict_resolution_receipt_error rp (sorted_cards db') db' q None None None {} False = Inr None"
  proof cases
    case 2
    obtain w where w: "retired_by (sorted_cards db) P w" using step by (auto simp: resolution_step_def)
    show ?thesis
      unfolding cards
    proof (rule accepted_changed [where cards = "sorted_cards db" and db = db and U = U])
      show "conflict_resolution_receipt_error rp (sorted_cards db) db q None None None {} False = Inr None"
        using accepted 2 by (simp add: all_accepted_def)
      show "successor (U c) = successor c" if "find_card j (sorted_cards db) = Some c" "successor c \<noteq> []" for j c
        using step_peer [OF w that(1)] that find_cardD [OF that(1)] by (auto simp: step_simps(5) [OF step])
      show "find (\<lambda>a. au_id a = rc_audit q) (ad_audits db') = Some b"
        if "find (\<lambda>a. au_id a = rc_audit q) (ad_audits db) = Some b" for b
        using that by (simp add: audits find_append_Some)
    qed (simp_all add: step_simps [OF step] rows 2)
  qed (simp add: new)
qed

text \<open>What a resolution recorded.\<close>

lemma resolution_rows:
  assumes run: "resolve_conflict rp fi env i action superseded db = Inr (db', rs)" and wf: "wf_authority db"
    and winner: "find_card i (ad_cards db) = Some winner" and b: "conflict_boundary winner = b"
    and members: "all_members i (rs_peers rs) = ids" and orphans: "orphan_members db = []"
    and quiet: "not_redacted env i (resolution_payload (rs_id rs) action (rs_group rs) (rs_fingerprint rs) i ids b)"
    and plain: "list_all (readable True) ([rs_id rs, action, rs_group rs, rs_fingerprint rs, i, fst b, fst (snd b), snd (snd b)] @ ids)"
    and named: "rs_id rs \<noteq> []" and scope: "fst b \<in> set valid_visibility_scopes"
  obtains r a where "ad_receipts db' = ad_receipts db @ [r]" "ad_audits db' = ad_audits db @ [a]"
    "au_action a = lit ''librarian_resolve_conflict''" "rc_action r = action" "rc_selected r = i"
    "set (map mb_card (receipt_members (rc_id r) (ad_members db'))) = insert i (set (rs_peers rs))"
    "\<And>q. q \<in> set (ad_receipts db) \<Longrightarrow> receipt_members (rc_id q) (ad_members db') = receipt_members (rc_id q) (ad_members db)"
    "orphan_members db' = []"
    "conflict_resolution_receipt_error rp' (sorted_cards db') db' r None None None {} False = Inr None"
proof -
  have dist: "distinct (map sc_id (ad_cards db))" using wf by (simp add: wf_authority_def)
  obtain db1 where db1: "resolution_writes rp fi env i action superseded db = Inr (db1, rs)" "ad_cards db' = ad_cards db1"
    "ad_receipts db' = ad_receipts db1" "ad_members db' = ad_members db1" "ad_audits db' = ad_audits db1" by (rule resolve_cases [OF run])
  from writes_cases [OF db1(1) dist] obtain db0 where w: "rs_group rs \<noteq> []"
    "conflict_component_fingerprint (ad_cards db) (all_members i (rs_peers rs)) = Inr (rs_fingerprint rs)"
    "record_conflict_resolution_receipt env (ad_cards db) action (rs_group rs) i (all_members i (rs_peers rs)) (rs_fingerprint rs) db0
       = Inr (db1, rs_id rs)" "ad_receipts db0 = ad_receipts db" "ad_members db0 = ad_members db" "ad_audits db0 = ad_audits db" by metis
  have same: "orphan_members d = orphan_members d'" if "ad_receipts d = ad_receipts d'" "ad_members d = ad_members d'" for d d' :: authority_db
    using that by (simp add: orphan_members_def)
  have orphans0: "orphan_members db0 = []" using same [of db0 db] w(4,5) orphans by simp
  note rows = record_rows [OF w(3) orphans0, unfolded members]
  let ?r = "\<lambda>b. recorded env action (rs_group rs) i (length ids) (rs_fingerprint rs) b"
  from rows(5) obtain b' where rc: "ad_receipts db1 = ad_receipts db0 @ [?r b']" by blast
  from rows(6) obtain a where a: "ad_audits db1 = ad_audits db0 @ [a]" "au_action a = lit ''librarian_resolve_conflict''" by blast
  have sorted: "sort ids = ids" and ids: "distinct ids" "i \<in> set ids" "set ids = insert i (set (rs_peers rs))"
    using set_all_members [of i "rs_peers rs"] unfolding members [symmetric] by (simp_all add: all_members_def sorted_sort_id)
  have "ad_cards db' = map (changed_card db env action i (rs_peers rs)) (ad_cards db)" by (rule resolved_cards [OF run wf])
  then have dist': "distinct (map sc_id (ad_cards db'))" using dist by (simp add: comp_def)
  have kept: "\<forall>j\<in>set ids. kept_member (ad_cards db) (sorted_cards db') b action i j"
    using resolution_keeps_members [OF wf run winner] unfolding members b kept_member_def find_sorted [OF dist'] .
  have q: "not_redacted env i (resolution_payload (rs_id rs) action (rs_group rs) (rs_fingerprint rs) i (sort ids) b)"
    using quiet sorted by simp
  note acc = recorded_receipt_accepted [OF w(3) [unfolded members] q plain named w(1) rows(4) w(2) [unfolded members] kept ids(1,2) scope
      db1(3-5)]
  have fields: "rc_id (?r b) = rs_id rs" "rc_action (?r b) = action" "rc_selected (?r b) = i" "rc_fingerprint (?r b) = rs_fingerprint rs" for b
    using rows(7) by (simp_all add: recorded_def)
  have "?r b' = ?r b" using acc(2) unfolding db1(3) rc by (auto simp: fields split: if_splits)
  then have receipts: "ad_receipts db' = ad_receipts db @ [?r b]" using rc w(4) db1(3) by simp
  show thesis
  proof (rule that [OF receipts _ a(2)])
    show "ad_audits db' = ad_audits db @ [a]" using a(1) w(6) db1(5) by simp
    show "set (map mb_card (receipt_members (rc_id (?r b)) (ad_members db'))) = insert i (set (rs_peers rs))"
      unfolding fields db1(4) rows(1) set_sort ids(3) ..
    show "receipt_members (rc_id q) (ad_members db') = receipt_members (rc_id q) (ad_members db)" if "q \<in> set (ad_receipts db)" for q
      using rows(2) [of q] that w(4,5) db1(4) by simp
    show "orphan_members db' = []" using rows(3) same [OF db1(3,4)] by simp
    show "conflict_resolution_receipt_error rp' (sorted_cards db') db' (?r b) None None None {} False = Inr None"
      by (rule receipt_error_unrestricted [OF acc(1)])
  qed (simp_all add: fields)
qed

text \<open>The step of a resolution, on the whole report.\<close>

lemma resolution_clean:
  assumes wf: "wf_authority db" and agents: "distinct (map fst agents)" and groups: "plain_groups (ad_cards db)"
    and report: "temporal_authority_report rp db agents [] = Inr a" "report_ok a"
    and run: "resolve_conflict rp' fi env i action superseded db = Inr (db', rs)"
    and winner: "find_card i (ad_cards db) = Some winner" and b: "conflict_boundary winner = b"
    and members: "all_members i (rs_peers rs) = ids"
    and quiet: "not_redacted env i (resolution_payload (rs_id rs) action (rs_group rs) (rs_fingerprint rs) i ids b)"
    and plain: "list_all (readable True) ([rs_id rs, action, rs_group rs, rs_fingerprint rs, i, fst b, fst (snd b), snd (snd b)] @ ids)"
    and named: "rs_id rs \<noteq> []" and scope: "fst b \<in> set valid_visibility_scopes"
  shows "\<exists>a'. temporal_authority_report rp db' agents [] = Inr a' \<and> report_ok a'"
proof -
  have dist: "distinct (map sc_id (ad_cards db))" using wf by (simp add: wf_authority_def)
  obtain rr where rr: "resolution_receipt_report rp (sorted_cards db) db [] = Inr rr" "rr_invalid rr = []" "rr_unproven rr = []"
    and clean: "clean_authority (sorted_cards db) (fan_in_links rp db agents rr) agents"
    by (rule clean_report_cases [OF dist agents report])
  note accepted = report_accepted [OF rr(1,2)] and rr_plain = report_is_plain [OF rr(1,2)]
  obtain U P where step: "resolution_step (sorted_cards db) U P (insert i (set (rs_peers rs))) i"
    and cards: "sorted_cards db' = map U (sorted_cards db)" and wf': "wf_authority db'"
    and P: "P = (if action = lit ''supersede'' then set (rs_peers rs) else {})" by (rule resolution_is_step [OF run wf groups])
  obtain r ev where new: "ad_receipts db' = ad_receipts db @ [r]" "ad_audits db' = ad_audits db @ [ev]"
    "au_action ev = lit ''librarian_resolve_conflict''" "rc_action r = action" "rc_selected r = i"
    "set (map mb_card (receipt_members (rc_id r) (ad_members db'))) = insert i (set (rs_peers rs))"
    "\<And>q. q \<in> set (ad_receipts db) \<Longrightarrow> receipt_members (rc_id q) (ad_members db') = receipt_members (rc_id q) (ad_members db)"
    "orphan_members db' = []" "conflict_resolution_receipt_error rp (sorted_cards db') db' r None None None {} False = Inr None"
    using resolution_rows [OF run wf winner b members accepted(2) quiet plain named scope, of rp] by metis
  have grow: "set (ad_receipts db) \<subseteq> set (ad_receipts db')" by (auto simp: new(1))
  let ?F = "fan_in_links rp db agents (plain_receipt_report rp db)" and ?F' = "fan_in_links rp db' agents (plain_receipt_report rp db')"
  have "all_accepted rp (sorted_cards db') db'" by (rule receipts_step [OF step cards accepted(1) new(7,2,1,9)])
  note rr' = accepted_report [OF this new(8)]
  have "(p, i) \<in> ?F'" if "p \<in> P" for p
  proof -
    have "p \<noteq> i" "p \<in> insert i (set (rs_peers rs))" "action = lit ''supersede''"
      using that step P by (auto simp: resolution_step_def split: if_splits)
    with new(6) have "(p, i) \<in> set (fan_in_of db' r)" by (auto simp: fan_in_of_def new(4,5))
    then show ?thesis by (auto simp: fan_in_links_def plain_receipt_report_def Let_def new(1))
  qed
  then have fan: "?F \<union> {(p, i) |p. p \<in> P} \<subseteq> ?F'"
    using fan_in_grows [OF step cards new(2,3) grow new(7), where rp = rp and agents = agents] by blast
  have acyc: "acyclic (links (set (sorted_cards db')))"
  proof -
    obtain db1 where "resolution_writes rp' fi env i action superseded db = Inr (db1, rs)" "ad_cards db' = ad_cards db1"
      by (rule resolve_cases [OF run])
    with writes_acyclic [OF wf, of rp' fi env i action superseded db1 rs] obtain g where "assert_supersession_dag (ad_cards db') = Inr g" by auto
    with wf' show ?thesis using assert_dag_iff(1) unfolding wf_authority_def sorted_cards_simps(1) by blast
  qed
  have "clean_authority (sorted_cards db') ?F' agents"
    unfolding cards by (rule step_clean [OF step _ fan acyc [unfolded cards]]) (use clean rr_plain in simp)
  moreover have "rr_unproven (plain_receipt_report rp db') = []"
    by (rule unproven_step [OF step cards _ grow new(7)]) (use rr(3) rr_plain in simp)
  ultimately show ?thesis
    using report_ok_iff [OF _ agents rr'] wf' by (simp add: wf_authority_def plain_receipt_report_def Let_def)
qed

lemma demo_report: "\<exists>a. temporal_authority_report (\<lambda>_. []) demo_db [] [] = Inr a \<and> report_ok a"
proof -
  have dist: "distinct (map sc_id (ad_cards demo_db))" using demo_wf by (simp add: wf_authority_def)
  have cards: "set (sorted_cards demo_db) = {demo_member ''a'', demo_member ''b''}" by (simp add: demo_db_def)
  have meta: "sc_metadata (demo_member i) = []" for i by (simp add: demo_member_def demo_card_def)
  have "\<not> infix_of (lit dismissal_key) []" by (simp add: infix_of_def dismissal_key_def)
  then have "rr_unproven (plain_receipt_report (\<lambda>_. []) demo_db) = []"
    by (simp add: plain_receipt_report_def Let_def demo_db_def meta)
  moreover have rr: "resolution_receipt_report (\<lambda>_. []) (sorted_cards demo_db) demo_db [] = Inr (plain_receipt_report (\<lambda>_. []) demo_db)"
    by (rule accepted_report) (simp_all add: all_accepted_def orphan_members_def demo_db_def)
  moreover have links: "links (set (sorted_cards demo_db)) = {}"
    unfolding cards by (auto simp: links_def demo_fields)
  moreover have "sound_groups (sorted_cards demo_db) (lf_referenced (check_links (sorted_cards demo_db) F))" for F
  proof -
    have "unsuperseded (lf_referenced (check_links (sorted_cards demo_db) F)) (demo_member i)" for i
    proof -
      have "set (lf_referenced (check_links (sorted_cards demo_db) F)) = {}"
        unfolding referenced_set cards by (auto simp: demo_fields)
      moreover have "casefold (cd_status (demo_member i)) \<notin> set non_current_statuses"
        by (simp add: demo_member_def demo_card_def casefold_def non_current_statuses_def lit_def fold_char_def)
      ultimately show ?thesis by (simp add: unsuperseded_def demo_fields)
    qed
    then show ?thesis unfolding sound_groups_def cards by (auto simp: demo_fields demo_ids lit_def)
  qed
  moreover have "proper_links (sorted_cards demo_db) F" for F unfolding proper_links_def cards by (simp add: demo_fields)
  ultimately show ?thesis
    unfolding report_ok_iff [OF dist _ rr, of "[]", simplified] clean_authority_def
    by (simp add: uniform_edges_def one_head_def acyclic_def plain_receipt_report_def Let_def del: sorted_cards_simps)
qed



end
