(* ===== verification/Conflict_Signals.thy ===== *)
theory Conflict_Signals
  imports Conflict_Budget Authority_Invariant
begin

text \<open>
  What a conflict pass compares (\<open>core/workers.py\<close>, with \<open>extract_terms\<close> of \<open>core/store.py\<close>): the signature of a Card and
  the adjacency of the Cards of one boundary.  Full case folding is an argument, because it is Python's Unicode table; the
  terms are ASCII.
\<close>

section \<open>Terms\<close>

definition ascii_letter :: "nat \<Rightarrow> bool" where
  "ascii_letter c \<longleftrightarrow> 65 \<le> c \<and> c \<le> 90 \<or> 97 \<le> c \<and> c \<le> 122"

definition word_start :: "nat \<Rightarrow> bool" where
  "word_start c \<longleftrightarrow> ascii_letter c \<or> digit c"

definition separators :: pystr where
  "separators = lit ''_.:/'' @ [92, 45]"

definition word_char :: "nat \<Rightarrow> bool" where
  "word_char c \<longleftrightarrow> word_start c \<or> c \<in> set separators"

text \<open>\<open>WORD_RE.findall\<close>.\<close>

function words :: "pystr \<Rightarrow> pystr list" where
  "words [] = []"
| "words (c # s) =
     (if word_start c \<and> takeWhile word_char s \<noteq> [] then (c # takeWhile word_char s) # words (dropWhile word_char s) else words s)"
  by pat_completeness auto

termination by (relation "measure length") (auto simp: le_imp_less_Suc length_dropWhile_le)

definition trim_set :: pystr where
  "trim_set = [96, 46, 44, 59, 58, 40, 41, 91, 93, 123, 125, 60, 62, 34, 39]"

definition strip_of :: "pystr \<Rightarrow> pystr \<Rightarrow> pystr" where
  "strip_of cs s = rev (dropWhile (\<lambda>c. c \<in> set cs) (rev (dropWhile (\<lambda>c. c \<in> set cs) s)))"

text \<open>The non-empty parts between runs of separators.\<close>

function parts :: "(nat \<Rightarrow> bool) \<Rightarrow> pystr \<Rightarrow> pystr list" where
  "parts sep [] = []"
| "parts sep (c # s) =
     (if sep c then parts sep s else (c # takeWhile (\<lambda>x. \<not> sep x) s) # parts sep (dropWhile (\<lambda>x. \<not> sep x) s))"
  by pat_completeness auto

termination by (relation "measure (\<lambda>(_, s). length s)") (auto simp: le_imp_less_Suc length_dropWhile_le)

definition ascii_lower :: "pystr \<Rightarrow> pystr" where
  "ascii_lower s = map (\<lambda>c. if 65 \<le> c \<and> c \<le> 90 then c + 32 else c) s"

definition word_terms :: "pystr \<Rightarrow> pystr list" where
  "word_terms raw =
     (let cleaned = ascii_lower (strip_of trim_set raw)
      in filter (\<lambda>t. 4 \<le> length t \<and> \<not> list_all digit t) (cleaned # parts (\<lambda>c. c \<in> set separators) cleaned))"

definition count_term :: "'a \<Rightarrow> ('a, nat) odict \<Rightarrow> ('a, nat) odict" where
  "count_term t counts = oset t (case oget counts t of None \<Rightarrow> 1 | Some n \<Rightarrow> n + 1) counts"

definition extract_terms :: "pystr \<Rightarrow> nat \<Rightarrow> pystr list" where
  "extract_terms s limit =
     take limit (map fst (sort_key (\<lambda>(t, n). (- int n, t)) (fold count_term (concat (map word_terms (words s))) [])))"

section \<open>The signature of a Card\<close>

definition conflict_title_key :: "pystr \<Rightarrow> pystr" where
  "conflict_title_key title = ascii_lower (strip_of [32] title)"

definition py_words :: "pystr \<Rightarrow> pystr list" where
  "py_words s = parts py_space s"

definition negation_markers :: "pystr list" where
  "negation_markers = map lit ['' not '', '' no '', ''never'', ''disable'', ''removed'']"

record signature =
  sg_type :: pystr
  sg_agent :: pystr
  sg_title :: pystr
  sg_summary :: pystr
  sg_terms :: "pystr list"
  sg_negative :: bool

definition join_words :: "pystr list \<Rightarrow> pystr" where
  "join_words ws = (case ws of [] \<Rightarrow> [] | w # rest \<Rightarrow> w @ concat (map (\<lambda>v. 32 # v) rest))"

definition metadata_of :: "card \<Rightarrow> pyval" where
  "metadata_of c = (let m = json_loads (Some (sc_metadata c)) (PDict []) in if is_dict m then m else PDict [])"

definition negative_summary :: "pystr \<Rightarrow> bool" where
  "negative_summary s \<longleftrightarrow> take 3 s = lit ''no '' \<or> take 4 s = lit ''not '' \<or> list_ex (\<lambda>m. infix_of m (32 # s @ [32])) negation_markers"

definition conflict_signature :: "(pystr \<Rightarrow> pystr) \<Rightarrow> (pyval \<Rightarrow> pystr) \<Rightarrow> card \<Rightarrow> signature" where
  "conflict_signature cf rp c =
     (let title = conflict_title_key (sc_title c); summary = join_words (py_words (cf (sc_summary c))) in
      \<lparr>sg_type = member_type c, sg_agent = py_strip (cf (str_or_empty rp (metadata_of c) ''agent_id'')), sg_title = title,
       sg_summary = summary, sg_terms = extract_terms (title @ 32 # summary) 12, sg_negative = negative_summary summary\<rparr>)"

definition types_compatible :: "pystr \<Rightarrow> pystr \<Rightarrow> bool" where
  "types_compatible l r \<longleftrightarrow> \<not> (l = project_state_type \<or> r = project_state_type) \<or> l = r"

text \<open>The anchor of a signature is its first term; no term is empty.\<close>

definition anchored_in :: "signature \<Rightarrow> signature \<Rightarrow> bool" where
  "anchored_in l r \<longleftrightarrow> (case sg_terms l of [] \<Rightarrow> False | t # _ \<Rightarrow> t \<in> set (sg_terms r))"

definition conflicting :: "bool \<Rightarrow> signature \<Rightarrow> signature \<Rightarrow> bool" where
  "conflicting boundary_complete l r \<longleftrightarrow>
     (let concept = anchored_in l r \<or> anchored_in r l; same_title = sg_title l = sg_title r in
      (same_title \<or> boundary_complete \<and> concept)
      \<and> types_compatible (sg_type l) (sg_type r)
      \<and> \<not> (sg_type l = project_state_type \<and> sg_type r = project_state_type \<and> sg_agent l \<noteq> [] \<and> sg_agent l = sg_agent r)
      \<and> \<not> (same_title \<and> sg_summary l = sg_summary r)
      \<and> (concept \<or> same_title)
      \<and> \<not> (sg_negative l = sg_negative r \<and> \<not> same_title))"

section \<open>Adjacency\<close>

definition link :: "pystr \<Rightarrow> pystr \<Rightarrow> pystr graph \<Rightarrow> pystr graph" where
  "link a b g = add_edge b a (add_edge a b g)"

text \<open>A durable group ties its members to its least one.\<close>

definition group_star :: "pystr list \<Rightarrow> pystr graph \<Rightarrow> pystr graph" where
  "group_star members g =
     (case sort (remdups members) of a # m # ms \<Rightarrow> fold (link a) (m # ms) g | _ \<Rightarrow> g)"

definition add_group_member :: "pystr set \<Rightarrow> card \<Rightarrow> (pystr, pystr list) odict \<Rightarrow> (pystr, pystr list) odict" where
  "add_group_member wholes c d =
     (let g = conflict_group c in
      if g \<noteq> [] \<and> g \<in> wholes then oset g ((case oget d g of None \<Rightarrow> [] | Some ms \<Rightarrow> ms) @ [sc_id c]) d else d)"

definition existing_group_members :: "card list \<Rightarrow> pystr set \<Rightarrow> (pystr, pystr list) odict" where
  "existing_group_members cards wholes = fold (add_group_member wholes) cards []"

fun pairs :: "'a list \<Rightarrow> ('a \<times> 'a) list" where
  "pairs [] = []"
| "pairs (x # xs) = map (Pair x) xs @ pairs xs"

fun compare_pairs ::
  "clock \<Rightarrow> bool \<Rightarrow> (card \<Rightarrow> signature) \<Rightarrow> (card \<times> card) list \<Rightarrow> budget \<Rightarrow> pystr graph \<Rightarrow> budget \<times> pystr graph \<times> bool" where
  "compare_pairs clock full sig [] b g = (b, g, True)"
| "compare_pairs clock full sig ((l, r) # ps) b g =
     (case consume_comparison clock b of (b1, ok) \<Rightarrow>
        if ok then compare_pairs clock full sig ps b1
          (if conflicting full (sig l) (sig r) then link (sc_id l) (sc_id r) g else g)
        else (b1, g, False))"

definition conflict_adjacency ::
  "clock \<Rightarrow> (card \<Rightarrow> signature) \<Rightarrow> card list \<Rightarrow> pystr set \<Rightarrow> bool \<Rightarrow> budget \<Rightarrow> budget \<times> pystr graph \<times> bool" where
  "conflict_adjacency clock sig cards wholes full b =
     compare_pairs clock full sig (pairs (sort_key cd_rowid cards)) b
       (fold group_star (map snd (existing_group_members cards wholes)) (no_edges cards))"

section \<open>What the adjacency is\<close>

lemma edge_link [simp]: "edge (link a b g) = edge g \<union> {(a, b), (b, a)}"
  by (auto simp: link_def)

lemma nodes_link: "a \<in> fst ` set g \<Longrightarrow> b \<in> fst ` set g \<Longrightarrow> fst ` set (link a b g) = fst ` set g"
  by (auto simp: link_def add_edge_def)

lemma edge_link_fold: "edge (fold (link a) ms g) = edge g \<union> {(a, m) |m. m \<in> set ms} \<union> {(m, a) |m. m \<in> set ms}"
  by (induction ms arbitrary: g) auto

lemma nodes_link_fold: "a \<in> fst ` set g \<Longrightarrow> set ms \<subseteq> fst ` set g \<Longrightarrow> fst ` set (fold (link a) ms g) = fst ` set g"
proof (induction ms arbitrary: g)
  case (Cons m ms)
  then have "fst ` set (link a m g) = fst ` set g" by (intro nodes_link) auto
  with Cons show ?case by simp
qed simp

definition members_in :: "card list \<Rightarrow> pystr set \<Rightarrow> pystr \<Rightarrow> pystr set" where
  "members_in cards wholes g = {sc_id c |c. c \<in> set cards \<and> conflict_group c = g \<and> g \<noteq> [] \<and> g \<in> wholes}"

lemma existing_group_set:
  "\<exists>ms. oget (existing_group_members cards wholes) g = (if ms = [] then None else Some ms) \<and> set ms = members_in cards wholes g"
proof -
  have "\<exists>ms. oget (fold (add_group_member wholes) cs d) g = (if ms = [] then None else Some ms) \<and> set ms = set old \<union> members_in cs wholes g"
    if "oget d g = (if old = [] then None else Some old)" for cs d old
    using that
  proof (induction cs arbitrary: d old)
    case (Cons c cs)
    define new where "new = (if conflict_group c = g \<and> g \<noteq> [] \<and> g \<in> wholes then old @ [sc_id c] else old)"
    have "oget (add_group_member wholes c d) g = (if new = [] then None else Some new)"
      using Cons.prems by (simp add: new_def Let_def add_group_member_def)
    moreover have "set new \<union> members_in cs wholes g = set old \<union> members_in (c # cs) wholes g"
      by (auto simp: new_def members_in_def)
    ultimately show ?case using Cons.IH [of "add_group_member wholes c d" new] by simp
  qed (auto simp: members_in_def)
  from this [of "[]" "[]" cards] show ?thesis by (simp add: existing_group_members_def)
qed

lemma existing_group_keys: "distinct (map fst (existing_group_members cards wholes))"
proof -
  have "distinct (map fst (fold (add_group_member wholes) cs d))" if "distinct (map fst d)" for cs and d :: "(pystr, pystr list) odict"
    using that by (induction cs arbitrary: d) (auto simp: Let_def add_group_member_def)
  then show ?thesis by (simp add: existing_group_members_def)
qed

text \<open>The edges of a star join its members and connect all of them.\<close>

lemma group_star_edges:
  obtains S where "edge (group_star ms g) = edge g \<union> S" "S \<subseteq> set ms \<times> set ms" "sym S" "\<forall>x\<in>set ms. \<forall>y\<in>set ms. (x, y) \<in> S\<^sup>*"
proof (cases "sort (remdups ms)")
  case Nil
  then have "set ms = {}" by (metis set_empty set_remdups set_sort)
  then show thesis using that [of "{}"] Nil by (simp add: group_star_def sym_def)
next
  case (Cons a rest)
  have set_ms: "set ms = insert a (set rest)" using arg_cong [OF Cons, of set] by simp
  define S where "S = {(a, m) |m. m \<in> set rest} \<union> {(m, a) |m. m \<in> set rest}"
  have edges: "edge (group_star ms g) = edge g \<union> S"
    by (cases rest) (auto simp: group_star_def Cons S_def edge_link_fold simp del: fold.simps)
  have sym: "sym S" by (auto simp: S_def sym_def)
  have to: "(a, x) \<in> S\<^sup>*" if "x \<in> set ms" for x
    using that unfolding set_ms by (auto simp: S_def)
  moreover have "(x, a) \<in> S\<^sup>*" if "x \<in> set ms" for x
    using that unfolding set_ms by (auto simp: S_def)
  ultimately have "\<forall>x\<in>set ms. \<forall>y\<in>set ms. (x, y) \<in> S\<^sup>*" by (meson rtrancl_trans)
  with edges sym show thesis by (intro that [of S]) (auto simp: S_def set_ms)
qed

lemma group_star_nodes: "set ms \<subseteq> fst ` set g \<Longrightarrow> fst ` set (group_star ms g) = fst ` set g"
proof -
  assume sub: "set ms \<subseteq> fst ` set g"
  show ?thesis
  proof (cases "sort (remdups ms)")
    case (Cons a rest)
    have "set ms = insert a (set rest)" using arg_cong [OF Cons, of set] by simp
    then show ?thesis using sub nodes_link_fold [of a g rest]
      by (cases rest) (auto simp: group_star_def Cons simp del: fold.simps)
  qed (simp add: group_star_def)
qed

section \<open>The number of comparisons\<close>

lemma length_pairs: "2 * length (pairs xs) = length xs * (length xs - 1)"
proof (induction xs)
  case (Cons x xs)
  have "2 * length (pairs (x # xs)) = 2 * length xs + length xs * (length xs - 1)" using Cons by simp
  also have "\<dots> = length (x # xs) * (length (x # xs) - 1)" by (cases "length xs") (simp_all add: algebra_simps)
  finally show ?case .
qed simp

lemma in_pairs: "(x, y) \<in> set (pairs xs) \<Longrightarrow> x \<in> set xs \<and> y \<in> set xs"
  by (induction xs) auto

lemma pairs_distinct: "distinct xs \<Longrightarrow> (x, y) \<in> set (pairs xs) \<Longrightarrow> x \<noteq> y"
  by (induction xs) auto

lemma all_pairs: "x \<in> set xs \<Longrightarrow> y \<in> set xs \<Longrightarrow> x \<noteq> y \<Longrightarrow> (x, y) \<in> set (pairs xs) \<or> (y, x) \<in> set (pairs xs)"
  by (induction xs) auto

text \<open>A comparison loop with room for its pairs never reports the comparison limit, and one that ends early lacked time.\<close>

lemma compare_pairs_budget:
  assumes "compare_pairs clock full sig ps b g = (b', g', ok)" "in_limits b"
  shows "in_limits b'" "later b b'" "bg_mutations b' = bg_mutations b" "bg_comparisons b' \<le> bg_comparisons b + int (length ps)"
    "bg_comparisons b + int (length ps) \<le> bg_comparison_limit b \<Longrightarrow> bg_comparison_out b' = bg_comparison_out b"
proof -
  have "in_limits b' \<and> later b b' \<and> bg_mutations b' = bg_mutations b \<and> bg_comparisons b' \<le> bg_comparisons b + int (length ps)
      \<and> (bg_comparisons b + int (length ps) \<le> bg_comparison_limit b \<longrightarrow> bg_comparison_out b' = bg_comparison_out b)"
    using assms
  proof (induction clock full sig ps b g arbitrary: b' g' ok rule: compare_pairs.induct)
    case (2 clock full sig l r ps b g)
    obtain b1 ok1 where c: "consume_comparison clock b = (b1, ok1)" by fastforce
    note step = consume_comparison_step [OF c]
    show ?case
    proof (cases ok1)
      case False
      with 2(2) c have "b' = b1" by simp
      with step False 2(3) show ?thesis by auto
    next
      case True
      from 2(2) c True have "compare_pairs clock full sig ps b1 (if conflicting full (sig l) (sig r) then link (sc_id l) (sc_id r) g else g)
          = (b', g', ok)" by simp
      from 2(1) [OF c [symmetric] True this step(1) [OF 2(3)]] step(2,3,4,6) True show ?thesis
        by (auto simp: later_def)
    qed
  qed simp
  then show "in_limits b'" "later b b'" "bg_mutations b' = bg_mutations b" "bg_comparisons b' \<le> bg_comparisons b + int (length ps)"
    "bg_comparisons b + int (length ps) \<le> bg_comparison_limit b \<Longrightarrow> bg_comparison_out b' = bg_comparison_out b" by blast+
qed

text \<open>A complete comparison adds exactly the conflicting pairs.\<close>

lemma compare_pairs_Cons:
  assumes "compare_pairs clock full sig ((l, r) # ps) b g = (b', g', True)"
  obtains b1 where "compare_pairs clock full sig ps b1 (if conflicting full (sig l) (sig r) then link (sc_id l) (sc_id r) g else g) = (b', g', True)"
  using assms by (auto split: prod.splits if_splits)

lemma compare_pairs_edges:
  "compare_pairs clock full sig ps b g = (b', g', True) \<Longrightarrow> edge g' = edge g \<union> {(x, y) |x y l r. (l, r) \<in> set ps
      \<and> conflicting full (sig l) (sig r) \<and> (x = sc_id l \<and> y = sc_id r \<or> x = sc_id r \<and> y = sc_id l)}"
proof (induction ps arbitrary: b g)
  case (Cons p ps)
  obtain l r where p: "p = (l, r)" by (cases p)
  from Cons.prems [unfolded p] obtain b1 where "compare_pairs clock full sig ps b1
      (if conflicting full (sig l) (sig r) then link (sc_id l) (sc_id r) g else g) = (b', g', True)" by (rule compare_pairs_Cons)
  from Cons.IH [OF this] show ?case by (auto simp: p split: if_splits)
qed simp

lemma compare_pairs_nodes:
  "compare_pairs clock full sig ps b g = (b', g', True) \<Longrightarrow> \<forall>(l, r)\<in>set ps. sc_id l \<in> fst ` set g \<and> sc_id r \<in> fst ` set g \<Longrightarrow>
    fst ` set g' = fst ` set g"
proof (induction ps arbitrary: b g)
  case (Cons p ps)
  obtain l r where p: "p = (l, r)" by (cases p)
  from Cons.prems(1) [unfolded p] obtain b1 where rest: "compare_pairs clock full sig ps b1
      (if conflicting full (sig l) (sig r) then link (sc_id l) (sc_id r) g else g) = (b', g', True)" by (rule compare_pairs_Cons)
  have "fst ` set (if conflicting full (sig l) (sig r) then link (sc_id l) (sc_id r) g else g) = fst ` set g"
    using Cons.prems(2) by (simp add: p nodes_link)
  with Cons.IH [OF rest] Cons.prems(2) show ?case by (auto simp: p)
qed simp

end
