(* ===== verification/Conflict_Candidates.thy ===== *)
theory Conflict_Candidates
  imports Conflict_Signals
begin

text \<open>
  The Cards a conflict pass selects (\<open>_bounded_conflict_rows\<close> and its queries in \<open>core/workers.py\<close>): an anchor, all Cards
  its durable group and its title reach, and as many other Cards as the limit leaves room for.
\<close>

section \<open>The queries\<close>

definition by_rowid :: "card list \<Rightarrow> card list" where
  "by_rowid cards = sort_key cd_rowid cards"

definition rows_by_ids :: "card list \<Rightarrow> pystr list \<Rightarrow> card list" where
  "rows_by_ids cards ids = filter (\<lambda>c. sc_id c \<in> set ids) (by_rowid cards)"

text \<open>\<open>coalesce(column, '')\<close> of a boundary, as the expression index has it.\<close>

definition index_clause :: "pystr \<times> pystr \<times> pystr \<Rightarrow> card \<Rightarrow> bool" where
  "index_clause b c \<longleftrightarrow> (case b of (scope, project, session) \<Rightarrow> sc_scope c = scope \<and> or_empty (sc_project c) = project
     \<and> (scope \<in> {lit ''project'', lit ''global''} \<or> or_empty (sc_session c) = session))"

definition index_order :: "pystr \<times> pystr \<times> pystr \<Rightarrow> card \<Rightarrow> pystr \<times> int" where
  "index_order b c = (if fst b \<in> {lit ''project'', lit ''global''} then or_empty (sc_session c) else [], cd_rowid c)"

definition boundary_clause :: "pystr \<times> pystr \<times> pystr \<Rightarrow> card \<Rightarrow> bool" where
  "boundary_clause b c \<longleftrightarrow> (case b of (scope, project, session) \<Rightarrow>
     if scope = lit ''project'' then sc_scope c = lit ''project'' \<and> sc_project c = Some project
     else if scope = lit ''global'' then sc_scope c = lit ''global''
     else sc_scope c = scope \<and> or_empty (sc_project c) = project \<and> or_empty (sc_session c) = session)"

definition title_clause :: "(pystr \<times> pystr \<times> pystr) \<times> pystr \<Rightarrow> card \<Rightarrow> bool" where
  "title_clause key c \<longleftrightarrow> conflict_title_key (sc_title c) = snd key \<and> index_clause (fst key) c"

definition title_key :: "card \<Rightarrow> (pystr \<times> pystr \<times> pystr) \<times> pystr" where
  "title_key c = (conflict_boundary c, conflict_title_key (sc_title c))"

definition group_rows :: "card list \<Rightarrow> pystr \<Rightarrow> card list" where
  "group_rows cards g = filter (\<lambda>c. cd_group c = Some g) (by_rowid cards)"

definition title_rows :: "card list \<Rightarrow> (pystr \<times> pystr \<times> pystr) \<times> pystr \<Rightarrow> card list" where
  "title_rows cards key = sort_key (index_order (fst key)) (filter (title_clause key) cards)"

section \<open>The closure of the anchor\<close>

fun add_rows :: "nat \<Rightarrow> card list \<Rightarrow> card list \<times> card list \<Rightarrow> card list \<times> card list" where
  "add_rows limit [] state = state"
| "add_rows limit (r # rs) (found, pending) =
     (if sc_id r \<in> set (map sc_id found) then add_rows limit rs (found, pending)
      else if limit < Suc (length found) then (found @ [r], pending @ [r])
      else add_rows limit rs (found @ [r], pending @ [r]))"

definition related_rows ::
  "card list \<Rightarrow> nat \<Rightarrow> card \<Rightarrow> pystr set \<Rightarrow> ((pystr \<times> pystr \<times> pystr) \<times> pystr) set \<Rightarrow> card list" where
  "related_rows cards limit c groups titles =
     (let g = conflict_group c; t = title_key c in
      (if g \<noteq> [] \<and> g \<notin> groups then take (Suc limit) (group_rows cards g) else [])
      @ (if snd t \<noteq> [] \<and> t \<notin> titles then take (Suc limit) (title_rows cards t) else []))"

definition expand_group :: "card \<Rightarrow> pystr set \<Rightarrow> pystr set" where
  "expand_group c groups = (if conflict_group c \<noteq> [] then insert (conflict_group c) groups else groups)"

definition expand_title ::
  "card \<Rightarrow> ((pystr \<times> pystr \<times> pystr) \<times> pystr) set \<Rightarrow> ((pystr \<times> pystr \<times> pystr) \<times> pystr) set" where
  "expand_title c titles = (if snd (title_key c) \<noteq> [] then insert (title_key c) titles else titles)"

lemma add_rows_cases:
  "add_rows limit rs (found, pending) = (found', pending') \<Longrightarrow>
     \<exists>new. found' = found @ new \<and> pending' = pending @ new \<and> set new \<subseteq> set rs
       \<and> (distinct (map sc_id found) \<longrightarrow> distinct (map sc_id found'))
       \<and> (length found \<le> limit \<longrightarrow> length found' \<le> Suc limit)
       \<and> (length found' \<le> limit \<longrightarrow> sc_id ` set rs \<subseteq> sc_id ` set found')
       \<and> set (map sc_id new) \<inter> set (map sc_id found) = {}"
proof (induction limit rs "(found, pending)" arbitrary: found pending rule: add_rows.induct)
  case (2 limit r rs found pending)
  consider "sc_id r \<in> set (map sc_id found)" | "sc_id r \<notin> set (map sc_id found)" "limit < Suc (length found)"
    | "sc_id r \<notin> set (map sc_id found)" "\<not> limit < Suc (length found)" by blast
  then show ?case
  proof cases
    case 1
    with 2(3) have "add_rows limit rs (found, pending) = (found', pending')" by simp
    from 2(1) [OF 1 this] obtain new where new: "found' = found @ new" "pending' = pending @ new" "set new \<subseteq> set rs"
      "distinct (map sc_id found) \<longrightarrow> distinct (map sc_id found')" "length found \<le> limit \<longrightarrow> length found' \<le> Suc limit"
      "length found' \<le> limit \<longrightarrow> sc_id ` set rs \<subseteq> sc_id ` set found'" "set (map sc_id new) \<inter> set (map sc_id found) = {}" by blast
    have "sc_id r \<in> sc_id ` set found'" using 1 by (simp add: new(1) image_Un)
    then show ?thesis using new by (intro exI [of _ new]) auto
  next
    case 2
    with "2.prems" show ?thesis by (intro exI [of _ "[r]"]) auto
  next
    case 3
    with "2.prems" have "add_rows limit rs (found @ [r], pending @ [r]) = (found', pending')" by simp
    from "2.hyps"(2) [OF 3 this] obtain new where new: "found' = (found @ [r]) @ new" "pending' = (pending @ [r]) @ new"
      "set new \<subseteq> set rs" "distinct (map sc_id (found @ [r])) \<longrightarrow> distinct (map sc_id found')"
      "length (found @ [r]) \<le> limit \<longrightarrow> length found' \<le> Suc limit"
      "length found' \<le> limit \<longrightarrow> sc_id ` set rs \<subseteq> sc_id ` set found'"
      "set (map sc_id new) \<inter> set (map sc_id (found @ [r])) = {}" by blast
    have "sc_id r \<in> sc_id ` set found'" by (simp add: new(1))
    with new 3 show ?thesis by (intro exI [of _ "r # new"]) auto
  qed
qed auto

lemma related_in: "set (related_rows cards limit c groups titles) \<subseteq> set cards"
  by (auto simp: related_rows_def Let_def group_rows_def title_rows_def by_rowid_def dest!: in_set_takeD)

text \<open>The queue of the program is the list of pending Cards, its front the head.\<close>

function closure_loop ::
  "card list \<Rightarrow> nat \<Rightarrow> card list \<Rightarrow> card list \<Rightarrow> pystr set \<Rightarrow> ((pystr \<times> pystr \<times> pystr) \<times> pystr) set \<Rightarrow> card list" where
  "closure_loop cards limit [] found groups titles = found"
| "closure_loop cards limit (c # pending) found groups titles =
     (if limit < length found then found
      else case add_rows limit (related_rows cards limit c groups titles) (found, pending) of (found', pending') \<Rightarrow>
        closure_loop cards limit pending' found' (expand_group c groups) (expand_title c titles))"
  by pat_completeness auto

termination
proof (relation "inv_image (less_than <*lex*> less_than)
    (\<lambda>(cards, limit, pending, found, groups, titles). (card (sc_id ` set cards - sc_id ` set found), length pending))", goal_cases)
  case (2 cards limit c pending found groups titles found' pending')
  from add_rows_cases [OF 2(2) [symmetric]] obtain new where found: "found' = found @ new" "pending' = pending @ new"
    "set new \<subseteq> set (related_rows cards limit c groups titles)" "set (map sc_id new) \<inter> set (map sc_id found) = {}" by blast
  then have "set new \<subseteq> set cards" using related_in by blast
  note new = found(1,2) this found(4)
  show ?case
  proof (cases new)
    case (Cons r rs)
    have "sc_id ` set cards - sc_id ` set found' \<subset> sc_id ` set cards - sc_id ` set found"
      using new Cons by (auto simp: image_Un)
    then have "card (sc_id ` set cards - sc_id ` set found') < card (sc_id ` set cards - sc_id ` set found)"
      by (intro psubset_card_mono) auto
    then show ?thesis by simp
  qed (simp add: new)
qed auto

definition transitive_closure :: "card list \<Rightarrow> nat \<Rightarrow> card list \<Rightarrow> card list" where
  "transitive_closure cards limit seeds = by_rowid (closure_loop cards limit (by_rowid seeds) seeds {} {})"

section \<open>The selection\<close>

record scan_state =
  ss_cursor :: int
  ss_next :: int
  ss_more :: bool
  ss_wrapped :: bool
  ss_base :: nat
  ss_required :: nat
  ss_manual :: bool
  ss_overflow :: bool
  ss_anchor :: "pystr option"
  ss_identity :: "pystr option"

definition no_anchor :: "int \<Rightarrow> scan_state" where
  "no_anchor cursor = \<lparr>ss_cursor = cursor, ss_next = 0, ss_more = False, ss_wrapped = False, ss_base = 0, ss_required = 0,
     ss_manual = False, ss_overflow = False, ss_anchor = None, ss_identity = None\<rparr>"

text \<open>The anchor, and whether the cursor wrapped to find it.\<close>

definition find_anchor :: "card list \<Rightarrow> pystr option \<Rightarrow> int \<Rightarrow> (card \<times> bool) option" where
  "find_anchor cards target cursor =
     (case target of Some i \<Rightarrow> map_option (\<lambda>c. (c, False)) (find_card i cards)
      | None \<Rightarrow> (case filter (\<lambda>c. cursor < cd_rowid c) (by_rowid cards) of c # _ \<Rightarrow> Some (c, False)
          | [] \<Rightarrow> if 0 < cursor then (case filter (\<lambda>c. cd_rowid c \<le> cursor) (by_rowid cards) of c # _ \<Rightarrow> Some (c, True) | [] \<Rightarrow> None)
                 else None))"

definition merge_rows :: "card list \<Rightarrow> card list \<Rightarrow> card list" where
  "merge_rows chosen rows = chosen @ filter (\<lambda>c. sc_id c \<notin> set (map sc_id chosen)) rows"

text \<open>The optional rows: their selection, whether there are more, and whether the scan wrapped.\<close>

definition optional_query :: "card list \<Rightarrow> card option \<Rightarrow> (card \<Rightarrow> bool) \<Rightarrow> card list \<Rightarrow> card list" where
  "optional_query cards scope side chosen =
     sort_key (\<lambda>c. case scope of None \<Rightarrow> ([], cd_rowid c) | Some a \<Rightarrow> index_order (conflict_boundary a) c)
       (filter (\<lambda>c. (case scope of None \<Rightarrow> True | Some a \<Rightarrow> index_clause (conflict_boundary a) c)
          \<and> sc_id c \<notin> set (map sc_id chosen) \<and> side c) cards)"

definition two_pages :: "nat \<Rightarrow> bool \<Rightarrow> 'a list \<Rightarrow> 'a list \<Rightarrow> 'a list \<times> bool \<times> bool" where
  "two_pages remaining wrap upper lower =
     (let after = take (Suc remaining) upper; picked = take remaining after; extra = remaining < length after;
          room = remaining - length picked; before = (if \<not> extra \<and> wrap then take (Suc room) lower else [])
      in (picked @ take room before, extra \<or> room < length before, before \<noteq> []))"

definition optional_rows :: "card list \<Rightarrow> card option \<Rightarrow> int \<Rightarrow> nat \<Rightarrow> card list \<Rightarrow> card list \<times> bool \<times> bool" where
  "optional_rows cards scope cursor remaining chosen =
     two_pages remaining (0 < cursor) (optional_query cards scope (\<lambda>c. cursor < cd_rowid c) chosen)
       (optional_query cards scope (\<lambda>c. cd_rowid c \<le> cursor) chosen)"

definition anchor_identity :: "card \<Rightarrow> py_error + pystr" where
  "anchor_identity c =
     bindE (dumps store_json (if conflict_group c \<noteq> []
         then mkdict [(''schema'', PStr (lit ''continuum.conflict_anchor.v1'')), (''durable_group'', PStr (conflict_group c))]
         else mkdict [(''schema'', PStr (lit ''continuum.conflict_anchor.v1'')), (''boundary'', boundary_list (conflict_boundary c)),
                (''title_key'', PStr (conflict_title_key (sc_title c)))]))
       (\<lambda>t. Inr (content_hash t))"

text \<open>The rows chosen before the overflow of a targeted scan is settled: the rows, the required bound, more rows, wrapped.\<close>

definition choose_rows :: "card list \<Rightarrow> nat \<Rightarrow> card \<Rightarrow> bool \<Rightarrow> bool \<Rightarrow> card list \<times> nat \<times> bool \<times> bool" where
  "choose_rows cards limit anchor targeted wrapped =
     (let closed_rows = transitive_closure cards limit [anchor];
          required = (if limit < length closed_rows then length closed_rows else 0); chosen = take limit closed_rows in
      if limit < required then (chosen, required, True, wrapped)
      else (case optional_rows cards (if targeted then Some anchor else None) (if targeted then 0 else cd_rowid anchor)
                (limit - length chosen) chosen of (rows, extra, again) \<Rightarrow>
        let selected = merge_rows chosen rows in
        if targeted \<and> \<not> extra \<and> rows \<noteq> [] then
          (let expanded = transitive_closure cards limit selected in
           if limit < length expanded then (take limit expanded, max required (length expanded), True, wrapped \<or> again)
           else (expanded, required, extra, wrapped \<or> again))
        else (selected, required, extra, wrapped \<or> again)))"

definition bounded_conflict_rows ::
  "card list \<Rightarrow> nat \<Rightarrow> pystr option \<Rightarrow> int \<Rightarrow> py_error + card list \<times> scan_state" where
  "bounded_conflict_rows cards limit target cursor =
     (let requested = (if target \<noteq> None then 0 else max 0 cursor) in
      case find_anchor cards target requested of
        None \<Rightarrow> Inr ([], no_anchor requested)
      | Some (anchor, wrapped) \<Rightarrow>
          (case choose_rows cards limit anchor (target \<noteq> None) wrapped of (selected, required, extra, wrapped') \<Rightarrow>
           let overflow = target \<noteq> None \<and> required \<le> limit \<and> extra;
               rows = (if overflow then take limit (transitive_closure cards limit [anchor]) else selected);
               extra1 = (\<not> overflow \<and> extra);
               next_cursor = (if target \<noteq> None then if limit < required then requested else 0 else if extra1 then cd_rowid anchor else 0)
           in bindE (anchor_identity anchor) (\<lambda>identity.
              Inr (by_rowid rows, \<lparr>ss_cursor = requested, ss_next = next_cursor, ss_more = extra1, ss_wrapped = (\<not> overflow \<and> wrapped'),
                     ss_base = 1, ss_required = required, ss_manual = max_candidates < int required, ss_overflow = overflow,
                     ss_anchor = Some (sc_id anchor), ss_identity = Some identity\<rparr>))))"

section \<open>The closure is complete\<close>

lemma length_by_rowid [simp]: "length (by_rowid cs) = length cs" and set_by_rowid [simp]: "set (by_rowid cs) = set cs"
  and distinct_by_rowid [simp]: "distinct (map sc_id (by_rowid cs)) = distinct (map sc_id cs)"
  by (simp_all add: by_rowid_def distinct_map)

lemma sc_id_inj: "distinct (map sc_id cards) \<Longrightarrow> c \<in> set cards \<Longrightarrow> d \<in> set cards \<Longrightarrow> sc_id c = sc_id d \<Longrightarrow> c = d"
  by (simp add: distinct_map inj_on_def)

text \<open>A query that returned at most the limit returned everything.\<close>

lemma take_all_found:
  assumes "sc_id ` set (take (Suc limit) rows) \<subseteq> sc_id ` set found" "length found \<le> limit" "distinct (map sc_id rows)"
  shows "sc_id ` set rows \<subseteq> sc_id ` set found"
proof -
  have "distinct (map sc_id (take (Suc limit) rows))" using assms(3) by (metis distinct_take take_map)
  then have "length (take (Suc limit) rows) = card (sc_id ` set (take (Suc limit) rows))" by (simp add: distinct_card flip: set_map)
  also have "\<dots> \<le> card (sc_id ` set found)" using assms(1) by (intro card_mono) auto
  also have "\<dots> \<le> length found" by (metis card_length length_map set_map)
  finally have "length rows \<le> limit" using assms(2) by simp
  then show ?thesis using assms(1) by simp
qed

definition reached :: "card list \<Rightarrow> nat \<Rightarrow> card list \<Rightarrow> pystr set \<Rightarrow> ((pystr \<times> pystr \<times> pystr) \<times> pystr) set \<Rightarrow> bool" where
  "reached cards limit found groups titles \<longleftrightarrow>
     (\<forall>g\<in>groups. sc_id ` set (take (Suc limit) (group_rows cards g)) \<subseteq> sc_id ` set found)
     \<and> (\<forall>t\<in>titles. sc_id ` set (take (Suc limit) (title_rows cards t)) \<subseteq> sc_id ` set found)"

definition expanded :: "card list \<Rightarrow> pystr set \<Rightarrow> ((pystr \<times> pystr \<times> pystr) \<times> pystr) set \<Rightarrow> bool" where
  "expanded cs groups titles \<longleftrightarrow>
     (\<forall>c\<in>set cs. (conflict_group c \<noteq> [] \<longrightarrow> conflict_group c \<in> groups) \<and> (snd (title_key c) \<noteq> [] \<longrightarrow> title_key c \<in> titles))"

lemma closure_loop_props:
  assumes "distinct (map sc_id found)" "set found \<subseteq> set cards" "length found \<le> Suc limit" "set pending \<subseteq> set found"
    and "\<forall>c\<in>set found. c \<in> set pending \<or> expanded [c] groups titles" "reached cards limit found groups titles"
  shows "distinct (map sc_id (closure_loop cards limit pending found groups titles))"
    "set found \<subseteq> set (closure_loop cards limit pending found groups titles)"
    "set (closure_loop cards limit pending found groups titles) \<subseteq> set cards"
    "length (closure_loop cards limit pending found groups titles) \<le> Suc limit"
    "length (closure_loop cards limit pending found groups titles) \<le> limit \<Longrightarrow>
       \<exists>gs ts. expanded (closure_loop cards limit pending found groups titles) gs ts
         \<and> reached cards limit (closure_loop cards limit pending found groups titles) gs ts"
proof -
  have "distinct (map sc_id (closure_loop cards limit pending found groups titles))
      \<and> set found \<subseteq> set (closure_loop cards limit pending found groups titles)
      \<and> set (closure_loop cards limit pending found groups titles) \<subseteq> set cards
      \<and> length (closure_loop cards limit pending found groups titles) \<le> Suc limit
      \<and> (length (closure_loop cards limit pending found groups titles) \<le> limit \<longrightarrow>
          (\<exists>gs ts. expanded (closure_loop cards limit pending found groups titles) gs ts
            \<and> reached cards limit (closure_loop cards limit pending found groups titles) gs ts))"
    using assms
  proof (induction cards limit pending found groups titles rule: closure_loop.induct)
    case (1 cards limit found groups titles)
    then show ?case by (auto simp: expanded_def)
  next
    case (2 cards limit c pending found groups titles)
    show ?case
    proof (cases "limit < length found")
      case True
      then show ?thesis using 2(2-4) by simp
    next
      case False
      obtain found' pending' where add: "add_rows limit (related_rows cards limit c groups titles) (found, pending) = (found', pending')"
        by fastforce
      from add_rows_cases [OF add] obtain new where new: "found' = found @ new" "pending' = pending @ new"
        "set new \<subseteq> set (related_rows cards limit c groups titles)"
        "distinct (map sc_id found) \<longrightarrow> distinct (map sc_id found')" "length found \<le> limit \<longrightarrow> length found' \<le> Suc limit"
        "length found' \<le> limit \<longrightarrow> sc_id ` set (related_rows cards limit c groups titles) \<subseteq> sc_id ` set found'" by blast
      have loop: "closure_loop cards limit (c # pending) found groups titles
          = closure_loop cards limit pending' found' (expand_group c groups) (expand_title c titles)"
        using False add by simp
      have c1: "distinct (map sc_id found')" "set found' \<subseteq> set cards" "length found' \<le> Suc limit" "set pending' \<subseteq> set found'"
        using new(1-5) False 2(2-5) related_in [of cards limit c groups titles] by auto
      have c2: "\<forall>d\<in>set found'. d \<in> set pending' \<or> expanded [d] (expand_group c groups) (expand_title c titles)"
        using 2(6) by (auto simp: new(1,2) expanded_def expand_group_def expand_title_def)
      show ?thesis
      proof (cases "length found' \<le> limit")
        case True
        have related: "sc_id ` set (related_rows cards limit c groups titles) \<subseteq> sc_id ` set found'" using new(6) True by blast
        have "reached cards limit found' (expand_group c groups) (expand_title c titles)"
          using 2(7) related
          by (fastforce simp: reached_def expand_group_def expand_title_def related_rows_def Let_def new(1) image_Un image_subset_iff)
        from "2.IH" [OF False add [symmetric] c1(1-4) c2 this] new(1) show ?thesis unfolding loop by auto
      next
        case full: False
        have "closure_loop cards limit pending' found' (expand_group c groups) (expand_title c titles) = found'"
          using full by (cases pending') simp_all
        then show ?thesis using c1 full new(1) unfolding loop by simp
      qed
    qed
  qed
  then show "distinct (map sc_id (closure_loop cards limit pending found groups titles))"
    "set found \<subseteq> set (closure_loop cards limit pending found groups titles)"
    "set (closure_loop cards limit pending found groups titles) \<subseteq> set cards"
    "length (closure_loop cards limit pending found groups titles) \<le> Suc limit"
    "length (closure_loop cards limit pending found groups titles) \<le> limit \<Longrightarrow>
       \<exists>gs ts. expanded (closure_loop cards limit pending found groups titles) gs ts
         \<and> reached cards limit (closure_loop cards limit pending found groups titles) gs ts" by blast+
qed

text \<open>The rows a Card's group and title reach.\<close>

definition closed_rows :: "card list \<Rightarrow> card list \<Rightarrow> bool" where
  "closed_rows cards rows \<longleftrightarrow> (\<forall>c\<in>set rows.
     (conflict_group c \<noteq> [] \<longrightarrow> set (group_rows cards (conflict_group c)) \<subseteq> set rows)
     \<and> (snd (title_key c) \<noteq> [] \<longrightarrow> set (title_rows cards (title_key c)) \<subseteq> set rows))"

lemma rows_found:
  assumes "distinct (map sc_id cards)" "set rows \<subseteq> set cards" "set found \<subseteq> set cards" "sc_id ` set rows \<subseteq> sc_id ` set found"
  shows "set rows \<subseteq> set found"
proof
  fix c
  assume c: "c \<in> set rows"
  with assms(4) have "sc_id c \<in> sc_id ` set found" by blast
  then obtain d where d: "d \<in> set found" "sc_id d = sc_id c" by (metis imageE)
  with c assms(2,3) sc_id_inj [OF assms(1), of d c] have "d = c" by blast
  with d show "c \<in> set found" by simp
qed

lemma query_rows:
  assumes "distinct (map sc_id cards)"
  shows "distinct (map sc_id (group_rows cards g))" "distinct (map sc_id (title_rows cards t))"
    "set (group_rows cards g) \<subseteq> set cards" "set (title_rows cards t) \<subseteq> set cards"
  using assms by (auto simp: group_rows_def title_rows_def distinct_map by_rowid_def intro: inj_on_subset)

lemma transitive_closure_props:
  assumes "distinct (map sc_id cards)" "distinct (map sc_id seeds)" "set seeds \<subseteq> set cards" "length seeds \<le> Suc limit"
  shows "distinct (map sc_id (transitive_closure cards limit seeds))" "set seeds \<subseteq> set (transitive_closure cards limit seeds)"
    "set (transitive_closure cards limit seeds) \<subseteq> set cards" "length (transitive_closure cards limit seeds) \<le> Suc limit"
    "length (transitive_closure cards limit seeds) \<le> limit \<Longrightarrow> closed_rows cards (transitive_closure cards limit seeds)"
proof -
  let ?found = "closure_loop cards limit (by_rowid seeds) seeds {} {}"
  note props = closure_loop_props [of seeds cards limit "by_rowid seeds" "{}" "{}", OF assms(2,3,4)]
  have start: "set (by_rowid seeds) \<subseteq> set seeds" "\<forall>c\<in>set seeds. c \<in> set (by_rowid seeds) \<or> expanded [c] {} {}" "reached cards limit seeds {} {}"
    by (simp_all add: reached_def)
  note p = props [OF start]
  show "distinct (map sc_id (transitive_closure cards limit seeds))" "set seeds \<subseteq> set (transitive_closure cards limit seeds)"
    and sub: "set (transitive_closure cards limit seeds) \<subseteq> set cards" and "length (transitive_closure cards limit seeds) \<le> Suc limit"
    using p(1-4) by (simp_all add: transitive_closure_def)
  assume "length (transitive_closure cards limit seeds) \<le> limit"
  then have len: "length ?found \<le> limit" by (simp add: transitive_closure_def)
  from p(5) [OF this] obtain gs ts where gs: "expanded ?found gs ts" "reached cards limit ?found gs ts" by blast
  have "set (group_rows cards g) \<subseteq> set ?found" if "g \<in> gs" for g
    using that gs(2) unfolding reached_def
    by (intro rows_found [OF assms(1) query_rows(3) [OF assms(1)] p(3)] take_all_found [OF _ len query_rows(1) [OF assms(1)]]) blast
  moreover have "set (title_rows cards t) \<subseteq> set ?found" if "t \<in> ts" for t
    using that gs(2) unfolding reached_def
    by (intro rows_found [OF assms(1) query_rows(4) [OF assms(1)] p(3)] take_all_found [OF _ len query_rows(2) [OF assms(1)]]) blast
  ultimately show "closed_rows cards (transitive_closure cards limit seeds)"
    using gs(1) by (simp add: closed_rows_def expanded_def transitive_closure_def)
qed

section \<open>The selection is bounded\<close>

lemma two_pages_cases:
  assumes "two_pages remaining wrap upper lower = (rows, extra, again)"
  obtains k m where "rows = take k upper @ take m lower" "length rows \<le> remaining"
proof -
  have "take remaining (take (Suc remaining) upper) = take remaining upper" by simp
  moreover have "take n (if P then take (Suc n) lower else []) = take (if P then n else 0) lower" for P n by simp
  ultimately have rows: "rows = take remaining upper @
      take (if \<not> remaining < length (take (Suc remaining) upper) \<and> wrap then remaining - length (take remaining upper) else 0) lower"
    using assms by (simp only: two_pages_def Let_def prod.inject)
  have "length rows \<le> remaining" unfolding rows by (auto simp: min_def)
  with rows show thesis by (rule that)
qed

lemma optional_query_props:
  assumes "distinct (map sc_id cards)"
  shows "distinct (map sc_id (optional_query cards scope side chosen))" "set (optional_query cards scope side chosen) \<subseteq> {c \<in> set cards. side c}"
  using assms by (auto simp: optional_query_def distinct_map intro: inj_on_subset)

lemma optional_rows_props:
  assumes "optional_rows cards scope cursor remaining chosen = (rows, extra, again)" and dist: "distinct (map sc_id cards)"
  shows "length rows \<le> remaining" "set rows \<subseteq> set cards" "distinct (map sc_id rows)"
proof -
  let ?upper = "optional_query cards scope (\<lambda>c. cursor < cd_rowid c) chosen"
  let ?lower = "optional_query cards scope (\<lambda>c. cd_rowid c \<le> cursor) chosen"
  from two_pages_cases [OF assms(1) [unfolded optional_rows_def]] obtain k m
    where rows: "rows = take k ?upper @ take m ?lower" and len: "length rows \<le> remaining" .
  note a = optional_query_props [OF dist, of scope "\<lambda>c. cursor < cd_rowid c" chosen]
    and b = optional_query_props [OF dist, of scope "\<lambda>c. cd_rowid c \<le> cursor" chosen]
  show "length rows \<le> remaining" by (rule len)
  have upper: "set (take k ?upper) \<subseteq> {c \<in> set cards. cursor < cd_rowid c}" using a(2) set_take_subset by fast
  have lower: "set (take m ?lower) \<subseteq> {c \<in> set cards. cd_rowid c \<le> cursor}" using b(2) set_take_subset by fast
  show "set rows \<subseteq> set cards" unfolding rows using upper lower by auto
  have "distinct (map sc_id (take k ?upper))" "distinct (map sc_id (take m ?lower))" using a(1) b(1) by (metis distinct_take take_map)+
  moreover have "sc_id c \<noteq> sc_id d" if "c \<in> set (take k ?upper)" "d \<in> set (take m ?lower)" for c d
    using sc_id_inj [OF dist, of c d] that upper lower by fastforce
  ultimately show "distinct (map sc_id rows)" unfolding rows by auto
qed

lemma filter_head_in: "filter P (by_rowid cards) = c # cs \<Longrightarrow> c \<in> set cards"
proof -
  assume "filter P (by_rowid cards) = c # cs"
  from arg_cong [OF this, of set] have "c \<in> set (filter P (by_rowid cards))" by simp
  then show ?thesis by simp
qed

lemma find_anchor_in: "find_anchor cards target cursor = Some (a, w) \<Longrightarrow> a \<in> set cards"
proof (cases target)
  case (Some i)
  assume "find_anchor cards target cursor = Some (a, w)"
  then show ?thesis using Some find_cardD by (auto simp: find_anchor_def)
next
  case None
  assume "find_anchor cards target cursor = Some (a, w)"
  then show ?thesis
    using None filter_head_in [of "\<lambda>c. cursor < cd_rowid c" cards] filter_head_in [of "\<lambda>c. cd_rowid c \<le> cursor" cards]
    by (cases "filter (\<lambda>c. cursor < cd_rowid c) (by_rowid cards)"; cases "filter (\<lambda>c. cd_rowid c \<le> cursor) (by_rowid cards)")
      (simp_all add: find_anchor_def split: if_split_asm)
qed

definition selection :: "card list \<Rightarrow> nat \<Rightarrow> card \<Rightarrow> card list \<Rightarrow> bool" where
  "selection cards limit anchor rows \<longleftrightarrow> length rows \<le> limit \<and> distinct (map sc_id rows) \<and> set rows \<subseteq> set cards"

lemma merge_selection:
  assumes "distinct (map sc_id chosen)" "distinct (map sc_id rows)" "length chosen + length rows \<le> limit"
    "set chosen \<subseteq> set cards" "set rows \<subseteq> set cards"
  shows "selection cards limit a (merge_rows chosen rows)" "set chosen \<subseteq> set (merge_rows chosen rows)"
proof -
  let ?new = "filter (\<lambda>c. sc_id c \<notin> set (map sc_id chosen)) rows"
  have "length chosen + length ?new \<le> limit" using assms(3) length_filter_le [of _ rows] le_trans add_left_mono by meson
  moreover have "distinct (map sc_id ?new)" using assms(2) by (auto simp: distinct_map intro: inj_on_subset)
  moreover have "set (map sc_id chosen) \<inter> set (map sc_id ?new) = {}" by (auto, metis imageI)
  ultimately show "selection cards limit a (merge_rows chosen rows)"
    using assms(1,4,5) unfolding selection_def merge_rows_def by auto
qed (simp add: merge_rows_def)

lemma take_selection: "distinct (map sc_id rows) \<Longrightarrow> set rows \<subseteq> set cards \<Longrightarrow> selection cards limit a (take limit rows)"
  by (auto simp: selection_def take_map intro: distinct_take dest: in_set_takeD simp flip: take_map)

section \<open>Properties\<close>

text \<open>What the choice of rows guarantees: the anchor with everything its group and title reach, unless a larger limit is required.\<close>

definition anchored_rows :: "card list \<Rightarrow> card \<Rightarrow> bool \<Rightarrow> card list \<Rightarrow> bool" where
  "anchored_rows cards a targeted rows \<longleftrightarrow>
     (\<exists>core. a \<in> set core \<and> set core \<subseteq> set rows \<and> closed_rows cards core) \<and> (targeted \<longrightarrow> closed_rows cards rows)"

lemma closed_anchored: "a \<in> set rows \<Longrightarrow> closed_rows cards rows \<Longrightarrow> anchored_rows cards a targeted rows"
  by (auto simp: anchored_rows_def)

lemma closed_rows_cong: "set rows = set rows' \<Longrightarrow> closed_rows cards rows = closed_rows cards rows'"
  by (simp add: closed_rows_def)

lemma choose_rows_props:
  assumes choose: "choose_rows cards limit a targeted w = (rows, required, extra, w')" and dist: "distinct (map sc_id cards)"
    and a: "a \<in> set cards"
  shows "selection cards limit a rows"
    "required \<le> limit \<Longrightarrow> length (transitive_closure cards limit [a]) \<le> limit"
    "required \<le> limit \<Longrightarrow> \<not> (targeted \<and> extra) \<Longrightarrow> anchored_rows cards a targeted rows"
proof -
  let ?closure = "transitive_closure cards limit [a]"
  note cl = transitive_closure_props [OF dist, of "[a]" limit]
  have cl1: "distinct (map sc_id ?closure)" "a \<in> set ?closure" "set ?closure \<subseteq> set cards" using cl(1-3) a by auto
  have "selection cards limit a rows \<and> (required \<le> limit \<longrightarrow> length ?closure \<le> limit)
      \<and> (required \<le> limit \<longrightarrow> \<not> (targeted \<and> extra) \<longrightarrow> anchored_rows cards a targeted rows)"
  proof (cases "limit < length ?closure")
    case True
    then have "rows = take limit ?closure" "limit < required" using choose by (auto simp: choose_rows_def Let_def)
    then show ?thesis using take_selection [OF cl1(1,3)] by simp
  next
    case False
    then have len: "length ?closure \<le> limit" by simp
    have core: "closed_rows cards ?closure" using cl(5) a len by simp
    obtain opt more1 again where opt: "optional_rows cards (if targeted then Some a else None) (if targeted then 0 else cd_rowid a)
        (limit - length ?closure) ?closure = (opt, more1, again)" by (metis prod_cases3)
    note o = optional_rows_props [OF opt dist]
    let ?selected = "merge_rows ?closure opt"
    have "selection cards limit a ?selected" by (rule merge_selection(1) [OF cl1(1) o(3) _ cl1(3) o(2)]) (use o(1) len in simp)
    moreover have "set ?closure \<subseteq> set ?selected" by (simp add: merge_rows_def)
    ultimately have sel: "selection cards limit a ?selected" "set ?closure \<subseteq> set ?selected" by blast+
    let ?expanded = "transitive_closure cards limit ?selected"
    note ex = transitive_closure_props [OF dist, of ?selected limit]
    have seeds: "distinct (map sc_id ?selected)" "set ?selected \<subseteq> set cards" "length ?selected \<le> Suc limit"
      using sel(1) by (simp_all add: selection_def)
    note ex = ex [OF seeds]
    have chosen: "(rows, required, extra, w') =
        (if targeted \<and> \<not> more1 \<and> opt \<noteq> [] then
           if limit < length ?expanded then (take limit ?expanded, length ?expanded, True, w \<or> again) else (?expanded, 0, more1, w \<or> again)
         else (?selected, 0, more1, w \<or> again))"
      unfolding choose [symmetric] choose_rows_def Let_def using len opt by (simp del: prod.inject)
    show ?thesis
    proof (cases "targeted \<and> \<not> more1 \<and> opt \<noteq> []")
      case targeted: True
      show ?thesis
      proof (cases "limit < length ?expanded")
        case True
        with chosen targeted have "rows = take limit ?expanded" "limit < required" by simp_all
        then show ?thesis using take_selection [OF ex(1,3)] len by simp
      next
        case fits: False
        with chosen targeted have rows: "rows = ?expanded" by simp
        have "closed_rows cards ?expanded" "a \<in> set ?expanded" using ex(5,2) sel(2) cl1(2) fits by auto
        then show ?thesis
          using ex(1,3) fits len closed_anchored unfolding rows by (simp add: selection_def)
      qed
    next
      case plain: False
      with chosen have rows: "rows = ?selected" "extra = more1" by simp_all
      have "anchored_rows cards a targeted ?selected" if no: "\<not> (targeted \<and> extra)"
      proof (cases targeted)
        case True
        with no plain rows(2) have "?selected = ?closure" by (simp add: merge_rows_def)
        then show ?thesis using closed_anchored [OF cl1(2) core] by simp
      next
        case not_targeted: False
        then show ?thesis using cl1(2) sel(2) core by (auto simp: anchored_rows_def)
      qed
      then show ?thesis using sel(1) len unfolding rows(1) by simp
    qed
  qed
  then show "selection cards limit a rows" "required \<le> limit \<Longrightarrow> length (transitive_closure cards limit [a]) \<le> limit"
    "required \<le> limit \<Longrightarrow> \<not> (targeted \<and> extra) \<Longrightarrow> anchored_rows cards a targeted rows" by blast+
qed

lemma chosen_rows:
  assumes "bounded_conflict_rows cards limit target cursor = Inr (rows, ss)" "distinct (map sc_id cards)"
    and "find_anchor cards target (if target \<noteq> None then 0 else max 0 cursor) = Some (a, w)"
  obtains selected required extra w' where
    "choose_rows cards limit a (target \<noteq> None) w = (selected, required, extra, w')"
    "rows = by_rowid (if target \<noteq> None \<and> required \<le> limit \<and> extra then take limit (transitive_closure cards limit [a]) else selected)"
    "ss_anchor ss = Some (sc_id a)" "ss_required ss = required"
    "length rows \<le> limit \<and> distinct (map sc_id rows) \<and> set rows \<subseteq> set cards"
proof -
  have a: "a \<in> set cards" using find_anchor_in assms(3) by blast
  obtain selected required extra w' where choose: "choose_rows cards limit a (target \<noteq> None) w = (selected, required, extra, w')"
    by (metis prod_cases4)
  let ?overflow = "target \<noteq> None \<and> required \<le> limit \<and> extra"
  let ?closure = "transitive_closure cards limit [a]"
  have rows: "rows = by_rowid (if ?overflow then take limit ?closure else selected)" "ss_anchor ss = Some (sc_id a)" "ss_required ss = required"
    using assms(1,3) choose by (auto simp: bounded_conflict_rows_def Let_def)
  have "distinct (map sc_id ?closure)" "set ?closure \<subseteq> set cards"
    using transitive_closure_props(1,3) [OF assms(2), of "[a]" limit] a by auto
  then have "selection cards limit a (if ?overflow then take limit ?closure else selected)"
    using choose_rows_props(1) [OF choose assms(2) a] take_selection by simp
  then have "length rows \<le> limit \<and> distinct (map sc_id rows) \<and> set rows \<subseteq> set cards"
    unfolding rows(1) by (simp add: selection_def del: if_split)
  from that [OF choose rows this] show thesis .
qed

lemma no_anchor_rows:
  assumes "bounded_conflict_rows cards limit target cursor = Inr (rows, ss)"
    and "find_anchor cards target (if target \<noteq> None then 0 else max 0 cursor) = None"
  shows "rows = []" "ss_anchor ss = None"
  using assms by (auto simp: bounded_conflict_rows_def Let_def no_anchor_def)

lemma candidates_bounded:
  assumes "bounded_conflict_rows cards limit target cursor = Inr (rows, ss)" "distinct (map sc_id cards)"
  shows "length rows \<le> limit" "distinct (map sc_id rows)" "set rows \<subseteq> set cards"
proof -
  have "length rows \<le> limit \<and> distinct (map sc_id rows) \<and> set rows \<subseteq> set cards"
  proof (cases "find_anchor cards target (if target \<noteq> None then 0 else max 0 cursor)")
    case None
    with no_anchor_rows(1) [OF assms(1)] show ?thesis by simp
  next
    case (Some aw)
    obtain a w where aw: "aw = (a, w)" by (cases aw)
    show ?thesis by (rule chosen_rows [OF assms Some [unfolded aw]])
  qed
  then show "length rows \<le> limit" "distinct (map sc_id rows)" "set rows \<subseteq> set cards" by blast+
qed

text \<open>A selection never fails.\<close>

lemma bounded_rows_ok: "isOk (bounded_conflict_rows cards limit target cursor)"
proof -
  have "isOk (anchor_identity c)" for c
  proof -
    have "isOk (dumps store_json (boundary_list b))" for b by (simp add: boundary_list_def split: prod.splits)
    then have "isOk (dumps store_json (if conflict_group c \<noteq> []
         then mkdict [(''schema'', PStr (lit ''continuum.conflict_anchor.v1'')), (''durable_group'', PStr (conflict_group c))]
         else mkdict [(''schema'', PStr (lit ''continuum.conflict_anchor.v1'')), (''boundary'', boundary_list (conflict_boundary c)),
                (''title_key'', PStr (conflict_title_key (sc_title c)))]))"
      by (cases "conflict_boundary c") (auto intro!: mkdict_ok)
    then show ?thesis unfolding anchor_identity_def isOk_bindE by (auto simp: isOk_iff)
  qed
  then show ?thesis
    by (auto simp: bounded_conflict_rows_def Let_def isOk_iff split: option.splits prod.splits)
qed

text \<open>C11 The selection of a pass is bounded and never cuts through a group: at most the candidate limit of Cards, each once, and
  unless the pass reports that it requires a larger limit, the anchor comes with every Card its durable groups and its exact titles
  reach; a targeted pass selects nothing else.\<close>

theorem candidates_closed:
  assumes "bounded_conflict_rows cards limit target cursor = Inr (rows, ss)" "distinct (map sc_id cards)"
  shows "length rows \<le> limit \<and> distinct (map sc_id rows) \<and> set rows \<subseteq> set cards
    \<and> (case ss_anchor ss of None \<Rightarrow> rows = []
       | Some i \<Rightarrow> \<exists>a. find_card i cards = Some a \<and> (ss_required ss \<le> limit \<longrightarrow> anchored_rows cards a (target \<noteq> None) rows))"
proof -
  let ?requested = "if target \<noteq> None then 0 else max 0 cursor"
  show ?thesis
  proof (cases "find_anchor cards target ?requested")
    case None
    then show ?thesis using no_anchor_rows [OF assms(1)] by simp
  next
    case (Some aw)
    obtain a w where aw: "aw = (a, w)" by (cases aw)
    have a: "a \<in> set cards" using find_anchor_in Some aw by blast
    let ?closure = "transitive_closure cards limit [a]"
    obtain selected required extra w' where choose: "choose_rows cards limit a (target \<noteq> None) w = (selected, required, extra, w')"
      and rows: "rows = by_rowid (if target \<noteq> None \<and> required \<le> limit \<and> extra then take limit ?closure else selected)"
        "ss_anchor ss = Some (sc_id a)" "ss_required ss = required"
        "length rows \<le> limit \<and> distinct (map sc_id rows) \<and> set rows \<subseteq> set cards"
      by (rule chosen_rows [OF assms Some [unfolded aw]])
    note c = choose_rows_props [OF choose assms(2) a]
    have cl: "a \<in> set ?closure" using transitive_closure_props(2) [OF assms(2), of "[a]" limit] a by auto
    have core: "length ?closure \<le> limit \<Longrightarrow> closed_rows cards ?closure"
      using transitive_closure_props(5) [OF assms(2), of "[a]" limit] a by simp
    have "anchored_rows cards a (target \<noteq> None) rows" if "required \<le> limit"
    proof (cases "target \<noteq> None \<and> required \<le> limit \<and> extra")
      case True
      with c(2) that have "set rows = set ?closure" by (simp add: rows(1))
      then show ?thesis using closed_anchored [of a rows cards] cl core c(2) that closed_rows_cong by metis
    next
      case False
      with that have "\<not> (target \<noteq> None \<and> extra)" by blast
      moreover have "set rows = set selected" using False by (auto simp: rows(1))
      ultimately show ?thesis using c(3) [OF that] unfolding anchored_rows_def by (metis closed_rows_cong)
    qed
    moreover have "find_card (sc_id a) cards = Some a" by (rule find_card_distinct [OF assms(2) a])
    ultimately show ?thesis using rows(2-4) by simp
  qed
qed

theorem candidates_closed_witness:
  "\<exists>rows ss. bounded_conflict_rows (ad_cards demo_db) 4 (Some (lit ''a'')) 0 = Inr (rows, ss) \<and> length rows \<le> 4 \<and> set rows \<subseteq> set (ad_cards demo_db)"
proof -
  obtain rows ss where r: "bounded_conflict_rows (ad_cards demo_db) 4 (Some (lit ''a'')) 0 = Inr (rows, ss)"
    using bounded_rows_ok by (force simp: isOk_iff)
  have "distinct (map sc_id (ad_cards demo_db))" using demo_wf by (simp add: wf_authority_def)
  from candidates_closed [OF r this] r show ?thesis by blast
qed

end
