(* ===== verification/Conflict_Detection.thy ===== *)
theory Conflict_Detection
  imports Conflict_Candidates
begin

text \<open>
  \<open>detect_conflicts\<close> of \<open>core/workers.py\<close>: one pass over a bounded selection of Cards.  It selects the Cards in one
  snapshot, and in a transaction of its own it takes Cards out of groups that are no longer sound, computes the connected components of
  the conflict graph of every boundary, clears the components a receipt dismissed and gives every other one a
  group.  A pass that runs out of time changes nothing.
\<close>

section \<open>What the selected rows close over\<close>

definition row_current :: "card list \<Rightarrow> card \<Rightarrow> bool" where
  "row_current cards c \<longleftrightarrow> casefold (cd_status c) \<notin> set non_current_statuses \<and> successor c = []
     \<and> \<not> list_ex (\<lambda>d. cd_supersedes d = Some (sc_id c)) cards"

definition current_among :: "clock \<Rightarrow> card list \<Rightarrow> card list \<Rightarrow> budget \<Rightarrow> py_error + pystr list \<times> budget" where
  "current_among clock cards rows b =
     bindE (foldE (\<lambda>b _. require_time clock b) b rows) (\<lambda>b1. Inr (map sc_id (filter (row_current cards) rows), b1))"

text \<open>\<open>_bounded_card_count\<close>: one row beyond the selected ones settles the question.\<close>

definition bounded_count :: "card list \<Rightarrow> (card \<Rightarrow> bool) \<Rightarrow> nat \<Rightarrow> nat" where
  "bounded_count cards P n = min (length (filter P cards)) (Suc n)"

fun complete_keys ::
  "clock \<Rightarrow> card list \<Rightarrow> ('k \<Rightarrow> card \<Rightarrow> bool) \<Rightarrow> ('k \<times> nat) list \<Rightarrow> budget \<Rightarrow> py_error + 'k list \<times> budget" where
  "complete_keys clock cards clause [] b = Inr ([], b)"
| "complete_keys clock cards clause ((k, n) # ks) b =
     bindE (require_time clock b) (\<lambda>b1. bindE (complete_keys clock cards clause ks b1) (\<lambda>(found, b2).
       Inr (if bounded_count cards (clause k) n = n then k # found else found, b2)))"

definition tally :: "'k list \<Rightarrow> ('k, nat) odict" where
  "tally keys = fold count_term keys []"

definition in_group :: "pystr \<Rightarrow> card \<Rightarrow> bool" where
  "in_group g c \<longleftrightarrow> cd_group c = Some g"

record closure =
  cs_groups :: "pystr list"
  cs_boundaries :: "(pystr \<times> pystr \<times> pystr) list"
  cs_titles :: "((pystr \<times> pystr \<times> pystr) \<times> pystr) list"

definition complete_groups :: "clock \<Rightarrow> card list \<Rightarrow> card list \<Rightarrow> budget \<Rightarrow> py_error + pystr list \<times> budget" where
  "complete_groups clock cards rows b =
     complete_keys clock cards in_group (tally (filter (\<lambda>g. g \<noteq> []) (map conflict_group rows))) b"

definition complete_boundaries ::
  "clock \<Rightarrow> card list \<Rightarrow> card list \<Rightarrow> budget \<Rightarrow> py_error + (pystr \<times> pystr \<times> pystr) list \<times> budget" where
  "complete_boundaries clock cards rows b = complete_keys clock cards boundary_clause (tally (map conflict_boundary rows)) b"

definition complete_titles ::
  "clock \<Rightarrow> card list \<Rightarrow> card list \<Rightarrow> budget \<Rightarrow> py_error + ((pystr \<times> pystr \<times> pystr) \<times> pystr) list \<times> budget" where
  "complete_titles clock cards rows b = complete_keys clock cards title_clause (tally (filter (\<lambda>k. snd k \<noteq> []) (map title_key rows))) b"

definition load_closure :: "clock \<Rightarrow> card list \<Rightarrow> card list \<Rightarrow> budget \<Rightarrow> py_error + pystr list \<times> closure \<times> budget" where
  "load_closure clock cards rows b =
     bindE (current_among clock cards rows b) (\<lambda>(current, b1).
     bindE (complete_groups clock cards rows b1) (\<lambda>(gs, b2).
     bindE (complete_boundaries clock cards rows b2) (\<lambda>(bs, b3).
     bindE (complete_titles clock cards rows b3) (\<lambda>(ts, b4).
       Inr (current, \<lparr>cs_groups = gs, cs_boundaries = bs, cs_titles = ts\<rparr>, b4)))))"

section \<open>Orphaned groups\<close>

definition regroup :: "pystr option \<Rightarrow> pystr \<Rightarrow> (card \<Rightarrow> bool) \<Rightarrow> authority_db \<Rightarrow> authority_db" where
  "regroup g now P db =
     db\<lparr>ad_cards := map (\<lambda>c. if P c then c\<lparr>cd_group := g, cd_updated := now\<rparr> else c) (ad_cards db),
        ad_epoch := ad_epoch db + int (length (filter P (ad_cards db)))\<rparr>"

record clearing =
  cl_db :: authority_db
  cl_budget :: budget
  cl_touched :: "pystr list"
  cl_cleared :: "pystr list"
  cl_deferred :: nat

definition clear_blank :: "clock \<Rightarrow> pystr \<Rightarrow> card \<Rightarrow> clearing \<Rightarrow> clearing" where
  "clear_blank clock now c s =
     (case can_mutate clock 1 (cl_budget s) of (b, ok) \<Rightarrow>
        if ok then s\<lparr>cl_db := regroup None now (\<lambda>d. sc_id d = sc_id c) (cl_db s), cl_touched := List.insert (sc_id c) (cl_touched s),
                     cl_budget := record_mutations 1 b\<rparr>
        else s\<lparr>cl_budget := b, cl_deferred := Suc (cl_deferred s)\<rparr>)"

definition join_group :: "card \<Rightarrow> (pystr, pystr list) odict \<Rightarrow> (pystr, pystr list) odict" where
  "join_group c grouped =
     (let g = conflict_group c in if g = [] then grouped else oset g ((case oget grouped g of None \<Rightarrow> [] | Some ids \<Rightarrow> ids) @ [sc_id c]) grouped)"

fun clear_blanks :: "clock \<Rightarrow> pystr \<Rightarrow> card list \<Rightarrow> (pystr, pystr list) odict \<Rightarrow> clearing \<Rightarrow> (pystr, pystr list) odict \<times> clearing" where
  "clear_blanks clock now [] grouped s = (grouped, s)"
| "clear_blanks clock now (c # cs) grouped s =
     (case has_time clock (cl_budget s) of (b, ok) \<Rightarrow>
        if \<not> ok then (grouped, s\<lparr>cl_budget := b\<rparr>)
        else if cd_group c \<noteq> None \<and> conflict_group c = [] then clear_blanks clock now cs grouped (clear_blank clock now c (s\<lparr>cl_budget := b\<rparr>))
        else clear_blanks clock now cs (join_group c grouped) (s\<lparr>cl_budget := b\<rparr>))"

text \<open>A group whose current members do not belong together loses all its members, any other group those that are not current.\<close>

definition unsound_members :: "card list \<Rightarrow> bool" where
  "unsound_members cs \<longleftrightarrow> length cs < 2 \<or> 1 < length (remdups (map conflict_boundary cs))
     \<or> project_state_type \<in> set (map member_type cs) \<and> 1 < length (remdups (map member_type cs))"

definition clear_group :: "clock \<Rightarrow> pystr \<Rightarrow> card list \<Rightarrow> pystr list \<Rightarrow> pystr list \<Rightarrow> pystr \<times> pystr list \<Rightarrow> clearing \<Rightarrow> clearing" where
  "clear_group clock now rows current wholes entry s =
     (case entry of (g, ids) \<Rightarrow> case has_time clock (cl_budget s) of (b, ok) \<Rightarrow>
        if \<not> ok \<or> g \<notin> set wholes then s\<lparr>cl_budget := b, cl_deferred := Suc (cl_deferred s)\<rparr>
        else
          let members = filter (\<lambda>c. sc_id c \<in> set ids) rows; inside = filter (\<lambda>c. sc_id c \<in> set current) members;
              unsound = unsound_members inside;
              clear = filter (\<lambda>i. i \<notin> set current) ids @ (if unsound then filter (\<lambda>i. i \<in> set current) ids else [])
          in (case can_mutate clock (int (length (remdups clear))) b of (b1, ok1) \<Rightarrow>
                if \<not> ok1 then s\<lparr>cl_budget := b1, cl_deferred := Suc (cl_deferred s)\<rparr>
                else s\<lparr>cl_db := regroup None now (\<lambda>c. sc_id c \<in> set clear \<and> cd_group c = Some g) (cl_db s),
                       cl_touched := cl_touched s @ clear, cl_cleared := (if unsound then g # cl_cleared s else cl_cleared s),
                       cl_budget := record_mutations (int (length (remdups clear))) b1\<rparr>))"

definition clear_orphan_conflict_groups ::
  "clock \<Rightarrow> pystr \<Rightarrow> card list \<Rightarrow> pystr list \<Rightarrow> pystr list \<Rightarrow> budget \<Rightarrow> authority_db \<Rightarrow> clearing" where
  "clear_orphan_conflict_groups clock now rows current wholes b db =
     (case clear_blanks clock now rows [] \<lparr>cl_db = db, cl_budget = b, cl_touched = [], cl_cleared = [], cl_deferred = 0\<rparr> of
        (grouped, s) \<Rightarrow> fold (clear_group clock now rows current wholes) grouped s)"

section \<open>Components\<close>

function component_loop :: "clock \<Rightarrow> pystr graph \<Rightarrow> pystr list \<Rightarrow> pystr list \<Rightarrow> budget \<Rightarrow> budget \<times> pystr list option" where
  "component_loop clock g [] seen b = (b, Some seen)"
| "component_loop clock g (n # pending) seen b =
     (if n \<in> set seen then component_loop clock g pending seen b
      else case consume_component_member clock b of (b1, ok) \<Rightarrow>
        if ok then component_loop clock g (rev (targets g n) @ pending) (n # seen) b1 else (b1, None))"
  by pat_completeness auto

termination
proof (relation "inv_image (less_than <*lex*> less_than)
    (\<lambda>(clock, g, pending, seen, b). (card (set pending \<union> graph_nodes g - set seen), length pending))", goal_cases)
  case (2 clock g n pending seen b)
  have "card (set pending \<union> graph_nodes g - set seen) \<le> card (set (n # pending) \<union> graph_nodes g - set seen)"
    by (intro card_mono) auto
  then show ?case by (auto simp: less_le)
next
  case (3 clock g n pending seen b b1 ok)
  have "set (rev (targets g n) @ pending) \<union> graph_nodes g - set (n # seen) \<subseteq> set (n # pending) \<union> graph_nodes g - set seen - {n}"
    using targets_nodes [of _ g n] by auto
  moreover have "n \<in> set (n # pending) \<union> graph_nodes g - set seen" using 3 by simp
  ultimately have "set (rev (targets g n) @ pending) \<union> graph_nodes g - set (n # seen) \<subset> set (n # pending) \<union> graph_nodes g - set seen"
    by blast
  then have "card (set (rev (targets g n) @ pending) \<union> graph_nodes g - set (n # seen)) < card (set (n # pending) \<union> graph_nodes g - set seen)"
    by (intro psubset_card_mono) auto
  then show ?case by simp
qed auto

record component =
  cm_boundary :: "pystr \<times> pystr \<times> pystr"
  cm_members :: "pystr list"
  cm_fingerprint :: pystr
  cm_suppressed :: bool
  cm_needs :: bool
  cm_first :: int

definition member_card :: "card list \<Rightarrow> pystr \<Rightarrow> (card \<Rightarrow> 'a) \<Rightarrow> 'a \<Rightarrow> 'a" where
  "member_card rows i f d = (case find_card i rows of None \<Rightarrow> d | Some c \<Rightarrow> f c)"

definition group_of :: "card list \<Rightarrow> pystr \<Rightarrow> pystr" where
  "group_of rows i = member_card rows i conflict_group []"

definition rowid_of :: "card list \<Rightarrow> pystr \<Rightarrow> int" where
  "rowid_of rows i = member_card rows i cd_rowid 0"

text \<open>No member of the component can have a peer outside the selection.\<close>

definition closure_proven :: "closure \<Rightarrow> card list \<Rightarrow> pystr \<times> pystr \<times> pystr \<Rightarrow> pystr list \<Rightarrow> bool" where
  "closure_proven cs rows bd members \<longleftrightarrow>
     (let groups = map (group_of rows) members; titled = (\<lambda>c. py_strip (sc_title c) \<noteq> [])
      in \<not> list_ex (\<lambda>g. g \<noteq> [] \<and> g \<notin> set (cs_groups cs)) groups
         \<and> (bd \<in> set (cs_boundaries cs)
            \<or> list_ex (\<lambda>i. member_card rows i titled False) members
                \<and> list_all (\<lambda>i. member_card rows i (\<lambda>c. titled c \<longrightarrow> (bd, conflict_title_key (sc_title c)) \<in> set (cs_titles cs)) False) members
            \<or> groups \<noteq> [] \<and> list_all (\<lambda>g. g \<noteq> [] \<and> g \<in> set (cs_groups cs)) groups))"

definition existing_groups :: "card list \<Rightarrow> pystr list \<Rightarrow> pystr list" where
  "existing_groups rows members = remdups (filter (\<lambda>g. g \<noteq> []) (map (group_of rows) members))"

text \<open>The record of a component, or nothing where its closure is not proven.  The rows are those of the selection.\<close>

definition component_record ::
  "(pyval \<Rightarrow> pystr) \<Rightarrow> authority_db \<Rightarrow> closure \<Rightarrow> card list \<Rightarrow> pystr \<times> pystr \<times> pystr \<Rightarrow> pystr list \<Rightarrow> py_error + component option" where
  "component_record rp db cs rows bd seen =
     (let members = sort (remdups seen) in
      bindE (conflict_component_fingerprint rows members) (\<lambda>fingerprint.
      if \<not> closure_proven cs rows bd members then Inr None
      else bindE (valid_conflict_resolution_receipt rp rows db (lit ''dismiss'') fingerprint members) (\<lambda>receipt.
        Inr (Some \<lparr>cm_boundary = bd, cm_members = members, cm_fingerprint = fingerprint, cm_suppressed = (receipt \<noteq> None),
               cm_needs = (length (existing_groups rows members) \<noteq> 1 \<or> list_ex (\<lambda>i. group_of rows i = []) members),
               cm_first = Min (set (map (rowid_of rows) members))\<rparr>))))"

fun scan_seeds ::
  "clock \<Rightarrow> (pystr list \<Rightarrow> py_error + component option) \<Rightarrow> pystr graph \<Rightarrow> pystr list \<Rightarrow> pystr set \<Rightarrow> budget
     \<Rightarrow> py_error + component list \<times> nat \<times> bool \<times> budget" where
  "scan_seeds clock rec g [] unseen b = Inr ([], 0, True, b)"
| "scan_seeds clock rec g (s # ss) unseen b =
     (if s \<notin> unseen then scan_seeds clock rec g ss unseen b
      else case component_loop clock g [s] [] b of
          (b1, None) \<Rightarrow> Inr ([], 0, False, b1)
        | (b1, Some seen) \<Rightarrow>
            bindE (if length seen < 2 then Inr ([], 0) else bindE (rec seen) (\<lambda>r. Inr (case r of None \<Rightarrow> ([], 1) | Some c \<Rightarrow> ([c], 0))))
              (\<lambda>(cs, d). bindE (scan_seeds clock rec g ss (unseen - set seen) b1) (\<lambda>(rest, d', ok, b2). Inr (cs @ rest, d + d', ok, b2))))"

definition scan_boundary ::
  "clock \<Rightarrow> (card \<Rightarrow> signature) \<Rightarrow> (pyval \<Rightarrow> pystr) \<Rightarrow> authority_db \<Rightarrow> closure \<Rightarrow> card list \<Rightarrow> pystr list
     \<Rightarrow> pystr \<times> pystr \<times> pystr \<Rightarrow> budget \<Rightarrow> py_error + component list \<times> nat \<times> bool \<times> budget" where
  "scan_boundary clock sig rp db cs rows current bd b =
     (let cards = filter (\<lambda>c. sc_id c \<in> set current \<and> conflict_boundary c = bd) rows in
      case conflict_adjacency clock sig cards (set (cs_groups cs)) (bd \<in> set (cs_boundaries cs)) b of (b1, g, ok) \<Rightarrow>
        if \<not> ok then Inr ([], 0, False, b1)
        else let seeds = map sc_id (filter (\<lambda>c. targets g (sc_id c) \<noteq> []) (sort_key cd_rowid cards))
             in scan_seeds clock (component_record rp db cs rows bd) g seeds (set seeds) b1)"

fun scan_boundaries ::
  "(pystr \<times> pystr \<times> pystr \<Rightarrow> budget \<Rightarrow> py_error + component list \<times> nat \<times> bool \<times> budget) \<Rightarrow> (pystr \<times> pystr \<times> pystr) list \<Rightarrow> budget
     \<Rightarrow> py_error + component list \<times> nat \<times> bool \<times> budget" where
  "scan_boundaries scan [] b = Inr ([], 0, True, b)"
| "scan_boundaries scan (bd # bds) b =
     bindE (scan bd b) (\<lambda>(cs, d, ok, b1).
       if \<not> ok then Inr (cs, d, False, b1)
       else bindE (scan_boundaries scan bds b1) (\<lambda>(rest, d', ok', b2). Inr (cs @ rest, d + d', ok', b2)))"

definition current_boundaries :: "card list \<Rightarrow> pystr list \<Rightarrow> (pystr \<times> pystr \<times> pystr) list" where
  "current_boundaries rows current = sort (remdups (map conflict_boundary (filter (\<lambda>c. sc_id c \<in> set current) rows)))"

section \<open>The updates\<close>

record updates =
  up_db :: authority_db
  up_budget :: budget
  up_touched :: "pystr list"
  up_deferred :: nat
  up_claimed :: "pystr list"
  up_detected :: "(pystr \<times> pystr list) list"

type_synonym envs = "nat \<Rightarrow> authority_env"

text \<open>The identifier and the time of an audit event are those of its row.\<close>

definition audit_next :: "envs \<Rightarrow> string \<Rightarrow> string \<Rightarrow> pystr option \<Rightarrow> pyval \<Rightarrow> authority_db \<Rightarrow> py_error + authority_db" where
  "audit_next envs action target_type target payload db =
     bindE (audit_event (envs (length (ad_audits db))) (lit action) (lit target_type) target (lit ''system'') payload db)
       (\<lambda>(db1, _). Inr db1)"

text \<open>A dismissed component leaves its groups.\<close>

definition suppress_component :: "clock \<Rightarrow> envs \<Rightarrow> pystr \<Rightarrow> card list \<Rightarrow> updates \<Rightarrow> component \<Rightarrow> py_error + updates" where
  "suppress_component clock envs now rows s r =
     (let grouped = filter (\<lambda>i. group_of rows i \<noteq> []) (cm_members r) in
      case can_mutate clock (int (length grouped)) (up_budget s) of (b, ok) \<Rightarrow>
        if \<not> ok then Inr (s\<lparr>up_budget := b, up_deferred := Suc (up_deferred s)\<rparr>)
        else if grouped = [] then Inr (s\<lparr>up_budget := record_mutations 0 b\<rparr>)
        else bindE (audit_next envs ''librarian_apply_conflict_dismissal'' ''conflict_component'' (Some (cm_fingerprint r))
               (mkdict [(''card_ids'', PList (map PStr (cm_members r))), (''fingerprint'', PStr (cm_fingerprint r))])
               (regroup None now (\<lambda>c. sc_id c \<in> set grouped) (up_db s)))
             (\<lambda>db. Inr (s\<lparr>up_db := db, up_budget := record_mutations (int (length grouped)) b, up_touched := up_touched s @ grouped\<rparr>)))"

definition selected_components :: "pystr option \<Rightarrow> nat \<Rightarrow> component list \<Rightarrow> component list" where
  "selected_components target limit eligible =
     (case target of Some i \<Rightarrow> take 1 (filter (\<lambda>r. i \<in> set (cm_members r)) eligible)
      | None \<Rightarrow> take limit (sort_key (\<lambda>r. (if cm_needs r then 0 else 1 :: nat, cm_first r, cm_members r)) eligible))"

definition generated_group :: "pystr \<Rightarrow> pystr" where
  "generated_group i = take 16 (content_hash (lit ''continuum_conflict_v2|'' @ i))"

text \<open>\<open>min(members, key=rowid)\<close>: the first of the least.\<close>

fun min_by :: "('a \<Rightarrow> 'b::linorder) \<Rightarrow> 'a \<Rightarrow> 'a list \<Rightarrow> 'a" where
  "min_by key best [] = best"
| "min_by key best (x # xs) = min_by key (if key x < key best then x else best) xs"

definition anchor_of :: "card list \<Rightarrow> pystr list \<Rightarrow> pystr" where
  "anchor_of rows members = (case members of [] \<Rightarrow> [] | i # is \<Rightarrow> min_by (rowid_of rows) i is)"

definition choose_group :: "card list \<Rightarrow> pystr list \<Rightarrow> pystr list \<Rightarrow> pystr" where
  "choose_group rows claimed members =
     (let existing = sort (map (\<lambda>i. (rowid_of rows i, group_of rows i)) (filter (\<lambda>i. group_of rows i \<noteq> []) members));
          g = (case existing of [] \<Rightarrow> [] | e # _ \<Rightarrow> snd e)
      in if g = [] \<or> g \<in> set claimed then generated_group (anchor_of rows members) else g)"

text \<open>Every selected component gets one group; the loop ends where the time is out.\<close>

fun assign_components :: "clock \<Rightarrow> envs \<Rightarrow> pystr \<Rightarrow> card list \<Rightarrow> component list \<Rightarrow> updates \<Rightarrow> py_error + updates" where
  "assign_components clock envs now rows [] s = Inr s"
| "assign_components clock envs now rows (r # rs) s =
     (case has_time clock (up_budget s) of (b, ok) \<Rightarrow>
        if \<not> ok then Inr (s\<lparr>up_budget := b, up_deferred := Suc (up_deferred s)\<rparr>)
        else
          let members = cm_members r; g = choose_group rows (up_claimed s) members;
              changed = filter (\<lambda>i. member_card rows i (\<lambda>c. or_empty (cd_group c)) [] \<noteq> g) members;
              s1 = s\<lparr>up_claimed := g # up_claimed s\<rparr>
          in (case can_mutate clock (int (length changed)) b of (b1, ok1) \<Rightarrow>
                if \<not> ok1 then assign_components clock envs now rows rs (s1\<lparr>up_budget := b1, up_deferred := Suc (up_deferred s)\<rparr>)
                else bindE (if changed = [] then Inr (up_db s)
                       else audit_next envs ''librarian_detect_conflict'' ''conflict_group'' (Some g)
                              (mkdict [(''card_ids'', PList (map PStr members)), (''conflict_group'', PStr g)])
                              (regroup (Some g) now (\<lambda>c. sc_id c \<in> set changed) (up_db s)))
                     (\<lambda>db. assign_components clock envs now rows rs
                       (s1\<lparr>up_db := db, up_budget := record_mutations (int (length changed)) b1, up_touched := up_touched s @ changed,
                           up_detected := up_detected s @ [(g, members)]\<rparr>))))"

section \<open>The transaction\<close>

record pass =
  ps_db :: authority_db
  ps_budget :: budget
  ps_conflicts :: "(pystr \<times> pystr list) list"
  ps_touched :: "pystr list"
  ps_orphans :: "pystr list"
  ps_suppressed :: "component list"
  ps_selected :: "component list"
  ps_eligible :: "component list"
  ps_deferred :: nat
  ps_deferred_orphans :: nat
  ps_scanned :: bool

definition final_conflict :: "card list \<Rightarrow> pystr list \<Rightarrow> pystr \<times> pystr list \<Rightarrow> (pystr \<times> pystr list) list" where
  "final_conflict rows current entry =
     (let members = snd entry; gs = remdups (filter (\<lambda>g. g \<noteq> []) (map (group_of rows) (filter (\<lambda>i. i \<in> set current) members)))
      in case gs of [g] \<Rightarrow> if list_all (\<lambda>i. i \<in> set current \<and> group_of rows i = g) members then [(g, members)] else []
         | _ \<Rightarrow> [])"

definition first_clearing :: "clock \<Rightarrow> pystr list \<Rightarrow> pystr \<Rightarrow> budget \<Rightarrow> authority_db \<Rightarrow> py_error + clearing" where
  "first_clearing clock ids now b db =
     (let rows = rows_by_ids (ad_cards db) ids in
      bindE (load_closure clock (ad_cards db) rows b) (\<lambda>(current, cs, b1).
        Inr (clear_orphan_conflict_groups clock now rows current (cs_groups cs) b1 db)))"

definition trailing_clearing :: "clock \<Rightarrow> pystr list \<Rightarrow> pystr \<Rightarrow> budget \<Rightarrow> authority_db \<Rightarrow> py_error + clearing" where
  "trailing_clearing clock ids now b db =
     (let rows = rows_by_ids (ad_cards db) ids in
      bindE (current_among clock (ad_cards db) rows b) (\<lambda>(current, b1).
      bindE (complete_groups clock (ad_cards db) rows b1) (\<lambda>(wholes, b2).
        Inr (clear_orphan_conflict_groups clock now rows current wholes b2 db))))"

definition component_stage ::
  "clock \<Rightarrow> (card \<Rightarrow> signature) \<Rightarrow> (pyval \<Rightarrow> pystr) \<Rightarrow> pystr list \<Rightarrow> budget \<Rightarrow> authority_db
     \<Rightarrow> py_error + component list \<times> nat \<times> bool \<times> budget" where
  "component_stage clock sig rp ids b db =
     (let rows = rows_by_ids (ad_cards db) ids in
      bindE (load_closure clock (ad_cards db) rows b) (\<lambda>(current, cs, b1).
        scan_boundaries (scan_boundary clock sig rp db cs rows current) (current_boundaries rows current) b1))"

definition update_stage ::
  "clock \<Rightarrow> envs \<Rightarrow> pystr \<Rightarrow> pystr option \<Rightarrow> nat \<Rightarrow> pystr list \<Rightarrow> component list \<Rightarrow> budget \<Rightarrow> authority_db \<Rightarrow> py_error + updates" where
  "update_stage clock envs now target limit ids components b db =
     (let rows = rows_by_ids (ad_cards db) ids in
      bindE (foldE (suppress_component clock envs now rows)
          \<lparr>up_db = db, up_budget = b, up_touched = [], up_deferred = 0, up_claimed = [], up_detected = []\<rparr>
          (filter cm_suppressed components))
        (assign_components clock envs now rows (selected_components target limit (filter (\<lambda>r. \<not> cm_suppressed r) components))))"

definition cursor_event :: "envs \<Rightarrow> pystr option \<Rightarrow> scan_state \<Rightarrow> nat \<Rightarrow> authority_db \<Rightarrow> py_error + authority_db" where
  "cursor_event envs target ss n =
     audit_next envs ''librarian_conflict_scan_cursor'' ''conflict_scan'' (Some (case target of Some i \<Rightarrow> i | None \<Rightarrow> lit ''global''))
       (mkdict [(''schema'', PStr (lit ''continuum.conflict_scan_cursor.v1'')), (''next_rowid'', PInt (ss_next ss)),
          (''candidate_count'', PInt (int n)), (''wrapped'', PBool (ss_wrapped ss))])"

definition conflict_transaction ::
  "clock \<Rightarrow> envs \<Rightarrow> (card \<Rightarrow> signature) \<Rightarrow> (pyval \<Rightarrow> pystr) \<Rightarrow> pystr option \<Rightarrow> nat \<Rightarrow> pystr list \<Rightarrow> bool \<Rightarrow> scan_state \<Rightarrow> int \<Rightarrow> budget
     \<Rightarrow> authority_db \<Rightarrow> py_error + pass" where
  "conflict_transaction clock envs sig rp target limit ids incomplete ss cursor b db =
     bindE (require_time clock b) (\<lambda>b0.
     bindE (assert_bounded_supersession_dag (rows_by_ids (ad_cards db) ids)) (\<lambda>_.
     let now = ae_now (envs (length (ad_audits db))) in
     bindE (first_clearing clock ids now b0 db) (\<lambda>c1.
     bindE (component_stage clock sig rp ids (cl_budget c1) (cl_db c1)) (\<lambda>(components, d1, scanned, b1).
     bindE (update_stage clock envs now target limit ids components b1 (cl_db c1)) (\<lambda>u.
     bindE (trailing_clearing clock ids now (up_budget u) (up_db u)) (\<lambda>c2.
     let rows = rows_by_ids (ad_cards (cl_db c2)) ids; orphans = cl_touched c1 @ cl_touched c2 in
     bindE (current_among clock (ad_cards (cl_db c2)) rows (cl_budget c2)) (\<lambda>(current, b2).
     bindE (if orphans = [] then Inr (cl_db c2)
            else audit_next envs ''librarian_clear_orphan_conflicts'' ''cards'' None
              (mkdict [(''card_ids'', PList (map PStr (sort (remdups orphans))))]) (cl_db c2)) (\<lambda>db1.
     bindE (require_time clock b2) (\<lambda>b3.
     let touched = sort (remdups (cl_touched c1 @ up_touched u @ cl_touched c2));
         db2 = (if touched = [] then db1
                else fst (mark_card_sidecar_outbox (envs (length (ad_audits db1))) touched (lit ''conflict_group_updated'') db1)) in
     bindE (require_time clock b3) (\<lambda>b4.
     bindE (if \<not> incomplete \<and> (ss_more ss \<or> 0 < cursor) then cursor_event envs target ss (length rows) db2 else Inr db2) (\<lambda>db3.
     bindE (require_time clock b4) (\<lambda>b5.
       Inr \<lparr>ps_db = db3, ps_budget = finish_transaction clock b5,
            ps_conflicts = concat (map (final_conflict rows current) (up_detected u)), ps_touched = touched,
            ps_orphans = cl_cleared c1 @ cl_cleared c2, ps_suppressed = filter cm_suppressed components,
            ps_selected = selected_components target limit (filter (\<lambda>r. \<not> cm_suppressed r) components),
            ps_eligible = filter (\<lambda>r. \<not> cm_suppressed r) components, ps_deferred = d1 + up_deferred u,
            ps_deferred_orphans = cl_deferred c1 + cl_deferred c2, ps_scanned = scanned\<rparr>))))))))))))"

section \<open>The pass\<close>

definition latest_cursor :: "(pyfloat \<Rightarrow> int) \<Rightarrow> audit_row list \<Rightarrow> py_error + int" where
  "latest_cursor fi audits =
     (case rev (sort_key au_created (filter (\<lambda>a. au_action a = lit ''librarian_conflict_scan_cursor'' \<and> au_target_type a = lit ''conflict_scan''
          \<and> au_target a = Some (lit ''global'')) audits)) of
        [] \<Rightarrow> Inr 0
      | a # _ \<Rightarrow> (case dget_or (json_loads (Some (au_payload a)) (PDict [])) ''next_rowid'' (PInt 0) of
            PInt n \<Rightarrow> Inr (max 0 n)
          | PBool v \<Rightarrow> Inr (if v then 1 else 0)
          | PFloat (FInf v) \<Rightarrow> Inl OverflowError
          | PFloat (FDec v m e) \<Rightarrow> Inr (max 0 (fi (FDec v m e)))
          | PStr s \<Rightarrow> Inr (case py_int s of None \<Rightarrow> 0 | Some n \<Rightarrow> max 0 n)
          | _ \<Rightarrow> Inr 0))"

record detection =
  dt_conflicts :: "(pystr \<times> pystr list) list"
  dt_changed :: nat
  dt_orphans :: nat
  dt_suppressed :: nat
  dt_partial :: bool
  dt_aborted :: bool
  dt_deferred :: nat
  dt_deferred_orphans :: nat
  dt_scan :: scan_state
  dt_lower_bound :: int
  dt_manual :: bool
  dt_larger :: bool
  dt_budget :: budget

definition empty_pass :: "authority_db \<Rightarrow> budget \<Rightarrow> nat \<Rightarrow> pass" where
  "empty_pass db b deferred =
     \<lparr>ps_db = db, ps_budget = b, ps_conflicts = [], ps_touched = [], ps_orphans = [], ps_suppressed = [], ps_selected = [],
      ps_eligible = [], ps_deferred = deferred, ps_deferred_orphans = 0, ps_scanned = False\<rparr>"

definition exhausted :: "budget \<Rightarrow> bool" where
  "exhausted b \<longleftrightarrow> bg_comparison_out b \<or> bg_member_out b \<or> bg_mutation_out b \<or> bg_time_out b"

text \<open>The result of a pass: whether more work is left, and whether it needs a larger budget or a reviewer.\<close>

definition detection_result :: "pystr option \<Rightarrow> bool \<Rightarrow> scan_state \<Rightarrow> pass \<Rightarrow> detection" where
  "detection_result target aborted ss p =
     (let b = ps_budget p;
          deferred = ps_deferred p + length (filter (\<lambda>r. cm_needs r \<and> cm_fingerprint r \<notin> set (map cm_fingerprint (ps_selected p))) (ps_eligible p));
          fuzzy = target \<noteq> None \<and> ss_overflow ss;
          bound1 = (if fuzzy then max (int (ss_required ss)) (bg_candidate_limit b + 1) else int (ss_required ss));
          structural = target \<noteq> None \<and> ss_next ss = 0 \<and> (0 < deferred \<or> 0 < ps_deferred_orphans p \<or> \<not> ps_scanned p) \<and> \<not> ss_more ss
            \<and> \<not> fuzzy \<and> \<not> exhausted b;
          bound2 = (if structural then max bound1 (bg_candidate_limit b + 1) else bound1)
      in \<lparr>dt_conflicts = ps_conflicts p, dt_changed = length (ps_touched p), dt_orphans = length (remdups (ps_orphans p)),
          dt_suppressed = length (ps_suppressed p),
          dt_partial = (ss_more ss \<or> \<not> ps_scanned p \<or> 0 < deferred \<or> 0 < ps_deferred_orphans p \<or> bg_time_out b \<or> fuzzy),
          dt_aborted = aborted, dt_deferred = deferred, dt_deferred_orphans = ps_deferred_orphans p, dt_scan = ss, dt_lower_bound = bound2,
          dt_manual = (ss_manual ss \<or> max_candidates < bound2),
          dt_larger = (bg_candidate_limit b < bound2 \<or> bg_member_out b \<or> bg_mutation_out b \<or> bg_time_out b), dt_budget = b\<rparr>)"

text \<open>The selection reads the database as it was (\<open>seen\<close>), the transaction as it is.  A pass past its deadline is rolled back; the
  budget then is the one it started with, its time spent.\<close>

definition detect_conflicts ::
  "clock \<Rightarrow> envs \<Rightarrow> (card \<Rightarrow> signature) \<Rightarrow> (pyval \<Rightarrow> pystr) \<Rightarrow> (pyfloat \<Rightarrow> int) \<Rightarrow> pystr option \<Rightarrow> int \<Rightarrow> limits \<Rightarrow> authority_db
     \<Rightarrow> authority_db \<Rightarrow> py_error + authority_db \<times> detection" where
  "detect_conflicts clock envs sig rp fi target limit lims seen db =
     (let target = (if target = Some [] then None else target); limit = max 1 limit in
      bindE (ensure (\<not> (target \<noteq> None \<and> (case lm_candidates lims of None \<Rightarrow> False | Some n \<Rightarrow> n < 2)))
        (ValueError ''targeted conflict scans require candidate_card_limit >= 2'')) (\<lambda>_.
      let b = start_transaction clock (conflict_work_budget clock 0 limit lims) in
      bindE (if target = None then latest_cursor fi (ad_audits seen) else Inr 0) (\<lambda>cursor.
      bindE (bounded_conflict_rows (ad_cards seen) (nat (bg_candidate_limit b)) target cursor) (\<lambda>(rows, ss).
      let b1 = b\<lparr>bg_candidates := int (length rows), bg_candidate_out := ss_more ss\<rparr>;
          incomplete = (target \<noteq> None \<and> (ss_overflow ss \<or> bg_candidate_limit b < int (ss_required ss)));
          ids = (if incomplete then [] else map sc_id rows); d0 = (if incomplete then 1 else 0)
      in (case conflict_transaction clock envs sig rp target (nat limit) ids incomplete ss cursor b1 db of
            Inr p \<Rightarrow> Inr (ps_db p, detection_result target False ss (p\<lparr>ps_deferred := d0 + ps_deferred p\<rparr>))
          | Inl e \<Rightarrow> if e = deadline_exceeded
              then Inr (db, detection_result target True (ss\<lparr>ss_next := cursor, ss_more := True\<rparr>)
                     (empty_pass db (b1\<lparr>bg_mutations := 0, bg_time_out := True\<rparr>) (Suc d0)))
              else Inl e)))))"

end
