(* ===== verification/Conflict_Grouping.thy ===== *)
theory Conflict_Grouping
  imports Conflict_Detection
begin

text \<open>
  Groupings of Cards, seen as maps from identifiers to group names: when one is sound, and that clearing and assigning
  whole groups keeps it sound.  A new group is named after one of its members; the contract of these names is a
  locale, interpreted on the names \<open>detect_conflicts\<close> generates.
\<close>

section \<open>Sound groupings\<close>

definition valid_grouping :: "('i \<Rightarrow> 'k) \<Rightarrow> ('i \<Rightarrow> bool) \<Rightarrow> 'i set \<Rightarrow> ('i \<Rightarrow> 'g option) \<Rightarrow> bool" where
  "valid_grouping bd ps current G \<longleftrightarrow> (\<forall>i g. G i = Some g \<longrightarrow> i \<in> current \<and> (\<exists>j. j \<noteq> i \<and> G j = Some g)
     \<and> (\<forall>j. G j = Some g \<longrightarrow> bd j = bd i \<and> ps j = ps i))"

definition whole_in :: "('i \<Rightarrow> 'g option) \<Rightarrow> 'i set \<Rightarrow> bool" where
  "whole_in G S \<longleftrightarrow> (\<forall>i\<in>S. \<forall>j. G i \<noteq> None \<and> G j = G i \<longrightarrow> j \<in> S)"

definition put :: "'i set \<Rightarrow> 'g option \<Rightarrow> ('i \<Rightarrow> 'g option) \<Rightarrow> 'i \<Rightarrow> 'g option" where
  "put S g G = (\<lambda>i. if i \<in> S then g else G i)"

text \<open>What the members of a new group have in common.\<close>

definition uniform_set :: "('i \<Rightarrow> 'k) \<Rightarrow> ('i \<Rightarrow> bool) \<Rightarrow> 'i set \<Rightarrow> 'i set \<Rightarrow> bool" where
  "uniform_set bd ps current S \<longleftrightarrow> S \<subseteq> current \<and> (\<exists>i\<in>S. \<exists>j\<in>S. i \<noteq> j) \<and> (\<forall>i\<in>S. \<forall>j\<in>S. bd j = bd i \<and> ps j = ps i)"

named_theorems grouping "what clearing and assigning keep"

lemma whole_inD: "whole_in G S \<Longrightarrow> i \<in> S \<Longrightarrow> G i = Some g \<Longrightarrow> G j = Some g \<Longrightarrow> j \<in> S"
  by (simp add: whole_in_def)

lemma valid_groupingI:
  assumes "\<And>i g. G i = Some g \<Longrightarrow> i \<in> current" "\<And>i g. G i = Some g \<Longrightarrow> \<exists>j. j \<noteq> i \<and> G j = Some g"
    and "\<And>i j g. G i = Some g \<Longrightarrow> G j = Some g \<Longrightarrow> bd j = bd i \<and> ps j = ps i"
  shows "valid_grouping bd ps current G"
  unfolding valid_grouping_def using assms by blast

lemma valid_groupingD:
  assumes "valid_grouping bd ps current G" "G i = Some g"
  shows "i \<in> current" "\<exists>j. j \<noteq> i \<and> G j = Some g" "\<And>j. G j = Some g \<Longrightarrow> bd j = bd i \<and> ps j = ps i"
  using assms unfolding valid_grouping_def by blast+

lemma valid_clear [grouping]:
  assumes valid: "valid_grouping bd ps current G" and whole: "whole_in G S"
  shows "valid_grouping bd ps current (put S None G)"
proof -
  have old: "G i = Some g \<and> i \<notin> S" if "put S None G i = Some g" for i g using that by (simp add: put_def split: if_splits)
  have new: "put S None G j = Some g" if "G i = Some g" "G j = Some g" "i \<notin> S" for i j g
    using that whole_inD [OF whole, of j g i] by (auto simp: put_def)
  show ?thesis
  proof (rule valid_groupingI)
    fix i g
    assume i: "put S None G i = Some g"
    note v = valid_groupingD [OF valid old [OF i, THEN conjunct1]]
    show "i \<in> current" by (rule v(1))
    show "\<exists>j. j \<noteq> i \<and> put S None G j = Some g" using v(2) new old [OF i] by blast
    show "bd j = bd i \<and> ps j = ps i" if "put S None G j = Some g" for j using v(3) old [OF that] by blast
  qed
qed

lemma whole_clear [grouping]: "whole_in G T \<Longrightarrow> whole_in (put S None G) T"
  unfolding whole_in_def put_def by (metis option.distinct(1))

section \<open>Names of groups\<close>

locale group_names =
  fixes name :: "'i \<Rightarrow> 'g" and proper :: "'g \<Rightarrow> bool"
  assumes proper_name: "proper (name i)"
begin

definition named :: "('i \<Rightarrow> 'g option) \<Rightarrow> bool" where
  "named G \<longleftrightarrow> (\<forall>i g. G i = Some g \<longrightarrow> (\<exists>a. g = name a \<and> G a = Some g))"

lemma named_proper: "named G \<Longrightarrow> G i = Some g \<Longrightarrow> proper g"
  unfolding named_def using proper_name by metis

lemma named_clear [grouping]: "named G \<Longrightarrow> whole_in G S \<Longrightarrow> named (put S None G)"
  unfolding named_def put_def using whole_inD [of G S] by (simp, metis)

text \<open>A name generated from a member is not in use outside: its owner would be that member.\<close>

lemma name_inside:
  assumes "named G" "whole_in G S" "a \<in> S" "inj_on name (dom G \<union> S)" "G j = Some (name a)"
  shows "j \<in> S"
proof -
  from assms(1,5) obtain b where b: "name a = name b" "G b = Some (name a)" unfolding named_def by metis
  then have "a = b" using assms(3,4) by (auto dest: inj_onD)
  with b assms(2,3,5) show ?thesis using whole_inD [of G S a "name a" j] by simp
qed

lemma valid_assign [grouping]:
  assumes valid: "valid_grouping bd ps current G" and "named G" "whole_in G S" "a \<in> S" "inj_on name (dom G \<union> S)"
    and set: "uniform_set bd ps current S"
  shows "valid_grouping bd ps current (put S (Some (name a)) G)"
proof -
  have inside: "put S (Some (name a)) G j = Some g \<longleftrightarrow> (if j \<in> S then g = name a else g \<noteq> name a \<and> G j = Some g)" for j g
    using name_inside [OF assms(2-5), of j] by (auto simp: put_def)
  have out: "j \<notin> S" if "G i = Some g" "G j = Some g" "i \<notin> S" for i j g
    using that whole_inD [OF assms(3), of j g i] by blast
  show ?thesis
  proof (rule valid_groupingI)
    fix i g
    assume i: "put S (Some (name a)) G i = Some g"
    have "i \<in> current \<and> (\<exists>j. j \<noteq> i \<and> put S (Some (name a)) G j = Some g)
        \<and> (\<forall>j. put S (Some (name a)) G j = Some g \<longrightarrow> bd j = bd i \<and> ps j = ps i)"
    proof (cases "i \<in> S")
      case True
      then have g: "g = name a" using i inside by simp
      have in_S: "put S (Some (name a)) G j = Some g \<longleftrightarrow> j \<in> S" for j unfolding inside g by simp
      from set True have "i \<in> current" "\<forall>j\<in>S. bd j = bd i \<and> ps j = ps i" unfolding uniform_set_def by blast+
      moreover obtain j where "j \<in> S" "j \<noteq> i" using set unfolding uniform_set_def by metis
      ultimately show ?thesis unfolding in_S by blast
    next
      case False
      with i have g: "g \<noteq> name a" "G i = Some g" unfolding inside by simp_all
      have out_S: "put S (Some (name a)) G j = Some g \<longleftrightarrow> G j = Some g" for j
        unfolding inside using g out [OF g(2) _ False, of j] by auto
      from valid_groupingD [OF valid g(2)] show ?thesis unfolding out_S by blast
    qed
    then show "i \<in> current" "\<exists>j. j \<noteq> i \<and> put S (Some (name a)) G j = Some g"
      "\<And>j. put S (Some (name a)) G j = Some g \<Longrightarrow> bd j = bd i \<and> ps j = ps i" by blast+
  qed
qed

lemma named_assign [grouping]:
  assumes "named G" "whole_in G S" "a \<in> S"
  shows "named (put S (Some (name a)) G)"
  unfolding named_def
proof (intro allI impI)
  fix i g
  assume i: "put S (Some (name a)) G i = Some g"
  show "\<exists>b. g = name b \<and> put S (Some (name a)) G b = Some g"
  proof (cases "i \<in> S")
    case True
    with i assms(3) show ?thesis by (intro exI [of _ a]) (simp add: put_def)
  next
    case False
    with i have g: "G i = Some g" by (simp add: put_def)
    with assms(1) obtain b where b: "g = name b" "G b = Some g" unfolding named_def by metis
    have "b \<notin> S" using whole_inD [OF assms(2), of b g i] b(2) g False by blast
    with b show ?thesis by (auto simp: put_def)
  qed
qed

lemma whole_assign [grouping]:
  assumes "named G" "whole_in G S" "a \<in> S" "inj_on name (dom G \<union> S)" "whole_in G T" "S \<inter> T = {}"
  shows "whole_in (put S (Some (name a)) G) T"
  unfolding whole_in_def
proof (intro ballI allI impI)
  fix i j
  assume i: "i \<in> T" and j: "put S (Some (name a)) G i \<noteq> None \<and> put S (Some (name a)) G j = put S (Some (name a)) G i"
  have "i \<notin> S" using i assms(6) by blast
  with j have g: "G i \<noteq> None" "put S (Some (name a)) G j = G i" by (simp_all add: put_def)
  have "j \<notin> S"
  proof
    assume "j \<in> S"
    with g have "G i = Some (name a)" by (simp add: put_def)
    then show False using name_inside [OF assms(1-4)] \<open>i \<notin> S\<close> by blast
  qed
  with g i assms(5) show "j \<in> T" by (simp add: whole_in_def put_def)
qed

text \<open>The name in use by a member is the name of a member.\<close>

lemma used_name: "named G \<Longrightarrow> whole_in G S \<Longrightarrow> e \<in> S \<Longrightarrow> G e = Some g \<Longrightarrow> \<exists>a\<in>S. g = name a"
  unfolding named_def using whole_inD [of G S e g] by metis

end

section \<open>The generated names\<close>

lemma hex_strip: "list_all is_hex_char s \<Longrightarrow> py_strip s = s"
proof -
  have space: "\<not> py_space c" if "is_hex_char c" for c
    using that by (auto simp: is_hex_char_def py_space_def)
  have "dropWhile py_space t = t" if "list_all is_hex_char t" for t
    using that space by (cases t) auto
  then show "list_all is_hex_char s \<Longrightarrow> py_strip s = s" by (simp add: py_strip_def)
qed

lemma generated_proper: "generated_group i \<noteq> [] \<and> py_strip (generated_group i) = generated_group i"
proof -
  have hex: "is_hex 64 (content_hash (lit ''continuum_conflict_v2|'' @ i))" by (rule content_hash_hex)
  then have "list_all is_hex_char (take 16 (content_hash (lit ''continuum_conflict_v2|'' @ i)))"
    by (auto simp: is_hex_def list_all_iff dest: in_set_takeD)
  moreover have "length (generated_group i) = 16" using hex by (simp add: generated_group_def is_hex_def)
  ultimately show ?thesis using hex_strip by (auto simp: generated_group_def)
qed

interpretation gn: group_names generated_group "\<lambda>g. g \<noteq> [] \<and> py_strip g = g"
  by unfold_locales (rule generated_proper)

end
