(* ===== verification/Conflict_Regrouping.thy ===== *)
theory Conflict_Regrouping
  imports Conflict_Grouping
begin

text \<open>
  What a conflict pass may change: the groups of Cards and the times of their updates, and the audit events it adds.  Every
  other part of the integrity report stays as it was, so the report stays clean as soon as the new groups are sound.
\<close>

section \<open>Changes of groups only\<close>

definition ungroup :: "card \<Rightarrow> card" where
  "ungroup c = c\<lparr>cd_group := None, cd_updated := []\<rparr>"

lemma ungroup_fields:
  assumes "ungroup c' = ungroup c"
  shows "sc_id c' = sc_id c" "sc_metadata c' = sc_metadata c" "cd_status c' = cd_status c" "successor c' = successor c"
    "predecessor c' = predecessor c" "cd_supersedes c' = cd_supersedes c" "cd_superseded_by c' = cd_superseded_by c"
    "conflict_boundary c' = conflict_boundary c" "member_type c' = member_type c" "cd_rowid c' = cd_rowid c"
    "sc_type c' = sc_type c" "conflict_member_material c' = conflict_member_material c"
proof -
  have field: "f c' = f c" if "\<And>d. f (ungroup d) = f d" for f :: "card \<Rightarrow> 'x"
    using assms that by metis
  show "sc_id c' = sc_id c" "sc_metadata c' = sc_metadata c" "cd_status c' = cd_status c" "successor c' = successor c"
    "predecessor c' = predecessor c" "cd_supersedes c' = cd_supersedes c" "cd_superseded_by c' = cd_superseded_by c"
    "conflict_boundary c' = conflict_boundary c" "member_type c' = member_type c" "cd_rowid c' = cd_rowid c"
    "sc_type c' = sc_type c" "conflict_member_material c' = conflict_member_material c"
    by (rule field, simp add: ungroup_def successor_def predecessor_def conflict_boundary_def member_type_def conflict_member_material_def)+
qed

lemma ungroup_idem: "ungroup (ungroup c) = ungroup c" "ungroup (c\<lparr>cd_group := g, cd_updated := now\<rparr>) = ungroup c"
  by (simp_all add: ungroup_def)

definition only_groups :: "(card \<Rightarrow> card) \<Rightarrow> bool" where
  "only_groups U \<longleftrightarrow> (\<forall>c. ungroup (U c) = ungroup c)"

lemma only_groupsD: "only_groups U \<Longrightarrow> ungroup (U c) = ungroup c"
  by (simp add: only_groups_def)

lemmas regroup_fields = ungroup_fields [OF only_groupsD]

lemma regrouped_map:
  assumes same: "map ungroup cards' = map ungroup cards" and dist: "distinct (map sc_id cards)"
  obtains U where "only_groups U" "cards' = map U cards"
proof -
  define U where "U c = (case find_card (sc_id c) cards' of None \<Rightarrow> c | Some c' \<Rightarrow> if ungroup c' = ungroup c then c' else c)" for c
  have "only_groups U" by (simp add: only_groups_def U_def split: option.split)
  moreover have len: "length cards' = length cards" using map_eq_imp_length_eq [OF same] .
  have at_k: "ungroup (cards' ! k) = ungroup (cards ! k)" if "k < length cards" for k
    using that len arg_cong [OF same, of "\<lambda>l. l ! k"] by simp
  have "map sc_id cards' = map sc_id cards"
    by (rule nth_equalityI) (simp_all add: len ungroup_fields(1) [OF at_k])
  then have dist': "distinct (map sc_id cards')" using dist by simp
  have "cards' = map U cards"
  proof (rule nth_equalityI)
    fix k
    assume "k < length cards'"
    with len have k: "k < length cards" "cards' ! k \<in> set cards'" by simp_all
    have "find_card (sc_id (cards ! k)) cards' = Some (cards' ! k)"
      using find_card_distinct [OF dist' k(2)] ungroup_fields(1) [OF at_k [OF k(1)]] by simp
    then show "cards' ! k = map U cards ! k" using k at_k by (simp add: U_def)
  qed (simp add: len)
  ultimately show thesis using that by blast
qed

lemma regrouped_sorted:
  assumes "only_groups U" "ad_cards db' = map U (ad_cards db)"
  shows "sorted_cards db' = map U (sorted_cards db)"
  unfolding sorted_cards_def assms(2) sort_key_map using regroup_fields(1) [OF assms(1)] by (simp add: comp_def)

lemma regrouped_find: "only_groups U \<Longrightarrow> find_card i (map U cards) = map_option U (find_card i cards)"
  by (rule find_card_map) (rule regroup_fields(1))

section \<open>What stays of a clean report\<close>

lemma regrouped_links: "only_groups U \<Longrightarrow> links (set (map U cards)) = links (set cards)"
  by (auto simp: links_iff regroup_fields)

lemma regrouped_referenced:
  "only_groups U \<Longrightarrow> set (lf_referenced (check_links (map U cards) F')) = set (lf_referenced (check_links cards F))"
  unfolding referenced_set by (auto simp: regroup_fields image_iff)

lemma regrouped_unsuperseded:
  "only_groups U \<Longrightarrow> unsuperseded (lf_referenced (check_links (map U cards) F')) (U c) \<longleftrightarrow> unsuperseded (lf_referenced (check_links cards F)) c"
  using regrouped_referenced [of U cards F' F] by (simp add: unsuperseded_def regroup_fields)

lemma regrouped_proper:
  assumes U: "only_groups U" and proper: "proper_links cards F" and F: "F \<subseteq> F'"
  shows "proper_links (map U cards) F'"
  unfolding proper_links_def
proof (intro ballI conjI impI)
  fix c'
  assume "c' \<in> set (map U cards)"
  then obtain c where c: "c \<in> set cards" "c' = U c" by auto
  { assume "predecessor c' \<noteq> []"
    with proper c obtain d where "find_card (predecessor c) cards = Some d" "conflict_boundary d = conflict_boundary c" "successor d = sc_id c"
      unfolding proper_links_def by (auto simp: regroup_fields [OF U])
    then show "\<exists>d. find_card (predecessor c') (map U cards) = Some d \<and> conflict_boundary d = conflict_boundary c' \<and> successor d = sc_id c'"
      by (simp add: c(2) regrouped_find [OF U] regroup_fields [OF U]) }
  assume "successor c' \<noteq> []"
  with proper c obtain d where "find_card (successor c) cards = Some d" "conflict_boundary c = conflict_boundary d"
    "predecessor d = sc_id c \<or> (sc_id c, successor c) \<in> F"
    unfolding proper_links_def by (auto simp: regroup_fields [OF U])
  with F show "\<exists>d. find_card (successor c') (map U cards) = Some d \<and> conflict_boundary c' = conflict_boundary d
      \<and> (predecessor d = sc_id c' \<or> (sc_id c', successor c') \<in> F')"
    by (auto simp: c(2) regrouped_find [OF U] regroup_fields [OF U])
qed

lemma regrouped_uniform:
  assumes U: "only_groups U" and "uniform_edges cards agents F" "F \<subseteq> F'"
  shows "uniform_edges (map U cards) agents F'"
proof -
  have "type_of (map U cards) j = type_of cards j" for j
    by (cases "find_card j cards") (simp_all add: type_of_def column_def regrouped_find [OF U] regroup_fields [OF U])
  then show ?thesis using assms(2,3) unfolding uniform_edges_def regrouped_links [OF U] by blast
qed

lemma regrouped_heads:
  assumes U: "only_groups U" and one: "one_head cards (lf_referenced (check_links cards F)) agents"
  shows "one_head (map U cards) (lf_referenced (check_links (map U cards) F')) agents"
  unfolding one_head_def
proof (intro allI impI, elim conjE)
  fix i j c' d' agent
  assume ag: "(i, agent) \<in> set agents" "(j, agent) \<in> set agents"
    and found: "find_card i (map U cards) = Some c'" "find_card j (map U cards) = Some d'"
    and un: "unsuperseded (lf_referenced (check_links (map U cards) F')) c'" "unsuperseded (lf_referenced (check_links (map U cards) F')) d'"
    and bound: "conflict_boundary c' = conflict_boundary d'"
  from found obtain c d where cd: "find_card i cards = Some c" "c' = U c" "find_card j cards = Some d" "d' = U d"
    by (auto simp: regrouped_find [OF U])
  with un bound have "unsuperseded (lf_referenced (check_links cards F)) c" "unsuperseded (lf_referenced (check_links cards F)) d"
    "conflict_boundary c = conflict_boundary d"
    by (simp_all add: regrouped_unsuperseded [OF U, of cards F' _ F] regroup_fields [OF U])
  with one ag cd show "i = j" unfolding one_head_def by blast
qed

lemma regrouped_audited: "only_groups U \<Longrightarrow> audited_fan_in rp (map U cards) agents a = audited_fan_in rp cards agents a"
proof -
  assume U: "only_groups U"
  have "audited_predecessor agents (map U cards) (U c) = audited_predecessor agents cards c" for c
    by (rule ext) (simp add: audited_predecessor_def project_state_card_def regrouped_find [OF U] regroup_fields [OF U] split: option.split)
  moreover have "audited_successor rp agents a (PDict kvs) (U c) d = audited_successor rp agents a (PDict kvs) c d" for kvs c d
    by (simp add: audited_successor_def Let_def regroup_fields [OF U])
  ultimately show ?thesis
    by (simp add: audited_fan_in_def Let_def project_state_card_def regrouped_find [OF U] regroup_fields [OF U] option.map_comp
        split: option.split pyval.split)
qed

section \<open>Regrouped databases\<close>

definition regrouped :: "authority_db \<Rightarrow> authority_db \<Rightarrow> bool" where
  "regrouped db db' \<longleftrightarrow> map ungroup (ad_cards db') = map ungroup (ad_cards db) \<and> ad_receipts db' = ad_receipts db
     \<and> ad_members db' = ad_members db
     \<and> (\<exists>new. ad_audits db' = ad_audits db @ new \<and> (\<forall>a\<in>set new. au_action a \<noteq> lit ''project_state_superseded''))"

named_theorems regrouping "operations that only regroup"

lemma regrouped_refl [simp]: "regrouped db db"
  by (simp add: regrouped_def)

lemma regrouped_trans [trans]: "regrouped a b \<Longrightarrow> regrouped b c \<Longrightarrow> regrouped a c"
  unfolding regrouped_def by (auto simp: ball_Un)

lemma regrouped_regroup [regrouping]: "regrouped db (regroup g now P db)"
  by (simp add: regrouped_def regroup_def comp_def ungroup_idem(2) if_distrib [of ungroup] cong: if_cong)

lemma regrouped_audit [regrouping]:
  "audit_next envs action target_type target payload db = Inr db' \<Longrightarrow> lit action \<noteq> lit ''project_state_superseded'' \<Longrightarrow> regrouped db db'"
  by (auto simp: audit_next_def audit_event_def regrouped_def split: if_splits)

lemma regrouped_outbox [regrouping]: "regrouped db (fst (mark_card_sidecar_outbox env ids reason db))"
proof -
  have "regrouped d (fold (mark_outbox env reason) marked d)" for marked d
  proof (induction marked arbitrary: d)
    case (Cons m marked)
    have "regrouped d (mark_outbox env reason m d)" by (cases m) (simp add: mark_outbox_def regrouped_def)
    also note Cons.IH
    finally show ?case by simp
  qed simp
  then show ?thesis by (simp add: mark_card_sidecar_outbox_def)
qed

lemma regrouped_wf: "regrouped db db' \<Longrightarrow> wf_authority db \<Longrightarrow> wf_authority db'"
proof -
  assume "regrouped db db'" and wf: "wf_authority db"
  then obtain U where U: "only_groups U" "ad_cards db' = map U (ad_cards db)"
    using regrouped_map [of "ad_cards db'" "ad_cards db"] unfolding regrouped_def wf_authority_def by metis
  with wf show ?thesis unfolding wf_authority_def by (simp add: comp_def regroup_fields)
qed

text \<open>The report after a pass is clean when the groups are sound.\<close>

lemma regrouped_report:
  assumes wf: "wf_authority db" and agents: "distinct (map fst agents)" and regrouped: "regrouped db db'"
    and report: "temporal_authority_report rp db agents [] = Inr a" "report_ok a"
    and sound: "sound_groups (sorted_cards db') (referenced (sorted_cards db'))"
  shows "\<exists>a'. temporal_authority_report rp db' agents [] = Inr a' \<and> report_ok a'"
proof -
  have dist: "distinct (map sc_id (ad_cards db))" "distinct (map sc_id (ad_cards db'))"
    using wf regrouped_wf [OF regrouped wf] by (simp_all add: wf_authority_def)
  obtain U where U: "only_groups U" "ad_cards db' = map U (ad_cards db)"
    using regrouped_map [OF _ dist(1), of "ad_cards db'"] regrouped unfolding regrouped_def by metis
  note cards = regrouped_sorted [OF U]
  from regrouped obtain new where same: "ad_receipts db' = ad_receipts db" "ad_members db' = ad_members db"
    "ad_audits db' = ad_audits db @ new" "\<forall>a\<in>set new. au_action a \<noteq> lit ''project_state_superseded''" unfolding regrouped_def by blast
  obtain rr where rr: "resolution_receipt_report rp (sorted_cards db) db [] = Inr rr" "rr_invalid rr = []" "rr_unproven rr = []"
    and clean: "clean_authority (sorted_cards db) (fan_in_links rp db agents rr) agents"
    by (rule clean_report_cases [OF dist(1) agents report])
  note accepted = report_accepted [OF rr(1,2)] and plain = report_is_plain [OF rr(1,2)]
  have "all_accepted rp (sorted_cards db') db'"
    unfolding all_accepted_def
  proof
    fix q
    assume "q \<in> set (ad_receipts db')"
    then have "conflict_resolution_receipt_error rp (sorted_cards db) db q None None None {} False = Inr None"
      using accepted(1) by (simp add: all_accepted_def same)
    then show "conflict_resolution_receipt_error rp (sorted_cards db') db' q None None None {} False = Inr None"
      unfolding cards
      by (rule accepted_changed [where U = U]) (simp_all add: regrouped_find [OF U(1)] regroup_fields [OF U(1)] same find_append_Some)
  qed
  moreover have "orphan_members db' = []" using accepted(2) by (simp add: orphan_members_def same)
  ultimately have rr': "resolution_receipt_report rp (sorted_cards db') db' [] = Inr (plain_receipt_report rp db')" by (rule accepted_report)
  have fan_of: "fan_in_of db' = fan_in_of db" by (rule ext) (simp add: fan_in_of_def same)
  have dismissed: "dismissed_members db' = dismissed_members db" by (intro ext) (simp add: dismissed_members_def same)
  have entries: "unproven_entries rp pr (U c) = unproven_entries rp pr c" for pr c
    unfolding unproven_entries_def regroup_fields(1,2) [OF U(1)] ..
  have unproven: "rr_unproven (plain_receipt_report rp d) = [] \<longleftrightarrow> (\<forall>c\<in>set (sorted_cards d). infix_of (lit dismissal_key) (sc_metadata c)
      \<longrightarrow> unproven_entries rp (dismissed_members d (sort_key receipt_less (ad_receipts d))) c = [])" for d
    by (auto simp: plain_receipt_report_def Let_def)
  have "rr_unproven (plain_receipt_report rp db') = []"
    using rr(3) unfolding plain unproven cards same dismissed by (simp add: entries regroup_fields(2) [OF U(1)])
  moreover have "rr_fan_in (plain_receipt_report rp db') = rr_fan_in rr" "rr_invalid (plain_receipt_report rp db') = []"
    unfolding plain by (simp_all add: plain_receipt_report_def Let_def same fan_of)
  ultimately have receipt_part: "rr_unproven (plain_receipt_report rp db') = []"
    "rr_fan_in (plain_receipt_report rp db') = rr_fan_in rr" "rr_invalid (plain_receipt_report rp db') = []" by blast+
  have "set (project_state_fan_in rp (sorted_cards db') db' agents) = set (project_state_fan_in rp (sorted_cards db) db agents)"
    using same(4) by (auto simp: project_state_fan_in_def cards regrouped_audited [OF U(1)] same(3))
  then have fan: "fan_in_links rp db' agents (plain_receipt_report rp db') = fan_in_links rp db agents rr"
    by (simp add: fan_in_links_def receipt_part(2))
  let ?F = "fan_in_links rp db agents rr"
  note c = clean [unfolded clean_authority_def]
  have "sound_groups (sorted_cards db') (lf_referenced (check_links (sorted_cards db') ?F))"
  proof -
    have un: "unsuperseded (lf_referenced (check_links (sorted_cards db') ?F)) = unsuperseded (referenced (sorted_cards db'))"
      by (rule ext) (simp add: unsuperseded_def referenced_def referenced_set)
    show ?thesis using sound unfolding sound_groups_def un .
  qed
  moreover have "acyclic (links (set (sorted_cards db')))" using c unfolding cards regrouped_links [OF U(1)] by blast
  moreover have "proper_links (sorted_cards db') ?F" "uniform_edges (sorted_cards db') agents ?F"
    "one_head (sorted_cards db') (lf_referenced (check_links (sorted_cards db') ?F)) agents"
    using c regrouped_proper [OF U(1), of "sorted_cards db" ?F ?F] regrouped_uniform [OF U(1), of "sorted_cards db" agents ?F ?F]
      regrouped_heads [OF U(1), of "sorted_cards db" ?F agents ?F] unfolding cards by blast+
  ultimately have "clean_authority (sorted_cards db') ?F agents" by (simp add: clean_authority_def)
  then show ?thesis using report_ok_iff [OF dist(2) agents rr'] receipt_part by (simp add: fan)
qed

end
