(* ===== verification/Conflict_Components.thy ===== *)
theory Conflict_Components
  imports Conflict_Regrouping
begin

text \<open>
  The components a pass computes are the classes of the conflict graph: two Cards of a boundary are in one component exactly when
  a chain of conflicting pairs and complete durable groups joins them.  The components of a pass are disjoint.
\<close>

section \<open>One component\<close>

lemma component_loop_visits:
  assumes "component_loop clock g pending seen b = (b', Some seen')" "distinct seen"
    and "\<forall>n\<in>set seen. set (targets g n) \<subseteq> set seen \<union> set pending"
  shows "distinct seen' \<and> set seen \<union> set pending \<subseteq> set seen' \<and> set seen' \<subseteq> (edge g)\<^sup>* `` (set seen \<union> set pending)
    \<and> (\<forall>n\<in>set seen'. set (targets g n) \<subseteq> set seen')"
  using assms
proof (induction clock g pending seen b arbitrary: b' seen' rule: component_loop.induct)
  case (1 clock g seen b)
  then show ?case by auto
next
  case (2 clock g n pending seen b)
  show ?case
  proof (cases "n \<in> set seen")
    case True
    with 2(3) have run: "component_loop clock g pending seen b = (b', Some seen')" by simp
    have closed: "\<forall>m\<in>set seen. set (targets g m) \<subseteq> set seen \<union> set pending" using 2(5) True by auto
    have eq: "set seen \<union> set (n # pending) = set seen \<union> set pending" using True by auto
    show ?thesis using "2.IH"(1) [OF True run 2(4) closed] unfolding eq .
  next
    case False
    obtain b1 ok where take: "consume_component_member clock b = (b1, ok)" by fastforce
    with 2(3) False have ok and run: "component_loop clock g (rev (targets g n) @ pending) (n # seen) b1 = (b', Some seen')"
      by (simp_all split: if_splits)
    have closed: "\<forall>m\<in>set (n # seen). set (targets g m) \<subseteq> set (n # seen) \<union> set (rev (targets g n) @ pending)"
      using 2(5) by auto
    have "distinct (n # seen)" using 2(4) False by simp
    from "2.IH"(2) [OF False take [symmetric] \<open>ok\<close> run this closed]
    have ih: "distinct seen'" "set (n # seen) \<union> set (rev (targets g n) @ pending) \<subseteq> set seen'"
      "set seen' \<subseteq> (edge g)\<^sup>* `` (set (n # seen) \<union> set (rev (targets g n) @ pending))"
      "\<forall>m\<in>set seen'. set (targets g m) \<subseteq> set seen'" by blast+
    have "(edge g)\<^sup>* `` set (targets g n) \<subseteq> (edge g)\<^sup>* `` {n}"
      by (auto simp: edge_def intro: converse_rtrancl_into_rtrancl)
    then have "(edge g)\<^sup>* `` (set (n # seen) \<union> set (rev (targets g n) @ pending)) \<subseteq> (edge g)\<^sup>* `` (set seen \<union> set (n # pending))"
      by auto
    with ih show ?thesis by auto
  qed
qed

text \<open>The class of a Card.\<close>

definition class_of :: "pystr graph \<Rightarrow> pystr \<Rightarrow> pystr set" where
  "class_of g s = (edge g)\<^sup>* `` {s}"

lemma component_loop_class:
  assumes "component_loop clock g [s] [] b = (b', Some seen)"
  shows "distinct seen" "set seen = class_of g s"
proof -
  from component_loop_visits [OF assms] have inv: "distinct seen" "s \<in> set seen" "set seen \<subseteq> class_of g s"
    "\<forall>n\<in>set seen. set (targets g n) \<subseteq> set seen" by (auto simp: class_of_def)
  show "distinct seen" by (rule inv(1))
  have "x \<in> set seen" if "(s, x) \<in> (edge g)\<^sup>*" for x
    using that inv(2,4) by (induction rule: rtrancl_induct) (auto simp: edge_def)
  with inv(3) show "set seen = class_of g s" by (auto simp: class_of_def)
qed

lemma class_disjoint:
  assumes "sym (edge g)" "t \<notin> class_of g s"
  shows "class_of g s \<inter> class_of g t = {}"
proof (rule ccontr)
  assume "class_of g s \<inter> class_of g t \<noteq> {}"
  then obtain x where "(s, x) \<in> (edge g)\<^sup>*" "(t, x) \<in> (edge g)\<^sup>*" by (auto simp: class_of_def)
  moreover have "sym ((edge g)\<^sup>*)" by (rule sym_rtrancl [OF assms(1)])
  ultimately have "(s, t) \<in> (edge g)\<^sup>*" by (meson rtrancl_trans symD)
  with assms(2) show False by (simp add: class_of_def)
qed

section \<open>The components of a boundary\<close>

definition disjoint_members :: "component list \<Rightarrow> bool" where
  "disjoint_members cs \<longleftrightarrow> sorted_wrt (\<lambda>c d. set (cm_members c) \<inter> set (cm_members d) = {}) cs"

lemma disjoint_append:
  "disjoint_members (cs @ ds) \<longleftrightarrow> disjoint_members cs \<and> disjoint_members ds
     \<and> (\<forall>c\<in>set cs. \<forall>d\<in>set ds. set (cm_members c) \<inter> set (cm_members d) = {})"
  by (simp add: disjoint_members_def sorted_wrt_append)

lemma disjoint_one [simp]: "disjoint_members []" "disjoint_members [c]"
  by (simp_all add: disjoint_members_def)

lemma scan_seeds_Cons:
  assumes "scan_seeds clock rec g (s # ss) unseen b = Inr (cs, d, ok, b')" "s \<in> unseen"
  obtains (stopped) "cs = []"
    | (scanned) b1 seen one rest d' where "component_loop clock g [s] [] b = (b1, Some seen)"
        "scan_seeds clock rec g ss (unseen - set seen) b1 = Inr (rest, d', ok, b')" "cs = one @ rest"
        "one = [] \<or> (\<exists>c. one = [c] \<and> 2 \<le> length seen \<and> rec seen = Inr (Some c))"
proof -
  obtain b1 r where loop: "component_loop clock g [s] [] b = (b1, r)" by fastforce
  show thesis
  proof (cases r)
    case None
    with assms loop have "cs = []" by (simp del: component_loop.simps)
    then show thesis by (rule stopped)
  next
    case (Some seen)
    define X where "X = (if length seen < 2 then Inr ([], 0) else bindE (rec seen) (\<lambda>r. Inr (case r of None \<Rightarrow> ([], 1 :: nat) | Some c \<Rightarrow> ([c], 0))))"
    have "bindE X (\<lambda>(cs, d). bindE (scan_seeds clock rec g ss (unseen - set seen) b1) (\<lambda>(rest, d', ok, b2). Inr (cs @ rest, d + d', ok, b2)))
        = Inr (cs, d, ok, b')"
      using assms loop Some by (simp add: X_def del: component_loop.simps)
    then obtain one d1 rest d' where parts: "X = Inr (one, d1)"
      "scan_seeds clock rec g ss (unseen - set seen) b1 = Inr (rest, d', ok, b')" "cs = one @ rest" by auto
    have "one = [] \<or> (\<exists>c. one = [c] \<and> 2 \<le> length seen \<and> rec seen = Inr (Some c))"
      using parts(1) unfolding X_def by (auto split: if_splits option.splits)
    from scanned [OF _ parts(2,3) this] loop Some show thesis by simp
  qed
qed

text \<open>Every component found is the class of an unseen seed, and the classes are disjoint.\<close>

definition found_at :: "(pystr list \<Rightarrow> py_error + component option) \<Rightarrow> pystr graph \<Rightarrow> pystr set \<Rightarrow> component \<Rightarrow> bool" where
  "found_at rec g A c \<longleftrightarrow> (\<exists>s\<in>A. \<exists>seen. set (cm_members c) = class_of g s \<and> set seen = class_of g s \<and> distinct seen
     \<and> 2 \<le> length seen \<and> rec seen = Inr (Some c))"

lemma found_mono: "found_at rec g A c \<Longrightarrow> A \<subseteq> B \<Longrightarrow> found_at rec g B c"
  unfolding found_at_def by blast

lemma scan_seeds_classes:
  assumes "scan_seeds clock rec g ss unseen b = Inr (cs, d, ok, b')" "sym (edge g)"
    and "\<And>seen c. rec seen = Inr (Some c) \<Longrightarrow> set (cm_members c) = set seen"
  shows "disjoint_members cs \<and> (\<forall>c\<in>set cs. found_at rec g (set ss \<inter> unseen) c)"
  using assms
proof (induction ss arbitrary: unseen b cs d ok b')
  case (Cons s ss)
  show ?case
  proof (cases "s \<in> unseen")
    case False
    with Cons.prems(1) have "scan_seeds clock rec g ss unseen b = Inr (cs, d, ok, b')" by simp
    from Cons.IH [OF this Cons.prems(2,3)] show ?thesis by (auto intro: found_mono)
  next
    case True
    from scan_seeds_Cons [OF Cons.prems(1) True] show ?thesis
    proof cases
      case 1
      then show ?thesis by simp
    next
      case scanned: (2 b1 seen one rest d')
      note cls = component_loop_class [OF scanned(1)]
      note ih = Cons.IH [OF scanned(2) Cons.prems(2,3)]
      have apart: "class_of g s \<inter> set (cm_members c) = {}" if "c \<in> set rest" for c
      proof -
        from ih that obtain t where "t \<in> set ss \<inter> (unseen - set seen)" "set (cm_members c) = class_of g t"
          unfolding found_at_def by blast
        with class_disjoint [OF Cons.prems(2), of t s] cls(2) show ?thesis by auto
      qed
      have one: "set (cm_members c) = class_of g s \<and> found_at rec g (set (s # ss) \<inter> unseen) c" if "c \<in> set one" for c
      proof -
        from that scanned(4) have c: "2 \<le> length seen" "rec seen = Inr (Some c)" by auto
        with Cons.prems(3) [of seen c] cls(2) have members: "set (cm_members c) = class_of g s" by simp
        have "s \<in> set (s # ss) \<inter> unseen" using True by simp
        with c members cls show ?thesis unfolding found_at_def by blast
      qed
      have "disjoint_members one" using scanned(4) by auto
      with ih apart one have "disjoint_members cs" unfolding scanned(3) disjoint_append by auto
      moreover have "found_at rec g (set (s # ss) \<inter> unseen) c" if "c \<in> set cs" for c
      proof -
        from that consider "c \<in> set one" | "c \<in> set rest" unfolding scanned(3) by auto
        then show ?thesis
        proof cases
          case 2
          with ih have "found_at rec g (set ss \<inter> (unseen - set seen)) c" by blast
          then show ?thesis by (rule found_mono) auto
        qed (use one in blast)
      qed
      ultimately show ?thesis by blast
    qed
  qed
qed simp

section \<open>The conflict graph\<close>

text \<open>The stars of all groups together.\<close>

lemma group_stars_edges:
  obtains S where "edge (fold group_star mss g) = edge g \<union> S" "S \<subseteq> (\<Union>ms\<in>set mss. set ms \<times> set ms)" "sym S"
    "\<forall>ms\<in>set mss. \<forall>x\<in>set ms. \<forall>y\<in>set ms. (x, y) \<in> S\<^sup>*"
proof (induction mss arbitrary: g thesis)
  case Nil
  then show ?case using Nil.prems [of "{}"] by (simp add: sym_def)
next
  case (Cons ms mss)
  obtain S where S: "edge (group_star ms g) = edge g \<union> S" "S \<subseteq> set ms \<times> set ms" "sym S" "\<forall>x\<in>set ms. \<forall>y\<in>set ms. (x, y) \<in> S\<^sup>*"
    by (rule group_star_edges)
  obtain T where T: "edge (fold group_star mss (group_star ms g)) = edge (group_star ms g) \<union> T"
    "T \<subseteq> (\<Union>ms\<in>set mss. set ms \<times> set ms)" "sym T" "\<forall>ms\<in>set mss. \<forall>x\<in>set ms. \<forall>y\<in>set ms. (x, y) \<in> T\<^sup>*"
    by (rule Cons.IH)
  have "S\<^sup>* \<subseteq> (S \<union> T)\<^sup>*" "T\<^sup>* \<subseteq> (S \<union> T)\<^sup>*" by (simp_all add: rtrancl_mono)
  then have "\<forall>l\<in>set (ms # mss). \<forall>x\<in>set l. \<forall>y\<in>set l. (x, y) \<in> (S \<union> T)\<^sup>*" using S(4) T(4) by auto
  moreover have "sym (S \<union> T)" using S(3) T(3) by (simp add: sym_Un)
  moreover have "S \<union> T \<subseteq> (\<Union>l\<in>set (ms # mss). set l \<times> set l)" using S(2) T(2) by auto
  ultimately show ?case using Cons.prems [of "S \<union> T"] S(1) T(1) by (simp add: Un_assoc)
qed

text \<open>Two Cards are peers when they are in one complete group or conflict with each other.\<close>

definition peers :: "(card \<Rightarrow> signature) \<Rightarrow> pystr set \<Rightarrow> bool \<Rightarrow> card \<Rightarrow> card \<Rightarrow> bool" where
  "peers sig wholes full c d \<longleftrightarrow> sc_id c \<noteq> sc_id d \<and> conflicting full (sig c) (sig d)
     \<or> conflict_group c = conflict_group d \<and> conflict_group c \<noteq> [] \<and> conflict_group c \<in> wholes"

lemma conflicting_sym: "conflicting full l r = conflicting full r l"
  unfolding conflicting_def types_compatible_def Let_def by (auto simp: eq_commute)

lemma no_edges_edge [simp]: "edge (no_edges cards) = {}"
proof -
  have "oget (no_edges cards) n = None \<or> oget (no_edges cards) n = Some []" for n
    by (induction cards) (auto simp: no_edges_def)
  then have "targets (no_edges cards) n = []" for n by (metis option.case targets_def)
  then show ?thesis by (simp add: edge_def)
qed

lemma adjacency_edges:
  assumes run: "conflict_adjacency clock sig cards wholes full b = (b', g, True)" and dist: "distinct (map sc_id cards)"
  shows "sym (edge g)"
    and "(x, y) \<in> edge g \<Longrightarrow> \<exists>c\<in>set cards. \<exists>d\<in>set cards. x = sc_id c \<and> y = sc_id d \<and> peers sig wholes full c d"
    and "c \<in> set cards \<Longrightarrow> d \<in> set cards \<Longrightarrow> peers sig wholes full c d \<Longrightarrow> (sc_id c, sc_id d) \<in> (edge g)\<^sup>*"
proof -
  let ?mss = "map snd (existing_group_members cards wholes)" and ?ps = "pairs (sort_key cd_rowid cards)"
  let ?C = "{(x, y) |x y l r. (l, r) \<in> set ?ps \<and> conflicting full (sig l) (sig r) \<and> (x = sc_id l \<and> y = sc_id r \<or> x = sc_id r \<and> y = sc_id l)}"
  obtain S where S: "edge (fold group_star ?mss (no_edges cards)) = edge (no_edges cards) \<union> S"
    "S \<subseteq> (\<Union>ms\<in>set ?mss. set ms \<times> set ms)" "sym S" "\<forall>ms\<in>set ?mss. \<forall>x\<in>set ms. \<forall>y\<in>set ms. (x, y) \<in> S\<^sup>*" by (rule group_stars_edges)
  have edges: "edge g = S \<union> ?C"
    using compare_pairs_edges [OF run [unfolded conflict_adjacency_def]] S(1) by simp
  have members: "\<exists>k. set ms = members_in cards wholes k" if ms: "ms \<in> set ?mss" for ms
  proof -
    from ms obtain k where k: "(k, ms) \<in> set (existing_group_members cards wholes)" by auto
    with existing_group_keys have "oget (existing_group_members cards wholes) k = Some ms" by (simp add: map_of_eq_Some_iff)
    with existing_group_set [of cards wholes k] show ?thesis by (auto split: if_splits)
  qed
  have dist': "distinct (sort_key cd_rowid cards)" using dist by (simp add: distinct_map)
  have "sym ?C" by (rule symI) auto
  with S(3) show "sym (edge g)" unfolding edges by (rule sym_Un)
  { assume "(x, y) \<in> edge g"
    then consider "(x, y) \<in> S" | "(x, y) \<in> ?C" unfolding edges by blast
    then show "\<exists>c\<in>set cards. \<exists>d\<in>set cards. x = sc_id c \<and> y = sc_id d \<and> peers sig wholes full c d"
    proof cases
      case 1
      with S(2) obtain ms where ms: "ms \<in> set ?mss" "x \<in> set ms" "y \<in> set ms" by blast
      with members obtain k where k: "x \<in> members_in cards wholes k" "y \<in> members_in cards wholes k" by blast
      from k(1) obtain c where c: "c \<in> set cards" "x = sc_id c" "conflict_group c = k" "k \<noteq> []" "k \<in> wholes"
        by (auto simp: members_in_def)
      from k(2) obtain d where d: "d \<in> set cards" "y = sc_id d" "conflict_group d = k" by (auto simp: members_in_def)
      have "peers sig wholes full c d" using c d by (simp add: peers_def)
      with c d show ?thesis by blast
    next
      case 2
      then obtain l r where lr: "(l, r) \<in> set ?ps" "conflicting full (sig l) (sig r)" "x = sc_id l \<and> y = sc_id r \<or> x = sc_id r \<and> y = sc_id l"
        by blast
      have "l \<in> set cards" "r \<in> set cards" "l \<noteq> r" using in_pairs [OF lr(1)] pairs_distinct [OF dist' lr(1)] by auto
      moreover from this have "sc_id l \<noteq> sc_id r" using sc_id_inj [OF dist, of l r] by blast
      moreover have "conflicting full (sig r) (sig l)" using lr(2) conflicting_sym by blast
      ultimately show ?thesis using lr unfolding peers_def by metis
    qed }
  assume c: "c \<in> set cards" "d \<in> set cards" and peers: "peers sig wholes full c d"
  from peers consider "sc_id c \<noteq> sc_id d" "conflicting full (sig c) (sig d)"
    | "conflict_group c = conflict_group d" "conflict_group c \<noteq> []" "conflict_group c \<in> wholes" unfolding peers_def by blast
  then show "(sc_id c, sc_id d) \<in> (edge g)\<^sup>*"
  proof cases
    case 1
    then have "c \<noteq> d" by blast
    with c all_pairs [of c "sort_key cd_rowid cards" d] have "(c, d) \<in> set ?ps \<or> (d, c) \<in> set ?ps" by simp
    moreover have "conflicting full (sig d) (sig c)" using 1(2) conflicting_sym by blast
    ultimately have "(sc_id c, sc_id d) \<in> ?C" using 1(2) by blast
    then show ?thesis unfolding edges by blast
  next
    case 2
    let ?k = "conflict_group c"
    from existing_group_set [of cards wholes ?k] obtain ms where ms: "oget (existing_group_members cards wholes) ?k = (if ms = [] then None else Some ms)"
      "set ms = members_in cards wholes ?k" by blast
    have in_ms: "sc_id c \<in> set ms" "sc_id d \<in> set ms" using c 2 unfolding ms(2) members_in_def by auto
    then have "oget (existing_group_members cards wholes) ?k = Some ms" using ms(1) by (auto split: if_splits)
    then have "ms \<in> set ?mss" by (force dest: map_of_SomeD)
    with S(4) in_ms have "(sc_id c, sc_id d) \<in> S\<^sup>*" by blast
    then show ?thesis unfolding edges using rtrancl_mono [of S "S \<union> ?C"] by blast
  qed
qed

end
