(* ===== verification/Detection_Steps.thy ===== *)
theory Detection_Steps
  imports Conflict_Components
begin

text \<open>
  The groups of a database as a grouping, and what the writes of a pass do to it: the clearing of a dismissed component and the
  assignment of a group to a component are the abstract clearing and assignment, so they keep the grouping sound.
\<close>

section \<open>The grouping of a database\<close>

definition group_view :: "card list \<Rightarrow> pystr \<Rightarrow> pystr option" where
  "group_view cards i = (case find_card i cards of None \<Rightarrow> None | Some c \<Rightarrow> cd_group c)"

definition boundary_view :: "card list \<Rightarrow> pystr \<Rightarrow> (pystr \<times> pystr \<times> pystr) option" where
  "boundary_view cards i = map_option conflict_boundary (find_card i cards)"

definition state_view :: "card list \<Rightarrow> pystr \<Rightarrow> bool" where
  "state_view cards i \<longleftrightarrow> (\<exists>c. find_card i cards = Some c \<and> member_type c = project_state_type)"

definition current_view :: "card list \<Rightarrow> pystr set" where
  "current_view cards = {i. \<exists>c. find_card i cards = Some c \<and> unsuperseded (referenced cards) c}"

abbreviation sound_view :: "card list \<Rightarrow> bool" where
  "sound_view cards \<equiv> valid_grouping (boundary_view cards) (state_view cards) (current_view cards) (group_view cards)"

definition backlinked :: "card list \<Rightarrow> bool" where
  "backlinked cards \<longleftrightarrow> (\<forall>c\<in>set cards. predecessor c \<noteq> [] \<longrightarrow> (\<exists>d. find_card (predecessor c) cards = Some d \<and> successor d = sc_id c))"

definition sound_db :: "authority_db \<Rightarrow> bool" where
  "sound_db db \<longleftrightarrow> wf_authority db \<and> backlinked (ad_cards db) \<and> gn.named (group_view (ad_cards db)) \<and> sound_view (ad_cards db)"

lemma group_viewD: "group_view cards i = Some g \<Longrightarrow> \<exists>c\<in>set cards. find_card i cards = Some c \<and> sc_id c = i \<and> cd_group c = Some g"
  by (auto simp: group_view_def dest: find_cardD split: option.splits)

lemma group_view_card: "distinct (map sc_id cards) \<Longrightarrow> c \<in> set cards \<Longrightarrow> group_view cards (sc_id c) = cd_group c"
  by (simp add: group_view_def find_card_distinct)

text \<open>A generated name is stored as it is compared.\<close>

lemma named_group:
  assumes "gn.named (group_view cards)" "distinct (map sc_id cards)" "c \<in> set cards"
  shows "conflict_group c = or_empty (cd_group c)" "conflict_group c \<noteq> [] \<longleftrightarrow> cd_group c \<noteq> None"
    "g \<noteq> [] \<Longrightarrow> conflict_group c = g \<longleftrightarrow> cd_group c = Some g"
proof -
  have "g \<noteq> [] \<and> py_strip g = g" if "cd_group c = Some g" for g
    using gn.named_proper [OF assms(1), of "sc_id c" g] group_view_card [OF assms(2,3)] that by simp
  then show "conflict_group c = or_empty (cd_group c)" "conflict_group c \<noteq> [] \<longleftrightarrow> cd_group c \<noteq> None"
    "g \<noteq> [] \<Longrightarrow> conflict_group c = g \<longleftrightarrow> cd_group c = Some g"
    by (cases "cd_group c"; simp add: conflict_group_def py_strip_def)+
qed

lemma sound_groups_view:
  assumes named: "gn.named (group_view cards)" and dist: "distinct (map sc_id cards)"
  shows "sound_groups cards (referenced cards) \<longleftrightarrow> sound_view cards"
proof
  note ng = named_group [OF named dist]
  assume sound: "sound_groups cards (referenced cards)"
  show "sound_view cards"
  proof (rule valid_groupingI)
    fix i g
    assume "group_view cards i = Some g"
    then obtain c where c: "c \<in> set cards" "find_card i cards = Some c" "sc_id c = i" "cd_group c = Some g" using group_viewD by blast
    have g: "conflict_group c \<noteq> []" using ng(2) [OF c(1)] c(4) by simp
    with sound c(1) have "\<exists>d\<in>set cards. sc_id d \<noteq> sc_id c \<and> conflict_group d = conflict_group c"
      and all: "\<And>d. d \<in> set cards \<Longrightarrow> conflict_group d = conflict_group c \<Longrightarrow>
        unsuperseded (referenced cards) d \<and> conflict_boundary d = conflict_boundary c"
      and types: "\<And>d e. d \<in> set cards \<Longrightarrow> conflict_group d = conflict_group c \<Longrightarrow> e \<in> set cards \<Longrightarrow> conflict_group e = conflict_group c \<Longrightarrow>
        member_type d = project_state_type \<Longrightarrow> member_type e = project_state_type"
      unfolding sound_groups_def by blast+
    have same: "conflict_group d = conflict_group c \<longleftrightarrow> cd_group d = Some g" if "d \<in> set cards" for d
      using ng(3) [OF that g] ng(3) [OF c(1), of "conflict_group c"] g c(4) by simp
    show "i \<in> current_view cards" using all [OF c(1) refl] c(2) by (auto simp: current_view_def)
    from \<open>\<exists>d\<in>set cards. _\<close> obtain d where d: "d \<in> set cards" "sc_id d \<noteq> sc_id c" "conflict_group d = conflict_group c" by blast
    then have "group_view cards (sc_id d) = Some g" using same [OF d(1)] group_view_card [OF dist d(1)] by simp
    then show "\<exists>j. j \<noteq> i \<and> group_view cards j = Some g" using d(2) c(3) by blast
    fix j
    assume "group_view cards j = Some g"
    then obtain e where e: "e \<in> set cards" "find_card j cards = Some e" "cd_group e = Some g" using group_viewD by blast
    then have "conflict_group e = conflict_group c" using same by blast
    with all [OF e(1)] types [OF e(1) _ c(1) refl] types [OF c(1) refl e(1)] c(2) e(2)
    show "boundary_view cards j = boundary_view cards i \<and> state_view cards j = state_view cards i"
      by (auto simp: boundary_view_def state_view_def)
  qed
next
  note ng = named_group [OF named dist]
  assume valid: "sound_view cards"
  show "sound_groups cards (referenced cards)"
    unfolding sound_groups_def
  proof (intro ballI conjI impI)
    fix c
    assume c: "c \<in> set cards"
    { assume "cd_group c \<noteq> None"
      then show "conflict_group c \<noteq> []" using ng(2) [OF c] by simp }
    assume g: "conflict_group c \<noteq> []"
    note fc = find_card_distinct [OF dist c]
    have view: "group_view cards (sc_id d) = Some (conflict_group c)" if "d \<in> set cards" "conflict_group d = conflict_group c" for d
      using ng(3) [OF that(1) g] that(2) group_view_card [OF dist that(1)] by simp
    note v = valid_groupingD [OF valid view [OF c refl]]
    from v(2) obtain j where j: "j \<noteq> sc_id c" "group_view cards j = Some (conflict_group c)" by blast
    then obtain e where e: "e \<in> set cards" "sc_id e = j" "cd_group e = Some (conflict_group c)" using group_viewD by blast
    then show "\<exists>d\<in>set cards. sc_id d \<noteq> sc_id c \<and> conflict_group d = conflict_group c" using j(1) ng(3) [OF e(1) g] by auto
    fix d
    assume d: "d \<in> set cards" "conflict_group d = conflict_group c"
    note fd = find_card_distinct [OF dist d(1)]
    show "unsuperseded (referenced cards) d" using valid_groupingD(1) [OF valid view [OF d]] fd by (auto simp: current_view_def)
    show "conflict_boundary d = conflict_boundary c" using v(3) [OF view [OF d]] fc fd by (simp add: boundary_view_def)
    fix e
    assume e: "e \<in> set cards" "conflict_group e = conflict_group c \<and> member_type d = project_state_type"
    then show "member_type e = project_state_type"
      using v(3) [OF view [OF d]] v(3) [OF view [of e]] fd find_card_distinct [OF dist e(1)] by (simp add: state_view_def)
  qed
qed

text \<open>Neither the order of the rows nor a change of groups matters to the rest of the view.\<close>

lemma sound_groups_sorted: "sound_groups (sorted_cards db) (referenced (sorted_cards db)) \<longleftrightarrow> sound_groups (ad_cards db) (referenced (ad_cards db))"
proof -
  have "unsuperseded (referenced (sorted_cards db)) = unsuperseded (referenced (ad_cards db))"
    by (rule ext) (simp add: unsuperseded_def referenced_def referenced_set)
  then show ?thesis unfolding sound_groups_def by simp
qed

lemma regrouped_cards:
  assumes "regrouped db db'" "wf_authority db"
  obtains U where "only_groups U" "ad_cards db' = map U (ad_cards db)"
  using regrouped_map [of "ad_cards db'" "ad_cards db"] assms unfolding regrouped_def wf_authority_def by metis

lemma regrouped_views:
  assumes "regrouped db db'" "wf_authority db"
  shows "boundary_view (ad_cards db') = boundary_view (ad_cards db)" "state_view (ad_cards db') = state_view (ad_cards db)"
    "current_view (ad_cards db') = current_view (ad_cards db)" "backlinked (ad_cards db) \<Longrightarrow> backlinked (ad_cards db')"
    "set (map sc_id (ad_cards db')) = set (map sc_id (ad_cards db))"
proof -
  obtain U where U: "only_groups U" "ad_cards db' = map U (ad_cards db)" by (rule regrouped_cards [OF assms])
  note found = regrouped_find [OF U(1), of _ "ad_cards db"] and fields = regroup_fields [OF U(1)]
  have ref: "unsuperseded (referenced (ad_cards db')) (U c) = unsuperseded (referenced (ad_cards db)) c" for c
    unfolding referenced_def U(2) by (rule regrouped_unsuperseded [OF U(1)])
  show "boundary_view (ad_cards db') = boundary_view (ad_cards db)"
    by (rule ext) (simp add: boundary_view_def U(2) found option.map_comp comp_def fields)
  show "state_view (ad_cards db') = state_view (ad_cards db)"
    by (rule ext) (auto simp: state_view_def U(2) found fields)
  show "current_view (ad_cards db') = current_view (ad_cards db)"
    using ref by (auto simp: current_view_def found U(2))
  show "backlinked (ad_cards db')" if "backlinked (ad_cards db)"
    using that unfolding backlinked_def U(2) by (auto simp: found fields)
  show "set (map sc_id (ad_cards db')) = set (map sc_id (ad_cards db))" by (auto simp: U(2) fields)
qed

lemma group_view_regroup:
  "group_view (ad_cards (regroup g now P db)) = put {i. \<exists>c. find_card i (ad_cards db) = Some c \<and> P c} g (group_view (ad_cards db))"
proof
  fix i
  have "find_card i (ad_cards (regroup g now P db))
      = map_option (\<lambda>c. if P c then c\<lparr>cd_group := g, cd_updated := now\<rparr> else c) (find_card i (ad_cards db))"
    unfolding regroup_def by simp (rule find_card_map, simp)
  then show "group_view (ad_cards (regroup g now P db)) i
      = put {i. \<exists>c. find_card i (ad_cards db) = Some c \<and> P c} g (group_view (ad_cards db)) i"
    by (auto simp: group_view_def put_def split: option.split)
qed

text \<open>A sound database stays sound as long as its view does.\<close>

lemma sound_dbI:
  assumes "sound_db db" "regrouped db db'" "gn.named (group_view (ad_cards db'))"
    "valid_grouping (boundary_view (ad_cards db)) (state_view (ad_cards db)) (current_view (ad_cards db)) (group_view (ad_cards db'))"
  shows "sound_db db'"
proof -
  have wf: "wf_authority db" using assms(1) by (simp add: sound_db_def)
  note v = regrouped_views [OF assms(2) wf]
  show ?thesis using assms regrouped_wf [OF assms(2) wf] v(4) unfolding sound_db_def v(1-3) by simp
qed

lemma sound_db_report:
  assumes "sound_db db"
  shows "sound_groups (sorted_cards db) (referenced (sorted_cards db))"
  using assms sound_groups_view [of "ad_cards db"] unfolding sound_groups_sorted sound_db_def wf_authority_def by blast

lemma clean_sound_db:
  assumes wf: "wf_authority db" and agents: "distinct (map fst agents)" and named: "gn.named (group_view (ad_cards db))"
    and report: "temporal_authority_report rp db agents [] = Inr a" "report_ok a"
  shows "sound_db db"
proof -
  have dist: "distinct (map sc_id (ad_cards db))" using wf by (simp add: wf_authority_def)
  obtain rr where clean: "clean_authority (sorted_cards db) (fan_in_links rp db agents rr) agents"
    by (rule clean_report_cases [OF dist agents report])
  let ?F = "fan_in_links rp db agents rr"
  have un: "unsuperseded (lf_referenced (check_links (sorted_cards db) ?F)) = unsuperseded (referenced (sorted_cards db))"
    by (rule ext) (simp add: unsuperseded_def referenced_def referenced_set)
  from clean have "sound_groups (sorted_cards db) (referenced (sorted_cards db))"
    unfolding clean_authority_def sound_groups_def un by blast
  then have "sound_view (ad_cards db)" using sound_groups_view [OF named dist] unfolding sound_groups_sorted by blast
  moreover have "backlinked (ad_cards db)"
    using clean unfolding clean_authority_def proper_links_def backlinked_def find_sorted [OF dist] sorted_cards_simps by blast
  ultimately show ?thesis using wf named by (simp add: sound_db_def)
qed

section \<open>Current Cards\<close>

lemma current_rows:
  assumes db: "sound_db db" and c: "c \<in> set (ad_cards db)"
  shows "row_current (ad_cards db) c \<longleftrightarrow> sc_id c \<in> current_view (ad_cards db)"
proof -
  have dist: "distinct (map sc_id (ad_cards db))" and clean: "\<forall>c\<in>set (ad_cards db). clean_id (sc_id c)"
    and linked: "backlinked (ad_cards db)" using db by (simp_all add: sound_db_def wf_authority_def)
  have ne: "sc_id d \<noteq> []" if "d \<in> set (ad_cards db)" for d using clean that by (simp add: clean_id_def)
  have "list_ex (\<lambda>d. cd_supersedes d = Some (sc_id c)) (ad_cards db) \<Longrightarrow> sc_id c \<in> set (referenced (ad_cards db))"
    using clean c unfolding referenced_def referenced_set by (force simp: list_ex_iff predecessor_def clean_id_def)
  moreover have "successor c \<noteq> []" if "sc_id c \<in> set (referenced (ad_cards db))"
  proof -
    from that obtain d where d: "d \<in> set (ad_cards db)" "predecessor d = sc_id c" unfolding referenced_def referenced_set by auto
    with linked ne [OF c] obtain e where "find_card (sc_id c) (ad_cards db) = Some e" "successor e = sc_id d"
      unfolding backlinked_def by metis
    with find_card_distinct [OF dist c] ne [OF d(1)] show ?thesis by simp
  qed
  ultimately show ?thesis
    using find_card_distinct [OF dist c] unfolding row_current_def current_view_def unsuperseded_def by auto
qed

end
