(* ===== verification/Detection_Stages.thy ===== *)
theory Detection_Stages
  imports Detection_Steps
begin

text \<open>
  The stages of a pass over a sound database: the clearing of orphaned groups finds nothing to do, and every component the scan finds
  is a uniform union of whole groups and ungrouped current Cards.
\<close>

section \<open>Counting\<close>

lemma count_terms:
  "oget (fold count_term keys d) k = (if k \<in> set keys then Some (length (filter ((=) k) keys) + (case oget d k of None \<Rightarrow> 0 | Some m \<Rightarrow> m))
     else oget d k)"
  by (induction keys arbitrary: d) (auto simp: count_term_def filter_empty_conv split: option.split)

lemma count_terms_keys: "distinct (map fst d) \<Longrightarrow> distinct (map fst (fold count_term keys d))"
  by (induction keys arbitrary: d) (auto simp: count_term_def)

lemma in_tally: "(k, n) \<in> set (tally keys) \<Longrightarrow> n = length (filter ((=) k) keys)"
proof -
  assume "(k, n) \<in> set (tally keys)"
  then have "oget (tally keys) k = Some n" using count_terms_keys [of "[]" keys] by (simp add: tally_def map_of_eq_Some_iff)
  then show ?thesis by (simp add: tally_def count_terms split: if_splits)
qed

lemma complete_keysD:
  "complete_keys clock cards clause ks b = Inr (found, b') \<Longrightarrow> k \<in> set found \<Longrightarrow>
    \<exists>n. (k, n) \<in> set ks \<and> length (filter (clause k) cards) = n"
proof (induction clock cards clause ks b arbitrary: found b' rule: complete_keys.induct)
  case (2 clock cards clause k' n ks b)
  from 2(2) obtain b1 rest b2 where run: "require_time clock b = Inr b1" "complete_keys clock cards clause ks b1 = Inr (rest, b2)"
    "found = (if bounded_count cards (clause k') n = n then k' # rest else rest)" by auto
  from 2(3) run(3) consider "k \<in> set rest" | "k = k'" "bounded_count cards (clause k') n = n" by (auto split: if_splits)
  then show ?case
  proof cases
    case 1
    from "2.IH" [OF run(1,2) this] show ?thesis by auto
  next
    case 2
    then have "length (filter (clause k) cards) = n" by (simp add: bounded_count_def min_def split: if_splits)
    with 2(1) show ?thesis by auto
  qed
qed simp

lemma rows_by_ids_set [simp]: "set (rows_by_ids cards ids) = {c \<in> set cards. sc_id c \<in> set ids}"
  by (auto simp: rows_by_ids_def)

lemma rows_by_ids_distinct: "distinct (map sc_id cards) \<Longrightarrow> distinct (map sc_id (rows_by_ids cards ids))"
  unfolding rows_by_ids_def by (rule distinct_map_filter) simp

text \<open>The members of a complete group are all selected.\<close>

lemma complete_group_rows:
  assumes run: "complete_groups clock cards rows b = Inr (gs, b')" "g \<in> set gs" and rows: "rows = rows_by_ids cards ids"
    and dist: "distinct (map sc_id cards)" and named: "gn.named (group_view cards)" and c: "c \<in> set cards" "cd_group c = Some g"
  shows "c \<in> set rows"
proof -
  from complete_keysD [OF run(1) [unfolded complete_groups_def] run(2)] obtain n where
    n: "(g, n) \<in> set (tally (filter (\<lambda>g. g \<noteq> []) (map conflict_group rows)))" "length (filter (in_group g) cards) = n" by blast
  have g: "g \<noteq> []" using named_group(2) [OF named dist c(1)] named_group(1) [OF named dist c(1)] c(2) by simp
  have "in_group g d = (g = conflict_group d)" if "d \<in> set cards" for d
    using named_group(3) [OF named dist that g] by (auto simp: in_group_def)
  then have "filter (\<lambda>d. g = conflict_group d) rows = filter (in_group g) rows" by (intro filter_cong) (auto simp: rows)
  moreover have "n = length (filter (\<lambda>d. g = conflict_group d) rows)"
    using in_tally [OF n(1)] g by (simp add: filter_map comp_def) (metis (no_types, lifting) filter_cong)
  ultimately have len: "length (filter (in_group g) cards) = length (filter (in_group g) rows)" using n(2) by simp
  have "distinct (filter (in_group g) rows)" "distinct (filter (in_group g) cards)"
    using rows_by_ids_distinct [OF dist, of ids] dist unfolding rows by (auto simp: distinct_map)
  moreover have "set (filter (in_group g) rows) \<subseteq> set (filter (in_group g) cards)" by (auto simp: rows)
  ultimately have "set (filter (in_group g) rows) = set (filter (in_group g) cards)"
    using len by (metis List.finite_set card_subset_eq distinct_card)
  then show ?thesis using c by (auto simp: in_group_def)
qed

lemma current_amongD:
  "current_among clock cards rows b = Inr (current, b') \<Longrightarrow> current = map sc_id (filter (row_current cards) rows)"
  by (auto simp: current_among_def)

lemma load_closureD:
  assumes "load_closure clock cards rows b = Inr (current, cs, b')"
  obtains b1 b2 where "current = map sc_id (filter (row_current cards) rows)" "complete_groups clock cards rows b1 = Inr (cs_groups cs, b2)"
  using assms current_amongD unfolding load_closure_def by (auto elim!: that)

section \<open>Nothing to clear\<close>

text \<open>Once it is late it stays late: the clock never runs backwards.\<close>

definition late :: "clock \<Rightarrow> budget \<Rightarrow> bool" where
  "late clock b \<longleftrightarrow> bg_deadline b < clock (bg_reads b)"

lemma has_time_late:
  assumes "mono clock" "has_time clock b = (b', ok)"
  shows "late clock b \<Longrightarrow> \<not> ok" "\<not> ok \<Longrightarrow> late clock b'"
proof -
  have "clock (bg_reads b) \<le> clock (Suc (bg_reads b))" by (rule monoD [OF assms(1)]) simp
  with assms(2) show "late clock b \<Longrightarrow> \<not> ok" "\<not> ok \<Longrightarrow> late clock b'"
    unfolding has_time_def late_def Let_def by (auto split: if_splits)
qed

definition quiet :: "clearing \<Rightarrow> clearing \<Rightarrow> bool" where
  "quiet s s' \<longleftrightarrow> cl_db s' = cl_db s \<and> cl_touched s' = cl_touched s \<and> cl_cleared s' = cl_cleared s"

lemma clear_blanks_quiet:
  assumes "clear_blanks clock now rows grouped s = (grouped', s')" "mono clock" "\<forall>c\<in>set rows. cd_group c \<noteq> None \<longrightarrow> conflict_group c \<noteq> []"
  shows "quiet s s' \<and> (late clock (cl_budget s') \<or> grouped' = fold join_group rows grouped)"
  using assms
proof (induction clock now rows grouped s rule: clear_blanks.induct)
  case (2 clock now c cs grouped s)
  obtain b ok where time: "has_time clock (cl_budget s) = (b, ok)" by fastforce
  show ?case
  proof (cases ok)
    case False
    with 2(3) time have "s' = s\<lparr>cl_budget := b\<rparr>" by simp
    with False has_time_late(2) [OF 2(4) time] show ?thesis by (simp add: quiet_def)
  next
    case True
    have not_blank: "\<not> (cd_group c \<noteq> None \<and> conflict_group c = [])" using 2(5) by auto
    then have run: "clear_blanks clock now cs (join_group c grouped) (s\<lparr>cl_budget := b\<rparr>) = (grouped', s')" using 2(3) time True by auto
    have "\<not> \<not> ok" using True by simp
    from "2.IH"(2) [OF time [symmetric] this not_blank run 2(4)] 2(5) show ?thesis by (simp add: quiet_def)
  qed
qed (simp add: quiet_def)

lemma joined_groups:
  "oget (fold join_group rows []) g = (let ids = map sc_id (filter (\<lambda>c. conflict_group c = g) rows) in if g = [] \<or> ids = [] then None else Some ids)"
  "distinct (map fst (fold join_group rows []))"
proof -
  have "oget (fold join_group rows d) g = (let ids = map sc_id (filter (\<lambda>c. conflict_group c = g) rows) in
      if g = [] \<or> ids = [] then oget d g else Some ((case oget d g of None \<Rightarrow> [] | Some l \<Rightarrow> l) @ ids))" for d
    by (induction rows arbitrary: d) (auto simp: join_group_def Let_def split: option.split)
  then show "oget (fold join_group rows []) g
      = (let ids = map sc_id (filter (\<lambda>c. conflict_group c = g) rows) in if g = [] \<or> ids = [] then None else Some ids)"
    by (simp add: Let_def)
  have "distinct (map fst (fold join_group rows d))" if "distinct (map fst d)" for d
    using that by (induction rows arbitrary: d) (auto simp: join_group_def Let_def)
  then show "distinct (map fst (fold join_group rows []))" by simp
qed

lemma regroup_none: "(\<And>c. c \<in> set (ad_cards db) \<Longrightarrow> \<not> P c) \<Longrightarrow> regroup g now P db = db"
proof -
  assume none: "\<And>c. c \<in> set (ad_cards db) \<Longrightarrow> \<not> P c"
  then have "map (\<lambda>c. if P c then c\<lparr>cd_group := g, cd_updated := now\<rparr> else c) (ad_cards db) = ad_cards db"
    by (intro map_idI) simp
  moreover have "filter P (ad_cards db) = []" using none by (simp add: filter_empty_conv)
  ultimately show ?thesis by (simp add: regroup_def)
qed

text \<open>The members of a complete group of a sound database belong together.\<close>

lemma whole_group_sound:
  assumes db: "sound_db db" and rows: "rows = rows_by_ids (ad_cards db) ids"
    and run: "complete_groups clock (ad_cards db) rows b = Inr (wholes, b')" "g \<in> set wholes"
    and members: "members = filter (\<lambda>c. conflict_group c = g) rows" "members \<noteq> []" "g \<noteq> []"
  shows "\<not> unsound_members members" "\<forall>c\<in>set members. row_current (ad_cards db) c"
proof -
  have dist: "distinct (map sc_id (ad_cards db))" and named: "gn.named (group_view (ad_cards db))" and valid: "sound_view (ad_cards db)"
    using db by (simp_all add: sound_db_def wf_authority_def)
  have in_db: "c \<in> set (ad_cards db) \<and> group_view (ad_cards db) (sc_id c) = Some g" if "c \<in> set members" for c
  proof -
    from that have c: "c \<in> set (ad_cards db)" "conflict_group c = g" by (auto simp: members(1) rows)
    then show ?thesis using named_group(3) [OF named dist c(1) members(3)] group_view_card [OF dist c(1)] by simp
  qed
  note v = valid_groupingD [OF valid]
  show "\<forall>c\<in>set members. row_current (ad_cards db) c" using in_db v(1) current_rows [OF db] by blast
  obtain c where c: "c \<in> set members" using members(2) by (cases members) auto
  have same: "conflict_boundary d = conflict_boundary c \<and> (member_type d = project_state_type \<longleftrightarrow> member_type c = project_state_type)"
    if d: "d \<in> set members" for d
    using v(3) [of "sc_id c" g "sc_id d"] in_db [OF c] in_db [OF d] find_card_distinct [OF dist, of c] find_card_distinct [OF dist, of d]
    by (simp add: boundary_view_def state_view_def)
  have two: "\<not> length members < 2"
  proof -
    from v(2) [of "sc_id c" g] in_db [OF c] obtain j where j: "j \<noteq> sc_id c" "group_view (ad_cards db) j = Some g" by blast
    then obtain d where d: "d \<in> set (ad_cards db)" "sc_id d = j" "cd_group d = Some g" using group_viewD by blast
    have "d \<in> set rows" by (rule complete_group_rows [OF run rows dist named d(1,3)])
    moreover have "conflict_group d = g" using named_group(3) [OF named dist d(1) members(3)] d(3) by simp
    ultimately have "d \<in> set members" by (simp add: members(1))
    moreover have "d \<noteq> c" using j(1) d(2) by blast
    ultimately have cd: "{c, d} \<subseteq> set members" "card {c, d} = 2" using c by simp_all
    have "card {c, d} \<le> card (set members)" by (rule card_mono) (simp_all only: cd finite_set)
    then show ?thesis using card_length [of members] cd(2) by linarith
  qed
  have "card (set (map conflict_boundary members)) \<le> card {conflict_boundary c}" by (rule card_mono) (use same in auto)
  then have "\<not> 1 < length (remdups (map conflict_boundary members))" by (simp add: length_remdups_card_conv del: set_map)
  moreover have "\<not> 1 < length (remdups (map member_type members))" if ps: "project_state_type \<in> set (map member_type members)"
  proof -
    from ps obtain e where "e \<in> set members" "member_type e = project_state_type" by auto
    with same have "member_type d = project_state_type" if "d \<in> set members" for d using that by blast
    then have "card (set (map member_type members)) \<le> card {project_state_type}" by (intro card_mono) auto
    then show ?thesis by (simp add: length_remdups_card_conv del: set_map)
  qed
  ultimately show "\<not> unsound_members members" using two by (auto simp: unsound_members_def)
qed

lemma clear_group_quiet:
  assumes db: "sound_db (cl_db s)" and rows: "rows = rows_by_ids (ad_cards (cl_db s)) ids"
    and run: "complete_groups clock (ad_cards (cl_db s)) rows b = Inr (wholes, b')"
    and current: "current = map sc_id (filter (row_current (ad_cards (cl_db s))) rows)"
    and item: "late clock (cl_budget s) \<or> (g \<noteq> [] \<and> js = map sc_id (filter (\<lambda>c. conflict_group c = g) rows) \<and> js \<noteq> [])"
    and clock: "mono clock"
  shows "quiet s (clear_group clock now rows current wholes (g, js) s)
    \<and> (late clock (cl_budget s) \<longrightarrow> late clock (cl_budget (clear_group clock now rows current wholes (g, js) s)))"
proof -
  obtain b1 ok where time: "has_time clock (cl_budget s) = (b1, ok)" by fastforce
  show ?thesis
  proof (cases "ok \<and> g \<in> set wholes")
    case False
    then show ?thesis
      using has_time_late [OF clock time] by (auto simp: clear_group_def time quiet_def)
  next
    case True
    then have g: "g \<noteq> []" "js = map sc_id (filter (\<lambda>c. conflict_group c = g) rows)" "js \<noteq> []" and not_late: "\<not> late clock (cl_budget s)"
      using item has_time_late(1) [OF clock time] by auto
    have dist: "distinct (map sc_id (ad_cards (cl_db s)))" using db by (simp add: sound_db_def wf_authority_def)
    have inj: "sc_id c \<in> sc_id ` A \<longleftrightarrow> c \<in> A" if "c \<in> set rows" "A \<subseteq> set rows" for c A
    proof
      assume "sc_id c \<in> sc_id ` A"
      then obtain d where d: "d \<in> A" "sc_id c = sc_id d" by blast
      with that have "d \<in> set rows" by blast
      with that(1) sc_id_inj [OF dist, of c d] d(2) have "c = d" by (simp add: rows)
      with d(1) show "c \<in> A" by simp
    qed simp
    let ?members = "filter (\<lambda>c. conflict_group c = g) rows"
    have ne: "?members \<noteq> []" using g(2,3) by auto
    note sound = whole_group_sound [OF db rows run _ refl ne g(1)]
    have all: "\<forall>i\<in>set js. i \<in> set current" using sound(2) True by (auto simp: g(2) current)
    have m1: "filter (\<lambda>c. sc_id c \<in> set js) rows = ?members"
    proof (rule filter_cong [OF refl])
      fix c
      assume "c \<in> set rows"
      with inj [of c "set ?members"] show "sc_id c \<in> set js \<longleftrightarrow> conflict_group c = g" by (simp add: g(2))
    qed
    have m2: "filter (\<lambda>c. sc_id c \<in> set current) ?members = ?members"
      using all by (intro filter_True) (simp add: g(2))
    have m3: "filter (\<lambda>i. i \<notin> set current) js = []" using all by (simp add: filter_empty_conv)
    have "clear_group clock now rows current wholes (g, js) s =
        (case can_mutate clock 0 b1 of (b2, ok1) \<Rightarrow> if \<not> ok1 then s\<lparr>cl_budget := b2, cl_deferred := Suc (cl_deferred s)\<rparr>
           else s\<lparr>cl_db := regroup None now (\<lambda>c. False) (cl_db s), cl_touched := cl_touched s, cl_cleared := cl_cleared s,
                  cl_budget := record_mutations 0 b2\<rparr>)"
      using sound(1) True unfolding clear_group_def time Let_def prod.case m1 m2 m3 by (cases "can_mutate clock 0 b1") simp
    then show ?thesis using not_late by (auto simp: quiet_def regroup_none split: prod.split)
  qed
qed

lemma clear_groups_quiet:
  assumes db: "sound_db (cl_db s)" and rows: "rows = rows_by_ids (ad_cards (cl_db s)) ids"
    and run: "complete_groups clock (ad_cards (cl_db s)) rows b = Inr (wholes, b')"
    and current: "current = map sc_id (filter (row_current (ad_cards (cl_db s))) rows)"
    and items: "late clock (cl_budget s) \<or> (\<forall>(g, js)\<in>set grouped. g \<noteq> [] \<and> js = map sc_id (filter (\<lambda>c. conflict_group c = g) rows) \<and> js \<noteq> [])"
    and clock: "mono clock"
  shows "quiet s (fold (clear_group clock now rows current wholes) grouped s)"
  using items db rows run current
proof (induction grouped arbitrary: s)
  case (Cons item grouped)
  obtain g js where item: "item = (g, js)" by (cases item)
  let ?s = "clear_group clock now rows current wholes (g, js) s"
  have "quiet s ?s \<and> (late clock (cl_budget s) \<longrightarrow> late clock (cl_budget ?s))"
    by (rule clear_group_quiet [OF Cons.prems(2,3,4,5) _ clock]) (use Cons.prems(1) item in auto)
  then have q: "quiet s ?s" "cl_db ?s = cl_db s" "late clock (cl_budget s) \<Longrightarrow> late clock (cl_budget ?s)" by (auto simp: quiet_def)
  have "quiet ?s (fold (clear_group clock now rows current wholes) grouped ?s)"
    by (rule Cons.IH) (use Cons.prems q item in auto)
  with q(1) show ?case by (simp add: item quiet_def)
qed (simp add: quiet_def)

text \<open>A sound database has no orphaned groups.\<close>

lemma clear_orphan_nothing:
  assumes db: "sound_db db" and rows: "rows = rows_by_ids (ad_cards db) ids"
    and run: "complete_groups clock (ad_cards db) rows b1 = Inr (wholes, b2)"
    and current: "current = map sc_id (filter (row_current (ad_cards db)) rows)" and clock: "mono clock"
  shows "cl_db (clear_orphan_conflict_groups clock now rows current wholes b db) = db"
    "cl_touched (clear_orphan_conflict_groups clock now rows current wholes b db) = []"
    "cl_cleared (clear_orphan_conflict_groups clock now rows current wholes b db) = []"
proof -
  have dist: "distinct (map sc_id (ad_cards db))" and named: "gn.named (group_view (ad_cards db))"
    using db by (simp_all add: sound_db_def wf_authority_def)
  let ?s0 = "\<lparr>cl_db = db, cl_budget = b, cl_touched = [], cl_cleared = [], cl_deferred = 0\<rparr>"
  obtain grouped s where blanks: "clear_blanks clock now rows [] ?s0 = (grouped, s)" by fastforce
  have "\<forall>c\<in>set rows. cd_group c \<noteq> None \<longrightarrow> conflict_group c \<noteq> []" using named_group(2) [OF named dist] by (simp add: rows)
  from clear_blanks_quiet [OF blanks clock this]
  have s: "quiet ?s0 s" "late clock (cl_budget s) \<or> grouped = fold join_group rows []" by blast+
  have "late clock (cl_budget s) \<or> (\<forall>(g, js)\<in>set grouped. g \<noteq> [] \<and> js = map sc_id (filter (\<lambda>c. conflict_group c = g) rows) \<and> js \<noteq> [])"
  proof (cases "late clock (cl_budget s)")
    case False
    with s(2) have grouped: "grouped = fold join_group rows []" by blast
    have "g \<noteq> [] \<and> js = map sc_id (filter (\<lambda>c. conflict_group c = g) rows) \<and> js \<noteq> []" if "(g, js) \<in> set grouped" for g js
    proof -
      from that joined_groups(2) [of rows] have "oget (fold join_group rows []) g = Some js" by (simp add: grouped map_of_eq_Some_iff)
      then show ?thesis unfolding joined_groups(1) Let_def by (auto split: if_splits)
    qed
    then show ?thesis by blast
  qed simp
  moreover have "cl_db s = db" using s(1) by (simp add: quiet_def)
  ultimately have "quiet s (fold (clear_group clock now rows current wholes) grouped s)"
    using db rows run current by (intro clear_groups_quiet [OF _ _ _ _ _ clock]) simp_all
  with s(1) blanks show "cl_db (clear_orphan_conflict_groups clock now rows current wholes b db) = db"
    "cl_touched (clear_orphan_conflict_groups clock now rows current wholes b db) = []"
    "cl_cleared (clear_orphan_conflict_groups clock now rows current wholes b db) = []"
    by (simp_all add: clear_orphan_conflict_groups_def quiet_def)
qed

section \<open>The components found\<close>

lemma component_recordD:
  assumes "component_record rp db cs rows bd seen = Inr (Some c)"
  shows "cm_members c = sort (remdups seen)" "cm_boundary c = bd" "closure_proven cs rows bd (cm_members c)"
    "conflict_component_fingerprint rows (cm_members c) = Inr (cm_fingerprint c)"
  using assms unfolding component_record_def Let_def by (auto split: if_splits)

lemma scan_boundary_found:
  assumes run: "scan_boundary clock sig rp db cs rows current bd b = Inr (found, d, ok, b')"
    and dist: "distinct (map sc_id rows)" and cards: "cards = filter (\<lambda>c. sc_id c \<in> set current \<and> conflict_boundary c = bd) rows"
  obtains (stopped) "found = []"
    | (scanned) b1 b2 g where "conflict_adjacency clock sig cards (set (cs_groups cs)) (bd \<in> set (cs_boundaries cs)) b1 = (b2, g, True)"
        "disjoint_members found" "\<forall>c\<in>set found. found_at (component_record rp db cs rows bd) g (sc_id ` set cards) c"
proof -
  obtain b1 g ok1 where adj: "conflict_adjacency clock sig cards (set (cs_groups cs)) (bd \<in> set (cs_boundaries cs)) b = (b1, g, ok1)"
    by (metis prod_cases3)
  show thesis
  proof (cases ok1)
    case False
    with run adj have "found = []" by (simp add: scan_boundary_def cards Let_def)
    then show thesis by (rule stopped)
  next
    case True
    let ?seeds = "map sc_id (filter (\<lambda>c. targets g (sc_id c) \<noteq> []) (sort_key cd_rowid cards))"
    from run adj True have scan: "scan_seeds clock (component_record rp db cs rows bd) g ?seeds (set ?seeds) b1 = Inr (found, d, ok, b')"
      by (simp add: scan_boundary_def cards Let_def del: set_map)
    have dist': "distinct (map sc_id cards)" unfolding cards by (rule distinct_map_filter [OF dist])
    from adj True have full: "conflict_adjacency clock sig cards (set (cs_groups cs)) (bd \<in> set (cs_boundaries cs)) b = (b1, g, True)" by simp
    have sym: "sym (edge g)" by (rule adjacency_edges(1) [OF full dist'])
    have "set (cm_members c) = set seen" if "component_record rp db cs rows bd seen = Inr (Some c)" for seen c
      using component_recordD(1) [OF that] by simp
    from scan_seeds_classes [OF scan sym this]
    have "disjoint_members found" "\<forall>c\<in>set found. found_at (component_record rp db cs rows bd) g (set ?seeds \<inter> set ?seeds) c" by blast+
    moreover have "set ?seeds \<inter> set ?seeds \<subseteq> sc_id ` set cards" by auto
    ultimately show thesis using scanned [OF full] found_mono by blast
  qed
qed

text \<open>What a pass relies on: a component is a uniform union of whole groups.\<close>

definition component_ok :: "card list \<Rightarrow> card list \<Rightarrow> pystr \<times> pystr \<times> pystr \<Rightarrow> component \<Rightarrow> bool" where
  "component_ok cards rows bd c \<longleftrightarrow> set (cm_members c) \<subseteq> sc_id ` set rows \<and> (\<forall>i\<in>set (cm_members c). boundary_view cards i = Some bd)
     \<and> uniform_set (boundary_view cards) (state_view cards) (current_view cards) (set (cm_members c))
     \<and> whole_in (group_view cards) (set (cm_members c)) \<and> distinct (cm_members c)"

lemma class_induct:
  assumes "x \<in> class_of g s" "P s" "\<And>x y. (x, y) \<in> edge g \<Longrightarrow> P x \<Longrightarrow> P y"
  shows "P x"
  using assms(1) unfolding class_of_def by (auto elim: rtrancl_induct [of s x "edge g" P] intro: assms(2,3))

lemma find_rows:
  assumes "distinct (map sc_id cards)" "rows = rows_by_ids cards ids" "i \<in> sc_id ` set rows"
  obtains c where "c \<in> set rows" "find_card i rows = Some c" "find_card i cards = Some c" "sc_id c = i"
proof -
  from assms(3) obtain c where c: "c \<in> set rows" "sc_id c = i" by blast
  have "distinct (map sc_id rows)" using rows_by_ids_distinct [OF assms(1)] by (simp add: assms(2))
  from find_card_distinct [OF this c(1)] find_card_distinct [OF assms(1), of c] c show thesis
    by (intro that [of c]) (simp_all add: assms(2))
qed

lemma scanned_component:
  assumes db: "sound_db db" and rows: "rows = rows_by_ids (ad_cards db) ids"
    and groups: "complete_groups clock (ad_cards db) rows b1 = Inr (cs_groups cs, b2)"
    and current: "current = map sc_id (filter (row_current (ad_cards db)) rows)"
    and cards: "cards = filter (\<lambda>c. sc_id c \<in> set current \<and> conflict_boundary c = bd) rows"
    and adj: "conflict_adjacency clock sig cards (set (cs_groups cs)) full b3 = (b4, g, True)"
    and sig: "\<And>c. sg_type (sig c) = member_type c"
    and found: "found_at (component_record rp db' cs rows bd) g (sc_id ` set cards) c"
  shows "component_ok (ad_cards db) rows bd c"
proof -
  let ?C = "ad_cards db" and ?S = "set (cm_members c)" and ?G = "group_view (ad_cards db)"
  have dist: "distinct (map sc_id ?C)" and named: "gn.named ?G" and valid: "sound_view ?C"
    using db by (simp_all add: sound_db_def wf_authority_def)
  have dist_rows: "distinct (map sc_id rows)" using rows_by_ids_distinct [OF dist] by (simp add: rows)
  then have dist_cards: "distinct (map sc_id cards)" unfolding cards by (rule distinct_map_filter)
  note edges = adjacency_edges [OF adj dist_cards]
  note v = valid_groupingD [OF valid]
  from found obtain s seen where s: "s \<in> sc_id ` set cards" "?S = class_of g s" "set seen = class_of g s" "distinct seen" "2 \<le> length seen"
    and rec: "component_record rp db' cs rows bd seen = Inr (Some c)" unfolding found_at_def by blast
  have card_view: "find_card (sc_id d) ?C = Some d" if "d \<in> set cards" for d
    using that find_card_distinct [OF dist, of d] by (simp add: cards rows)
  have in_cards: "i \<in> sc_id ` set cards" if "i \<in> ?S" for i
    using that unfolding s(2) by (rule class_induct [where P = "\<lambda>i. i \<in> sc_id ` set cards"]) (use s(1) edges(2) in blast)+
  have boundary: "boundary_view ?C i = Some bd" if "i \<in> ?S" for i
    using in_cards [OF that] card_view by (auto simp: boundary_view_def) (simp add: cards)
  have "i \<in> current_view ?C" if "i \<in> ?S" for i
  proof -
    from in_cards [OF that] obtain d where d: "d \<in> set cards" "sc_id d = i" by blast
    then have "d \<in> set ?C" "sc_id d \<in> set current" by (auto simp: cards rows)
    then obtain e where e: "e \<in> set ?C" "row_current ?C e" "sc_id e = sc_id d" by (auto simp: current rows)
    with current_rows [OF db e(1)] d(2) show ?thesis by simp
  qed
  moreover have "state_view ?C i = state_view ?C s" if "i \<in> ?S" for i
    using that unfolding s(2)
  proof (rule class_induct [where P = "\<lambda>i. state_view ?C i = state_view ?C s"])
    fix x y
    assume "(x, y) \<in> edge g" "state_view ?C x = state_view ?C s"
    from edges(2) [OF this(1)] obtain d e where de: "d \<in> set cards" "e \<in> set cards" "x = sc_id d" "y = sc_id e"
      "peers sig (set (cs_groups cs)) full d e" by blast
    have view: "?G (sc_id d) = cd_group d" "?G (sc_id e) = cd_group e" using de card_view by (simp_all add: group_view_def)
    from de(5) have "state_view ?C y = state_view ?C x"
      unfolding peers_def
    proof
      assume "sc_id d \<noteq> sc_id e \<and> conflicting full (sig d) (sig e)"
      then have "types_compatible (member_type d) (member_type e)" by (simp add: conflicting_def Let_def sig)
      then show ?thesis using card_view de by (auto simp: state_view_def types_compatible_def)
    next
      assume same: "conflict_group d = conflict_group e \<and> conflict_group d \<noteq> [] \<and> conflict_group d \<in> set (cs_groups cs)"
      have in_C: "d \<in> set ?C" "e \<in> set ?C" using de by (auto simp: cards rows)
      have "?G (sc_id d) = Some (conflict_group d)" "?G (sc_id e) = Some (conflict_group d)"
        using same named_group(3) [OF named dist in_C(1), of "conflict_group d"] named_group(3) [OF named dist in_C(2), of "conflict_group d"]
        unfolding view by metis+
      from v(3) [OF this] de show ?thesis by simp
    qed
    with \<open>state_view ?C x = state_view ?C s\<close> show "state_view ?C y = state_view ?C s" by simp
  qed simp
  moreover have "\<exists>i\<in>?S. \<exists>j\<in>?S. i \<noteq> j"
  proof -
    obtain i j rest where "seen = i # j # rest" using s(5) by (cases seen; cases "tl seen") auto
    with s(2-4) show ?thesis by (intro bexI [of _ i] bexI [of _ j]) auto
  qed
  ultimately have uniform: "uniform_set (boundary_view ?C) (state_view ?C) (current_view ?C) ?S"
    using boundary unfolding uniform_set_def by auto
  have "whole_in ?G ?S"
    unfolding whole_in_def
  proof (intro ballI allI impI)
    fix i j
    assume i: "i \<in> ?S" and same: "?G i \<noteq> None \<and> ?G j = ?G i"
    then obtain grp where grp: "?G i = Some grp" "?G j = Some grp" by auto
    from in_cards [OF i] obtain d where d: "d \<in> set cards" "sc_id d = i" by blast
    from grp(2) obtain e where e: "e \<in> set ?C" "sc_id e = j" "cd_group e = Some grp" using group_viewD by blast
    have d_in: "d \<in> set ?C" "d \<in> set rows" using d by (auto simp: cards rows)
    have g_ne: "grp \<noteq> []" using gn.named_proper [OF named grp(1)] by simp
    have dg: "conflict_group d = grp" using grp(1) d named_group(3) [OF named dist d_in(1) g_ne] group_view_card [OF dist d_in(1)] by simp
    have eg: "conflict_group e = grp" using e named_group(3) [OF named dist e(1) g_ne] by simp
    have "group_of rows i = grp" using find_card_distinct [OF dist_rows d_in(2)] d(2) dg by (simp add: group_of_def member_card_def)
    moreover have "\<not> list_ex (\<lambda>g. g \<noteq> [] \<and> g \<notin> set (cs_groups cs)) (map (group_of rows) (cm_members c))"
      using component_recordD(3) [OF rec] by (simp add: closure_proven_def Let_def)
    ultimately have whole: "grp \<in> set (cs_groups cs)" using i g_ne by (auto simp: list_ex_iff)
    have e_rows: "e \<in> set rows" by (rule complete_group_rows [OF groups whole rows dist named e(1,3)])
    have "j \<in> current_view ?C" by (rule v(1) [OF grp(2)])
    then have "sc_id e \<in> set current" using current_rows [OF db e(1)] e(2) e_rows by (auto simp: current)
    moreover have "conflict_boundary e = bd"
      using v(3) [OF grp] boundary [OF i] find_card_distinct [OF dist e(1)] e(2) by (auto simp: boundary_view_def)
    ultimately have e_cards: "e \<in> set cards" using e_rows by (simp add: cards)
    have "peers sig (set (cs_groups cs)) full d e" using dg eg g_ne whole by (simp add: peers_def)
    from edges(3) [OF d(1) e_cards this] have "(i, j) \<in> (edge g)\<^sup>*" by (simp add: d(2) e(2))
    then show "j \<in> ?S" using i unfolding s(2) class_of_def by (auto intro: rtrancl_trans)
  qed
  moreover have "distinct (cm_members c)" using component_recordD(1) [OF rec] by simp
  moreover have "?S \<subseteq> sc_id ` set rows" using in_cards by (auto simp: cards)
  ultimately show ?thesis using uniform boundary by (simp add: component_ok_def)
qed

lemma scan_boundaries_found:
  assumes "scan_boundaries scan bds b = Inr (found, d, ok, b')" "distinct bds"
    and "\<And>bd b cs d ok b'. scan bd b = Inr (cs, d, ok, b') \<Longrightarrow> disjoint_members cs \<and> (\<forall>c\<in>set cs. component_ok cards rows bd c)"
  shows "disjoint_members found \<and> (\<forall>c\<in>set found. \<exists>bd\<in>set bds. component_ok cards rows bd c)"
  using assms(1,2)
proof (induction bds arbitrary: b found d ok b')
  case (Cons bd bds)
  from Cons.prems(1) obtain cs d1 ok1 b1 where one: "scan bd b = Inr (cs, d1, ok1, b1)"
    and rest: "(if \<not> ok1 then Inr (cs, d1, False, b1)
       else bindE (scan_boundaries scan bds b1) (\<lambda>(rest, d', ok', b2). Inr (cs @ rest, d1 + d', ok', b2))) = Inr (found, d, ok, b')"
    by auto
  note own = assms(3) [OF one]
  show ?case
  proof (cases ok1)
    case False
    with rest own show ?thesis by auto
  next
    case True
    with rest obtain more d' ok' where more: "scan_boundaries scan bds b1 = Inr (more, d', ok', b')" "found = cs @ more" by auto
    have ih: "disjoint_members more" "\<forall>c\<in>set more. \<exists>bd\<in>set bds. component_ok cards rows bd c"
      using Cons.IH [OF more(1)] Cons.prems(2) by auto
    have apart: "set (cm_members c) \<inter> set (cm_members e) = {}" if "c \<in> set cs" "e \<in> set more" for c e
    proof -
      from ih(2) that(2) obtain bd' where bd': "bd' \<in> set bds" "component_ok cards rows bd' e" by blast
      have "component_ok cards rows bd c" using own that(1) by blast
      moreover have "bd \<noteq> bd'" using bd'(1) Cons.prems(2) by auto
      ultimately show ?thesis using bd'(2) unfolding component_ok_def by fastforce
    qed
    show ?thesis using own ih apart unfolding more(2) disjoint_append by auto
  qed
qed simp

lemma component_stage_ok:
  assumes db: "sound_db db" and sig: "\<And>c. sg_type (sig c) = member_type c"
    and run: "component_stage clock sig rp ids b db = Inr (found, d, ok, b')"
  shows "disjoint_members found \<and> (\<forall>c\<in>set found. \<exists>bd. component_ok (ad_cards db) (rows_by_ids (ad_cards db) ids) bd c)"
proof -
  let ?rows = "rows_by_ids (ad_cards db) ids"
  have dist: "distinct (map sc_id (ad_cards db))" using db by (simp add: sound_db_def wf_authority_def)
  from run obtain current cs b1 where load: "load_closure clock (ad_cards db) ?rows b = Inr (current, cs, b1)"
    and scan: "scan_boundaries (scan_boundary clock sig rp db cs ?rows current) (current_boundaries ?rows current) b1 = Inr (found, d, ok, b')"
    by (auto simp: component_stage_def Let_def)
  obtain b2 b3 where current: "current = map sc_id (filter (row_current (ad_cards db)) ?rows)"
    and groups: "complete_groups clock (ad_cards db) ?rows b2 = Inr (cs_groups cs, b3)" by (rule load_closureD [OF load])
  have "disjoint_members one \<and> (\<forall>c\<in>set one. component_ok (ad_cards db) ?rows bd c)"
    if one: "scan_boundary clock sig rp db cs ?rows current bd b4 = Inr (one, d1, ok1, b5)" for bd b4 one d1 ok1 b5
  proof (rule scan_boundary_found [OF one rows_by_ids_distinct [OF dist] refl])
    fix b6 b7 g
    assume adj: "conflict_adjacency clock sig (filter (\<lambda>c. sc_id c \<in> set current \<and> conflict_boundary c = bd) ?rows) (set (cs_groups cs))
        (bd \<in> set (cs_boundaries cs)) b6 = (b7, g, True)" and disjoint: "disjoint_members one"
      and found: "\<forall>c\<in>set one. found_at (component_record rp db cs ?rows bd) g
        (sc_id ` set (filter (\<lambda>c. sc_id c \<in> set current \<and> conflict_boundary c = bd) ?rows)) c"
    show ?thesis
      using disjoint scanned_component [OF db refl groups current refl adj sig] found by blast
  qed simp
  moreover have "distinct (current_boundaries ?rows current)" by (simp add: current_boundaries_def)
  ultimately show ?thesis using scan_boundaries_found [OF scan] by blast
qed

end
