(* ===== verification/Detection_Invariant.thy ===== *)
theory Detection_Invariant
  imports Detection_Stages
begin

text \<open>
  A pass of conflict detection keeps the integrity report clean.  The updates of a pass handle disjoint components one after
  another, each as the abstract clearing or assignment of a whole set of Cards, so the grouping stays sound and nothing else changes.
\<close>

section \<open>Disjoint components\<close>

lemma disjoint_sublist:
  assumes "disjoint_members cs" "\<forall>c\<in>set cs. cm_members c \<noteq> []" "distinct xs" "set xs \<subseteq> set cs"
  shows "disjoint_members xs"
proof -
  have pair: "set (cm_members c) \<inter> set (cm_members d) = {}" if "c \<in> set cs" "d \<in> set cs" "c \<noteq> d" for c d
    using assms(1) that unfolding disjoint_members_def by (induction cs) auto
  have "disjoint_members ys" if "distinct ys" "set ys \<subseteq> set cs" for ys
    using that
  proof (induction ys)
    case (Cons y ys)
    then have "\<forall>d\<in>set ys. set (cm_members y) \<inter> set (cm_members d) = {}" by (intro ballI pair) auto
    with Cons show ?case by (simp add: disjoint_members_def)
  qed simp
  with assms(3,4) show ?thesis by blast
qed

lemma disjoint_distinct: "disjoint_members cs \<Longrightarrow> \<forall>c\<in>set cs. cm_members c \<noteq> [] \<Longrightarrow> distinct cs"
proof (induction cs)
  case (Cons c cs)
  then have "\<forall>d\<in>set cs. set (cm_members c) \<inter> set (cm_members d) = {}" "cm_members c \<noteq> []" "disjoint_members cs"
    by (auto simp: disjoint_members_def)
  then have "c \<notin> set cs" by force
  with Cons \<open>disjoint_members cs\<close> show ?case by simp
qed simp

lemma selected_sublist:
  "distinct cs \<Longrightarrow> distinct (selected_components target limit cs) \<and> set (selected_components target limit cs) \<subseteq> set cs"
  unfolding selected_components_def
  by (cases target) (auto dest: in_set_takeD)

section \<open>One component at a time\<close>

definition untouched :: "authority_db \<Rightarrow> authority_db \<Rightarrow> component \<Rightarrow> bool" where
  "untouched db0 db c \<longleftrightarrow> whole_in (group_view (ad_cards db)) (set (cm_members c))
     \<and> (\<forall>i\<in>set (cm_members c). group_view (ad_cards db) i = group_view (ad_cards db0) i)"

definition progress :: "authority_db \<Rightarrow> authority_db \<Rightarrow> component list \<Rightarrow> bool" where
  "progress db0 db cs \<longleftrightarrow> regrouped db0 db \<and> sound_db db \<and> (\<forall>c\<in>set cs. untouched db0 db c)"

lemma progress_tail: "progress db0 db (c # cs) \<Longrightarrow> progress db0 db cs"
  by (simp add: progress_def)

lemma component_inside: "component_ok cards (rows_by_ids cards ids) bd c \<Longrightarrow> set (cm_members c) \<subseteq> sc_id ` set cards"
  unfolding component_ok_def by auto

lemma progress_put:
  assumes progress: "progress db0 db (c # cs)" and disjoint: "disjoint_members (c # cs)" and wf: "wf_authority db0"
    and ok: "component_ok (ad_cards db0) (rows_by_ids (ad_cards db0) ids) bd c"
    and step: "regrouped db db'" "group_view (ad_cards db') = put (set (cm_members c)) x (group_view (ad_cards db))"
    and names: "x = None \<or> (\<exists>a\<in>set (cm_members c). x = Some (generated_group a))"
    and inj: "inj_on generated_group (sc_id ` set (ad_cards db0))"
  shows "progress db0 db' cs"
proof -
  let ?S = "set (cm_members c)" and ?G = "group_view (ad_cards db)"
  from progress have reg: "regrouped db0 db" and sound: "sound_db db" and whole: "whole_in ?G ?S"
    and rest: "\<And>d. d \<in> set cs \<Longrightarrow> whole_in ?G (set (cm_members d))
      \<and> (\<forall>i\<in>set (cm_members d). ?G i = group_view (ad_cards db0) i)"
    by (auto simp: progress_def untouched_def)
  note views = regrouped_views [OF reg wf]
  from sound have named: "gn.named ?G" and valid: "sound_view (ad_cards db)" by (simp_all add: sound_db_def)
  have uniform: "uniform_set (boundary_view (ad_cards db)) (state_view (ad_cards db)) (current_view (ad_cards db)) ?S"
    using ok unfolding component_ok_def views(1-3) by blast
  have "dom ?G \<union> ?S \<subseteq> sc_id ` set (ad_cards db0)"
    using component_inside [OF ok] views(5) group_viewD [of "ad_cards db"] by fastforce
  then have inj': "inj_on generated_group (dom ?G \<union> ?S)" by (rule inj_on_subset [OF inj])
  have apart: "?S \<inter> set (cm_members d) = {}" if "d \<in> set cs" for d using disjoint that by (simp add: disjoint_members_def)
  have new: "gn.named (put ?S x ?G) \<and> valid_grouping (boundary_view (ad_cards db)) (state_view (ad_cards db)) (current_view (ad_cards db)) (put ?S x ?G)
      \<and> (\<forall>d\<in>set cs. whole_in (put ?S x ?G) (set (cm_members d)))"
    using names
  proof
    assume x: "x = None"
    show ?thesis unfolding x using gn.named_clear [OF named whole] valid_clear [OF valid whole] whole_clear rest by blast
  next
    assume "\<exists>a\<in>?S. x = Some (generated_group a)"
    then obtain a where a: "a \<in> ?S" "x = Some (generated_group a)" by blast
    show ?thesis
      unfolding a(2) using gn.named_assign [OF named whole a(1)] gn.valid_assign [OF valid named whole a(1) inj' uniform]
        gn.whole_assign [OF named whole a(1) inj'] rest apart by blast
  qed
  then have "sound_db db'" by (intro sound_dbI [OF sound step(1)]) (simp_all add: step(2))
  moreover have "untouched db0 db' d" if "d \<in> set cs" for d
    using new rest [OF that] apart [OF that] that unfolding untouched_def step(2) put_def by auto
  ultimately show ?thesis using regrouped_trans [OF reg step(1)] by (simp add: progress_def)
qed

text \<open>What the rows of the selection say of a component that is still untouched.\<close>

lemma group_of_rows:
  assumes sound: "sound_db db0" and i: "i \<in> sc_id ` set (rows_by_ids (ad_cards db0) ids)"
  shows "group_of (rows_by_ids (ad_cards db0) ids) i = or_empty (group_view (ad_cards db0) i)"
    "member_card (rows_by_ids (ad_cards db0) ids) i (\<lambda>c. or_empty (cd_group c)) [] = or_empty (group_view (ad_cards db0) i)"
    "group_view (ad_cards db0) i \<noteq> Some []"
proof -
  let ?rows = "rows_by_ids (ad_cards db0) ids"
  have dist: "distinct (map sc_id (ad_cards db0))" and named: "gn.named (group_view (ad_cards db0))"
    using sound by (simp_all add: sound_db_def wf_authority_def)
  obtain c where c: "c \<in> set ?rows" "find_card i ?rows = Some c" "find_card i (ad_cards db0) = Some c" "sc_id c = i"
    by (rule find_rows [OF dist refl i])
  have "conflict_group c = or_empty (cd_group c)" using named_group(1) [OF named dist, of c] c(1) by simp
  then show "group_of ?rows i = or_empty (group_view (ad_cards db0) i)"
    "member_card ?rows i (\<lambda>c. or_empty (cd_group c)) [] = or_empty (group_view (ad_cards db0) i)"
    by (simp_all add: group_of_def member_card_def c group_view_def)
  show "group_view (ad_cards db0) i \<noteq> Some []" using gn.named_proper [OF named, of i "[]"] by blast
qed

lemma regroup_members:
  assumes "set ids \<subseteq> set (map sc_id (ad_cards db))"
  shows "group_view (ad_cards (regroup g now (\<lambda>c. sc_id c \<in> set ids) db)) = put (set ids) g (group_view (ad_cards db))"
proof -
  have "{i. \<exists>c. find_card i (ad_cards db) = Some c \<and> sc_id c \<in> set ids} = set ids"
    using assms find_card_iff [of _ "ad_cards db"] find_cardD by fastforce
  then show ?thesis unfolding group_view_regroup by simp
qed

lemma audit_cards: "audit_next envs action target_type target payload db = Inr db' \<Longrightarrow> ad_cards db' = ad_cards db"
  by (auto simp: audit_next_def audit_event_def split: if_splits)

lemma suppress_step:
  assumes run: "suppress_component clock envs now (rows_by_ids (ad_cards db0) ids) s c = Inr s'"
    and progress: "progress db0 (up_db s) (c # cs)" and disjoint: "disjoint_members (c # cs)" and db0: "sound_db db0"
    and ok: "component_ok (ad_cards db0) (rows_by_ids (ad_cards db0) ids) bd c"
    and inj: "inj_on generated_group (sc_id ` set (ad_cards db0))"
  shows "progress db0 (up_db s') cs"
proof -
  let ?rows = "rows_by_ids (ad_cards db0) ids" and ?db = "up_db s" and ?S = "set (cm_members c)"
  let ?grouped = "filter (\<lambda>i. group_of ?rows i \<noteq> []) (cm_members c)"
  obtain b ok1 where mutate: "can_mutate clock (int (length ?grouped)) (up_budget s) = (b, ok1)" by fastforce
  show ?thesis
  proof (cases "ok1 \<and> ?grouped \<noteq> []")
    case False
    with run mutate have "up_db s' = ?db" by (auto simp: suppress_component_def Let_def split: if_splits)
    with progress_tail [OF progress] show ?thesis by simp
  next
    case True
    from run mutate True obtain db' where audit: "audit_next envs ''librarian_apply_conflict_dismissal'' ''conflict_component'' (Some (cm_fingerprint c))
        (mkdict [(''card_ids'', PList (map PStr (cm_members c))), (''fingerprint'', PStr (cm_fingerprint c))])
        (regroup None now (\<lambda>d. sc_id d \<in> set ?grouped) ?db) = Inr db'" and s': "up_db s' = db'"
      by (auto simp: suppress_component_def Let_def simp del: filter_empty_conv split: if_splits)
    have wf: "wf_authority db0" using db0 by (simp add: sound_db_def)
    have reg: "regrouped db0 ?db" and view: "\<forall>i\<in>?S. group_view (ad_cards ?db) i = group_view (ad_cards db0) i"
      using progress by (auto simp: progress_def untouched_def)
    have inside: "?S \<subseteq> sc_id ` set ?rows" "?S \<subseteq> set (map sc_id (ad_cards ?db))"
      using ok component_inside [OF ok] regrouped_views(5) [OF reg wf] by (simp_all add: component_ok_def)
    have "set ?grouped \<subseteq> ?S" by auto
    then have "group_view (ad_cards db') = put (set ?grouped) None (group_view (ad_cards ?db))"
      unfolding audit_cards [OF audit] using inside(2) by (intro regroup_members) (rule subset_trans)
    also have "\<dots> = put ?S None (group_view (ad_cards ?db))"
    proof
      fix i
      show "put (set ?grouped) None (group_view (ad_cards ?db)) i = put ?S None (group_view (ad_cards ?db)) i"
        using group_of_rows [OF db0, of i ids] inside(1) view
        by (cases "group_view (ad_cards db0) i") (auto simp: put_def)
    qed
    finally have put: "group_view (ad_cards db') = put ?S None (group_view (ad_cards ?db))" .
    have "regrouped ?db db'"
      by (rule regrouped_trans [OF regrouped_regroup regrouped_audit [OF audit]]) (simp add: lit_def)
    from progress_put [OF progress disjoint wf ok this put _ inj] show ?thesis by (simp add: s')
  qed
qed

lemma min_by_in: "min_by key x xs \<in> insert x (set xs)"
  by (induction key x xs rule: min_by.induct) auto

lemma choose_group_name:
  assumes db0: "sound_db db0" and ok: "component_ok (ad_cards db0) (rows_by_ids (ad_cards db0) ids) bd c"
  shows "\<exists>a\<in>set (cm_members c). choose_group (rows_by_ids (ad_cards db0) ids) claimed (cm_members c) = generated_group a"
proof -
  let ?rows = "rows_by_ids (ad_cards db0) ids" and ?members = "cm_members c"
  let ?existing = "sort (map (\<lambda>i. (rowid_of ?rows i, group_of ?rows i)) (filter (\<lambda>i. group_of ?rows i \<noteq> []) ?members))"
  let ?g = "case ?existing of [] \<Rightarrow> [] | e # _ \<Rightarrow> snd e"
  have inside: "set ?members \<subseteq> sc_id ` set ?rows" and whole: "whole_in (group_view (ad_cards db0)) (set ?members)"
    and ne: "?members \<noteq> []" using ok by (auto simp: component_ok_def uniform_set_def)
  have named: "gn.named (group_view (ad_cards db0))" using db0 by (simp add: sound_db_def)
  show ?thesis
  proof (cases "?g = [] \<or> ?g \<in> set claimed")
    case True
    then have "choose_group ?rows claimed ?members = generated_group (anchor_of ?rows ?members)"
      by (simp add: choose_group_def Let_def)
    moreover have "anchor_of ?rows ?members \<in> set ?members"
      using ne min_by_in [of "rowid_of ?rows"] by (cases ?members) (auto simp: anchor_of_def)
    ultimately show ?thesis by blast
  next
    case False
    then obtain e es where e: "?existing = e # es" by (cases ?existing) auto
    then have "e \<in> set ?existing" by simp
    then obtain i where i: "i \<in> set ?members" "group_of ?rows i = snd e" by auto
    have "choose_group ?rows claimed ?members = snd e" using False e by (simp add: choose_group_def Let_def)
    moreover have "group_view (ad_cards db0) i = Some (snd e)"
      using group_of_rows(1) [OF db0, of i ids] inside i False e by (cases "group_view (ad_cards db0) i") auto
    ultimately show ?thesis using gn.used_name [OF named whole i(1)] by metis
  qed
qed

lemma assign_step:
  assumes db0: "sound_db db0" and ok: "component_ok (ad_cards db0) (rows_by_ids (ad_cards db0) ids) bd c"
    and progress: "progress db0 db (c # cs)" and disjoint: "disjoint_members (c # cs)"
    and inj: "inj_on generated_group (sc_id ` set (ad_cards db0))"
    and g: "g = choose_group (rows_by_ids (ad_cards db0) ids) claimed (cm_members c)"
    and changed: "changed = filter (\<lambda>i. member_card (rows_by_ids (ad_cards db0) ids) i (\<lambda>c. or_empty (cd_group c)) [] \<noteq> g) (cm_members c)"
    and run: "(if changed = [] then Inr db else audit_next envs ''librarian_detect_conflict'' ''conflict_group'' target payload
        (regroup (Some g) now (\<lambda>c. sc_id c \<in> set changed) db)) = Inr db'"
  shows "progress db0 db' cs"
proof -
  let ?rows = "rows_by_ids (ad_cards db0) ids" and ?S = "set (cm_members c)"
  have wf: "wf_authority db0" using db0 by (simp add: sound_db_def)
  have reg: "regrouped db0 db" and view: "\<forall>i\<in>?S. group_view (ad_cards db) i = group_view (ad_cards db0) i"
    using progress by (auto simp: progress_def untouched_def)
  have inside: "?S \<subseteq> sc_id ` set ?rows" "?S \<subseteq> set (map sc_id (ad_cards db))"
    using ok component_inside [OF ok] regrouped_views(5) [OF reg wf] by (simp_all add: component_ok_def)
  obtain a where a: "a \<in> ?S" "g = generated_group a" using choose_group_name [OF db0 ok] g by blast
  have "set changed \<subseteq> ?S" by (auto simp: changed)
  then have members: "set changed \<subseteq> set (map sc_id (ad_cards db))" using inside(2) by (rule subset_trans)
  have all: "put (set changed) (Some g) (group_view (ad_cards db)) = put ?S (Some g) (group_view (ad_cards db))"
  proof
    fix i
    have "g \<noteq> []" using generated_proper [of a] a(2) by simp
    then show "put (set changed) (Some g) (group_view (ad_cards db)) i = put ?S (Some g) (group_view (ad_cards db)) i"
      using group_of_rows(2) [OF db0, of i ids] inside(1) view
      by (cases "group_view (ad_cards db0) i") (auto simp: put_def changed)
  qed
  have "regrouped db db' \<and> group_view (ad_cards db') = put (set changed) (Some g) (group_view (ad_cards db))"
  proof (cases "changed = []")
    case True
    with run show ?thesis by (simp add: put_def)
  next
    case False
    with run have audit: "audit_next envs ''librarian_detect_conflict'' ''conflict_group'' target payload
        (regroup (Some g) now (\<lambda>c. sc_id c \<in> set changed) db) = Inr db'" by simp
    have "regrouped db db'"
      by (rule regrouped_trans [OF regrouped_regroup regrouped_audit [OF audit]]) (simp add: lit_def)
    then show ?thesis unfolding audit_cards [OF audit] regroup_members [OF members] by simp
  qed
  then show ?thesis using progress_put [OF progress disjoint wf ok _ _ _ inj, of db' "Some g"] a all by auto
qed

section \<open>All updates\<close>

lemma suppress_all:
  assumes "foldE (suppress_component clock envs now (rows_by_ids (ad_cards db0) ids)) s xs = Inr s'"
    and "progress db0 (up_db s) (xs @ ys)" "disjoint_members (xs @ ys)" "sound_db db0"
    and "\<forall>c\<in>set xs. \<exists>bd. component_ok (ad_cards db0) (rows_by_ids (ad_cards db0) ids) bd c"
    and "inj_on generated_group (sc_id ` set (ad_cards db0))"
  shows "progress db0 (up_db s') ys"
  using assms(1,2,3,5)
proof (induction xs arbitrary: s)
  case (Cons c xs)
  from Cons.prems(1) obtain s1 where one: "suppress_component clock envs now (rows_by_ids (ad_cards db0) ids) s c = Inr s1"
    and rest: "foldE (suppress_component clock envs now (rows_by_ids (ad_cards db0) ids)) s1 xs = Inr s'" by auto
  from Cons.prems(4) obtain bd where ok: "component_ok (ad_cards db0) (rows_by_ids (ad_cards db0) ids) bd c" by auto
  have "progress db0 (up_db s1) (xs @ ys)"
    by (rule suppress_step [OF one _ _ assms(4) ok assms(6)]) (use Cons.prems in simp_all)
  moreover have "disjoint_members (xs @ ys)" using Cons.prems(3) by (simp add: disjoint_members_def)
  ultimately show ?case using Cons.IH [OF rest] Cons.prems(4) by simp
qed simp

lemma assign_all:
  assumes "assign_components clock envs now rows xs s = Inr s'" "rows = rows_by_ids (ad_cards db0) ids"
    and "progress db0 (up_db s) xs" "disjoint_members xs" "sound_db db0"
    and "\<forall>c\<in>set xs. \<exists>bd. component_ok (ad_cards db0) (rows_by_ids (ad_cards db0) ids) bd c"
    and "inj_on generated_group (sc_id ` set (ad_cards db0))"
  shows "progress db0 (up_db s') []"
  using assms(1,3,4,6)
proof (induction xs arbitrary: s)
  case (Cons r rs)
  let ?g = "choose_group rows (up_claimed s) (cm_members r)"
  let ?changed = "filter (\<lambda>i. member_card rows i (\<lambda>c. or_empty (cd_group c)) [] \<noteq> ?g) (cm_members r)"
  let ?payload = "mkdict [(''card_ids'', PList (map PStr (cm_members r))), (''conflict_group'', PStr ?g)]"
  let ?s1 = "s\<lparr>up_claimed := ?g # up_claimed s\<rparr>"
  obtain b ok where time: "has_time clock (up_budget s) = (b, ok)" by fastforce
  obtain b1 ok1 where mutate: "can_mutate clock (int (length ?changed)) b = (b1, ok1)" by fastforce
  have disjoint: "disjoint_members rs" using Cons.prems(3) by (simp add: disjoint_members_def)
  have rest_ok: "\<forall>c\<in>set rs. \<exists>bd. component_ok (ad_cards db0) (rows_by_ids (ad_cards db0) ids) bd c" using Cons.prems(4) by simp
  show ?case
  proof (cases ok)
    case False
    with Cons.prems(1) time have "up_db s' = up_db s" by auto
    with Cons.prems(2) show ?thesis by (simp add: progress_def)
  next
    case True
    show ?thesis
    proof (cases ok1)
      case False
      have run: "assign_components clock envs now rows rs (?s1\<lparr>up_budget := b1, up_deferred := Suc (up_deferred s)\<rparr>) = Inr s'"
        using Cons.prems(1) time mutate True False by (simp add: Let_def)
      show ?thesis using Cons.IH [OF run _ disjoint rest_ok] progress_tail [OF Cons.prems(2)] by simp
    next
      case mutated: True
      obtain db where db: "(if ?changed = [] then Inr (up_db s) else audit_next envs ''librarian_detect_conflict'' ''conflict_group'' (Some ?g)
            ?payload (regroup (Some ?g) now (\<lambda>c. sc_id c \<in> set ?changed) (up_db s))) = Inr db"
        and run: "assign_components clock envs now rows rs (?s1\<lparr>up_db := db, up_budget := record_mutations (int (length ?changed)) b1,
            up_touched := up_touched s @ ?changed, up_detected := up_detected s @ [(?g, cm_members r)]\<rparr>) = Inr s'"
        using Cons.prems(1) time mutate True mutated by (auto simp: Let_def simp del: filter_empty_conv)
      from Cons.prems(4) obtain bd where ok_r: "component_ok (ad_cards db0) (rows_by_ids (ad_cards db0) ids) bd r" by auto
      have step: "progress db0 db rs"
        using assign_step [OF assms(5) ok_r Cons.prems(2,3) assms(7) refl refl] db unfolding assms(2) by blast
      show ?thesis using Cons.IH [OF run _ disjoint rest_ok] step by simp
    qed
  qed
qed simp

lemma update_stage_sound:
  assumes run: "update_stage clock envs now target limit ids components b db = Inr u" and db: "sound_db db"
    and found: "disjoint_members components" "\<forall>c\<in>set components. \<exists>bd. component_ok (ad_cards db) (rows_by_ids (ad_cards db) ids) bd c"
    and inj: "inj_on generated_group (sc_id ` set (ad_cards db))"
  shows "sound_db (up_db u)" "regrouped db (up_db u)"
proof -
  let ?rows = "rows_by_ids (ad_cards db) ids" and ?supp = "filter cm_suppressed components"
  let ?sel = "selected_components target limit (filter (\<lambda>r. \<not> cm_suppressed r) components)"
  let ?s0 = "\<lparr>up_db = db, up_budget = b, up_touched = [], up_deferred = 0, up_claimed = [], up_detected = []\<rparr>"
  from run obtain s where s: "foldE (suppress_component clock envs now ?rows) ?s0 ?supp = Inr s"
    "assign_components clock envs now ?rows ?sel s = Inr u" by (auto simp: update_stage_def Let_def)
  have ne: "\<forall>c\<in>set components. cm_members c \<noteq> []" using found(2) by (fastforce simp: component_ok_def uniform_set_def)
  note dist = disjoint_distinct [OF found(1) ne]
  have sel: "distinct ?sel" "set ?sel \<subseteq> set (filter (\<lambda>r. \<not> cm_suppressed r) components)"
    using selected_sublist [of "filter (\<lambda>r. \<not> cm_suppressed r) components" target limit] dist by auto
  then have sub: "distinct (?supp @ ?sel)" "set (?supp @ ?sel) \<subseteq> set components" using dist by auto
  have disjoint: "disjoint_members (?supp @ ?sel)" by (rule disjoint_sublist [OF found(1) ne sub])
  have ok: "\<forall>c\<in>set (?supp @ ?sel). \<exists>bd. component_ok (ad_cards db) ?rows bd c" using found(2) sub(2) by blast
  have start: "progress db db (?supp @ ?sel)"
    using ok db by (auto simp: progress_def untouched_def component_ok_def)
  have "progress db (up_db s) ?sel" by (rule suppress_all [OF s(1) _ disjoint db _ inj]) (use start ok in auto)
  moreover have "disjoint_members ?sel" using disjoint by (simp add: disjoint_append)
  ultimately have "progress db (up_db u) []" using ok by (intro assign_all [OF s(2) refl _ _ db _ inj]) auto
  then show "sound_db (up_db u)" "regrouped db (up_db u)" by (simp_all add: progress_def)
qed

section \<open>The transaction\<close>

lemma first_clearing_nothing:
  assumes "first_clearing clock ids now b db = Inr c" "sound_db db" "mono clock"
  shows "cl_db c = db" "cl_touched c = []" "cl_cleared c = []"
proof -
  let ?rows = "rows_by_ids (ad_cards db) ids"
  from assms(1) obtain current cs b1 where load: "load_closure clock (ad_cards db) ?rows b = Inr (current, cs, b1)"
    and c: "c = clear_orphan_conflict_groups clock now ?rows current (cs_groups cs) b1 db" by (auto simp: first_clearing_def Let_def)
  obtain b2 b3 where parts: "current = map sc_id (filter (row_current (ad_cards db)) ?rows)"
    "complete_groups clock (ad_cards db) ?rows b2 = Inr (cs_groups cs, b3)" by (rule load_closureD [OF load])
  show "cl_db c = db" "cl_touched c = []" "cl_cleared c = []"
    unfolding c by (rule clear_orphan_nothing [OF assms(2) refl parts(2,1) assms(3)])+
qed

lemma trailing_clearing_nothing:
  assumes "trailing_clearing clock ids now b db = Inr c" "sound_db db" "mono clock"
  shows "cl_db c = db" "cl_touched c = []" "cl_cleared c = []"
proof -
  let ?rows = "rows_by_ids (ad_cards db) ids"
  from assms(1) obtain current b1 wholes b2 where current: "current_among clock (ad_cards db) ?rows b = Inr (current, b1)"
    and groups: "complete_groups clock (ad_cards db) ?rows b1 = Inr (wholes, b2)"
    and c: "c = clear_orphan_conflict_groups clock now ?rows current wholes b2 db" by (auto simp: trailing_clearing_def Let_def)
  show "cl_db c = db" "cl_touched c = []" "cl_cleared c = []"
    unfolding c by (rule clear_orphan_nothing [OF assms(2) refl groups current_amongD [OF current] assms(3)])+
qed

text \<open>The stages a committed transaction went through.\<close>

lemma bindE_InrE: "bindE m f = Inr z \<Longrightarrow> (\<And>x. m = Inr x \<Longrightarrow> f x = Inr z \<Longrightarrow> P) \<Longrightarrow> P"
  by auto

lemma bindE_pairE: "bindE m (\<lambda>(a, b). h a b) = Inr z \<Longrightarrow> (\<And>a b. m = Inr (a, b) \<Longrightarrow> h a b = Inr z \<Longrightarrow> P) \<Longrightarrow> P"
  by auto

lemma bindE_tupleE: "bindE m (\<lambda>(a, b, c, d). k a b c d) = Inr z \<Longrightarrow>
    (\<And>a b c d. m = Inr (a, b, c, d) \<Longrightarrow> k a b c d = Inr z \<Longrightarrow> P) \<Longrightarrow> P"
  by auto

lemmas bindE_elims = bindE_tupleE bindE_pairE bindE_InrE

lemma transaction_cases:
  assumes "conflict_transaction clock envs sig rp target limit ids incomplete ss cursor b db = Inr p"
  obtains c1 components d1 scanned b1 u c2 db1 db2 db3 b0 where
    "first_clearing clock ids (ae_now (envs (length (ad_audits db)))) b0 db = Inr c1"
    "component_stage clock sig rp ids (cl_budget c1) (cl_db c1) = Inr (components, d1, scanned, b1)"
    "update_stage clock envs (ae_now (envs (length (ad_audits db)))) target limit ids components b1 (cl_db c1) = Inr u"
    "trailing_clearing clock ids (ae_now (envs (length (ad_audits db)))) (up_budget u) (up_db u) = Inr c2"
    "(if cl_touched c1 @ cl_touched c2 = [] then Inr (cl_db c2)
      else audit_next envs ''librarian_clear_orphan_conflicts'' ''cards'' None
        (mkdict [(''card_ids'', PList (map PStr (sort (remdups (cl_touched c1 @ cl_touched c2)))))]) (cl_db c2)) = Inr db1"
    "db2 = db1 \<or> (\<exists>env touched reason. db2 = fst (mark_card_sidecar_outbox env touched reason db1))"
    "db3 = db2 \<or> (\<exists>n. cursor_event envs target ss n db2 = Inr db3)" "ps_db p = db3"
  using assms unfolding conflict_transaction_def Let_def
  apply (elim bindE_elims)
  subgoal premises prems for b0 _ c1 components d1 scanned b1 u c2 current b2 db1 b3 b4 db3 b5
  proof (rule that [OF prems(4-7,9)])
    let ?touched = "sort (remdups (cl_touched c1 @ up_touched u @ cl_touched c2))"
    let ?db2 = "if ?touched = [] then db1
      else fst (mark_card_sidecar_outbox (envs (length (ad_audits db1))) ?touched (lit ''conflict_group_updated'') db1)"
    show "?db2 = db1 \<or> (\<exists>env touched reason. ?db2 = fst (mark_card_sidecar_outbox env touched reason db1))" by auto
    show "db3 = ?db2 \<or> (\<exists>n. cursor_event envs target ss n ?db2 = Inr db3)" using prems(12) by (auto split: if_split_asm)
    show "ps_db p = db3" using prems(14) by auto
  qed
  done

lemma outbox_cards [simp]: "ad_cards (fst (mark_card_sidecar_outbox env ids reason db)) = ad_cards db"
proof -
  have "ad_cards (fold (mark_outbox env reason) marked d) = ad_cards d" for marked d
    by (induction marked arbitrary: d) (auto simp: mark_outbox_def)
  then show ?thesis by (simp add: mark_card_sidecar_outbox_def)
qed

lemma transaction_sound:
  assumes run: "conflict_transaction clock envs sig rp target limit ids incomplete ss cursor b db = Inr p" and db: "sound_db db"
    and sig: "\<And>c. sg_type (sig c) = member_type c" and clock: "mono clock"
    and inj: "inj_on generated_group (sc_id ` set (ad_cards db))"
  shows "sound_db (ps_db p)" "regrouped db (ps_db p)"
proof -
  let ?now = "ae_now (envs (length (ad_audits db)))"
  obtain c1 components d1 scanned b1 u c2 db1 db2 db3 b0 where st: "first_clearing clock ids ?now b0 db = Inr c1"
    "component_stage clock sig rp ids (cl_budget c1) (cl_db c1) = Inr (components, d1, scanned, b1)"
    "update_stage clock envs ?now target limit ids components b1 (cl_db c1) = Inr u"
    "trailing_clearing clock ids ?now (up_budget u) (up_db u) = Inr c2"
    "(if cl_touched c1 @ cl_touched c2 = [] then Inr (cl_db c2)
      else audit_next envs ''librarian_clear_orphan_conflicts'' ''cards'' None
        (mkdict [(''card_ids'', PList (map PStr (sort (remdups (cl_touched c1 @ cl_touched c2)))))]) (cl_db c2)) = Inr db1"
    "db2 = db1 \<or> (\<exists>env touched reason. db2 = fst (mark_card_sidecar_outbox env touched reason db1))"
    "db3 = db2 \<or> (\<exists>n. cursor_event envs target ss n db2 = Inr db3)" "ps_db p = db3"
    by (rule transaction_cases [OF run])
  note first = first_clearing_nothing [OF st(1) db clock]
  note found = component_stage_ok [OF db sig st(2) [unfolded first(1)]]
  note u = update_stage_sound [OF st(3) [unfolded first(1)] db conjunct1 [OF found] conjunct2 [OF found] inj]
  note trailing = trailing_clearing_nothing [OF st(4) u(1) clock]
  have db1: "db1 = up_db u" using st(5) by (simp add: first trailing)
  have two: "regrouped db1 db2 \<and> ad_cards db2 = ad_cards db1" using st(6) regrouped_outbox by auto
  have three: "regrouped db2 db3 \<and> ad_cards db3 = ad_cards db2"
    using st(7)
  proof
    assume "\<exists>n. cursor_event envs target ss n db2 = Inr db3"
    then obtain n where ev: "cursor_event envs target ss n db2 = Inr db3" by blast
    show ?thesis
      using regrouped_audit [OF ev [unfolded cursor_event_def]] audit_cards [OF ev [unfolded cursor_event_def]] by (simp add: lit_def)
  qed simp
  have "regrouped db db3" using u(2) two three unfolding db1 by (meson regrouped_trans)
  then show "regrouped db (ps_db p)" by (simp add: st(8))
  have "ad_cards db3 = ad_cards (up_db u)" using two three db1 by simp
  then show "sound_db (ps_db p)" using u(1) unfolding st(8) sound_db_def wf_authority_def by simp
qed

end
