(* ===== verification/Detection_Budget.thy ===== *)
theory Detection_Budget
  imports Conflict_Detection
begin

text \<open>
  What a pass uses of its budget: every stage is accounted for by one relation that composes, so the comparisons of a pass stay
  within its limit and every changed Card is covered by a recorded mutation.
\<close>

section \<open>The account\<close>

text \<open>At most \<open>k\<close> comparisons were made and at least \<open>n\<close> mutations recorded.\<close>

definition used :: "nat \<Rightarrow> nat \<Rightarrow> budget \<Rightarrow> budget \<Rightarrow> bool" where
  "used k n b b' \<longleftrightarrow> later b b' \<and> (in_limits b \<longrightarrow> in_limits b') \<and> bg_comparisons b' \<le> bg_comparisons b + int k
     \<and> (bg_comparisons b + int k \<le> bg_comparison_limit b \<longrightarrow> bg_comparison_out b' = bg_comparison_out b)
     \<and> bg_mutations b + int n \<le> bg_mutations b'"

named_theorems account "what each operation uses"

lemma used_refl [simp]: "used 0 0 b b"
  by (simp add: used_def)

lemma used_trans: "used k n b b' \<Longrightarrow> used l m b' b'' \<Longrightarrow> used (k + l) (n + m) b b''"
  unfolding used_def by (auto simp: later_def)

lemma used_free [trans]: "used k n b b' \<Longrightarrow> used 0 0 b' b'' \<Longrightarrow> used k n b b''"
  using used_trans [of k n b b' 0 0 b''] by simp

lemma used_weaken: "used k n b b' \<Longrightarrow> m \<le> n \<Longrightarrow> used k m b b'"
  unfolding used_def by auto

lemma used_time [account]: "has_time clock b = (b', ok) \<Longrightarrow> used 0 0 b b'"
  using has_time_step [of clock b b' ok] has_time_limits [of clock b b' ok] by (simp add: used_def)

lemma used_require [account]: "require_time clock b = Inr b' \<Longrightarrow> used 0 0 b b'"
  using require_time_step [of clock b b'] by (simp add: used_def)

lemma used_member [account]: "consume_component_member clock b = (b', ok) \<Longrightarrow> used 0 0 b b'"
  using consume_member_step [of clock b b' ok] by (auto simp: used_def)

lemma used_can_mutate [account]: "can_mutate clock n b = (b', ok) \<Longrightarrow> used 0 0 b b'"
  using can_mutate_step [of clock n b b' ok] by (auto simp: used_def)

text \<open>A granted mutation is recorded within its limit.\<close>

lemma used_mutation:
  assumes "can_mutate clock (int n) b = (b', True)" "m \<le> n"
  shows "used 0 m b (record_mutations (int n) b')"
proof -
  note step = can_mutate_step [OF assms(1)] and rm = record_mutations_step [where n = "int n" and b = b']
  have "later b (record_mutations (int n) b')" using later_trans [OF step(2) rm(1)] .
  then show ?thesis using step(6) assms(2) by (simp add: used_def rm(2-4) step(3-5))
qed

lemma used_compare:
  assumes "compare_pairs clock full sig ps b g = (b', g', ok)"
  shows "used (length ps) 0 b b'"
  using assms
proof (induction clock full sig ps b g arbitrary: b' g' ok rule: compare_pairs.induct)
  case (2 clock full sig l r ps b g)
  obtain b1 ok1 where c: "consume_comparison clock b = (b1, ok1)" by fastforce
  note step = consume_comparison_step [OF c]
  show ?case
  proof (cases ok1)
    case False
    with 2(2) c have "b' = b1" by simp
    then show ?thesis using step False by (auto simp: used_def)
  next
    case True
    with 2(2) c have rest: "compare_pairs clock full sig ps b1 (if conflicting full (sig l) (sig r) then link (sc_id l) (sc_id r) g else g)
      = (b', g', ok)" by simp
    have "used 1 0 b b1" using step True by (auto simp: used_def)
    from used_trans [OF this "2.IH" [OF c [symmetric] True rest]] show ?thesis by simp
  qed
qed simp

section \<open>The scan\<close>

lemma used_current [account]: "current_among clock cards rows b = Inr (current, b') \<Longrightarrow> used 0 0 b b'"
proof -
  have "used 0 0 b b'" if "foldE (\<lambda>b _. require_time clock b) b rows = Inr b'" for b
    using that by (induction rows arbitrary: b) (auto intro: used_free dest!: used_require)
  then show "current_among clock cards rows b = Inr (current, b') \<Longrightarrow> used 0 0 b b'" by (auto simp: current_among_def)
qed

lemma used_complete [account]: "complete_keys clock cards clause ks b = Inr (found, b') \<Longrightarrow> used 0 0 b b'"
proof (induction ks arbitrary: b found b')
  case (Cons entry ks)
  obtain k n where entry: "entry = (k, n)" by (cases entry)
  from Cons.prems obtain b1 rest where "require_time clock b = Inr b1" "complete_keys clock cards clause ks b1 = Inr (rest, b')"
    by (auto simp: entry)
  with Cons.IH show ?case using used_free used_require by blast
qed simp

lemma used_closure [account]:
  assumes "load_closure clock cards rows b = Inr (current, cs, b')"
  shows "used 0 0 b b'"
proof -
  from assms obtain b1 gs b2 bs b3 ts where "current_among clock cards rows b = Inr (current, b1)" "complete_groups clock cards rows b1 = Inr (gs, b2)"
    "complete_boundaries clock cards rows b2 = Inr (bs, b3)" "complete_titles clock cards rows b3 = Inr (ts, b')"
    by (auto simp: load_closure_def)
  then show ?thesis unfolding complete_groups_def complete_boundaries_def complete_titles_def
    by (meson used_free used_current used_complete)
qed

lemma used_loop [account]: "component_loop clock g pending seen b = (b', r) \<Longrightarrow> used 0 0 b b'"
proof (induction clock g pending seen b arbitrary: b' r rule: component_loop.induct)
  case (2 clock g n pending seen b)
  show ?case
  proof (cases "n \<in> set seen")
    case True
    with 2(1) [OF True] 2(3) show ?thesis by simp
  next
    case False
    obtain b1 ok where c: "consume_component_member clock b = (b1, ok)" by fastforce
    note one = used_member [OF c]
    show ?thesis
    proof (cases ok)
      case True
      with 2(3) False c have "component_loop clock g (rev (targets g n) @ pending) (n # seen) b1 = (b', r)" by simp
      from used_free [OF one 2(2) [OF False c [symmetric] True this]] show ?thesis .
    next
      case stop: False
      with 2(3) False c have "b' = b1" by simp
      with one show ?thesis by simp
    qed
  qed
qed simp

lemma used_seeds [account]: "scan_seeds clock rec g ss unseen b = Inr (cs, d, ok, b') \<Longrightarrow> used 0 0 b b'"
proof (induction ss arbitrary: unseen b cs d ok b')
  case (Cons s ss)
  show ?case
  proof (cases "s \<in> unseen")
    case False
    with Cons show ?thesis by auto
  next
    case True
    obtain b1 r where loop: "component_loop clock g [s] [] b = (b1, r)" by fastforce
    note one = used_loop [OF loop]
    show ?thesis
    proof (cases r)
      case None
      with Cons.prems True loop have "b' = b1" by (simp del: component_loop.simps)
      with one show ?thesis by simp
    next
      case (Some seen)
      with Cons.prems True loop obtain cs' d' where "scan_seeds clock rec g ss (unseen - set seen) b1 = Inr (cs', d', ok, b')"
        by (auto simp del: component_loop.simps)
      from used_free [OF one Cons.IH [OF this]] show ?thesis .
    qed
  qed
qed simp

definition pairs_of :: "nat \<Rightarrow> nat" where
  "pairs_of n = n * (n - 1) div 2"

lemma length_pairs_of: "length (pairs xs) = pairs_of (length xs)"
  using length_pairs [of xs] by (simp add: pairs_of_def)

lemma pairs_of_Suc: "pairs_of (Suc n) = n + pairs_of n"
  using length_pairs_of [of "replicate (Suc n) ()"] length_pairs_of [of "replicate n ()"] by simp

lemma pairs_of_add: "pairs_of m + pairs_of n \<le> pairs_of (m + n)"
  by (induction m) (simp_all add: pairs_of_Suc, simp add: pairs_of_def)

lemma pairs_of_mono: "m \<le> n \<Longrightarrow> pairs_of m \<le> pairs_of n"
  by (induction n) (auto simp: le_Suc_eq pairs_of_Suc)

definition at_boundary :: "card list \<Rightarrow> pystr \<times> pystr \<times> pystr \<Rightarrow> card list" where
  "at_boundary rows bd = filter (\<lambda>c. conflict_boundary c = bd) rows"

lemma used_boundary:
  assumes "scan_boundary clock sig rp db cs rows current bd b = Inr (found, d, ok, b')"
  shows "used (pairs_of (length (at_boundary rows bd))) 0 b b'"
proof -
  define cards where "cards = filter (\<lambda>c. sc_id c \<in> set current \<and> conflict_boundary c = bd) rows"
  obtain b1 g ok1 where adj: "conflict_adjacency clock sig cards (set (cs_groups cs)) (bd \<in> set (cs_boundaries cs)) b = (b1, g, ok1)"
    by (metis prod_cases3)
  have "used (length (pairs (sort_key cd_rowid cards))) 0 b b1" by (rule used_compare [OF adj [unfolded conflict_adjacency_def]])
  moreover have "length cards \<le> length (at_boundary rows bd)"
    using length_filter_le [of "\<lambda>c. sc_id c \<in> set current" "at_boundary rows bd"] by (simp add: cards_def at_boundary_def conj_commute)
  then have "length (pairs (sort_key cd_rowid cards)) \<le> pairs_of (length (at_boundary rows bd))"
    unfolding length_pairs_of length_sort by (rule pairs_of_mono)
  ultimately have one: "used (pairs_of (length (at_boundary rows bd))) 0 b b1" unfolding used_def by auto
  show ?thesis
  proof (cases ok1)
    case False
    with assms adj have "b' = b1" by (simp add: scan_boundary_def Let_def flip: cards_def)
    with one show ?thesis by simp
  next
    case True
    with assms adj obtain ss un where "scan_seeds clock (component_record rp db cs rows bd) g ss un b1 = Inr (found, d, ok, b')"
      by (auto simp: scan_boundary_def Let_def simp flip: cards_def)
    from used_free [OF one used_seeds [OF this]] show ?thesis .
  qed
qed

lemma used_boundaries:
  assumes "scan_boundaries scan bds b = Inr (found, d, ok, b')"
    and "\<And>bd b cs d ok b'. scan bd b = Inr (cs, d, ok, b') \<Longrightarrow> used (f bd) 0 b b'"
  shows "used (sum_list (map f bds)) 0 b b'"
  using assms(1)
proof (induction bds arbitrary: b found d ok b')
  case (Cons bd bds)
  from Cons.prems obtain cs d1 ok1 b1 where one: "scan bd b = Inr (cs, d1, ok1, b1)"
    and rest: "(if \<not> ok1 then Inr (cs, d1, False, b1)
       else bindE (scan_boundaries scan bds b1) (\<lambda>(rest, d', ok', b2). Inr (cs @ rest, d1 + d', ok', b2))) = Inr (found, d, ok, b')"
    by auto
  note own = assms(2) [OF one]
  show ?case
  proof (cases ok1)
    case False
    with rest have "b' = b1" by simp
    with own show ?thesis unfolding used_def by auto
  next
    case True
    with rest obtain extra d' ok' where "scan_boundaries scan bds b1 = Inr (extra, d', ok', b')" by auto
    from used_trans [OF own Cons.IH [OF this]] show ?thesis by simp
  qed
qed simp

lemma boundary_pairs:
  assumes "distinct bds"
  shows "sum_list (map (\<lambda>bd. pairs_of (length (at_boundary rows bd))) bds) \<le> pairs_of (length rows)"
proof -
  have split: "length (at_boundary rows bd) + length (filter (\<lambda>c. conflict_boundary c \<noteq> bd) rows) = length rows" for bd and rows :: "card list"
    unfolding at_boundary_def by (rule sum_length_filter_compl)
  have "sum_list (map (\<lambda>bd. pairs_of (length (at_boundary rows bd))) bds) \<le> pairs_of (length rows)" if "distinct bds" for rows
    using that
  proof (induction bds arbitrary: rows)
    case (Cons bd bds)
    let ?rest = "filter (\<lambda>c. conflict_boundary c \<noteq> bd) rows"
    have "at_boundary ?rest b = at_boundary rows b" if "b \<in> set bds" for b
      unfolding at_boundary_def filter_filter using Cons.prems that by (intro filter_cong) auto
    then have eq: "map (\<lambda>b. pairs_of (length (at_boundary rows b))) bds = map (\<lambda>b. pairs_of (length (at_boundary ?rest b))) bds" by simp
    have "sum_list (map (\<lambda>b. pairs_of (length (at_boundary rows b))) bds) \<le> pairs_of (length ?rest)"
      unfolding eq using Cons.IH [of ?rest] Cons.prems by simp
    then have "sum_list (map (\<lambda>b. pairs_of (length (at_boundary rows b))) (bd # bds))
        \<le> pairs_of (length (at_boundary rows bd)) + pairs_of (length ?rest)" by simp
    also have "\<dots> \<le> pairs_of (length rows)" using pairs_of_add split by metis
    finally show ?case .
  qed simp
  then show ?thesis using assms by blast
qed

lemma used_components:
  assumes "component_stage clock sig rp ids b db = Inr (found, d, ok, b')"
  shows "used (pairs_of (length (rows_by_ids (ad_cards db) ids))) 0 b b'"
proof -
  let ?rows = "rows_by_ids (ad_cards db) ids"
  from assms obtain current cs b1 where load: "load_closure clock (ad_cards db) ?rows b = Inr (current, cs, b1)"
    and scan: "scan_boundaries (scan_boundary clock sig rp db cs ?rows current) (current_boundaries ?rows current) b1 = Inr (found, d, ok, b')"
    by (auto simp: component_stage_def Let_def)
  let ?n = "sum_list (map (\<lambda>bd. pairs_of (length (at_boundary ?rows bd))) (current_boundaries ?rows current))"
  have "used ?n 0 b1 b'" by (rule used_boundaries [OF scan used_boundary])
  from used_trans [OF used_closure [OF load] this] have "used ?n 0 b b'" by simp
  moreover have "?n \<le> pairs_of (length ?rows)" by (rule boundary_pairs) (simp add: current_boundaries_def)
  ultimately show ?thesis unfolding used_def by auto
qed

section \<open>The writes\<close>

text \<open>The Cards a stage touches, against the mutations it records.\<close>

definition covered :: "budget \<Rightarrow> pystr list \<Rightarrow> budget \<Rightarrow> bool" where
  "covered b touched b' \<longleftrightarrow> used 0 (card (set touched)) b b'"

lemma covered_none: "used 0 0 b b' \<Longrightarrow> covered b [] b'"
  by (simp add: covered_def)

lemma covered_free: "covered b touched b' \<Longrightarrow> used 0 0 b' b'' \<Longrightarrow> covered b touched b''"
  unfolding covered_def by (rule used_free)

lemma covered_append:
  assumes "covered b touched b'" "used 0 n b' b''" "set touched' \<subseteq> set touched \<union> set extra" "card (set extra) \<le> n"
  shows "covered b touched' b''"
proof -
  have "card (set touched') \<le> card (set touched \<union> set extra)" by (rule card_mono [OF _ assms(3)]) simp
  also have "\<dots> \<le> card (set touched) + n" using card_Un_le [of "set touched" "set extra"] assms(4) by linarith
  finally show ?thesis using used_trans [OF assms(1) [unfolded covered_def] assms(2)] used_weaken unfolding covered_def by fastforce
qed

lemma covered_blank:
  assumes "covered b (cl_touched s) (cl_budget s)"
  shows "covered b (cl_touched (clear_blank clock now c s)) (cl_budget (clear_blank clock now c s))"
proof -
  obtain b1 ok where m: "can_mutate clock 1 (cl_budget s) = (b1, ok)" by fastforce
  show ?thesis
  proof (cases ok)
    case False
    with covered_free [OF assms used_can_mutate [OF m]] m show ?thesis by (simp add: clear_blank_def)
  next
    case True
    have "can_mutate clock (int 1) (cl_budget s) = (b1, True)" using m True by simp
    from covered_append [OF assms used_mutation [OF this order_refl], of "List.insert (sc_id c) (cl_touched s)" "[sc_id c]"] m True
    show ?thesis by (simp add: clear_blank_def)
  qed
qed

lemma covered_blanks:
  "clear_blanks clock now rows grouped s = (grouped', s') \<Longrightarrow> covered b (cl_touched s) (cl_budget s) \<Longrightarrow> covered b (cl_touched s') (cl_budget s')"
proof (induction rows arbitrary: grouped s)
  case (Cons c cs)
  obtain b1 ok where time: "has_time clock (cl_budget s) = (b1, ok)" by fastforce
  have one: "covered b (cl_touched (s\<lparr>cl_budget := b1\<rparr>)) (cl_budget (s\<lparr>cl_budget := b1\<rparr>))"
    using covered_free [OF Cons.prems(2) used_time [OF time]] by simp
  show ?case
    using Cons.prems(1) Cons.IH [OF _ one] Cons.IH [OF _ covered_blank [OF one]] one
    by (auto simp: time split: if_splits)
qed simp

text \<open>What the clearing of one group comes to.\<close>

definition to_clear :: "card list \<Rightarrow> pystr list \<Rightarrow> pystr list \<Rightarrow> pystr list" where
  "to_clear rows current ids = filter (\<lambda>i. i \<notin> set current) ids
     @ (if unsound_members (filter (\<lambda>c. sc_id c \<in> set current) (filter (\<lambda>c. sc_id c \<in> set ids) rows))
        then filter (\<lambda>i. i \<in> set current) ids else [])"

lemma clear_group_body:
  assumes "has_time clock (cl_budget s) = (b1, ok)" "can_mutate clock (int (length (remdups (to_clear rows current ids)))) b1 = (b2, ok1)"
  shows "clear_group clock now rows current wholes (g, ids) s =
     (if \<not> ok \<or> g \<notin> set wholes then s\<lparr>cl_budget := b1, cl_deferred := Suc (cl_deferred s)\<rparr>
      else if \<not> ok1 then s\<lparr>cl_budget := b2, cl_deferred := Suc (cl_deferred s)\<rparr>
      else s\<lparr>cl_db := regroup None now (\<lambda>c. sc_id c \<in> set (to_clear rows current ids) \<and> cd_group c = Some g) (cl_db s),
             cl_touched := cl_touched s @ to_clear rows current ids,
             cl_cleared := (if unsound_members (filter (\<lambda>c. sc_id c \<in> set current) (filter (\<lambda>c. sc_id c \<in> set ids) rows))
                            then g # cl_cleared s else cl_cleared s),
             cl_budget := record_mutations (int (length (remdups (to_clear rows current ids)))) b2\<rparr>)"
  unfolding clear_group_def assms(1) Let_def prod.case to_clear_def [symmetric] assms(2) ..

lemma covered_group:
  assumes "covered b (cl_touched s) (cl_budget s)"
  shows "covered b (cl_touched (clear_group clock now rows current wholes item s)) (cl_budget (clear_group clock now rows current wholes item s))"
proof -
  obtain g ids where item: "item = (g, ids)" by (cases item)
  let ?clear = "to_clear rows current ids"
  obtain b1 ok where time: "has_time clock (cl_budget s) = (b1, ok)" by fastforce
  have one: "covered b (cl_touched s) b1" by (rule covered_free [OF assms used_time [OF time]])
  obtain b2 ok1 where m: "can_mutate clock (int (length (remdups ?clear))) b1 = (b2, ok1)" by fastforce
  have "covered b (cl_touched s @ ?clear) (record_mutations (int (length (remdups ?clear))) b2)" if ok1
    by (rule covered_append [OF one used_mutation [OF m [unfolded that [THEN eqTrueI]] order_refl], of _ ?clear])
      (simp_all add: length_remdups_card_conv)
  then show ?thesis using one covered_free [OF one used_can_mutate [OF m]] by (simp add: item clear_group_body [OF time m])
qed

lemma covered_orphans:
  "covered b (cl_touched (clear_orphan_conflict_groups clock now rows current wholes b db))
     (cl_budget (clear_orphan_conflict_groups clock now rows current wholes b db))"
proof -
  let ?s0 = "\<lparr>cl_db = db, cl_budget = b, cl_touched = [], cl_cleared = [], cl_deferred = 0\<rparr>"
  obtain grouped s where blanks: "clear_blanks clock now rows [] ?s0 = (grouped, s)" by fastforce
  have "covered b (cl_touched s) (cl_budget s)" by (rule covered_blanks [OF blanks]) (simp add: covered_none)
  then have "covered b (cl_touched (fold (clear_group clock now rows current wholes) items s))
      (cl_budget (fold (clear_group clock now rows current wholes) items s))" for items
    by (induction items arbitrary: s) (simp_all add: covered_group)
  then show ?thesis by (simp add: clear_orphan_conflict_groups_def blanks)
qed

lemma covered_clearing:
  "first_clearing clock ids now b db = Inr c \<Longrightarrow> covered b (cl_touched c) (cl_budget c)"
  "trailing_clearing clock ids now b db = Inr c \<Longrightarrow> covered b (cl_touched c) (cl_budget c)"
proof -
  have before: "covered b touched b''" if "used 0 0 b b'" "covered b' touched b''" for b b' touched b''
    using used_trans [OF that(1) that(2) [unfolded covered_def]] by (simp add: covered_def)
  show "covered b (cl_touched c) (cl_budget c)" if "first_clearing clock ids now b db = Inr c"
    using that by (auto simp: first_clearing_def Let_def intro: before [OF used_closure covered_orphans])
  show "covered b (cl_touched c) (cl_budget c)" if run: "trailing_clearing clock ids now b db = Inr c"
  proof -
    from run obtain current b1 wholes b2 where "current_among clock (ad_cards db) (rows_by_ids (ad_cards db) ids) b = Inr (current, b1)"
      "complete_groups clock (ad_cards db) (rows_by_ids (ad_cards db) ids) b1 = Inr (wholes, b2)"
      and c: "c = clear_orphan_conflict_groups clock now (rows_by_ids (ad_cards db) ids) current wholes b2 db"
      by (auto simp: trailing_clearing_def Let_def)
    then have "used 0 0 b b2" unfolding complete_groups_def by (meson used_free used_current used_complete)
    then show ?thesis unfolding c by (rule before [OF _ covered_orphans])
  qed
qed

lemma covered_suppress:
  assumes run: "suppress_component clock envs now rows s r = Inr s'" and "covered b (up_touched s) (up_budget s)"
  shows "covered b (up_touched s') (up_budget s')"
proof -
  let ?grouped = "filter (\<lambda>i. group_of rows i \<noteq> []) (cm_members r)"
  obtain b1 ok where m: "can_mutate clock (int (length ?grouped)) (up_budget s) = (b1, ok)" by fastforce
  show ?thesis
  proof (cases ok)
    case False
    then have "s' = s\<lparr>up_budget := b1, up_deferred := Suc (up_deferred s)\<rparr>" using run m by (simp add: suppress_component_def Let_def)
    then show ?thesis using covered_free [OF assms(2) used_can_mutate [OF m]] by simp
  next
    case True
    have all: "covered b (up_touched s @ ?grouped) (record_mutations (int (length ?grouped)) b1)"
      by (rule covered_append [OF assms(2) used_mutation [OF m [unfolded True [THEN eqTrueI]] order_refl], of _ ?grouped])
        (simp_all only: set_append order_refl card_length)
    show ?thesis
    proof (cases "?grouped = []")
      case True
      then have "s' = s\<lparr>up_budget := record_mutations 0 b1\<rparr>" using run m \<open>ok\<close> by (simp add: suppress_component_def Let_def)
      then show ?thesis using all True by simp
    next
      case False
      with run m \<open>ok\<close> have "up_touched s' = up_touched s @ ?grouped \<and> up_budget s' = record_mutations (int (length ?grouped)) b1"
        by (auto simp: suppress_component_def Let_def simp del: filter_empty_conv)
      then show ?thesis using all by simp
    qed
  qed
qed

lemma covered_assign:
  assumes "assign_components clock envs now rows rs s = Inr s'" "covered b (up_touched s) (up_budget s)"
  shows "covered b (up_touched s') (up_budget s')"
  using assms
proof (induction rs arbitrary: s)
  case (Cons r rs)
  let ?g = "choose_group rows (up_claimed s) (cm_members r)"
  let ?changed = "filter (\<lambda>i. member_card rows i (\<lambda>c. or_empty (cd_group c)) [] \<noteq> ?g) (cm_members r)"
  let ?s1 = "s\<lparr>up_claimed := ?g # up_claimed s\<rparr>"
  obtain b1 ok where time: "has_time clock (up_budget s) = (b1, ok)" by fastforce
  obtain b2 ok1 where m: "can_mutate clock (int (length ?changed)) b1 = (b2, ok1)" by fastforce
  have one: "covered b (up_touched s) b1" by (rule covered_free [OF Cons.prems(2) used_time [OF time]])
  show ?case
  proof (cases ok)
    case False
    with Cons.prems(1) time one show ?thesis by auto
  next
    case True
    show ?thesis
    proof (cases ok1)
      case False
      have run: "assign_components clock envs now rows rs (?s1\<lparr>up_budget := b2, up_deferred := Suc (up_deferred s)\<rparr>) = Inr s'"
        using Cons.prems(1) time m True False by (simp add: Let_def)
      show ?thesis using Cons.IH [OF run] covered_free [OF one used_can_mutate [OF m]] by simp
    next
      case mutated: True
      have all: "covered b (up_touched s @ ?changed) (record_mutations (int (length ?changed)) b2)"
        by (rule covered_append [OF one used_mutation [OF m [unfolded mutated [THEN eqTrueI]] order_refl], of _ ?changed])
          (simp_all only: set_append order_refl card_length)
      obtain db where "assign_components clock envs now rows rs (?s1\<lparr>up_db := db, up_budget := record_mutations (int (length ?changed)) b2,
            up_touched := up_touched s @ ?changed, up_detected := up_detected s @ [(?g, cm_members r)]\<rparr>) = Inr s'"
        using Cons.prems(1) time m True mutated by (auto simp: Let_def simp del: filter_empty_conv)
      from Cons.IH [OF this] all show ?thesis by simp
    qed
  qed
qed simp

lemma covered_updates:
  assumes "update_stage clock envs now target limit ids components b db = Inr u"
  shows "covered b (up_touched u) (up_budget u)"
proof -
  let ?rows = "rows_by_ids (ad_cards db) ids"
  let ?s0 = "\<lparr>up_db = db, up_budget = b, up_touched = [], up_deferred = 0, up_claimed = [], up_detected = []\<rparr>"
  from assms obtain s where s: "foldE (suppress_component clock envs now ?rows) ?s0 (filter cm_suppressed components) = Inr s"
    "assign_components clock envs now ?rows (selected_components target limit (filter (\<lambda>r. \<not> cm_suppressed r) components)) s = Inr u"
    by (auto simp: update_stage_def Let_def)
  have "covered b (up_touched s') (up_budget s')"
    if "foldE (suppress_component clock envs now ?rows) s xs = Inr s'" "covered b (up_touched s) (up_budget s)" for s s' xs
    using that by (induction xs arbitrary: s) (auto dest: covered_suppress)
  from this [OF s(1)] have "covered b (up_touched s) (up_budget s)" by (simp add: covered_none)
  from covered_assign [OF s(2) this] show ?thesis .
qed

end
