(* ===== verification/Detection_Bounds.thy ===== *)
theory Detection_Bounds
  imports Detection_Invariant Detection_Budget
begin

text \<open>
  What a pass may touch and what it may use, on any store: only the groups of the Cards it selected, at most as many of them as it
  recorded mutations, and never more comparisons than its budget allows.
\<close>

section \<open>Changes within a selection\<close>

definition mask :: "pystr set \<Rightarrow> card \<Rightarrow> card" where
  "mask ids c = (if sc_id c \<in> ids then ungroup c else c)"

definition confined :: "pystr set \<Rightarrow> authority_db \<Rightarrow> authority_db \<Rightarrow> bool" where
  "confined ids db db' \<longleftrightarrow> map (mask ids) (ad_cards db') = map (mask ids) (ad_cards db) \<and> ad_receipts db' = ad_receipts db
     \<and> ad_members db' = ad_members db \<and> ad_events db' = ad_events db \<and> (\<exists>new. ad_audits db' = ad_audits db @ new)"

named_theorems confining "operations that stay within a selection"

lemma confined_refl [simp]: "confined ids db db"
  by (simp add: confined_def)

lemma confined_trans [trans]: "confined ids a b \<Longrightarrow> confined ids b c \<Longrightarrow> confined ids a c"
  unfolding confined_def by auto

lemma confined_regroup [confining]:
  assumes "\<And>c. c \<in> set (ad_cards db) \<Longrightarrow> P c \<Longrightarrow> sc_id c \<in> ids"
  shows "confined ids db (regroup g now P db)"
proof -
  have "map (mask ids) (map (\<lambda>c. if P c then c\<lparr>cd_group := g, cd_updated := now\<rparr> else c) (ad_cards db)) = map (mask ids) (ad_cards db)"
    using assms by (auto simp: mask_def ungroup_idem(2))
  then show ?thesis by (simp add: confined_def regroup_def del: map_map)
qed

lemma confined_audit [confining]: "audit_next envs action target_type target payload db = Inr db' \<Longrightarrow> confined ids db db'"
  by (auto simp: audit_next_def audit_event_def confined_def split: if_splits)

lemma confined_outbox [confining]: "confined ids db (fst (mark_card_sidecar_outbox env touched reason db))"
proof -
  have "confined ids d (fold (mark_outbox env reason) marked d)" for marked d
  proof (induction marked arbitrary: d)
    case (Cons m marked)
    have "confined ids d (mark_outbox env reason m d)" by (cases m) (simp add: mark_outbox_def confined_def)
    also note Cons.IH
    finally show ?case by simp
  qed simp
  then show ?thesis by (simp add: mark_card_sidecar_outbox_def)
qed

lemma confined_ids: "confined ids db db' \<Longrightarrow> map sc_id (ad_cards db') = map sc_id (ad_cards db)"
proof -
  assume "confined ids db db'"
  then have "map sc_id (map (mask ids) (ad_cards db')) = map sc_id (map (mask ids) (ad_cards db))" by (simp add: confined_def)
  moreover have "sc_id (mask ids c) = sc_id c" for c by (simp add: mask_def ungroup_def)
  ultimately show ?thesis by (simp add: comp_def)
qed

section \<open>The stages are confined\<close>

definition listed :: "pystr set \<Rightarrow> (pystr, pystr list) odict \<Rightarrow> bool" where
  "listed ids grouped \<longleftrightarrow> (\<forall>(g, js)\<in>set grouped. set js \<subseteq> ids)"

lemma listed_oset:
  assumes "listed ids d" "set js \<subseteq> ids"
  shows "listed ids (oset g js d)"
proof -
  show ?thesis using assms by (induction d) (auto simp: listed_def split: if_splits)
qed

lemma listed_join:
  assumes "listed ids grouped" "sc_id c \<in> ids"
  shows "listed ids (join_group c grouped)"
proof -
  define js where "js = (case oget grouped (conflict_group c) of None \<Rightarrow> [] | Some js \<Rightarrow> js)"
  have "set js \<subseteq> ids"
    using assms(1) map_of_SomeD [of grouped "conflict_group c"]
    by (cases "oget grouped (conflict_group c)") (simp_all add: js_def listed_def, fastforce)
  then have "listed ids (oset (conflict_group c) (js @ [sc_id c]) grouped)" using assms by (intro listed_oset) simp_all
  then show ?thesis using assms(1) by (simp add: join_group_def Let_def flip: js_def)
qed

lemma confined_blanks:
  assumes "clear_blanks clock now rows grouped s = (grouped', s')" "\<forall>c\<in>set rows. sc_id c \<in> ids" "listed ids grouped"
  shows "confined ids (cl_db s) (cl_db s') \<and> listed ids grouped'"
  using assms
proof (induction rows arbitrary: grouped s)
  case (Cons c cs)
  obtain b ok where time: "has_time clock (cl_budget s) = (b, ok)" by fastforce
  have here: "sc_id c \<in> ids" "\<forall>c\<in>set cs. sc_id c \<in> ids" using Cons.prems(2) by simp_all
  have "confined ids (cl_db s) (cl_db (clear_blank clock now c (s\<lparr>cl_budget := b\<rparr>)))"
    using here(1) by (auto simp: clear_blank_def split: prod.split intro!: confined_regroup)
  with Cons.prems(1,3) Cons.IH [OF _ here(2), of grouped "clear_blank clock now c (s\<lparr>cl_budget := b\<rparr>)"]
    Cons.IH [OF _ here(2) listed_join [OF Cons.prems(3) here(1)], of "s\<lparr>cl_budget := b\<rparr>"]
  show ?case by (auto simp: time intro: confined_trans split: if_splits)
qed simp

lemma confined_group:
  assumes "set js \<subseteq> ids"
  shows "confined ids (cl_db s) (cl_db (clear_group clock now rows current wholes (g, js) s))"
proof -
  obtain b ok where time: "has_time clock (cl_budget s) = (b, ok)" by fastforce
  obtain b1 ok1 where m: "can_mutate clock (int (length (remdups (to_clear rows current js)))) b = (b1, ok1)" by fastforce
  have "set (to_clear rows current js) \<subseteq> ids" using assms by (auto simp: to_clear_def)
  then have "confined ids (cl_db s) (regroup None now (\<lambda>c. sc_id c \<in> set (to_clear rows current js) \<and> cd_group c = Some g) (cl_db s))"
    by (intro confined_regroup) blast
  then show ?thesis by (simp add: clear_group_body [OF time m])
qed

lemma confined_orphans:
  assumes "\<forall>c\<in>set rows. sc_id c \<in> ids"
  shows "confined ids db (cl_db (clear_orphan_conflict_groups clock now rows current wholes b db))"
proof -
  let ?s0 = "\<lparr>cl_db = db, cl_budget = b, cl_touched = [], cl_cleared = [], cl_deferred = 0\<rparr>"
  obtain grouped s where blanks: "clear_blanks clock now rows [] ?s0 = (grouped, s)" by fastforce
  have start: "confined ids db (cl_db s)" "listed ids grouped"
    using confined_blanks [OF blanks assms] by (simp_all add: listed_def)
  have "confined ids (cl_db s) (cl_db (fold (clear_group clock now rows current wholes) items s))" if "listed ids items" for items s
    using that
  proof (induction items arbitrary: s)
    case (Cons item items)
    obtain g js where item: "item = (g, js)" by (cases item)
    have "confined ids (cl_db s) (cl_db (clear_group clock now rows current wholes item s))"
      unfolding item by (rule confined_group) (use Cons.prems item in \<open>auto simp: listed_def\<close>)
    also have "confined ids \<dots> (cl_db (fold (clear_group clock now rows current wholes) items (clear_group clock now rows current wholes item s)))"
      by (rule Cons.IH) (use Cons.prems in \<open>simp add: listed_def\<close>)
    finally show ?case by simp
  qed simp
  from confined_trans [OF start(1) this [OF start(2)]] show ?thesis by (simp add: clear_orphan_conflict_groups_def blanks)
qed

lemma confined_clearing:
  "first_clearing clock ids now b db = Inr c \<Longrightarrow> confined (set ids) db (cl_db c)"
  "trailing_clearing clock ids now b db = Inr c \<Longrightarrow> confined (set ids) db (cl_db c)"
  by (auto simp: first_clearing_def trailing_clearing_def Let_def intro!: confined_orphans)

lemma find_row_id: "find_card i (rows_by_ids cards ids) = Some c \<Longrightarrow> i \<in> set ids"
  using find_cardD [of i "rows_by_ids cards ids" c] by auto

lemma group_of_selected: "group_of (rows_by_ids cards ids) i \<noteq> [] \<Longrightarrow> i \<in> set ids"
  by (auto simp: group_of_def member_card_def dest: find_row_id split: option.splits)

lemma confined_suppress:
  assumes "suppress_component clock envs now (rows_by_ids cards ids) s r = Inr s'"
  shows "confined (set ids) (up_db s) (up_db s')"
proof -
  let ?grouped = "filter (\<lambda>i. group_of (rows_by_ids cards ids) i \<noteq> []) (cm_members r)"
  obtain b ok where m: "can_mutate clock (int (length ?grouped)) (up_budget s) = (b, ok)" by fastforce
  show ?thesis
  proof (cases "ok \<and> ?grouped \<noteq> []")
    case False
    with assms m show ?thesis by (auto simp: suppress_component_def Let_def split: if_splits)
  next
    case True
    with assms m obtain db' target payload where
      "audit_next envs ''librarian_apply_conflict_dismissal'' ''conflict_component'' target payload
        (regroup None now (\<lambda>d. sc_id d \<in> set ?grouped) (up_db s)) = Inr db'" and s': "up_db s' = db'"
      by (auto simp: suppress_component_def Let_def simp del: filter_empty_conv split: if_splits)
    note audit = confined_audit [OF this(1), of "set ids"]
    have "confined (set ids) (up_db s) (regroup None now (\<lambda>d. sc_id d \<in> set ?grouped) (up_db s))"
      by (rule confined_regroup) (use group_of_selected in auto)
    from confined_trans [OF this audit] show ?thesis by (simp add: s')
  qed
qed

lemma confined_assign:
  assumes "assign_components clock envs now rows rs s = Inr s'" "\<forall>r\<in>set rs. set (cm_members r) \<subseteq> ids"
  shows "confined ids (up_db s) (up_db s')"
  using assms
proof (induction rs arbitrary: s)
  case (Cons r rs)
  let ?g = "choose_group rows (up_claimed s) (cm_members r)"
  let ?changed = "filter (\<lambda>i. member_card rows i (\<lambda>c. or_empty (cd_group c)) [] \<noteq> ?g) (cm_members r)"
  let ?s1 = "s\<lparr>up_claimed := ?g # up_claimed s\<rparr>"
  obtain b ok where time: "has_time clock (up_budget s) = (b, ok)" by fastforce
  obtain b1 ok1 where m: "can_mutate clock (int (length ?changed)) b = (b1, ok1)" by fastforce
  have rest: "\<forall>r\<in>set rs. set (cm_members r) \<subseteq> ids" using Cons.prems(2) by simp
  show ?case
  proof (cases ok)
    case False
    with Cons.prems(1) time show ?thesis by auto
  next
    case True
    show ?thesis
    proof (cases ok1)
      case False
      have run: "assign_components clock envs now rows rs (?s1\<lparr>up_budget := b1, up_deferred := Suc (up_deferred s)\<rparr>) = Inr s'"
        using Cons.prems(1) time m True False by (simp add: Let_def)
      show ?thesis using Cons.IH [OF run rest] by simp
    next
      case mutated: True
      obtain db where db: "(if ?changed = [] then Inr (up_db s) else audit_next envs ''librarian_detect_conflict'' ''conflict_group'' (Some ?g)
            (mkdict [(''card_ids'', PList (map PStr (cm_members r))), (''conflict_group'', PStr ?g)])
            (regroup (Some ?g) now (\<lambda>c. sc_id c \<in> set ?changed) (up_db s))) = Inr db"
        and run: "assign_components clock envs now rows rs (?s1\<lparr>up_db := db, up_budget := record_mutations (int (length ?changed)) b1,
            up_touched := up_touched s @ ?changed, up_detected := up_detected s @ [(?g, cm_members r)]\<rparr>) = Inr s'"
        using Cons.prems(1) time m True mutated by (auto simp: Let_def simp del: filter_empty_conv)
      have "confined ids (up_db s) (regroup (Some ?g) now (\<lambda>c. sc_id c \<in> set ?changed) (up_db s))"
        by (rule confined_regroup) (use Cons.prems(2) in auto)
      then have "confined ids (up_db s) db"
        using db by (cases "?changed = []") (auto simp del: filter_empty_conv intro: confined_trans confined_audit)
      then show ?thesis using Cons.IH [OF run rest] by (auto intro: confined_trans)
    qed
  qed
qed simp

text \<open>The members of a component are selected: their fingerprint exists.\<close>

lemma record_selected:
  assumes "component_record rp db cs rows bd seen = Inr (Some c)"
  shows "set (cm_members c) \<subseteq> sc_id ` set rows"
proof
  fix i
  assume i: "i \<in> set (cm_members c)"
  from component_recordD(4) [OF assms] obtain cs' where run: "mapE (the_card rows) (sort (remdups (cm_members c))) = Inr cs'"
    by (auto simp: conflict_component_fingerprint_def)
  have "i \<in> set (sort (remdups (cm_members c)))" using i by simp
  from mapE_memD [OF run this] obtain d where "the_card rows i = Inr d" by blast
  then have "find_card i rows = Some d" by (simp add: the_card_def split: option.splits)
  from find_cardD [OF this] show "i \<in> sc_id ` set rows" by blast
qed

lemma seeds_recorded:
  "scan_seeds clock rec g ss unseen b = Inr (cs, d, ok, b') \<Longrightarrow> c \<in> set cs \<Longrightarrow> \<exists>seen. rec seen = Inr (Some c)"
proof (induction ss arbitrary: unseen b cs d ok b')
  case (Cons s ss)
  show ?case
  proof (cases "s \<in> unseen")
    case False
    with Cons show ?thesis by auto
  next
    case True
    show ?thesis
      by (rule scan_seeds_Cons [OF Cons.prems(1) True]) (use Cons.prems(2) Cons.IH in auto)
  qed
qed simp

lemma components_selected:
  assumes "component_stage clock sig rp ids b db = Inr (found, d, ok, b')" "c \<in> set found"
  shows "set (cm_members c) \<subseteq> set ids"
proof -
  let ?rows = "rows_by_ids (ad_cards db) ids"
  from assms(1) obtain current cs b1 where
    scan: "scan_boundaries (scan_boundary clock sig rp db cs ?rows current) (current_boundaries ?rows current) b1 = Inr (found, d, ok, b')"
    by (auto simp: component_stage_def Let_def)
  have one: "set (cm_members c) \<subseteq> set ids" if run: "scan_boundary clock sig rp db cs ?rows current bd b2 = Inr (cs', d', ok', b3)"
    and c: "c \<in> set cs'" for bd b2 cs' d' ok' b3 c
  proof -
    define cards where "cards = filter (\<lambda>c. sc_id c \<in> set current \<and> conflict_boundary c = bd) ?rows"
    obtain b4 g ok1 where adj: "conflict_adjacency clock sig cards (set (cs_groups cs)) (bd \<in> set (cs_boundaries cs)) b2 = (b4, g, ok1)"
      by (metis prod_cases3)
    have ok1 using run c adj by (cases ok1) (auto simp: scan_boundary_def Let_def simp flip: cards_def)
    with run adj obtain ss un where "scan_seeds clock (component_record rp db cs ?rows bd) g ss un b4 = Inr (cs', d', ok', b3)"
      by (simp add: scan_boundary_def Let_def flip: cards_def)
    from seeds_recorded [OF this c] obtain seen where "component_record rp db cs ?rows bd seen = Inr (Some c)" by blast
    from record_selected [OF this] show ?thesis by auto
  qed
  have "\<forall>c\<in>set found. set (cm_members c) \<subseteq> set ids"
    if "scan_boundaries (scan_boundary clock sig rp db cs ?rows current) bds b1 = Inr (found, d, ok, b')" for bds b1 found d ok b'
    using that
  proof (induction bds arbitrary: b1 found d ok b')
    case (Cons bd bds)
    from Cons.prems obtain cs1 d1 ok1 b2 where first: "scan_boundary clock sig rp db cs ?rows current bd b1 = Inr (cs1, d1, ok1, b2)"
      and rest: "(if \<not> ok1 then Inr (cs1, d1, False, b2) else bindE (scan_boundaries (scan_boundary clock sig rp db cs ?rows current) bds b2)
          (\<lambda>(rest, d', ok', b2). Inr (cs1 @ rest, d1 + d', ok', b2))) = Inr (found, d, ok, b')" by auto
    show ?case
    proof (cases ok1)
      case False
      with rest one [OF first] show ?thesis by auto
    next
      case True
      with rest obtain extra d' ok' where "scan_boundaries (scan_boundary clock sig rp db cs ?rows current) bds b2 = Inr (extra, d', ok', b')"
        and found: "found = cs1 @ extra" by auto
      from Cons.IH [OF this(1)] one [OF first] show ?thesis unfolding found set_append by blast
    qed
  qed simp
  with scan assms(2) show ?thesis by blast
qed

lemma confined_updates:
  assumes run: "update_stage clock envs now target limit ids components b db = Inr u"
    and members: "\<And>c. c \<in> set components \<Longrightarrow> set (cm_members c) \<subseteq> set ids"
  shows "confined (set ids) db (up_db u)"
proof -
  let ?rows = "rows_by_ids (ad_cards db) ids"
  let ?s0 = "\<lparr>up_db = db, up_budget = b, up_touched = [], up_deferred = 0, up_claimed = [], up_detected = []\<rparr>"
  let ?sel = "selected_components target limit (filter (\<lambda>r. \<not> cm_suppressed r) components)"
  from run obtain s where s: "foldE (suppress_component clock envs now ?rows) ?s0 (filter cm_suppressed components) = Inr s"
    "assign_components clock envs now ?rows ?sel s = Inr u" by (auto simp: update_stage_def Let_def)
  have "confined (set ids) (up_db s) (up_db s')" if "foldE (suppress_component clock envs now ?rows) s xs = Inr s'" for s s' xs
    using that by (induction xs arbitrary: s) (auto intro: confined_trans dest: confined_suppress)
  from this [OF s(1)] have first: "confined (set ids) db (up_db s)" by simp
  have "set ?sel \<subseteq> set components" by (cases target) (auto simp: selected_components_def dest: in_set_takeD)
  then have "confined (set ids) (up_db s) (up_db u)" using members by (intro confined_assign [OF s(2)]) blast
  from confined_trans [OF first this] show ?thesis .
qed

section \<open>The account of a pass\<close>

lemma transaction_account:
  assumes "conflict_transaction clock envs sig rp target limit ids incomplete ss cursor b db = Inr p"
  obtains c1 components d1 scanned b1 u c2 current b0 b2 b3 b4 b5 db1 db2 where
    "require_time clock b = Inr b0" "first_clearing clock ids (ae_now (envs (length (ad_audits db)))) b0 db = Inr c1"
    "component_stage clock sig rp ids (cl_budget c1) (cl_db c1) = Inr (components, d1, scanned, b1)"
    "update_stage clock envs (ae_now (envs (length (ad_audits db)))) target limit ids components b1 (cl_db c1) = Inr u"
    "trailing_clearing clock ids (ae_now (envs (length (ad_audits db)))) (up_budget u) (up_db u) = Inr c2"
    "current_among clock (ad_cards (cl_db c2)) (rows_by_ids (ad_cards (cl_db c2)) ids) (cl_budget c2) = Inr (current, b2)"
    "require_time clock b2 = Inr b3" "require_time clock b3 = Inr b4" "require_time clock b4 = Inr b5"
    "ps_budget p = finish_transaction clock b5" "ps_touched p = sort (remdups (cl_touched c1 @ up_touched u @ cl_touched c2))"
    "confined (set ids) (cl_db c2) db1" "confined (set ids) db1 db2" "confined (set ids) db2 (ps_db p)"
  using assms unfolding conflict_transaction_def Let_def
  apply (elim bindE_elims)
  subgoal premises prems for b0 _ c1 components d1 scanned b1 u c2 current b2 db1 b3 b4 db3 b5
  proof (rule that [OF prems(2,4,5,6,7,8,10,11,13)])
    let ?touched = "sort (remdups (cl_touched c1 @ up_touched u @ cl_touched c2))"
    let ?db2 = "if ?touched = [] then db1
      else fst (mark_card_sidecar_outbox (envs (length (ad_audits db1))) ?touched (lit ''conflict_group_updated'') db1)"
    show "ps_budget p = finish_transaction clock b5" "ps_touched p = ?touched" using prems(14) by auto
    show "confined (set ids) (cl_db c2) db1" using prems(9) by (auto intro: confined_audit split: if_split_asm)
    show "confined (set ids) db1 ?db2" using confined_outbox by simp
    have "ps_db p = db3" using prems(14) by auto
    then show "confined (set ids) ?db2 (ps_db p)"
      using prems(12) confined_audit unfolding cursor_event_def by (auto split: if_split_asm)
  qed
  done

lemma used_finish: "used 0 0 b (finish_transaction clock b)"
  by (simp add: used_def finish_transaction_def later_def in_limits_def Let_def)

lemma transaction_used:
  assumes run: "conflict_transaction clock envs sig rp target limit ids incomplete ss cursor b db = Inr p"
    and ids: "distinct ids" "distinct (map sc_id (ad_cards db))"
  shows "used (pairs_of (length ids)) (length (ps_touched p)) b (ps_budget p)" "confined (set ids) db (ps_db p)"
proof -
  let ?now = "ae_now (envs (length (ad_audits db)))"
  obtain c1 components d1 scanned b1 u c2 current b0 b2 b3 b4 b5 db1 db2 where
    st: "require_time clock b = Inr b0" "first_clearing clock ids ?now b0 db = Inr c1"
    "component_stage clock sig rp ids (cl_budget c1) (cl_db c1) = Inr (components, d1, scanned, b1)"
    "update_stage clock envs ?now target limit ids components b1 (cl_db c1) = Inr u"
    "trailing_clearing clock ids ?now (up_budget u) (up_db u) = Inr c2"
    "current_among clock (ad_cards (cl_db c2)) (rows_by_ids (ad_cards (cl_db c2)) ids) (cl_budget c2) = Inr (current, b2)"
    "require_time clock b2 = Inr b3" "require_time clock b3 = Inr b4" "require_time clock b4 = Inr b5"
    and p: "ps_budget p = finish_transaction clock b5" "ps_touched p = sort (remdups (cl_touched c1 @ up_touched u @ cl_touched c2))"
    and conf: "confined (set ids) (cl_db c2) db1" "confined (set ids) db1 db2" "confined (set ids) db2 (ps_db p)"
    by (rule transaction_account [OF run])
  note c = confined_clearing(1) [OF st(2)] confined_updates [OF st(4) components_selected [OF st(3)]] confined_clearing(2) [OF st(5)]
  show "confined (set ids) db (ps_db p)"
    using confined_trans [OF confined_trans [OF c(1,2)] c(3)] conf confined_trans by meson
  let ?n = "length (rows_by_ids (ad_cards (cl_db c1)) ids)"
  have "distinct (map sc_id (ad_cards (cl_db c1)))" using confined_ids [OF c(1)] ids(2) by simp
  then have "distinct (map sc_id (rows_by_ids (ad_cards (cl_db c1)) ids))" by (rule rows_by_ids_distinct)
  then have "?n = card (sc_id ` set (rows_by_ids (ad_cards (cl_db c1)) ids))" by (metis distinct_card length_map set_map)
  also have "\<dots> \<le> card (set ids)" by (rule card_mono) auto
  also have "\<dots> = length ids" by (rule distinct_card [OF ids(1)])
  finally have n: "pairs_of ?n \<le> pairs_of (length ids)" by (rule pairs_of_mono)
  let ?t1 = "card (set (cl_touched c1))" and ?t2 = "card (set (up_touched u))" and ?t3 = "card (set (cl_touched c2))"
  note a = used_require [OF st(1)] covered_clearing(1) [OF st(2), unfolded covered_def] used_components [OF st(3)]
    covered_updates [OF st(4), unfolded covered_def] covered_clearing(2) [OF st(5), unfolded covered_def]
    used_current [OF st(6)] used_require [OF st(7)] used_require [OF st(8)] used_require [OF st(9)] used_finish [of b5 clock]
  have "used (pairs_of ?n) (?t1 + ?t2 + ?t3) b (cl_budget c2)"
    using used_trans [OF used_trans [OF used_trans [OF used_trans [OF a(1,2)] a(3)] a(4)] a(5)] by simp
  then have all: "used (pairs_of ?n) (?t1 + ?t2 + ?t3) b (ps_budget p)"
    unfolding p(1) using a(6-10) by (meson used_free)
  have "length (ps_touched p) = card (set (cl_touched c1) \<union> set (up_touched u) \<union> set (cl_touched c2))"
    by (simp add: p(2) length_remdups_card_conv Un_assoc)
  also have "\<dots> \<le> ?t1 + ?t2 + ?t3" using card_Un_le [of "set (cl_touched c1) \<union> set (up_touched u)" "set (cl_touched c2)"]
      card_Un_le [of "set (cl_touched c1)" "set (up_touched u)"] by linarith
  finally have "used (pairs_of ?n) (length (ps_touched p)) b (ps_budget p)" using used_weaken [OF all] by blast
  with n show "used (pairs_of (length ids)) (length (ps_touched p)) b (ps_budget p)" unfolding used_def by auto
qed

end
