(* ===== verification/Detection_Answers.thy ===== *)
theory Detection_Answers
  imports Detection_Bounds
begin

text \<open>
  A pass always answers.  Where the links of the store are acyclic, the identifiers of its audit events are fresh and the redaction leaves
  values that can be stored, no step of a pass can fail: it commits, or it gives up past its deadline.
\<close>

section \<open>Answers in time\<close>

definition punctual :: "clock \<Rightarrow> int \<Rightarrow> py_error + 'a \<Rightarrow> bool" where
  "punctual clock due r \<longleftrightarrow> isOk r \<or> r = Inl deadline_exceeded \<and> (\<exists>n. due < clock n)"

named_theorems answering "steps that answer in time"

lemma punctual_ok [intro]: "isOk r \<Longrightarrow> punctual clock due r"
  by (simp add: punctual_def)

lemma punctual_Inr [simp]: "punctual clock due (Inr x)"
  by (simp add: punctual_def)

lemma punctual_bindE:
  assumes "punctual clock due m" "\<And>x. m = Inr x \<Longrightarrow> punctual clock due (f x)"
  shows "punctual clock due (bindE m f)"
proof (cases m)
  case (Inr x)
  with assms(2) show ?thesis by simp
next
  case (Inl e)
  with assms(1) show ?thesis by (simp add: punctual_def)
qed

lemma used_deadline: "used k n b b' \<Longrightarrow> bg_deadline b' = bg_deadline b"
  by (simp add: used_def later_def)

lemma punctual_require [answering]: "bg_deadline b = due \<Longrightarrow> punctual clock due (require_time clock b)"
  by (auto simp: require_time_def has_time_def punctual_def Let_def not_le)

lemma punctual_current [answering]:
  assumes "bg_deadline b = due"
  shows "punctual clock due (current_among clock cards rows b)"
proof -
  have "punctual clock due (foldE (\<lambda>b _. require_time clock b) b rows)"
    using assms
  proof (induction rows arbitrary: b)
    case (Cons c rows)
    then show ?case
      by (auto intro!: punctual_bindE punctual_require dest!: used_require used_deadline)
  qed simp
  then show ?thesis unfolding current_among_def by (rule punctual_bindE) simp
qed

lemma punctual_keys [answering]: "bg_deadline b = due \<Longrightarrow> punctual clock due (complete_keys clock cards clause ks b)"
proof (induction ks arbitrary: b)
  case (Cons entry ks)
  obtain k n where entry: "entry = (k, n)" by (cases entry)
  have "punctual clock due (complete_keys clock cards clause ks b1)" if "require_time clock b = Inr b1" for b1
    by (rule Cons.IH) (use used_deadline [OF used_require [OF that]] Cons.prems in simp)
  then show ?case
    using punctual_require [OF Cons.prems] by (auto simp: entry intro!: punctual_bindE)
qed simp

lemma punctual_groups [answering]: "bg_deadline b = due \<Longrightarrow> punctual clock due (complete_groups clock cards rows b)"
  by (simp add: complete_groups_def punctual_keys)

lemma used_groups: "complete_groups clock cards rows b = Inr (gs, b') \<Longrightarrow> used 0 0 b b'"
  by (auto simp: complete_groups_def dest: used_complete)

lemma punctual_closure [answering]:
  assumes "bg_deadline b = due"
  shows "punctual clock due (load_closure clock cards rows b)"
  unfolding load_closure_def
proof (rule punctual_bindE)
  fix x
  assume x: "current_among clock cards rows b = Inr x"
  obtain current b1 where p: "x = (current, b1)" by (cases x)
  have b1: "bg_deadline b1 = due" using used_deadline [OF used_current [OF x [unfolded p]]] assms by simp
  show "punctual clock due (case x of (current, b1) \<Rightarrow> bindE (complete_groups clock cards rows b1) (\<lambda>(gs, b2).
     bindE (complete_boundaries clock cards rows b2) (\<lambda>(bs, b3). bindE (complete_titles clock cards rows b3) (\<lambda>(ts, b4).
       Inr (current, \<lparr>cs_groups = gs, cs_boundaries = bs, cs_titles = ts\<rparr>, b4)))))"
    unfolding p prod.case
  proof (rule punctual_bindE)
    fix y
    assume y: "complete_groups clock cards rows b1 = Inr y"
    obtain gs b2 where q: "y = (gs, b2)" by (cases y)
    have b2: "bg_deadline b2 = due" using used_deadline [OF used_groups [OF y [unfolded q]]] b1 by simp
    show "punctual clock due (case y of (gs, b2) \<Rightarrow> bindE (complete_boundaries clock cards rows b2) (\<lambda>(bs, b3).
        bindE (complete_titles clock cards rows b3) (\<lambda>(ts, b4). Inr (current, \<lparr>cs_groups = gs, cs_boundaries = bs, cs_titles = ts\<rparr>, b4))))"
      unfolding q prod.case complete_boundaries_def complete_titles_def
      by (rule punctual_bindE, rule punctual_keys [OF b2])
        (auto intro!: punctual_bindE punctual_keys simp: b2 dest!: used_complete used_deadline)
  qed (rule punctual_groups [OF b1])
qed (rule punctual_current [OF assms])

lemma punctual_clearing [answering]:
  "bg_deadline b = due \<Longrightarrow> punctual clock due (first_clearing clock ids now b db)"
  "bg_deadline b = due \<Longrightarrow> punctual clock due (trailing_clearing clock ids now b db)"
proof -
  assume b: "bg_deadline b = due"
  show "punctual clock due (first_clearing clock ids now b db)"
    unfolding first_clearing_def Let_def by (rule punctual_bindE, rule punctual_closure [OF b]) (auto split: prod.split)
  show "punctual clock due (trailing_clearing clock ids now b db)"
    unfolding trailing_clearing_def Let_def
    by (rule punctual_bindE, rule punctual_current [OF b])
      (auto split: prod.split simp: b intro!: punctual_bindE punctual_groups dest!: used_current used_deadline)
qed

section \<open>The bounded graph is acyclic\<close>

definition graph_in :: "pystr set \<Rightarrow> (pystr \<times> pystr) set \<Rightarrow> pystr graph \<Rightarrow> bool" where
  "graph_in ids E g \<longleftrightarrow> distinct (map fst g) \<and> fst ` set g = ids \<and> (\<forall>n. distinct (targets g n)) \<and> edge g \<subseteq> E \<inter> ids \<times> ids"

lemma graph_in_add: "graph_in ids E g \<Longrightarrow> a \<in> ids \<Longrightarrow> b \<in> ids \<Longrightarrow> (a, b) \<in> E \<Longrightarrow> graph_in ids E (add_edge a b g)"
proof -
  assume g: "graph_in ids E g" and ab: "a \<in> ids" "b \<in> ids" "(a, b) \<in> E"
  have "edge (add_edge a b g) = insert (a, b) (edge g)" by simp
  moreover have "distinct (targets (add_edge a b g) n)" for n using g by (simp add: graph_in_def add_edge_def targets_oset)
  ultimately show "graph_in ids E (add_edge a b g)" using g ab by (auto simp: graph_in_def add_edge_def)
qed

lemma graph_in_closed:
  assumes "graph_in ids E g"
  shows "closed_graph g"
proof -
  have "distinct ts \<and> set ts \<subseteq> ids" if "(n, ts) \<in> set g" for n ts
  proof -
    have "targets g n = ts" using that assms by (simp add: graph_in_def targets_def)
    with assms show ?thesis by (auto simp: graph_in_def edge_def)
  qed
  with assms show ?thesis unfolding closed_graph_def graph_in_def list_all_iff by blast
qed

lemma bounded_graph_in:
  assumes "distinct (map sc_id rows)" "\<forall>c\<in>set rows. sc_id c \<noteq> []"
  shows "graph_in (sc_id ` set rows) (links (set rows)) (bounded_graph rows)"
proof -
  let ?ids = "sc_id ` set rows"
  have "graph_in ?ids (links (set rows)) (foldl (link_inside ?ids) g cs)" if "graph_in ?ids (links (set rows)) g" "set cs \<subseteq> set rows" for g cs
    using that
  proof (induction cs arbitrary: g)
    case (Cons c cs)
    have ids: "sc_id c \<in> ?ids" "\<And>x. x \<in> ?ids \<Longrightarrow> x \<noteq> []" using Cons.prems(2) assms(2) by auto
    have "c \<in> set rows" using Cons.prems(2) by simp
    then have "successor c \<in> ?ids \<Longrightarrow> (sc_id c, successor c) \<in> links (set rows)" "predecessor c \<in> ?ids \<Longrightarrow> (predecessor c, sc_id c) \<in> links (set rows)"
      using ids(2) unfolding links_def by blast+
    then have "graph_in ?ids (links (set rows)) (link_inside ?ids g c)"
      using Cons.prems(1) ids(1) by (auto simp: link_inside_def Let_def intro!: graph_in_add)
    with Cons show ?case by simp
  qed simp
  moreover have "graph_in ?ids (links (set rows)) (no_edges rows)"
  proof -
    have "targets (no_edges rows) n = []" for n using no_edges_edge [of rows] by (fastforce simp: edge_def)
    moreover have "map fst (no_edges rows) = map sc_id rows" by (simp add: no_edges_def comp_def)
    ultimately show ?thesis using assms(1) by (simp add: graph_in_def) (metis list.set_map)
  qed
  ultimately show ?thesis by (simp add: bounded_graph_def)
qed

lemma bounded_dag_ok:
  assumes wf: "wf_authority db" and dag: "assert_supersession_dag (ad_cards db) = Inr g" and rows: "set rows \<subseteq> set (ad_cards db)" "distinct (map sc_id rows)"
  shows "assert_bounded_supersession_dag rows = Inr ()"
proof -
  have "\<forall>c\<in>set rows. sc_id c \<noteq> []" using wf rows(1) by (auto simp: wf_authority_def clean_id_def)
  note g = bounded_graph_in [OF rows(2) this]
  have "links (set rows) \<subseteq> links (set (ad_cards db))" using rows(1) unfolding links_def by blast
  moreover have "acyclic (links (set (ad_cards db)))" using assert_dag_iff(1) [OF _ dag] wf by (simp add: wf_authority_def)
  moreover have "edge (bounded_graph rows) \<subseteq> links (set rows)" using g by (simp add: graph_in_def)
  ultimately have "acyclic (edge (bounded_graph rows))" by (meson acyclic_subset order_trans)
  then show ?thesis
    using topological_acyclic [OF graph_in_closed [OF g]] by (simp add: assert_bounded_supersession_dag_def ensure_def)
qed

section \<open>The components are recorded\<close>

lemma receipt_check_ok: "isOk (conflict_resolution_receipt_error rp cards db r action fp ids {} topo)"
proof -
  let ?rows = "receipt_members (rc_id r) (ad_members db)"
  have broken: "isOk (any_broken cards {} ms)" if "\<forall>m\<in>set ms. find_card (mb_card m) cards \<noteq> None" for ms
    using that
  proof (induction ms)
    case (Cons m ms)
    obtain h where "conflict_member_binding_hash (the (find_card (mb_card m) cards)) = Inr h" using binding_hash_ok by blast
    moreover obtain c where "find_card (mb_card m) cards = Some c" using Cons.prems by auto
    ultimately have "binding_broken cards m = Inr (mb_hash m \<noteq> h)" by (simp add: binding_broken_def the_card_def)
    with Cons show ?case by simp
  qed simp
  have "\<forall>i\<in>set (map mb_card ?rows). find_card i cards \<noteq> None" if "receipt_member_error cards r ?rows ids {} = None"
    using that by (auto simp: receipt_member_error_def Let_def list_ex_iff split: if_splits)
  then have found: "receipt_member_error cards r ?rows ids {} = None \<Longrightarrow>
      (\<exists>h. conflict_component_fingerprint cards (map mb_card ?rows) = Inr h) \<and> (\<exists>b. any_broken cards {} ?rows = Inr b)"
    using fingerprint_ok [of "map mb_card ?rows" cards] broken [of ?rows] by (force simp: isOk_iff)
  show ?thesis
  proof (cases "receipt_head_error r action fp")
    case None
    note head = None
    show ?thesis
    proof (cases "receipt_member_error cards r ?rows ids {}")
      case None
      from found [OF None] obtain h b where "conflict_component_fingerprint cards (map mb_card ?rows) = Inr h" "any_broken cards {} ?rows = Inr b"
        by blast
      with head None show ?thesis by (simp add: conflict_resolution_receipt_error_def Let_def)
    qed (simp add: conflict_resolution_receipt_error_def Let_def head)
  qed (simp add: conflict_resolution_receipt_error_def Let_def)
qed

lemma valid_receipt_ok: "isOk (valid_conflict_resolution_receipt rp cards db action fp ids)"
proof -
  have "isOk (first_resolved f xs)" if "\<And>x. isOk (f x)" for f :: "receipt \<Rightarrow> py_error + receipt option" and xs
    using that
  proof (induction xs)
    case (Cons x xs)
    then obtain r where "f x = Inr r" by (auto simp: isOk_iff)
    with Cons show ?case by (cases r) auto
  qed simp
  then show ?thesis
    unfolding valid_conflict_resolution_receipt_def using receipt_check_ok by (fastforce simp: isOk_iff)
qed

lemma record_found_ok:
  assumes "\<forall>i\<in>set seen. find_card i rows \<noteq> None"
  shows "isOk (component_record rp db cs rows bd seen)"
proof -
  obtain h where "conflict_component_fingerprint rows (sort (remdups seen)) = Inr h"
    using fingerprint_ok [of "sort (remdups seen)" rows] assms by auto
  then show ?thesis using valid_receipt_ok by (auto simp: component_record_def Let_def isOk_iff)
qed

lemma seeds_ok:
  assumes "\<And>s b b1 seen. s \<in> set ss \<Longrightarrow> component_loop clock g [s] [] b = (b1, Some seen) \<Longrightarrow> isOk (rec seen)"
  shows "isOk (scan_seeds clock rec g ss unseen b)"
  using assms
proof (induction ss arbitrary: unseen b)
  case (Cons s ss)
  obtain b1 r where loop: "component_loop clock g [s] [] b = (b1, r)" by fastforce
  have rest: "isOk (scan_seeds clock rec g ss un b)" for un b by (rule Cons.IH) (use Cons.prems in auto)
  show ?case
  proof (cases "s \<in> unseen")
    case True
    show ?thesis
    proof (cases r)
      case (Some seen)
      have "isOk (rec seen)" by (rule Cons.prems [OF _ loop [unfolded Some]]) simp
      then obtain x where x: "rec seen = Inr x" by (auto simp: isOk_iff)
      from rest [of "unseen - set seen" b1] obtain y where "scan_seeds clock rec g ss (unseen - set seen) b1 = Inr y" by (auto simp: isOk_iff)
      with True loop Some x show ?thesis by (cases y) (auto simp del: component_loop.simps split: option.split)
    qed (use True loop in \<open>simp del: component_loop.simps\<close>)
  qed (use rest in simp)
qed simp

lemma boundary_ok:
  assumes "distinct (map sc_id rows)"
  shows "isOk (scan_boundary clock sig rp db cs rows current bd b)"
proof -
  define cards where "cards = filter (\<lambda>c. sc_id c \<in> set current \<and> conflict_boundary c = bd) rows"
  have dist: "distinct (map sc_id cards)" using assms by (simp add: cards_def distinct_map_filter)
  obtain b1 g ok where adj: "conflict_adjacency clock sig cards (set (cs_groups cs)) (bd \<in> set (cs_boundaries cs)) b = (b1, g, ok)"
    by (metis prod_cases3)
  let ?seeds = "map sc_id (filter (\<lambda>c. targets g (sc_id c) \<noteq> []) (sort_key cd_rowid cards))"
  have "isOk (component_record rp db cs rows bd seen)"
    if ok and s: "s \<in> set ?seeds" and loop: "component_loop clock g [s] [] b2 = (b3, Some seen)" for s b2 b3 seen
  proof -
    note edges = adjacency_edges(2) [OF adj [unfolded \<open>ok\<close> [THEN eqTrueI]] dist]
    have "class_of g s \<subseteq> sc_id ` set cards"
    proof
      fix x
      assume "x \<in> class_of g s"
      then have "x = s \<or> (\<exists>y. (y, x) \<in> edge g)" by (auto simp: class_of_def elim: rtranclE)
      then show "x \<in> sc_id ` set cards" using s edges by auto
    qed
    then have "set seen \<subseteq> sc_id ` set rows" using component_loop_class(2) [OF loop] by (auto simp: cards_def)
    then have "\<forall>i\<in>set seen. find_card i rows \<noteq> None" using find_card_distinct [OF assms] by fastforce
    then show ?thesis by (rule record_found_ok)
  qed
  then have "ok \<Longrightarrow> isOk (scan_seeds clock (component_record rp db cs rows bd) g ?seeds (set ?seeds) b1)"
    by (intro seeds_ok)
  then show ?thesis unfolding scan_boundary_def Let_def cards_def [symmetric] adj by simp
qed

lemma punctual_components [answering]:
  assumes "bg_deadline b = due" "distinct (map sc_id (ad_cards db))"
  shows "punctual clock due (component_stage clock sig rp ids b db)"
proof -
  let ?rows = "rows_by_ids (ad_cards db) ids"
  have rows: "distinct (map sc_id ?rows)" by (rule rows_by_ids_distinct [OF assms(2)])
  have "isOk (scan_boundaries (scan_boundary clock sig rp db cs ?rows current) bds b)" for cs current bds b
  proof (induction bds arbitrary: b)
    case (Cons bd bds)
    from boundary_ok [OF rows] obtain x where x: "scan_boundary clock sig rp db cs ?rows current bd b = Inr x"
      unfolding isOk_iff by blast
    obtain cs1 d1 ok1 b1 where p: "x = (cs1, d1, ok1, b1)" by (metis prod_cases4)
    from Cons.IH [of b1] show ?case by (auto simp: x p isOk_iff split: prod.split)
  qed simp
  then show ?thesis
    unfolding component_stage_def Let_def
    by (intro punctual_bindE) (auto intro: punctual_closure [OF assms(1)] split: prod.split)
qed

section \<open>The audit events are stored\<close>

definition fresh_audits :: "envs \<Rightarrow> authority_db \<Rightarrow> bool" where
  "fresh_audits envs db \<longleftrightarrow> inj (\<lambda>n. ae_audit_id (envs n))
     \<and> (\<forall>n\<ge>length (ad_audits db). ae_audit_id (envs n) \<notin> set (map au_id (ad_audits db)))"

definition storing :: "envs \<Rightarrow> bool" where
  "storing envs \<longleftrightarrow> (\<forall>n v. isOk (dumps store_json v) \<longrightarrow> isOk (dumps store_json (ae_redact_value (envs n) v)))"

lemma fresh_same: "ad_audits db' = ad_audits db \<Longrightarrow> fresh_audits envs db' = fresh_audits envs db"
  by (simp add: fresh_audits_def)

lemma audit_stored:
  assumes "fresh_audits envs db" "storing envs" "isOk (dumps store_json payload)"
  shows "\<exists>db'. audit_next envs action target_type target payload db = Inr db' \<and> fresh_audits envs db' \<and> ad_cards db' = ad_cards db"
proof -
  let ?env = "envs (length (ad_audits db))"
  obtain s where s: "dumps store_json (ae_redact_value ?env payload) = Inr s" using assms(2,3) by (auto simp: storing_def isOk_iff)
  have new: "ae_audit_id ?env \<notin> set (map au_id (ad_audits db))" using assms(1) by (simp add: fresh_audits_def)
  have apart: "ae_audit_id (envs n) \<noteq> ae_audit_id ?env" if "Suc (length (ad_audits db)) \<le> n" for n
    using assms(1) that by (auto simp: fresh_audits_def dest: injD)
  show ?thesis
    using s new apart assms(1) by (auto simp: audit_next_def audit_event_def ensure_def fresh_audits_def)
qed

lemma strings_ok: "isOk (dumps store_json (PList (map PStr xs)))"
proof -
  have "isOk (mapE (dumps store_json) (map PStr xs))" by (simp add: mapE_isOk)
  then show ?thesis by (auto simp: isOk_iff)
qed

lemma suppress_ok:
  assumes "fresh_audits envs (up_db s)" "storing envs"
  shows "\<exists>s'. suppress_component clock envs now rows s r = Inr s' \<and> fresh_audits envs (up_db s') \<and> bg_deadline (up_budget s') = bg_deadline (up_budget s)"
proof -
  let ?grouped = "filter (\<lambda>i. group_of rows i \<noteq> []) (cm_members r)"
  let ?db = "regroup None now (\<lambda>c. sc_id c \<in> set ?grouped) (up_db s)"
  obtain b ok where m: "can_mutate clock (int (length ?grouped)) (up_budget s) = (b, ok)" by fastforce
  have b: "bg_deadline b = bg_deadline (up_budget s)" by (rule used_deadline [OF used_can_mutate [OF m]])
  have "fresh_audits envs ?db" using assms(1) by (simp add: regroup_def fresh_audits_def)
  moreover have "isOk (dumps store_json (mkdict [(''card_ids'', PList (map PStr (cm_members r))), (''fingerprint'', PStr (cm_fingerprint r))]))"
    using strings_ok by (intro mkdict_ok) auto
  ultimately obtain db' where "audit_next envs ''librarian_apply_conflict_dismissal'' ''conflict_component'' (Some (cm_fingerprint r))
      (mkdict [(''card_ids'', PList (map PStr (cm_members r))), (''fingerprint'', PStr (cm_fingerprint r))]) ?db = Inr db'" "fresh_audits envs db'"
    using audit_stored [OF _ assms(2)] by blast
  with m b assms(1) show ?thesis
    by (simp add: suppress_component_def Let_def record_mutations_def del: filter_empty_conv)
qed

lemma assign_ok:
  assumes "fresh_audits envs (up_db s)" "storing envs"
  shows "\<exists>s'. assign_components clock envs now rows rs s = Inr s' \<and> fresh_audits envs (up_db s') \<and> bg_deadline (up_budget s') = bg_deadline (up_budget s)"
  using assms(1)
proof (induction rs arbitrary: s)
  case (Cons r rs)
  let ?g = "choose_group rows (up_claimed s) (cm_members r)"
  let ?changed = "filter (\<lambda>i. member_card rows i (\<lambda>c. or_empty (cd_group c)) [] \<noteq> ?g) (cm_members r)"
  obtain b ok where time: "has_time clock (up_budget s) = (b, ok)" by fastforce
  obtain b1 ok1 where m: "can_mutate clock (int (length ?changed)) b = (b1, ok1)" by fastforce
  have b: "bg_deadline b = bg_deadline (up_budget s)" "bg_deadline b1 = bg_deadline (up_budget s)"
    using used_deadline [OF used_time [OF time]] used_deadline [OF used_can_mutate [OF m]] by simp_all
  let ?db = "regroup (Some ?g) now (\<lambda>c. sc_id c \<in> set ?changed) (up_db s)"
  have "fresh_audits envs ?db" using Cons.prems by (simp add: regroup_def fresh_audits_def)
  moreover have "isOk (dumps store_json (mkdict [(''card_ids'', PList (map PStr (cm_members r))), (''conflict_group'', PStr ?g)]))"
    using strings_ok by (intro mkdict_ok) auto
  ultimately obtain db1 where "audit_next envs ''librarian_detect_conflict'' ''conflict_group'' (Some ?g)
      (mkdict [(''card_ids'', PList (map PStr (cm_members r))), (''conflict_group'', PStr ?g)]) ?db = Inr db1" "fresh_audits envs db1"
    using audit_stored [OF _ assms(2)] by blast
  then obtain db where db: "(if ?changed = [] then Inr (up_db s) else audit_next envs ''librarian_detect_conflict'' ''conflict_group'' (Some ?g)
      (mkdict [(''card_ids'', PList (map PStr (cm_members r))), (''conflict_group'', PStr ?g)]) ?db) = Inr db" "fresh_audits envs db"
    using Cons.prems by (cases "?changed = []") (auto simp del: filter_empty_conv)
  show ?case
  proof (cases "ok \<and> ok1")
    case True
    let ?s = "s\<lparr>up_claimed := ?g # up_claimed s, up_db := db, up_budget := record_mutations (int (length ?changed)) b1,
      up_touched := up_touched s @ ?changed, up_detected := up_detected s @ [(?g, cm_members r)]\<rparr>"
    from Cons.IH [of ?s] obtain s' where "assign_components clock envs now rows rs ?s = Inr s'" "fresh_audits envs (up_db s')"
      "bg_deadline (up_budget s') = bg_deadline (up_budget s)" using db(2) b(2) by (auto simp: record_mutations_def)
    with True time m db(1) show ?thesis by (simp add: Let_def del: filter_empty_conv)
  next
    case False
    let ?s = "s\<lparr>up_claimed := ?g # up_claimed s, up_budget := b1, up_deferred := Suc (up_deferred s)\<rparr>"
    from Cons.IH [of ?s] obtain s' where "assign_components clock envs now rows rs ?s = Inr s'" "fresh_audits envs (up_db s')"
      "bg_deadline (up_budget s') = bg_deadline (up_budget s)" using Cons.prems b(2) by auto
    with False time m Cons.prems b show ?thesis by (cases ok) (simp_all add: Let_def del: filter_empty_conv)
  qed
qed simp

lemma updates_ok:
  assumes "fresh_audits envs db" "storing envs"
  shows "\<exists>u. update_stage clock envs now target limit ids components b db = Inr u \<and> fresh_audits envs (up_db u)
    \<and> bg_deadline (up_budget u) = bg_deadline b"
proof -
  let ?rows = "rows_by_ids (ad_cards db) ids"
  have "\<exists>s'. foldE (suppress_component clock envs now ?rows) s rs = Inr s' \<and> fresh_audits envs (up_db s') \<and> bg_deadline (up_budget s') = bg_deadline (up_budget s)"
    if "fresh_audits envs (up_db s)" for s rs
    using that
  proof (induction rs arbitrary: s)
    case (Cons r rs)
    from suppress_ok [OF Cons.prems assms(2)] obtain s1 where "suppress_component clock envs now ?rows s r = Inr s1" "fresh_audits envs (up_db s1)"
      "bg_deadline (up_budget s1) = bg_deadline (up_budget s)" by blast
    with Cons.IH [of s1] show ?case by auto
  qed simp
  from this [of "\<lparr>up_db = db, up_budget = b, up_touched = [], up_deferred = 0, up_claimed = [], up_detected = []\<rparr>" "filter cm_suppressed components"] assms(1)
  obtain s where s: "foldE (suppress_component clock envs now ?rows)
      \<lparr>up_db = db, up_budget = b, up_touched = [], up_deferred = 0, up_claimed = [], up_detected = []\<rparr> (filter cm_suppressed components) = Inr s"
    "fresh_audits envs (up_db s)" "bg_deadline (up_budget s) = bg_deadline b" by auto
  from assign_ok [OF s(2) assms(2), of clock now ?rows "selected_components target limit (filter (\<lambda>r. \<not> cm_suppressed r) components)"]
  show ?thesis using s by (auto simp: update_stage_def Let_def)
qed

section \<open>A pass answers\<close>

lemma clearing_audits: "ad_audits (cl_db (clear_orphan_conflict_groups clock now rows current wholes b db)) = ad_audits db"
proof -
  have blanks: "ad_audits (cl_db s') = ad_audits (cl_db s)" if "clear_blanks clock now rs grouped s = (grouped', s')" for rs grouped s grouped' s'
    using that
  proof (induction rs arbitrary: grouped s)
    case (Cons c rs)
    obtain b ok where time: "has_time clock (cl_budget s) = (b, ok)" by fastforce
    have "ad_audits (cl_db (clear_blank clock now c (s\<lparr>cl_budget := b\<rparr>))) = ad_audits (cl_db s)"
      by (simp add: clear_blank_def regroup_def split: prod.split)
    with Cons.prems Cons.IH show ?case by (auto simp: time split: if_splits)
  qed simp
  have "ad_audits (cl_db (clear_group clock now rows current wholes item s)) = ad_audits (cl_db s)" for item s
  proof -
    obtain g js where item: "item = (g, js)" by (cases item)
    obtain b ok where time: "has_time clock (cl_budget s) = (b, ok)" by fastforce
    obtain b1 ok1 where m: "can_mutate clock (int (length (remdups (to_clear rows current js)))) b = (b1, ok1)" by fastforce
    show ?thesis by (simp add: item clear_group_body [OF time m] regroup_def)
  qed
  then have "ad_audits (cl_db (fold (clear_group clock now rows current wholes) items s)) = ad_audits (cl_db s)" for items s
    by (induction items arbitrary: s) simp_all
  with blanks [of rows "[]" "\<lparr>cl_db = db, cl_budget = b, cl_touched = [], cl_cleared = [], cl_deferred = 0\<rparr>"] show ?thesis
    by (simp add: clear_orphan_conflict_groups_def split: prod.split)
qed

lemma stage_audits:
  "first_clearing clock ids now b db = Inr c \<Longrightarrow> ad_audits (cl_db c) = ad_audits db"
  "trailing_clearing clock ids now b db = Inr c \<Longrightarrow> ad_audits (cl_db c) = ad_audits db"
  by (auto simp: first_clearing_def trailing_clearing_def Let_def clearing_audits)

lemma outbox_audits: "ad_audits (fst (mark_card_sidecar_outbox env touched reason db)) = ad_audits db"
proof -
  have "ad_audits (fold (mark_outbox env reason) marked d) = ad_audits d" for marked d
    by (induction marked arbitrary: d) (simp_all add: mark_outbox_def split: prod.split)
  then show ?thesis by (simp add: mark_card_sidecar_outbox_def)
qed

lemma punctual_bind_pair:
  "punctual clock due m \<Longrightarrow> (\<And>x y. m = Inr (x, y) \<Longrightarrow> punctual clock due (f x y)) \<Longrightarrow> punctual clock due (bindE m (\<lambda>(x, y). f x y))"
  by (rule punctual_bindE) auto

lemma punctual_bind_tuple:
  "punctual clock due m \<Longrightarrow> (\<And>x y z w. m = Inr (x, y, z, w) \<Longrightarrow> punctual clock due (f x y z w))
    \<Longrightarrow> punctual clock due (bindE m (\<lambda>(x, y, z, w). f x y z w))"
  by (rule punctual_bindE) auto

lemma punctual_unless:
  assumes "fresh_audits envs db" "storing envs" "isOk (dumps store_json payload)"
    "\<And>db'. fresh_audits envs db' \<Longrightarrow> punctual clock due (f db')"
  shows "punctual clock due (bindE (if silent then Inr db else audit_next envs action target_type target payload db) f)"
proof (cases silent)
  case False
  from audit_stored [OF assms(1-3)] obtain db' where "audit_next envs action target_type target payload db = Inr db'" "fresh_audits envs db'" by blast
  with assms(4) False show ?thesis by simp
qed (use assms in simp)

lemma if_not_cursor: "(if P then x else y) = (if \<not> P then y else x)"
  by simp

lemma transaction_answers:
  assumes wf: "wf_authority db" and dag: "assert_supersession_dag (ad_cards db) = Inr g"
    and audits: "fresh_audits envs db" "storing envs"
  shows "punctual clock (bg_deadline b) (conflict_transaction clock envs sig rp target limit ids incomplete ss cursor b db)"
proof -
  have dist: "distinct (map sc_id (ad_cards db))" using wf by (simp add: wf_authority_def)
  let ?rows = "rows_by_ids (ad_cards db) ids" and ?now = "ae_now (envs (length (ad_audits db)))"
  have bounded: "assert_bounded_supersession_dag ?rows = Inr ()"
    by (rule bounded_dag_ok [OF wf dag]) (auto simp: rows_by_ids_distinct [OF dist])
  have cursor_ok: "isOk (dumps store_json (mkdict [(''schema'', PStr (lit ''continuum.conflict_scan_cursor.v1'')), (''next_rowid'', PInt (ss_next ss)),
          (''candidate_count'', PInt (int n)), (''wrapped'', PBool (ss_wrapped ss))]))" for n by (intro mkdict_ok) auto
  have orphans_ok: "isOk (dumps store_json (mkdict [(''card_ids'', PList (map PStr (sort (remdups orphans))))]))" for orphans
    using strings_ok by (intro mkdict_ok) auto
  let ?due = "bg_deadline b"
  have last: "punctual clock ?due (bindE (if \<not> incomplete \<and> (ss_more ss \<or> 0 < cursor) then cursor_event envs target ss n db2 else Inr db2) (\<lambda>db3.
      bindE (require_time clock b4) (\<lambda>b5. Inr (result db3 b5))))"
    if "fresh_audits envs db2" "bg_deadline b4 = ?due" for n db2 b4 and result :: "authority_db \<Rightarrow> budget \<Rightarrow> pass"
    unfolding cursor_event_def
    by (subst if_not_cursor, rule punctual_unless [OF that(1) audits(2) cursor_ok])
      (simp add: punctual_bindE punctual_require that(2))
  have after: "punctual clock ?due (bindE (trailing_clearing clock ids ?now (up_budget u) (up_db u)) rest)"
    if "fresh_audits envs (up_db u)" "bg_deadline (up_budget u) = ?due"
      "\<And>c2. fresh_audits envs (cl_db c2) \<Longrightarrow> bg_deadline (cl_budget c2) = ?due \<Longrightarrow> punctual clock ?due (rest c2)"
    for u and rest :: "clearing \<Rightarrow> py_error + pass"
  proof (rule punctual_bindE [OF punctual_clearing(2) [OF that(2)]])
    fix c2
    assume c2: "trailing_clearing clock ids ?now (up_budget u) (up_db u) = Inr c2"
    with that(1,2) show "punctual clock ?due (rest c2)"
      by (intro that(3)) (simp_all add: fresh_same [OF stage_audits(2) [OF c2]] used_deadline [OF covered_clearing(2) [OF c2, unfolded covered_def]])
  qed
  have before: "punctual clock ?due (bindE (first_clearing clock ids ?now b0 db) (\<lambda>c1.
      bindE (component_stage clock sig rp ids (cl_budget c1) (cl_db c1)) (\<lambda>(components, d1, scanned, b1).
      bindE (update_stage clock envs ?now target limit ids components b1 (cl_db c1)) (\<lambda>u. rest c1 components d1 scanned u))))"
    if "bg_deadline b0 = ?due" "\<And>c1 components d1 scanned u. fresh_audits envs (up_db u) \<Longrightarrow> bg_deadline (up_budget u) = ?due
        \<Longrightarrow> punctual clock ?due (rest c1 components d1 scanned u)"
    for b0 and rest :: "clearing \<Rightarrow> component list \<Rightarrow> nat \<Rightarrow> bool \<Rightarrow> updates \<Rightarrow> py_error + pass"
  proof (rule punctual_bindE [OF punctual_clearing(1) [OF that(1)]])
    fix c1
    assume c1: "first_clearing clock ids ?now b0 db = Inr c1"
    have due1: "bg_deadline (cl_budget c1) = ?due" using used_deadline [OF covered_clearing(1) [OF c1, unfolded covered_def]] that(1) by simp
    have fresh1: "fresh_audits envs (cl_db c1)" using fresh_same [OF stage_audits(1) [OF c1]] audits(1) by simp
    have dist1: "distinct (map sc_id (ad_cards (cl_db c1)))" using confined_ids [OF confined_clearing(1) [OF c1]] dist by simp
    show "punctual clock ?due (bindE (component_stage clock sig rp ids (cl_budget c1) (cl_db c1)) (\<lambda>(components, d1, scanned, b1).
        bindE (update_stage clock envs ?now target limit ids components b1 (cl_db c1)) (\<lambda>u. rest c1 components d1 scanned u)))"
    proof (rule punctual_bind_tuple [OF punctual_components [OF due1 dist1]])
      fix components d1 scanned b1
      assume "component_stage clock sig rp ids (cl_budget c1) (cl_db c1) = Inr (components, d1, scanned, b1)"
      then have "bg_deadline b1 = ?due" using used_deadline [OF used_components] due1 by simp
      moreover obtain u where "update_stage clock envs ?now target limit ids components b1 (cl_db c1) = Inr u" "fresh_audits envs (up_db u)"
        "bg_deadline (up_budget u) = bg_deadline b1" using updates_ok [OF fresh1 audits(2)] by blast
      ultimately show "punctual clock ?due (bindE (update_stage clock envs ?now target limit ids components b1 (cl_db c1)) (\<lambda>u. rest c1 components d1 scanned u))"
        using that(2) by simp
    qed
  qed
  show ?thesis
    unfolding conflict_transaction_def Let_def bounded
    apply (rule punctual_bindE [OF punctual_require [OF refl]])
    apply (unfold bindE_simps)
    apply (rule before)
     apply (simp add: used_deadline [OF used_require])
    apply (erule (1) after)
    apply (rule punctual_bind_pair, erule punctual_current)
    apply (rule punctual_unless [OF _ audits(2) orphans_ok], assumption)
    apply (rule punctual_bindE, rule punctual_require, simp add: used_deadline [OF used_current])
    apply (rule punctual_bindE, rule punctual_require, simp add: used_deadline [OF used_current] used_deadline [OF used_require])
    apply (rule last)
     apply (simp add: fresh_same [OF outbox_audits])
    apply (simp add: used_deadline [OF used_current] used_deadline [OF used_require])
    done
qed


end
