(* ===== verification/Detection_Claims.thy ===== *)
theory Detection_Claims
  imports Detection_Answers
begin

text \<open>
  What a whole pass of \<open>detect_conflicts\<close> promises: it stays within its selection and its budget, and it keeps a store clean
  in the sense of the temporal authority report.
\<close>

section \<open>The two ways a pass ends\<close>

lemma detect_cases:
  assumes "detect_conflicts clock envs sig rp fi target limit lims seen db = Inr (db', d)"
  obtains (committed) b rows ss ids incomplete cursor p where
      "bounded_conflict_rows (ad_cards seen) (nat (bg_candidate_limit b)) (if target = Some [] then None else target) cursor = Inr (rows, ss)"
      "b = start_transaction clock (conflict_work_budget clock 0 (max 1 limit) lims)" "ids = (if incomplete then [] else map sc_id rows)"
      "conflict_transaction clock envs sig rp (if target = Some [] then None else target) (nat (max 1 limit)) ids incomplete ss cursor
         (b\<lparr>bg_candidates := int (length rows), bg_candidate_out := ss_more ss\<rparr>) db = Inr p"
      "db' = ps_db p" "dt_changed d = length (ps_touched p)" "dt_budget d = ps_budget p" "\<not> dt_aborted d"
    | (aborted) b m mo where "b = start_transaction clock (conflict_work_budget clock 0 (max 1 limit) lims)" "db' = db" "dt_changed d = 0"
      "dt_budget d = b\<lparr>bg_candidates := m, bg_candidate_out := mo, bg_mutations := 0, bg_time_out := True\<rparr>" "dt_aborted d"
proof -
  let ?target = "if target = Some [] then None else target" and ?limit = "max 1 limit"
  let ?b = "start_transaction clock (conflict_work_budget clock 0 ?limit lims)"
  obtain cursor rows ss where
    rows: "bounded_conflict_rows (ad_cards seen) (nat (bg_candidate_limit ?b)) ?target cursor = Inr (rows, ss)"
    and run: "(let b1 = ?b\<lparr>bg_candidates := int (length rows), bg_candidate_out := ss_more ss\<rparr>;
          incomplete = (?target \<noteq> None \<and> (ss_overflow ss \<or> bg_candidate_limit ?b < int (ss_required ss)));
          ids = (if incomplete then [] else map sc_id rows); d0 = (if incomplete then 1 else 0)
      in (case conflict_transaction clock envs sig rp ?target (nat ?limit) ids incomplete ss cursor b1 db of
            Inr p \<Rightarrow> Inr (ps_db p, detection_result ?target False ss (p\<lparr>ps_deferred := d0 + ps_deferred p\<rparr>))
          | Inl e \<Rightarrow> if e = deadline_exceeded
              then Inr (db, detection_result ?target True (ss\<lparr>ss_next := cursor, ss_more := True\<rparr>)
                     (empty_pass db (b1\<lparr>bg_mutations := 0, bg_time_out := True\<rparr>) (Suc d0)))
              else Inl e)) = Inr (db', d)"
    using assms unfolding detect_conflicts_def Let_def by (elim bindE_elims) auto
  define incomplete where "incomplete = (?target \<noteq> None \<and> (ss_overflow ss \<or> bg_candidate_limit ?b < int (ss_required ss)))"
  define ids where "ids = (if incomplete then [] else map sc_id rows)"
  define b1 where "b1 = ?b\<lparr>bg_candidates := int (length rows), bg_candidate_out := ss_more ss\<rparr>"
  note run = run [unfolded Let_def, folded b1_def incomplete_def, folded ids_def]
  show thesis
  proof (cases "conflict_transaction clock envs sig rp ?target (nat ?limit) ids incomplete ss cursor b1 db")
    case (Inr p)
    with run have "db' = ps_db p" "d = detection_result ?target False ss (p\<lparr>ps_deferred := (if incomplete then 1 else 0) + ps_deferred p\<rparr>)"
      by simp_all
    then show thesis
      using committed [OF rows refl ids_def Inr [unfolded b1_def]] by (simp add: detection_result_def Let_def)
  next
    case (Inl e)
    with run have "db' = db" "d = detection_result ?target True (ss\<lparr>ss_next := cursor, ss_more := True\<rparr>)
        (empty_pass db (b1\<lparr>bg_mutations := 0, bg_time_out := True\<rparr>) (Suc (if incomplete then 1 else 0)))"
      by (simp_all split: if_splits)
    then show thesis
      using aborted [OF refl, where m = "int (length rows)" and mo = "ss_more ss"] by (simp add: detection_result_def empty_pass_def b1_def Let_def)
  qed
qed

lemma started_limits: "in_limits (start_transaction clock (conflict_work_budget clock k limit l))"
  using new_in_limits [of clock k limit l] by (simp add: start_transaction_def in_limits_def Let_def)

lemma started_counts:
  "bg_comparisons (start_transaction clock (conflict_work_budget clock k limit l)) = 0"
  "bg_mutations (start_transaction clock (conflict_work_budget clock k limit l)) = 0"
  "bg_comparison_out (start_transaction clock (conflict_work_budget clock k limit l)) = False"
  "bg_comparison_limit (start_transaction clock (conflict_work_budget clock k limit l)) = bg_comparison_limit (conflict_work_budget clock k limit l)"
  "bg_candidate_limit (start_transaction clock (conflict_work_budget clock k limit l)) = bg_candidate_limit (conflict_work_budget clock k limit l)"
  "bg_mutation_limit (start_transaction clock (conflict_work_budget clock k limit l)) \<le> 512"
  by (simp_all add: start_transaction_def conflict_work_budget_def new_budget_def Let_def clamp_def max_mutations_def)

lemma budget_limits:
  "bg_candidate_limit (conflict_work_budget clock k limit l) \<le> 512" "1 \<le> bg_candidate_limit (conflict_work_budget clock k limit l)"
  by (simp_all add: conflict_work_budget_def new_budget_def Let_def clamp_def max_candidates_def)

section \<open>Groups of their own\<close>

text \<open>Every group in use was generated from one of its members, and no two Cards generate the same group.\<close>

definition own_groups :: "card list \<Rightarrow> bool" where
  "own_groups cards \<longleftrightarrow> list_all (\<lambda>c. cd_group c = None
     \<or> list_ex (\<lambda>d. cd_group d = cd_group c \<and> cd_group c = Some (generated_group (sc_id d))) cards) cards"

definition name_collision :: "card list \<Rightarrow> bool" where
  "name_collision cards \<longleftrightarrow>
     list_ex (\<lambda>c. list_ex (\<lambda>d. sc_id c \<noteq> sc_id d \<and> generated_group (sc_id c) = generated_group (sc_id d)) cards) cards"

lemma own_groups_iff:
  assumes "distinct (map sc_id cards)"
  shows "own_groups cards \<longleftrightarrow> gn.named (group_view cards)"
proof
  assume own: "own_groups cards"
  show "gn.named (group_view cards)"
    unfolding gn.named_def
  proof (intro allI impI)
    fix i g
    assume "group_view cards i = Some g"
    then obtain c where "c \<in> set cards" "cd_group c = Some g" using group_viewD by blast
    with own obtain d where d: "d \<in> set cards" "cd_group d = Some g" "g = generated_group (sc_id d)"
      by (auto simp: own_groups_def list_all_iff list_ex_iff)
    then show "\<exists>a. g = generated_group a \<and> group_view cards a = Some g" using group_view_card [OF assms d(1)] by auto
  qed
next
  assume named: "gn.named (group_view cards)"
  have "\<exists>d\<in>set cards. cd_group d = Some g \<and> g = generated_group (sc_id d)" if "c \<in> set cards" "cd_group c = Some g" for c g
  proof -
    have "group_view cards (sc_id c) = Some g" using group_view_card [OF assms that(1)] that(2) by simp
    with named obtain a where a: "g = generated_group a" "group_view cards a = Some g" unfolding gn.named_def by blast
    from group_viewD [OF a(2)] a(1) show ?thesis by blast
  qed
  then show "own_groups cards" unfolding own_groups_def list_all_iff list_ex_iff by (metis not_None_eq)
qed

lemma no_collision: "\<not> name_collision cards \<longleftrightarrow> inj_on generated_group (sc_id ` set cards)"
  by (auto simp: name_collision_def list_ex_iff inj_on_def)

section \<open>A clean store stays clean\<close>

lemma detection_clean:
  assumes wf: "wf_authority db" and agents: "distinct (map fst agents)" and own: "own_groups (ad_cards db)"
    and report: "temporal_authority_report rp db agents [] = Inr a" "report_ok a" and clock: "mono clock"
    and run: "detect_conflicts clock envs (conflict_signature cf rp') rp' fi target limit lims seen db = Inr (db', d)"
    and no: "\<not> name_collision (ad_cards db)"
  shows "wf_authority db' \<and> own_groups (ad_cards db') \<and> (\<exists>a'. temporal_authority_report rp db' agents [] = Inr a' \<and> report_ok a')
    \<and> set (map sc_id (ad_cards db')) = set (map sc_id (ad_cards db))"
  using run
proof (cases rule: detect_cases)
  case (committed b rows ss ids incomplete cursor p)
  have dist: "distinct (map sc_id (ad_cards db))" using wf by (simp add: wf_authority_def)
  have named: "gn.named (group_view (ad_cards db))" using own own_groups_iff [OF dist] by simp
  have sig: "sg_type (conflict_signature cf rp' c) = member_type c" for c by (simp add: conflict_signature_def Let_def)
  note t = transaction_sound [OF committed(4) clean_sound_db [OF wf agents named report] sig clock no [unfolded no_collision]]
  have wf': "wf_authority db'" "gn.named (group_view (ad_cards db'))" using t(1) by (simp_all add: committed(5) sound_db_def)
  then have "own_groups (ad_cards db')" using own_groups_iff by (simp add: wf_authority_def)
  with wf'(1) regrouped_report [OF wf agents t(2) report sound_db_report [OF t(1)]] regrouped_views(5) [OF t(2) wf]
  show ?thesis by (simp add: committed(5))
next
  case aborted
  with wf own report show ?thesis by blast
qed

section \<open>A pass answers\<close>

text \<open>What a targeted pass must be given, and what the cursor of the last scan must be.\<close>

definition accepted_request :: "(pyfloat \<Rightarrow> int) \<Rightarrow> pystr option \<Rightarrow> limits \<Rightarrow> authority_db \<Rightarrow> bool" where
  "accepted_request fi target lims seen \<longleftrightarrow>
     (target = None \<or> target = Some [] \<or> (case lm_candidates lims of None \<Rightarrow> True | Some n \<Rightarrow> 2 \<le> n)) \<and> isOk (latest_cursor fi (ad_audits seen))"

lemma pass_total:
  assumes wf: "wf_authority db" and dag: "assert_supersession_dag (ad_cards db) = Inr g"
    and audits: "fresh_audits envs db" "storing envs" and request: "accepted_request fi target lims seen"
  shows "\<exists>db' d. detect_conflicts clock envs sig rp fi target limit lims seen db = Inr (db', d)
    \<and> (dt_aborted d \<longrightarrow> (\<exists>n. bg_deadline (dt_budget d) < clock n))"
proof -
  let ?target = "if target = Some [] then None else target" and ?limit = "max 1 limit"
  let ?b = "start_transaction clock (conflict_work_budget clock 0 ?limit lims)"
  have guard: "\<not> (?target \<noteq> None \<and> (case lm_candidates lims of None \<Rightarrow> False | Some n \<Rightarrow> n < 2))"
    using request by (auto simp: accepted_request_def split: option.splits)
  obtain cursor where cursor: "(if ?target = None then latest_cursor fi (ad_audits seen) else Inr 0) = Inr cursor"
    using request by (cases "?target = None") (auto simp: accepted_request_def isOk_iff)
  obtain rows ss where rows: "bounded_conflict_rows (ad_cards seen) (nat (bg_candidate_limit ?b)) ?target cursor = Inr (rows, ss)"
    using bounded_rows_ok by (force simp: isOk_iff)
  define incomplete where "incomplete = (?target \<noteq> None \<and> (ss_overflow ss \<or> bg_candidate_limit ?b < int (ss_required ss)))"
  define b1 where "b1 = ?b\<lparr>bg_candidates := int (length rows), bg_candidate_out := ss_more ss\<rparr>"
  define r where "r = conflict_transaction clock envs sig rp ?target (nat ?limit) (if incomplete then [] else map sc_id rows) incomplete ss cursor b1 db"
  have run: "detect_conflicts clock envs sig rp fi target limit lims seen db =
      (case r of Inr p \<Rightarrow> Inr (ps_db p, detection_result ?target False ss (p\<lparr>ps_deferred := (if incomplete then 1 else 0) + ps_deferred p\<rparr>))
          | Inl e \<Rightarrow> if e = deadline_exceeded
              then Inr (db, detection_result ?target True (ss\<lparr>ss_next := cursor, ss_more := True\<rparr>)
                     (empty_pass db (b1\<lparr>bg_mutations := 0, bg_time_out := True\<rparr>) (Suc (if incomplete then 1 else 0))))
              else Inl e)"
    unfolding detect_conflicts_def Let_def r_def b1_def incomplete_def
    by (simp only: guard cursor rows ensure_def if_True not_False_eq_True bindE_simps prod.case)
  have "punctual clock (bg_deadline b1) r" unfolding r_def by (rule transaction_answers [OF wf dag audits])
  then show ?thesis
  proof (cases r)
    case (Inr p)
    then show ?thesis using run by (simp add: detection_result_def Let_def)
  next
    case (Inl e)
    with \<open>punctual clock (bg_deadline b1) r\<close> have "e = deadline_exceeded" "\<exists>n. bg_deadline b1 < clock n" by (auto simp: punctual_def)
    then show ?thesis using run Inl by (simp add: detection_result_def empty_pass_def Let_def)
  qed
qed

section \<open>Two open notes\<close>

definition open_db :: authority_db where
  "open_db = regroup None (lit ''t0'') (\<lambda>_. True) demo_db"

definition open_envs :: envs where
  "open_envs n = demo_env\<lparr>ae_audit_id := replicate n 0\<rparr>"

definition no_limits :: limits where
  "no_limits = \<lparr>lm_candidates = None, lm_comparisons = None, lm_members = None, lm_mutations = None, lm_nanoseconds = None\<rparr>"

lemma open_wf: "wf_authority open_db"
  unfolding open_db_def by (rule regrouped_wf [OF regrouped_regroup demo_wf])

lemma open_groups: "c \<in> set (ad_cards open_db) \<Longrightarrow> cd_group c = None"
  by (auto simp: open_db_def regroup_def demo_db_def)

lemma open_dag: "\<exists>g. assert_supersession_dag (ad_cards open_db) = Inr g"
proof -
  have "links (set (ad_cards open_db)) = {}"
    using demo_fields(1,2) by (auto simp: links_def open_db_def regroup_def demo_db_def successor_def predecessor_def)
  then show ?thesis using assert_dag_iff(2) [of "ad_cards open_db"] open_wf by (simp add: wf_authority_def acyclic_def)
qed

lemma open_report: "\<exists>a. temporal_authority_report (\<lambda>_. []) open_db [] [] = Inr a \<and> report_ok a"
proof -
  obtain a where a: "temporal_authority_report (\<lambda>_. []) demo_db [] [] = Inr a" "report_ok a" using demo_report by blast
  have "sound_groups (sorted_cards open_db) (referenced (sorted_cards open_db))"
    unfolding sound_groups_sorted using open_groups by (auto simp: sound_groups_def conflict_group_def py_strip_def)
  then show ?thesis
    unfolding open_db_def using regrouped_report [OF demo_wf _ regrouped_regroup a] by simp
qed

lemma open_audits: "fresh_audits open_envs open_db" "storing open_envs"
proof -
  have "inj (\<lambda>n. ae_audit_id (open_envs n))" by (rule injI) (simp add: open_envs_def)
  then show "fresh_audits open_envs open_db" by (simp add: fresh_audits_def open_db_def regroup_def demo_db_def)
  show "storing open_envs" by (simp add: storing_def open_envs_def demo_env_def)
qed

abbreviation open_pass :: "py_error + authority_db \<times> detection" where
  "open_pass \<equiv> detect_conflicts (\<lambda>_. 0) open_envs (conflict_signature (\<lambda>s. s) (\<lambda>_. [])) (\<lambda>_. []) (\<lambda>_. 0) None 10 no_limits open_db open_db"

lemma open_request: "accepted_request (\<lambda>_. 0) None no_limits open_db"
  by (simp add: accepted_request_def latest_cursor_def open_db_def regroup_def demo_db_def)

lemma open_run: obtains db' d where "open_pass = Inr (db', d)"
  using pass_total [OF open_wf _ open_audits open_request] open_dag by blast

lemma open_ids: "distinct (map sc_id (ad_cards open_db))"
  using open_wf by (simp add: wf_authority_def)

section \<open>Properties\<close>







end
