(* ===== verification/Authority_Runs.thy ===== *)
theory Authority_Runs
  imports Detection_Claims
begin

text \<open>
  The life of a store between two reports: any sequence of conflict passes and conflict resolutions.  A store that starts clean stays
  clean.
\<close>

section \<open>The steps\<close>

text \<open>What a receipt needs to be read back: a nonempty identifier, Unicode texts, a known visibility scope, and nothing in
  its audit event that the redaction changes.\<close>

definition faithful_receipt :: "authority_env \<Rightarrow> pystr \<Rightarrow> pystr \<Rightarrow> authority_db \<Rightarrow> resolution \<Rightarrow> bool" where
  "faithful_receipt env i action db rs \<longleftrightarrow>
     (case find_card i (ad_cards db) of None \<Rightarrow> False
      | Some winner \<Rightarrow>
          let b = conflict_boundary winner; ids = all_members i (rs_peers rs)
          in not_redacted env i (resolution_payload (rs_id rs) action (rs_group rs) (rs_fingerprint rs) i ids b)
             \<and> list_all (readable True) ([rs_id rs, action, rs_group rs, rs_fingerprint rs, i, fst b, fst (snd b), snd (snd b)] @ ids)
             \<and> rs_id rs \<noteq> [] \<and> fst b \<in> set valid_visibility_scopes)"

inductive authority_step :: "authority_db \<Rightarrow> authority_db \<Rightarrow> bool" where
  resolving: "resolve_conflict rp fi env i action superseded db = Inr (db', rs) \<Longrightarrow> faithful_receipt env i action db rs
    \<Longrightarrow> authority_step db db'"
| detecting: "detect_conflicts clock envs (conflict_signature cf rp) rp fi target limit lims seen db = Inr (db', d) \<Longrightarrow> mono clock
    \<Longrightarrow> authority_step db db'"

inductive authority_run :: "authority_db \<Rightarrow> authority_db \<Rightarrow> bool" where
  start: "authority_run db db"
| continue: "authority_run db db1 \<Longrightarrow> authority_step db1 db2 \<Longrightarrow> authority_run db db2"

definition clean_store :: "(pystr, pystr) odict \<Rightarrow> (pyval \<Rightarrow> pystr) \<Rightarrow> authority_db \<Rightarrow> bool" where
  "clean_store agents rp db \<longleftrightarrow> wf_authority db \<and> own_groups (ad_cards db)
     \<and> (case temporal_authority_report rp db agents [] of Inr a \<Rightarrow> report_ok a | Inl _ \<Rightarrow> False)"

lemma clean_storeE:
  assumes "clean_store agents rp db"
  obtains a where "wf_authority db" "own_groups (ad_cards db)" "temporal_authority_report rp db agents [] = Inr a" "report_ok a"
  using assms unfolding clean_store_def by (cases "temporal_authority_report rp db agents []") auto

lemma clean_storeI:
  "wf_authority db \<Longrightarrow> own_groups (ad_cards db) \<Longrightarrow> \<exists>a. temporal_authority_report rp db agents [] = Inr a \<and> report_ok a \<Longrightarrow> clean_store agents rp db"
  unfolding clean_store_def by auto

section \<open>A resolution keeps groups their own\<close>

lemma own_plain: "own_groups cards \<Longrightarrow> plain_groups cards"
  unfolding own_groups_def plain_groups_def list_all_iff list_ex_iff using generated_proper by fastforce

lemma resolution_own:
  assumes run: "resolve_conflict rp fi env i action superseded db = Inr (db', rs)" and wf: "wf_authority db"
    and own: "own_groups (ad_cards db)"
  shows "wf_authority db' \<and> own_groups (ad_cards db') \<and> set (map sc_id (ad_cards db')) = set (map sc_id (ad_cards db))"
proof -
  let ?M = "insert i (set (rs_peers rs))"
  obtain U P where step: "resolution_step (sorted_cards db) U P ?M i" and cards: "sorted_cards db' = map U (sorted_cards db)"
    and wf': "wf_authority db'" by (rule resolution_is_step [OF run wf own_plain [OF own]])
  note fields = step_simps [OF step]
  have set': "set (ad_cards db') = U ` set (ad_cards db)" using cards by (metis set_map sorted_cards_simps(1))
  have closed: "sc_id e \<in> ?M" if "d \<in> set (ad_cards db)" "e \<in> set (ad_cards db)" "sc_id d \<in> ?M" "cd_group d = Some g" "cd_group e = Some g"
      "g = generated_group j" for d e g j
  proof -
    have "conflict_group d = g" "conflict_group e = g" "g \<noteq> []" using that(4-6) generated_proper [of j] by (simp_all add: conflict_group_def)
    moreover have "closed_members (sorted_cards db) ?M" using step by (simp add: resolution_step_def)
    ultimately show ?thesis using that(1-3) unfolding closed_members_def sorted_cards_simps by metis
  qed
  have "\<exists>d'\<in>set (ad_cards db'). cd_group d' = cd_group c' \<and> cd_group c' = Some (generated_group (sc_id d'))"
    if c': "c' \<in> set (ad_cards db')" "cd_group c' \<noteq> None" for c'
  proof -
    from c' set' obtain c where c: "c \<in> set (ad_cards db)" "c' = U c" "sc_id c \<notin> ?M" "cd_group c' = cd_group c"
      using fields(6) by (auto split: if_splits)
    with c'(2) own obtain d where d: "d \<in> set (ad_cards db)" "cd_group d = cd_group c" "cd_group c = Some (generated_group (sc_id d))"
      unfolding own_groups_def list_all_iff list_ex_iff by metis
    with closed [OF d(1) c(1) _ _ d(3) refl] c(3) have "sc_id d \<notin> ?M" by auto
    then have "cd_group (U d) = cd_group d" "sc_id (U d) = sc_id d" using fields(1,6) by simp_all
    with d c(4) set' show ?thesis by (intro bexI [of _ "U d"]) auto
  qed
  then have "own_groups (ad_cards db')" unfolding own_groups_def list_all_iff list_ex_iff by blast
  moreover have "set (map sc_id (ad_cards db')) = set (map sc_id (ad_cards db))" unfolding set_map set' image_image fields(1) ..
  ultimately show ?thesis using wf' by blast
qed

section \<open>Every run\<close>

lemma collision_ids: "set (map sc_id cards') = set (map sc_id cards) \<Longrightarrow> name_collision cards' = name_collision cards"
  using no_collision [of cards'] no_collision [of cards] by auto

lemma step_stays_clean:
  assumes "authority_step db db'" "clean_store agents rp db" "distinct (map fst agents)" "\<not> name_collision (ad_cards db)"
  shows "clean_store agents rp db' \<and> set (map sc_id (ad_cards db')) = set (map sc_id (ad_cards db))"
  using assms(1)
proof cases
  case (resolving rp' fi env i action superseded rs)
  obtain a where clean: "wf_authority db" "own_groups (ad_cards db)" "temporal_authority_report rp db agents [] = Inr a" "report_ok a"
    by (rule clean_storeE [OF assms(2)])
  from resolving(2) obtain winner where winner: "find_card i (ad_cards db) = Some winner"
    and faithful: "not_redacted env i (resolution_payload (rs_id rs) action (rs_group rs) (rs_fingerprint rs) i (all_members i (rs_peers rs)) (conflict_boundary winner))"
      "list_all (readable True) ([rs_id rs, action, rs_group rs, rs_fingerprint rs, i, fst (conflict_boundary winner),
         fst (snd (conflict_boundary winner)), snd (snd (conflict_boundary winner))] @ all_members i (rs_peers rs))"
      "rs_id rs \<noteq> []" "fst (conflict_boundary winner) \<in> set valid_visibility_scopes"
    by (cases "find_card i (ad_cards db)") (simp_all add: faithful_receipt_def Let_def)
  note report = resolution_clean [OF clean(1) assms(3) own_plain [OF clean(2)] clean(3,4) resolving(1) winner refl refl faithful]
  with resolution_own [OF resolving(1) clean(1,2)] show ?thesis using clean_storeI by blast
next
  case (detecting clock envs cf rp' fi target limit lims seen d)
  obtain a where clean: "wf_authority db" "own_groups (ad_cards db)" "temporal_authority_report rp db agents [] = Inr a" "report_ok a"
    by (rule clean_storeE [OF assms(2)])
  from detection_clean [OF clean(1) assms(3) clean(2-4) detecting(2,1) assms(4)] show ?thesis using clean_storeI by blast
qed

lemma run_stays_clean:
  assumes "authority_run db db'" "clean_store agents rp db" "distinct (map fst agents)" "\<not> name_collision (ad_cards db)"
  shows "clean_store agents rp db' \<and> set (map sc_id (ad_cards db')) = set (map sc_id (ad_cards db))"
  using assms
proof (induction rule: authority_run.induct)
  case (continue db db1 db2)
  then have one: "clean_store agents rp db1" "set (map sc_id (ad_cards db1)) = set (map sc_id (ad_cards db))" by blast+
  with continue.prems(3) collision_ids have "\<not> name_collision (ad_cards db1)" by blast
  from step_stays_clean [OF continue.hyps(2) one(1) continue.prems(2) this] one(2) show ?case by simp
qed simp

section \<open>Properties\<close>



end
