(* ===== verification/Working_Context.thy ===== *)
theory Working_Context
  imports Knowledge_Records
begin

text \<open>
  The selection of a working context (\<open>select_working_context\<close> and \<open>prepare_working_chat_request\<close> of
  \<open>core/working_context.py\<close>): the stable prefix and the newest whole groups of a conversation within an estimated
  token budget.  A group is a user message with everything up to the next one; a tool call and its results are never separated.
\<close>

section \<open>Arguments\<close>

definition bounded_integer :: "pyval \<Rightarrow> string \<Rightarrow> int \<Rightarrow> int \<Rightarrow> py_error + int" where
  "bounded_integer v name lo hi =
     (case v of PInt i \<Rightarrow> if lo \<le> i \<and> i \<le> hi then Inr i else Inl (ValueError (name @ '' must be an integer in its range''))
      | _ \<Rightarrow> Inl (ValueError (name @ '' must be an integer in its range'')))"

text \<open>\<open>_structure\<close>: the number of values visited so far is threaded through the traversal.\<close>

definition structure_bounds :: "nat \<Rightarrow> nat \<Rightarrow> py_error + unit" where
  "structure_bounds depth visited = ensure (depth \<le> 32 \<and> Suc visited \<le> 200000) (ValueError ''message structure exceeds its bounds'')"

definition unbounded_message :: py_error where
  "unbounded_message = ValueError ''messages must contain bounded plain JSON values''"

definition structure_leaf :: "pyval \<Rightarrow> py_error + unit" where
  "structure_leaf v =
     (case v of
        PStr s \<Rightarrow>
          bindE (ensure (length s \<le> 33554432 \<and> 0 \<notin> set s) (ValueError ''message string exceeds its bounds or contains NUL'')) (\<lambda>_.
            ensure (utf8_ok s) (ValueError ''messages must contain valid UTF-8''))
      | PInt i \<Rightarrow> ensure (\<bar>i\<bar> \<le> 2 ^ 63 - 1) unbounded_message
      | PFloat f \<Rightarrow> ensure (finite_float f) unbounded_message
      | POther _ \<Rightarrow> Inl unbounded_message
      | _ \<Rightarrow> Inr ())"

fun bounded_structure :: "nat \<Rightarrow> nat \<Rightarrow> pyval \<Rightarrow> py_error + nat" where
  "bounded_structure depth visited (PDict kvs) =
     bindE (structure_bounds depth visited) (\<lambda>_.
     bindE (ensure (length kvs \<le> 4096 \<and> list_all (is_str \<circ> fst) kvs) unbounded_message) (\<lambda>_.
       foldE (\<lambda>n (k, v). bindE (bounded_structure (Suc depth) n k) (\<lambda>m. bounded_structure (Suc depth) m v)) (Suc visited) kvs))"
| "bounded_structure depth visited (PList vs) =
     bindE (structure_bounds depth visited) (\<lambda>_.
     bindE (ensure (length vs \<le> 10000) unbounded_message) (\<lambda>_. foldE (\<lambda>n v. bounded_structure (Suc depth) n v) (Suc visited) vs))"
| "bounded_structure depth visited v = bindE (structure_bounds depth visited) (\<lambda>_. bindE (structure_leaf v) (\<lambda>_. Inr (Suc visited)))"

section \<open>The estimate\<close>

definition starts_with :: "pystr \<Rightarrow> string \<Rightarrow> bool" where
  "starts_with s p \<longleftrightarrow> take (length p) s = lit p"

definition data_url :: "pystr \<Rightarrow> bool" where
  "data_url s \<longleftrightarrow> starts_with s ''data:image/'' \<or> starts_with s ''data:audio/'' \<or> starts_with s ''data:video/''"

definition media_types :: "pystr list" where
  "media_types = map lit [''image'', ''image_url'', ''input_image'', ''input_audio'', ''audio'', ''video'']"

definition caption_keys :: "pyval list" where
  "caption_keys = map (PStr \<circ> lit) [''text'', ''caption'', ''alt'']"

definition is_media :: "(pyval \<times> pyval) list \<Rightarrow> bool" where
  "is_media kvs \<longleftrightarrow> (case dget (PDict kvs) ''type'' of Some (PStr t) \<Rightarrow> t \<in> set media_types | _ \<Rightarrow> False)"

fun tokens :: "nat \<Rightarrow> pyval \<Rightarrow> nat" where
  "tokens media (PStr s) = (if data_url s then media else (length s + 3) div 4)"
| "tokens media (PList vs) = 2 + sum_list (map (tokens media) vs)"
| "tokens media (PDict kvs) =
     (if is_media kvs then media + sum_list (map (\<lambda>(k, v). if k \<in> set caption_keys then tokens media v else 0) kvs)
      else 2 + sum_list (map (\<lambda>(k, v). tokens media k + tokens media v) kvs))"
| "tokens media v = 1"

definition message_cost :: "nat \<Rightarrow> pyval list \<Rightarrow> nat" where
  "message_cost media ms = sum_list (map (\<lambda>m. tokens media m + 4) ms)"

section \<open>The groups of a conversation\<close>

record grouping =
  gp_prefix :: "pyval list"
  gp_groups :: "pyval list list"
  gp_pending :: "pystr set"
  gp_used :: "pystr set"

definition role_of :: "pyval \<Rightarrow> pystr option" where
  "role_of m = (case dget m ''role'' of Some (PStr r) \<Rightarrow>
     if r \<in> lit ` {''system'', ''developer'', ''user'', ''assistant'', ''tool''} then Some r else None | _ \<Rightarrow> None)"

text \<open>One tool call: the identifiers in use are threaded through.\<close>

definition tool_call :: "pystr set \<times> pystr set \<Rightarrow> pyval \<Rightarrow> py_error + pystr set \<times> pystr set" where
  "tool_call s call =
     (case s of (pending, used) \<Rightarrow>
        bindE (ensure (is_dict call) (ValueError ''invalid assistant tool call'')) (\<lambda>_.
        bindE (require_text (dget_or call ''id'' PNone) ''tool call id'' 256) (\<lambda>i.
        let f = dget_or call ''function'' PNone in
        bindE (ensure (dget_or call ''type'' (PStr (lit ''function'')) = PStr (lit ''function'') \<and> is_dict f)
                 (ValueError ''only structured function tool calls are supported'')) (\<lambda>_.
        bindE (require_text (dget_or f ''name'' PNone) ''tool name'' 256) (\<lambda>_.
        bindE (ensure (is_str (dget_or f ''arguments'' PNone) \<and> i \<notin> used)
                 (ValueError ''tool calls require unique ids and string arguments'')) (\<lambda>_.
          Inr (insert i pending, insert i used)))))))"

definition tool_calls :: "pystr \<Rightarrow> pyval \<Rightarrow> pystr set \<times> pystr set \<Rightarrow> py_error + pystr set \<times> pystr set" where
  "tool_calls role m s =
     (case dget_or m ''tool_calls'' PNone of
        PNone \<Rightarrow> Inr s
      | PList calls \<Rightarrow>
          bindE (ensure (role = lit ''assistant'' \<and> 1 \<le> length calls \<and> length calls \<le> 64)
                   (ValueError ''tool_calls must be a bounded assistant call group'')) (\<lambda>_. foldE tool_call s calls)
      | _ \<Rightarrow> Inl (ValueError ''tool_calls must be a bounded assistant call group''))"

definition incomplete_group :: py_error where
  "incomplete_group = ValueError ''assistant call/result group is incomplete''"

definition add_message :: "pyval \<Rightarrow> pyval list list \<Rightarrow> pyval list list" where
  "add_message m gs = butlast gs @ [last gs @ [m]]"

definition group_step :: "grouping \<Rightarrow> pyval \<Rightarrow> py_error + grouping" where
  "group_step s m =
     (case role_of m of
        None \<Rightarrow> Inl (ValueError ''unsupported message role'')
      | Some role \<Rightarrow>
          if role = lit ''system'' \<or> role = lit ''developer'' then
            bindE (ensure (gp_groups s = []) (ValueError ''system/developer messages must form a leading stable prefix''))
              (\<lambda>_. Inr (s\<lparr>gp_prefix := gp_prefix s @ [m]\<rparr>))
          else
            bindE (ensure (role = lit ''user'' \<longrightarrow> gp_pending s = {})
                     (ValueError ''a user boundary cannot split an assistant call/result group'')) (\<lambda>_.
            let gs = (if role = lit ''user'' then gp_groups s @ [[]] else gp_groups s) in
            bindE (ensure (gs \<noteq> []) (ValueError ''conversation must begin with a user group'')) (\<lambda>_.
            if role = lit ''tool'' then
              (case dget m ''tool_call_id'' of
                 Some (PStr i) \<Rightarrow>
                   if i \<in> gp_pending s then Inr (s\<lparr>gp_groups := add_message m gs, gp_pending := gp_pending s - {i}\<rparr>)
                   else Inl (ValueError ''orphaned or duplicate tool result'')
               | _ \<Rightarrow> Inl (ValueError ''orphaned or duplicate tool result''))
            else
              bindE (ensure (gp_pending s = {}) incomplete_group) (\<lambda>_.
              bindE (tool_calls role m (gp_pending s, gp_used s)) (\<lambda>(pending, used).
                Inr (s\<lparr>gp_groups := add_message m gs, gp_pending := pending, gp_used := used\<rparr>))))))"

definition groups_of :: "pyval list \<Rightarrow> py_error + pyval list \<times> pyval list list" where
  "groups_of ms =
     bindE (foldE group_step \<lparr>gp_prefix = [], gp_groups = [], gp_pending = {}, gp_used = {}\<rparr> ms) (\<lambda>s.
     bindE (ensure (gp_pending s = {}) incomplete_group) (\<lambda>_. Inr (gp_prefix s, gp_groups s)))"

section \<open>The selection\<close>

text \<open>\<open>while start > 0 and selected_cost + costs[start - 1] <= budget\<close>\<close>

fun widen :: "nat list \<Rightarrow> int \<Rightarrow> nat \<Rightarrow> nat \<Rightarrow> nat \<times> nat" where
  "widen costs budget 0 cost = (0, cost)"
| "widen costs budget (Suc s) cost =
     (if int (cost + costs ! s) \<le> budget then widen costs budget s (cost + costs ! s) else (Suc s, cost))"

record selection =
  sl_messages :: "pyval list"
  sl_fits :: bool
  sl_input :: nat
  sl_output :: nat
  sl_mandatory :: nat
  sl_available :: int
  sl_dropped :: nat
  sl_preserved :: nat

definition choose_groups :: "nat \<Rightarrow> int \<Rightarrow> pyval list \<Rightarrow> pyval list list \<Rightarrow> selection" where
  "choose_groups media budget prefix gs =
     (let costs = map (message_cost media) gs; prefix_cost = message_cost media prefix; start = length gs - 2;
          mandatory = prefix_cost + sum_list (drop start costs);
          (s, cost) = (if int mandatory \<le> budget then widen costs budget start mandatory else (start, mandatory))
      in \<lparr>sl_messages = prefix @ concat (drop s gs), sl_fits = (int mandatory \<le> budget), sl_input = prefix_cost + sum_list costs,
          sl_output = cost, sl_mandatory = mandatory, sl_available = budget, sl_dropped = s, sl_preserved = length gs - s\<rparr>)"

definition message_list :: "pyval \<Rightarrow> py_error + pyval list" where
  "message_list messages =
     (case messages of
        PList ms \<Rightarrow> bindE (ensure (1 \<le> length ms \<and> length ms \<le> 10000 \<and> list_all is_dict ms)
            (ValueError ''messages must contain 1 to 10000 plain message objects'')) (\<lambda>_. Inr ms)
      | _ \<Rightarrow> Inl (ValueError ''messages must contain 1 to 10000 plain message objects''))"

definition select_working_context :: "pyval \<Rightarrow> pyval \<Rightarrow> pyval \<Rightarrow> pyval \<Rightarrow> py_error + selection" where
  "select_working_context messages context_tokens reserve_tokens image_tokens =
     bindE (bounded_integer context_tokens ''context_tokens'' 256 (2 ^ 24)) (\<lambda>total.
     bindE (bounded_integer reserve_tokens ''reserve_tokens'' 0 (total - 1)) (\<lambda>reserve.
     bindE (bounded_integer image_tokens ''image_tokens'' 1 65536) (\<lambda>media.
     bindE (message_list messages) (\<lambda>ms.
     bindE (bounded_structure 0 0 messages) (\<lambda>_.
     bindE (groups_of ms) (\<lambda>(prefix, gs).
     bindE (ensure (gs \<noteq> []) (ValueError ''a current user group is required'')) (\<lambda>_.
       Inr (choose_groups (nat media) (total - reserve) prefix gs))))))))"

text \<open>The packet the caller gets.\<close>

definition selection_report :: "pyval \<Rightarrow> selection \<Rightarrow> (string \<times> pyval) list" where
  "selection_report image_tokens r =
     [(''schema_version'', PInt 1), (''messages'', PList (sl_messages r)), (''fits'', PBool (sl_fits r)),
      (''status'', PStr (lit (if sl_fits r then ''ready'' else ''mandatory_boundary_exceeds_budget''))),
      (''action'', PStr (lit (if sl_fits r then ''caller_may_send'' else ''defer_or_increase_context''))),
      (''input_estimated_tokens'', PInt (int (sl_input r))), (''output_estimated_tokens'', PInt (int (sl_output r))),
      (''mandatory_estimated_tokens'', PInt (int (sl_mandatory r))), (''available_tokens'', PInt (sl_available r)),
      (''dropped_groups'', PInt (int (sl_dropped r))), (''preserved_groups'', PInt (int (sl_preserved r))),
      (''estimator'', PStr (lit ''text_chars_div_4_plus_structured_media_cost'')), (''media_tokens'', image_tokens),
      (''mutated'', PBool False), (''sent'', PBool False)]"

definition prepare_working_chat_request :: "pyval \<Rightarrow> pyval \<Rightarrow> pyval \<Rightarrow> pyval \<Rightarrow> py_error + pyval \<times> pyval" where
  "prepare_working_chat_request request context_tokens reserve_tokens image_tokens =
     bindE (ensure (is_dict request) (ValueError ''request must be an object'')) (\<lambda>_.
     let messages = dget_or request ''messages'' PNone in
     bindE (ensure (is_list messages) (ValueError ''request must contain a messages array'')) (\<lambda>_.
     bindE (select_working_context messages context_tokens reserve_tokens image_tokens) (\<lambda>r.
     bindE (ensure (sl_fits r) (ValueError ''mandatory context does not fit; defer or increase the context budget'')) (\<lambda>_.
       Inr (PDict (oset (PStr (lit ''messages'')) (PList (sl_messages r)) (entries request)),
            mkdict (filter (\<lambda>kv. fst kv \<noteq> ''messages'') (selection_report image_tokens r)))))))"

section \<open>What a conversation is\<close>

definition raw_calls :: "pyval \<Rightarrow> pystr list" where
  "raw_calls m = (case dget_or m ''tool_calls'' PNone of
     PList cs \<Rightarrow> map (\<lambda>c. case dget_or c ''id'' PNone of PStr i \<Rightarrow> i | _ \<Rightarrow> []) cs | _ \<Rightarrow> [])"

definition answer_of :: "pyval \<Rightarrow> pystr" where
  "answer_of m = (case dget m ''tool_call_id'' of Some (PStr i) \<Rightarrow> i | _ \<Rightarrow> [])"

abbreviation has_role :: "string \<Rightarrow> pyval \<Rightarrow> bool" where
  "has_role r m \<equiv> role_of m = Some (lit r)"

definition calls_of :: "pyval \<Rightarrow> pystr list" where
  "calls_of m = (if has_role ''assistant'' m then raw_calls m else [])"

text \<open>Every assistant message is followed by exactly one result for each of its calls.\<close>

inductive turns :: "pyval list \<Rightarrow> bool" where
  no_turn: "turns []"
| turn: "has_role ''assistant'' m \<Longrightarrow> \<forall>r\<in>set rs. has_role ''tool'' r \<Longrightarrow> mset (map answer_of rs) = mset (calls_of m) \<Longrightarrow> turns ms
    \<Longrightarrow> turns (m # rs @ ms)"

definition exchange :: "pyval list \<Rightarrow> bool" where
  "exchange g \<longleftrightarrow> (\<exists>u ms. g = u # ms \<and> has_role ''user'' u \<and> turns ms)"

definition stable_prefix :: "pyval list \<Rightarrow> bool" where
  "stable_prefix ms \<longleftrightarrow> (\<forall>m\<in>set ms. has_role ''system'' m \<or> has_role ''developer'' m)"

lemma turns_append: "turns a \<Longrightarrow> turns b \<Longrightarrow> turns (a @ b)"
  by (induction rule: turns.induct) (simp_all add: turn)

lemma turns_roles: "turns ms \<Longrightarrow> m \<in> set ms \<Longrightarrow> has_role ''assistant'' m \<or> has_role ''tool'' m"
  by (induction rule: turns.induct) auto

text \<open>A group that still waits for results.\<close>

definition waiting :: "pystr set \<Rightarrow> pyval list \<Rightarrow> bool" where
  "waiting pending g \<longleftrightarrow> (\<exists>u ms m rs. g = u # ms @ m # rs \<and> has_role ''user'' u \<and> turns ms \<and> has_role ''assistant'' m
     \<and> (\<forall>r\<in>set rs. has_role ''tool'' r) \<and> distinct (calls_of m) \<and> distinct (map answer_of rs) \<and> answer_of ` set rs \<subseteq> set (calls_of m)
     \<and> pending = set (calls_of m) - answer_of ` set rs)"

lemma waitingE:
  assumes "waiting pending g"
  obtains u ms m rs where "g = u # ms @ m # rs" "has_role ''user'' u" "turns ms" "has_role ''assistant'' m"
    "\<forall>r\<in>set rs. has_role ''tool'' r" "distinct (calls_of m)" "distinct (map answer_of rs)" "answer_of ` set rs \<subseteq> set (calls_of m)"
    "pending = set (calls_of m) - answer_of ` set rs"
  using assms unfolding waiting_def by (elim exE conjE) (rule that)

definition open_group :: "pystr set \<Rightarrow> pyval list \<Rightarrow> bool" where
  "open_group pending g \<longleftrightarrow> pending = {} \<and> exchange g \<or> waiting pending g"

lemma open_group_done: "open_group {} g \<Longrightarrow> exchange g"
proof -
  assume "open_group {} g"
  then show "exchange g"
    unfolding open_group_def
  proof (elim disjE)
    assume "waiting {} g"
    then obtain u ms m rs where g: "g = u # ms @ m # rs" "has_role ''user'' u" "turns ms" "has_role ''assistant'' m"
      "\<forall>r\<in>set rs. has_role ''tool'' r" "distinct (calls_of m)" "distinct (map answer_of rs)" "set (map answer_of rs) = set (calls_of m)"
      unfolding waiting_def by auto
    then have "mset (map answer_of rs) = mset (calls_of m)" by (metis set_eq_iff_mset_eq_distinct)
    with g(4,5) have "turns (m # rs @ [])" by (intro turn no_turn)
    with g(1-3) turns_append show "exchange g" by (auto simp: exchange_def)
  qed simp
qed

lemma open_group_user: "open_group pending g \<Longrightarrow> \<exists>u ms. g = u # ms \<and> has_role ''user'' u \<and> (\<forall>m\<in>set ms. \<not> has_role ''user'' m)"
  unfolding open_group_def exchange_def waiting_def using turns_roles by (elim disjE exE conjE) (fastforce)+

section \<open>Grouping a conversation\<close>

lemma tool_call_Inr:
  assumes "tool_call (pending, used) c = Inr (pending', used')"
  shows "\<exists>i. dget_or c ''id'' PNone = PStr i \<and> i \<notin> used \<and> pending' = insert i pending \<and> used' = insert i used"
  using assms by (auto simp: tool_call_def Let_def require_text_Inr)

lemma tool_call_less: "tool_call (pending, used) c = Inr (pending', used') \<Longrightarrow> low \<subseteq> used \<Longrightarrow>
    \<exists>low'. tool_call (pending, low) c = Inr (pending', low') \<and> low' \<subseteq> used'"
  by (auto simp: tool_call_def Let_def)

lemma tool_calls_fold:
  assumes "foldE tool_call (pending, used) cs = Inr (pending', used')"
  shows "let ids = map (\<lambda>c. case dget_or c ''id'' PNone of PStr i \<Rightarrow> i | _ \<Rightarrow> []) cs
    in distinct ids \<and> set ids \<inter> used = {} \<and> pending' = pending \<union> set ids \<and> used' = used \<union> set ids"
  using assms
proof (induction cs arbitrary: pending used)
  case (Cons c cs)
  from Cons.prems obtain p1 u1 where "tool_call (pending, used) c = Inr (p1, u1)" "foldE tool_call (p1, u1) cs = Inr (pending', used')" by auto
  from tool_call_Inr [OF this(1)] Cons.IH [OF this(2)] show ?case by (auto simp: Let_def)
qed simp

lemma tool_calls_Inr:
  assumes "tool_calls role m (pending, used) = Inr (pending', used')"
  shows "distinct (raw_calls m)" "set (raw_calls m) \<inter> used = {}" "pending' = pending \<union> set (raw_calls m)" "used' = used \<union> set (raw_calls m)"
    "role \<noteq> lit ''assistant'' \<Longrightarrow> raw_calls m = []"
proof -
  have "distinct (raw_calls m) \<and> set (raw_calls m) \<inter> used = {} \<and> pending' = pending \<union> set (raw_calls m) \<and> used' = used \<union> set (raw_calls m)
    \<and> (role \<noteq> lit ''assistant'' \<longrightarrow> raw_calls m = [])"
    using assms tool_calls_fold [of pending used _ pending' used']
    by (cases "dget_or m ''tool_calls'' PNone") (auto simp: tool_calls_def raw_calls_def Let_def)
  then show "distinct (raw_calls m)" "set (raw_calls m) \<inter> used = {}" "pending' = pending \<union> set (raw_calls m)" "used' = used \<union> set (raw_calls m)"
    "role \<noteq> lit ''assistant'' \<Longrightarrow> raw_calls m = []" by blast+
qed

lemma tool_calls_less:
  assumes "tool_calls role m (pending, used) = Inr (pending', used')" "low \<subseteq> used"
  shows "\<exists>low'. tool_calls role m (pending, low) = Inr (pending', low') \<and> low' \<subseteq> used'"
proof -
  have "\<exists>low'. foldE tool_call (pending, low) cs = Inr (pending', low') \<and> low' \<subseteq> used'"
    if "foldE tool_call (pending, used) cs = Inr (pending', used')" "low \<subseteq> used" for cs pending used low
    using that
  proof (induction cs arbitrary: pending used low)
    case (Cons c cs)
    from Cons.prems obtain p1 u1 where one: "tool_call (pending, used) c = Inr (p1, u1)" "foldE tool_call (p1, u1) cs = Inr (pending', used')" by auto
    from tool_call_less [OF one(1) Cons.prems(2)] obtain l1 where "tool_call (pending, low) c = Inr (p1, l1)" "l1 \<subseteq> u1" by blast
    with Cons.IH [OF one(2)] show ?case by auto
  qed simp
  then show ?thesis using assms by (cases "dget_or m ''tool_calls'' PNone") (auto simp: tool_calls_def)
qed

text \<open>The ways a message is taken.\<close>

lemma group_step_cases:
  assumes "group_step s m = Inr t"
  obtains (prefix) "has_role ''system'' m \<or> has_role ''developer'' m" "gp_groups s = []" "t = s\<lparr>gp_prefix := gp_prefix s @ [m]\<rparr>"
    | (user) used where "has_role ''user'' m" "gp_pending s = {}" "tool_calls (lit ''user'') m ({}, gp_used s) = Inr ({}, used)"
        "t = s\<lparr>gp_groups := gp_groups s @ [[m]], gp_pending := {}, gp_used := used\<rparr>"
    | (assistant) pending used where "has_role ''assistant'' m" "gp_pending s = {}" "gp_groups s \<noteq> []"
        "tool_calls (lit ''assistant'') m ({}, gp_used s) = Inr (pending, used)"
        "t = s\<lparr>gp_groups := add_message m (gp_groups s), gp_pending := pending, gp_used := used\<rparr>"
    | (tool) "has_role ''tool'' m" "dget m ''tool_call_id'' = Some (PStr (answer_of m))" "answer_of m \<in> gp_pending s" "gp_groups s \<noteq> []"
        "t = s\<lparr>gp_groups := add_message m (gp_groups s), gp_pending := gp_pending s - {answer_of m}\<rparr>"
proof -
  from assms obtain role where role: "role_of m = Some role" by (auto simp: group_step_def split: option.splits)
  then have cases: "role \<in> lit ` {''system'', ''developer'', ''user'', ''assistant'', ''tool''}"
    by (auto simp: role_of_def split: option.splits pyval.splits if_splits)
  then consider "role = lit ''system'' \<or> role = lit ''developer''" | "role = lit ''user''" | "role = lit ''assistant''" | "role = lit ''tool''" by auto
  then show thesis
  proof cases
    case 1
    with assms role show thesis by (intro prefix) (auto simp: group_step_def)
  next
    case 2
    with assms role obtain pending used where u: "gp_pending s = {}" "tool_calls (lit ''user'') m ({}, gp_used s) = Inr (pending, used)"
      "t = s\<lparr>gp_groups := add_message m (gp_groups s @ [[]]), gp_pending := pending, gp_used := used\<rparr>"
      by (auto simp: group_step_def Let_def)
    from tool_calls_Inr(3,5) [OF u(2)] have "pending = {}" by simp
    with u 2 role show thesis by (intro user) (auto simp: add_message_def)
  next
    case 3
    with assms role obtain pending used where "gp_pending s = {}" "gp_groups s \<noteq> []"
      "tool_calls (lit ''assistant'') m ({}, gp_used s) = Inr (pending, used)"
      "t = s\<lparr>gp_groups := add_message m (gp_groups s), gp_pending := pending, gp_used := used\<rparr>"
      by (auto simp: group_step_def Let_def)
    with role 3 show thesis using assistant by blast
  next
    case 4
    with assms role have "gp_groups s \<noteq> []" by (simp add: group_step_def Let_def)
    moreover from assms role 4 calculation obtain i where "dget m ''tool_call_id'' = Some (PStr i)" "i \<in> gp_pending s"
      "t = s\<lparr>gp_groups := add_message m (gp_groups s), gp_pending := gp_pending s - {i}\<rparr>"
      by (auto simp: group_step_def Let_def split: option.splits pyval.splits if_splits)
    ultimately show thesis using role 4 tool by (simp add: answer_of_def)
  qed
qed

definition all_calls :: "pyval list \<Rightarrow> pystr list" where
  "all_calls ms = concat (map calls_of ms)"

definition grouped :: "pyval list \<Rightarrow> grouping \<Rightarrow> bool" where
  "grouped ms s \<longleftrightarrow> ms = gp_prefix s @ concat (gp_groups s) \<and> stable_prefix (gp_prefix s)
     \<and> (\<forall>g\<in>set (butlast (gp_groups s)). exchange g)
     \<and> (if gp_groups s = [] then gp_pending s = {} else open_group (gp_pending s) (last (gp_groups s)))
     \<and> gp_used s = set (all_calls (concat (gp_groups s))) \<and> distinct (all_calls (concat (gp_groups s)))"

lemma add_message_facts:
  assumes "gs \<noteq> []"
  shows "concat (add_message m gs) = concat gs @ [m]" "butlast (add_message m gs) = butlast gs" "last (add_message m gs) = last gs @ [m]"
    "add_message m gs \<noteq> []"
proof -
  obtain hs g where "gs = hs @ [g]" using assms by (cases gs rule: rev_cases) auto
  then show "concat (add_message m gs) = concat gs @ [m]" "butlast (add_message m gs) = butlast gs" "last (add_message m gs) = last gs @ [m]"
    "add_message m gs \<noteq> []" by (simp_all add: add_message_def)
qed

lemma exchange_last: "grouped ms s \<Longrightarrow> gp_pending s = {} \<Longrightarrow> g \<in> set (gp_groups s) \<Longrightarrow> exchange g"
proof -
  assume s: "grouped ms s" "gp_pending s = {}" "g \<in> set (gp_groups s)"
  then obtain gs h where gs: "gp_groups s = gs @ [h]" by (cases "gp_groups s" rule: rev_cases) auto
  with s show "exchange g" using open_group_done by (auto simp: grouped_def)
qed

lemma grouped_step:
  assumes s: "grouped ms s" and step: "group_step s m = Inr t"
  shows "grouped (ms @ [m]) t"
  using step
proof (cases rule: group_step_cases)
  case prefix
  with s show ?thesis by (auto simp: grouped_def stable_prefix_def)
next
  case (user used)
  note calls = tool_calls_Inr [OF user(3)]
  have none: "calls_of m = []" using user(1) by (simp add: calls_of_def)
  have "exchange [m]" using user(1) no_turn by (simp add: exchange_def)
  moreover have "\<forall>g\<in>set (gp_groups s). exchange g" using exchange_last [OF s user(2)] by blast
  ultimately show ?thesis using s calls user none by (simp add: grouped_def open_group_def all_calls_def)
next
  case (assistant pending used)
  have "raw_calls m = calls_of m" using assistant(1) by (simp add: calls_of_def)
  note calls = tool_calls_Inr [OF assistant(4), unfolded this] and add = add_message_facts [OF assistant(3), of m]
  have "exchange (last (gp_groups s))" using exchange_last [OF s assistant(2)] assistant(3) by simp
  then obtain u us where g: "last (gp_groups s) = u # us" "has_role ''user'' u" "turns us" by (auto simp: exchange_def)
  have "waiting pending (last (gp_groups s) @ [m])"
    unfolding waiting_def by (rule exI [of _ u], rule exI [of _ us], rule exI [of _ m], rule exI [of _ "[]"]) (use g calls assistant(1) in simp)
  with s calls assistant add show ?thesis by (auto simp: grouped_def open_group_def all_calls_def)
next
  case tool
  note add = add_message_facts [OF tool(4), of m]
  have "waiting (gp_pending s) (last (gp_groups s))" using s tool(3,4) by (auto simp: grouped_def open_group_def)
  then obtain u us a rs where w: "last (gp_groups s) = u # us @ a # rs" "has_role ''user'' u" "turns us" "has_role ''assistant'' a"
    "\<forall>r\<in>set rs. has_role ''tool'' r" "distinct (calls_of a)" "distinct (map answer_of rs)" "answer_of ` set rs \<subseteq> set (calls_of a)"
    "gp_pending s = set (calls_of a) - answer_of ` set rs" by (rule waitingE)
  have "waiting (gp_pending s - {answer_of m}) (last (gp_groups s) @ [m])"
    unfolding waiting_def by (rule exI [of _ u], rule exI [of _ us], rule exI [of _ a], rule exI [of _ "rs @ [m]"]) (use w tool(1,3) in auto)
  moreover have "calls_of m = []" using tool(1) by (simp add: calls_of_def)
  ultimately show ?thesis using s tool add by (simp add: grouped_def open_group_def all_calls_def)
qed

lemma grouped_run:
  assumes "foldE group_step \<lparr>gp_prefix = [], gp_groups = [], gp_pending = {}, gp_used = {}\<rparr> ms = Inr s"
  shows "grouped ms s"
  using assms
proof (induction ms arbitrary: s rule: rev_induct)
  case Nil
  then have "s = \<lparr>gp_prefix = [], gp_groups = [], gp_pending = {}, gp_used = {}\<rparr>" by simp
  then show ?case by (simp add: grouped_def stable_prefix_def all_calls_def)
next
  case (snoc m ms)
  then obtain u where "foldE group_step \<lparr>gp_prefix = [], gp_groups = [], gp_pending = {}, gp_used = {}\<rparr> ms = Inr u" "group_step u m = Inr s"
    by (auto simp: foldE_snoc)
  with snoc.IH grouped_step show ?case by blast
qed

lemma groups_sound:
  assumes "groups_of ms = Inr (prefix, gs)"
  shows "ms = prefix @ concat gs" "stable_prefix prefix" "\<forall>g\<in>set gs. exchange g" "distinct (all_calls (concat gs))"
proof -
  from assms obtain s where run: "foldE group_step \<lparr>gp_prefix = [], gp_groups = [], gp_pending = {}, gp_used = {}\<rparr> ms = Inr s"
    and s: "gp_pending s = {}" "prefix = gp_prefix s" "gs = gp_groups s" by (auto simp: groups_of_def)
  note g = grouped_run [OF run]
  with exchange_last [OF g s(1)] show "ms = prefix @ concat gs" "stable_prefix prefix" "\<forall>g\<in>set gs. exchange g" "distinct (all_calls (concat gs))"
    by (simp_all add: grouped_def s)
qed

section \<open>Leaving out old groups\<close>

text \<open>A conversation is grouped in one way.\<close>

definition begins_user :: "pyval list \<Rightarrow> bool" where
  "begins_user g \<longleftrightarrow> (\<exists>u ms. g = u # ms \<and> has_role ''user'' u \<and> (\<forall>m\<in>set ms. \<not> has_role ''user'' m))"

lemma exchange_begins: "exchange g \<Longrightarrow> begins_user g"
  unfolding begins_user_def using open_group_user [of "{}" g] by (simp add: open_group_def)

lemma takeWhile_group: "begins_user g \<Longrightarrow> \<forall>h\<in>set gs. begins_user h \<Longrightarrow>
    takeWhile (\<lambda>m. \<not> has_role ''user'' m) (tl (g @ concat gs)) = tl g"
proof -
  assume g: "begins_user g" "\<forall>h\<in>set gs. begins_user h"
  then obtain u ms where u: "g = u # ms" "\<forall>m\<in>set ms. \<not> has_role ''user'' m" by (auto simp: begins_user_def)
  have "takeWhile (\<lambda>m. \<not> has_role ''user'' m) (concat gs) = []"
    using g(2) by (cases gs) (auto simp: begins_user_def)
  with u show ?thesis by (simp add: takeWhile_append)
qed

lemma groups_unique:
  assumes "concat gs = concat hs" "\<forall>g\<in>set gs. begins_user g" "\<forall>g\<in>set hs. begins_user g"
  shows "gs = hs"
  using assms
proof (induction gs arbitrary: hs)
  case Nil
  then show ?case by (cases hs) (auto simp: begins_user_def)
next
  case (Cons g gs)
  then obtain h hs' where hs: "hs = h # hs'" by (cases hs) (auto simp: begins_user_def)
  have "tl g = tl h"
    using takeWhile_group [of g gs] takeWhile_group [of h hs'] Cons.prems by (simp add: hs)
  moreover have "hd g = hd h" using Cons.prems by (auto simp: hs begins_user_def)
  ultimately have "g = h" using Cons.prems by (auto simp: hs begins_user_def)
  with Cons show ?case by (auto simp: hs)
qed

lemma prefix_unique:
  assumes "p @ concat gs = q @ concat hs" "stable_prefix p" "stable_prefix q" "\<forall>g\<in>set gs. begins_user g" "\<forall>g\<in>set hs. begins_user g"
  shows "p = q \<and> gs = hs"
proof -
  have stop: "takeWhile (\<lambda>m. has_role ''system'' m \<or> has_role ''developer'' m) (p @ concat gs) = p"
    if "stable_prefix p" "\<forall>g\<in>set gs. begins_user g" for p gs
  proof -
    have "takeWhile (\<lambda>m. has_role ''system'' m \<or> has_role ''developer'' m) (concat gs) = []"
      using that(2) by (cases gs) (auto simp: begins_user_def)
    then show ?thesis using that(1) by (simp add: takeWhile_append stable_prefix_def)
  qed
  from stop [OF assms(2,4)] stop [OF assms(3,5)] assms(1) have "p = q" by metis
  with assms groups_unique show ?thesis by auto
qed

text \<open>The same conversation, seen without some finished groups.\<close>

definition without :: "pyval list list \<Rightarrow> grouping \<Rightarrow> grouping \<Rightarrow> bool" where
  "without old s s' \<longleftrightarrow> gp_prefix s' = gp_prefix s \<and> gp_groups s = old @ gp_groups s' \<and> gp_pending s' = gp_pending s \<and> gp_used s' \<subseteq> gp_used s"

lemma add_message_append: "gs \<noteq> [] \<Longrightarrow> add_message m (old @ gs) = old @ add_message m gs"
  by (simp add: add_message_def butlast_append)

lemma without_step:
  assumes rel: "without old s s'" and step: "group_step s m = Inr t" and "old \<noteq> []" and begun: "gp_groups s' \<noteq> [] \<or> has_role ''user'' m"
  shows "\<exists>t'. group_step s' m = Inr t' \<and> without old t t' \<and> gp_groups t' \<noteq> []"
  using step
proof (cases rule: group_step_cases)
  case prefix
  with rel assms(3) show ?thesis by (simp add: without_def)
next
  case (user used)
  from rel have less: "gp_used s' \<subseteq> gp_used s" by (simp add: without_def)
  obtain low where "tool_calls (lit ''user'') m ({}, gp_used s') = Inr ({}, low)" "low \<subseteq> used" using tool_calls_less [OF user(3) less] by blast
  with rel user show ?thesis by (simp add: group_step_def without_def add_message_def Let_def)
next
  case (assistant pending used)
  from rel have less: "gp_used s' \<subseteq> gp_used s" by (simp add: without_def)
  obtain low where "tool_calls (lit ''assistant'') m ({}, gp_used s') = Inr (pending, low)" "low \<subseteq> used"
    using tool_calls_less [OF assistant(4) less] by blast
  with rel assistant begun show ?thesis by (simp add: group_step_def without_def add_message_append add_message_facts Let_def)
next
  case tool
  have "gp_groups s' \<noteq> []" using begun tool(1) by simp
  with rel tool show ?thesis by (simp add: group_step_def without_def add_message_append add_message_facts Let_def)
qed

lemma without_run:
  assumes "without old s s'" "foldE group_step s ms = Inr t" "old \<noteq> []" "gp_groups s' \<noteq> [] \<or> ms = [] \<or> has_role ''user'' (hd ms)"
  shows "\<exists>t'. foldE group_step s' ms = Inr t' \<and> without old t t'"
  using assms
proof (induction ms arbitrary: s s')
  case (Cons m ms)
  from Cons.prems(2) obtain s1 where one: "group_step s m = Inr s1" "foldE group_step s1 ms = Inr t" by auto
  from without_step [OF Cons.prems(1) one(1) Cons.prems(3)] Cons.prems(4) obtain s1' where
    "group_step s' m = Inr s1'" "without old s1 s1'" "gp_groups s1' \<noteq> []" by auto
  with Cons.IH [OF this(2) one(2) Cons.prems(3)] show ?case by auto
qed auto

lemma grouped_begins: "grouped ms s \<Longrightarrow> g \<in> set (gp_groups s) \<Longrightarrow> begins_user g"
proof -
  assume s: "grouped ms s" "g \<in> set (gp_groups s)"
  then obtain gs h where gs: "gp_groups s = gs @ [h]" by (cases "gp_groups s" rule: rev_cases) auto
  then consider "g \<in> set (butlast (gp_groups s))" | "g = last (gp_groups s)" using s(2) by auto
  then show "begins_user g"
    using s(1) gs open_group_user [of "gp_pending s" g] exchange_begins [of g] by cases (auto simp: grouped_def begins_user_def)
qed

lemma groups_suffix:
  assumes run: "groups_of (prefix @ concat gs) = Inr (prefix, gs)" and k: "k < length gs"
  shows "groups_of (prefix @ concat (drop k gs)) = Inr (prefix, drop k gs)"
proof (cases "k = 0")
  case False
  let ?init = "\<lparr>gp_prefix = [], gp_groups = [], gp_pending = {}, gp_used = {}\<rparr>"
  note sound = groups_sound [OF run]
  have begins: "\<forall>g\<in>set gs. begins_user g" using sound(3) exchange_begins by blast
  from run obtain s where "foldE group_step ?init (prefix @ concat gs) = Inr s" and s: "gp_pending s = {}" "gp_prefix s = prefix" "gp_groups s = gs"
    by (auto simp: groups_of_def)
  moreover have "prefix @ concat gs = prefix @ concat (take k gs) @ concat (drop k gs)" by (metis append_take_drop_id concat_append)
  ultimately obtain s0 s1 where s0: "foldE group_step ?init prefix = Inr s0" and s1: "foldE group_step ?init (prefix @ concat (take k gs)) = Inr s1"
    and rest: "foldE group_step s1 (concat (drop k gs)) = Inr s" by (auto simp: foldE_append)
  note g0 = grouped_run [OF s0] and g1 = grouped_run [OF s1]
  have "gp_prefix s1 = prefix \<and> gp_groups s1 = take k gs"
    by (rule prefix_unique) (use g1 begins grouped_begins [OF g1] sound(2) in \<open>auto simp: grouped_def dest: in_set_takeD\<close>)
  moreover have "gp_prefix s0 = prefix \<and> gp_groups s0 = []"
    using prefix_unique [of "gp_prefix s0" "gp_groups s0" prefix "[]"] g0 grouped_begins [OF g0] sound(2) by (auto simp: grouped_def)
  moreover from this g0 have "gp_pending s0 = {}" "gp_used s0 = {}" by (simp_all add: grouped_def all_calls_def)
  moreover obtain g hs where hs: "drop k gs = g # hs" using k by (cases "drop k gs") auto
  then have "g \<in> set gs" by (metis in_set_dropD list.set_intros(1))
  with begins obtain u us where g: "g = u # us" "has_role ''user'' u" by (auto simp: begins_user_def)
  moreover from rest hs g have "gp_pending s1 = {}" by (auto simp: group_step_def)
  ultimately have rel: "without (take k gs) s1 s0" by (simp add: without_def)
  have "take k gs \<noteq> []" using False k by auto
  from without_run [OF rel rest this] obtain t where t: "foldE group_step s0 (concat (drop k gs)) = Inr t" "without (take k gs) s t"
    using hs g by auto
  have "gp_groups t = drop k gs" using t(2) s(3) by (metis append_take_drop_id same_append_eq without_def)
  with t s s0 show ?thesis by (simp add: groups_of_def foldE_append without_def)
qed (use run in simp)

section \<open>The budget\<close>

lemma widen_result:
  assumes "widen costs budget s c = (s', c')" "s \<le> length costs" "int c \<le> budget"
  shows "s' \<le> s" "c + sum_list (take s costs) = c' + sum_list (take s' costs)" "int c' \<le> budget"
    "s' \<noteq> 0 \<Longrightarrow> budget < int (c' + costs ! (s' - 1))"
proof -
  have "s' \<le> s \<and> c + sum_list (take s costs) = c' + sum_list (take s' costs) \<and> int c' \<le> budget
    \<and> (s' \<noteq> 0 \<longrightarrow> budget < int (c' + costs ! (s' - 1)))"
    using assms
  proof (induction s arbitrary: c)
    case (Suc s)
    show ?case
    proof (cases "int (c + costs ! s) \<le> budget")
      case True
      with Suc.prems have "widen costs budget s (c + costs ! s) = (s', c')" "s \<le> length costs" by simp_all
      from Suc.IH [OF this True] show ?thesis using Suc.prems(2) by (simp add: take_Suc_conv_app_nth)
    next
      case False
      with Suc.prems show ?thesis by auto
    qed
  qed auto
  then show "s' \<le> s" "c + sum_list (take s costs) = c' + sum_list (take s' costs)" "int c' \<le> budget"
    "s' \<noteq> 0 \<Longrightarrow> budget < int (c' + costs ! (s' - 1))" by blast+
qed

lemma message_cost_append [simp]: "message_cost media (xs @ ys) = message_cost media xs + message_cost media ys"
  by (simp add: message_cost_def)

lemma message_cost_concat: "message_cost media (concat gs) = sum_list (map (message_cost media) gs)"
  by (induction gs) (simp_all add: message_cost_def)

text \<open>What was chosen: whole groups from the end, as many as fit and at least two.\<close>

lemma choose_groups_result:
  assumes "choose_groups media budget prefix gs = r"
  shows "sl_messages r = prefix @ concat (drop (sl_dropped r) gs)" "sl_dropped r \<le> length gs - 2"
    "sl_output r = message_cost media (sl_messages r)" "sl_available r = budget"
    "sl_fits r \<longleftrightarrow> int (message_cost media (prefix @ concat (drop (length gs - 2) gs))) \<le> budget"
    "sl_fits r \<Longrightarrow> int (sl_output r) \<le> budget \<and> (sl_dropped r \<noteq> 0 \<longrightarrow>
       budget < int (message_cost media (prefix @ concat (drop (sl_dropped r - 1) gs))))"
    "\<not> sl_fits r \<Longrightarrow> sl_dropped r = length gs - 2"
proof -
  let ?costs = "map (message_cost media) gs" and ?start = "length gs - 2"
  let ?mandatory = "message_cost media prefix + sum_list (drop ?start ?costs)"
  have cost: "message_cost media (prefix @ concat (drop k gs)) = message_cost media prefix + sum_list (drop k ?costs)" for k
    by (simp add: message_cost_concat drop_map)
  have total: "sum_list (take k ?costs) + sum_list (drop k ?costs) = sum_list ?costs" for k
    by (metis append_take_drop_id sum_list_append)
  obtain s c where sc: "(if int ?mandatory \<le> budget then widen ?costs budget ?start ?mandatory else (?start, ?mandatory)) = (s, c)" by fastforce
  have r: "r = \<lparr>sl_messages = prefix @ concat (drop s gs), sl_fits = (int ?mandatory \<le> budget), sl_input = message_cost media prefix + sum_list ?costs,
          sl_output = c, sl_mandatory = ?mandatory, sl_available = budget, sl_dropped = s, sl_preserved = length gs - s\<rparr>"
    using assms sc by (auto simp: choose_groups_def Let_def)
  have "s \<le> ?start \<and> c = message_cost media prefix + sum_list (drop s ?costs) \<and> (int ?mandatory \<le> budget \<longrightarrow> int c \<le> budget
      \<and> (s \<noteq> 0 \<longrightarrow> budget < int (message_cost media prefix + sum_list (drop (s - 1) ?costs)))) \<and> (\<not> int ?mandatory \<le> budget \<longrightarrow> s = ?start)"
  proof (cases "int ?mandatory \<le> budget")
    case True
    with sc have "widen ?costs budget ?start ?mandatory = (s, c)" by simp
    note w = widen_result [OF this _ True]
    have c: "c = message_cost media prefix + sum_list (drop s ?costs)" using w(2) total [of s] total [of ?start] by simp
    have "sum_list (drop (s - 1) ?costs) = ?costs ! (s - 1) + sum_list (drop s ?costs)" if s0: "s \<noteq> 0"
    proof -
      obtain n where n: "s = Suc n" using s0 not0_implies_Suc by blast
      then have "drop n ?costs = ?costs ! n # drop (Suc n) ?costs" using w(1) by (intro Cons_nth_drop_Suc [symmetric]) simp
      then show ?thesis by (simp add: n)
    qed
    then have "s \<noteq> 0 \<Longrightarrow> budget < int (message_cost media prefix + sum_list (drop (s - 1) ?costs))" using w(4) c by simp
    with w(1,3) c True show ?thesis by simp
  next
    case False
    with sc show ?thesis by auto
  qed
  then show "sl_messages r = prefix @ concat (drop (sl_dropped r) gs)" "sl_dropped r \<le> length gs - 2"
    "sl_output r = message_cost media (sl_messages r)" "sl_available r = budget"
    "sl_fits r \<longleftrightarrow> int (message_cost media (prefix @ concat (drop (length gs - 2) gs))) \<le> budget"
    "sl_fits r \<Longrightarrow> int (sl_output r) \<le> budget \<and> (sl_dropped r \<noteq> 0 \<longrightarrow>
       budget < int (message_cost media (prefix @ concat (drop (sl_dropped r - 1) gs))))"
    "\<not> sl_fits r \<Longrightarrow> sl_dropped r = length gs - 2"
    unfolding cost r by (simp_all add: message_cost_concat drop_map)
qed

section \<open>Fewer messages are bounded too\<close>

definition growing :: "(nat \<Rightarrow> py_error + nat) \<Rightarrow> bool" where
  "growing f \<longleftrightarrow> (\<forall>a b a'. f a = Inr b \<longrightarrow> a' \<le> a \<longrightarrow> a \<le> b \<and> (\<exists>b'. f a' = Inr b' \<and> b' \<le> b))"

lemma growingD: "growing f \<Longrightarrow> f a = Inr b \<Longrightarrow> a' \<le> a \<Longrightarrow> a \<le> b \<and> (\<exists>b'. f a' = Inr b' \<and> b' \<le> b)"
  unfolding growing_def by blast

lemma growing_bind: "growing f \<Longrightarrow> growing g \<Longrightarrow> growing (\<lambda>n. bindE (f n) g)"
proof -
  assume f: "growing f" and g: "growing g"
  show "growing (\<lambda>n. bindE (f n) g)"
    unfolding growing_def
  proof (intro allI impI)
    fix a b a' :: nat
    assume "bindE (f a) g = Inr b" and less: "a' \<le> a"
    then obtain c where c: "f a = Inr c" "g c = Inr b" by auto
    from growingD [OF f c(1) less] obtain c' where "a \<le> c" "f a' = Inr c'" "c' \<le> c" by blast
    with growingD [OF g c(2) \<open>c' \<le> c\<close>] show "a \<le> b \<and> (\<exists>b'. bindE (f a') g = Inr b' \<and> b' \<le> b)" by auto
  qed
qed

lemma growing_fold: "(\<And>v. v \<in> set vs \<Longrightarrow> growing (\<lambda>n. f n v)) \<Longrightarrow> growing (\<lambda>n. foldE f n vs)"
proof (induction vs)
  case (Cons v vs)
  have "growing (\<lambda>n. bindE (f n v) (\<lambda>m. foldE f m vs))"
    by (rule growing_bind) (use Cons in simp_all)
  then show ?case by simp
qed (simp add: growing_def)

lemma growing_structure: "growing (\<lambda>n. bounded_structure depth n v)"
proof (induction v arbitrary: depth rule: measure_induct_rule [of size])
  case (less v)
  have leaf: "growing (\<lambda>n. bindE (structure_bounds depth n) (\<lambda>_. bindE (check n) (\<lambda>_. rest (Suc n))))"
    if "growing rest" "\<And>m n. check m = check n" for check :: "nat \<Rightarrow> py_error + unit" and rest
    unfolding growing_def
  proof (intro allI impI)
    fix a b a' :: nat
    assume run: "bindE (structure_bounds depth a) (\<lambda>_. bindE (check a) (\<lambda>_. rest (Suc a))) = Inr b" and "a' \<le> a"
    from run \<open>a' \<le> a\<close> have "structure_bounds depth a' = Inr ()" "check a' = Inr ()"
      using that(2) [of a a'] by (auto simp: structure_bounds_def)
    with growingD [OF that(1), of "Suc a" b "Suc a'"] run \<open>a' \<le> a\<close>
    show "a \<le> b \<and> (\<exists>b'. bindE (structure_bounds depth a') (\<lambda>_. bindE (check a') (\<lambda>_. rest (Suc a'))) = Inr b' \<and> b' \<le> b)" by auto
  qed
  have done_: "growing Inr" by (simp add: growing_def)
  show ?case
  proof (cases v)
    case (PList vs)
    have "growing (\<lambda>n. foldE (\<lambda>n v. bounded_structure (Suc depth) n v) n vs)"
      by (rule growing_fold) (rule less.IH, simp add: PList less_Suc_eq_le size_list_estimation')
    then show ?thesis unfolding PList bounded_structure.simps by (rule leaf) simp
  next
    case (PDict kvs)
    have "growing (\<lambda>n. foldE (\<lambda>n (k, v). bindE (bounded_structure (Suc depth) n k) (\<lambda>m. bounded_structure (Suc depth) m v)) n kvs)"
    proof (rule growing_fold)
      fix kv
      assume kv: "kv \<in> set kvs"
      obtain k x where p: "kv = (k, x)" by (cases kv)
      have "size_prod size size kv \<le> size_list (size_prod size size) kvs" using kv by (intro size_list_estimation') auto
      then have "size k < size v" "size x < size v" by (simp_all add: PDict p)
      then show "growing (\<lambda>n. case kv of (k, v) \<Rightarrow> bindE (bounded_structure (Suc depth) n k) (\<lambda>m. bounded_structure (Suc depth) m v))"
        unfolding p prod.case by (intro growing_bind less.IH)
    qed
    then show ?thesis unfolding PDict bounded_structure.simps by (rule leaf) simp
  qed (use leaf [OF done_, of "\<lambda>_. structure_leaf v"] in simp_all)
qed

lemma structure_part:
  assumes "bounded_structure 0 0 (PList (xs @ ys @ zs)) = Inr m"
  shows "isOk (bounded_structure 0 0 (PList (xs @ zs)))"
proof -
  let ?f = "\<lambda>n v. bounded_structure (Suc 0) n v"
  have grow: "growing (\<lambda>n. foldE ?f n vs)" for vs by (rule growing_fold) (rule growing_structure)
  from assms obtain a b where a: "foldE ?f 1 xs = Inr a" "foldE ?f a ys = Inr b" "foldE ?f b zs = Inr m"
    and len: "length (xs @ ys @ zs) \<le> 10000" by (auto simp: foldE_append)
  have "a \<le> b" using growingD [OF grow a(2) order_refl] by simp
  from growingD [OF grow a(3) this] a(1) len show ?thesis by (auto simp: foldE_append isOk_iff structure_bounds_def)
qed

section \<open>Selecting twice\<close>

lemma selectE:
  assumes "select_working_context (PList ms) context_tokens reserve_tokens image_tokens = Inr r"
  obtains budget media prefix gs where "groups_of ms = Inr (prefix, gs)" "gs \<noteq> []" "choose_groups media budget prefix gs = r"
    "1 \<le> length ms" "length ms \<le> 10000" "list_all is_dict ms" "isOk (bounded_structure 0 0 (PList ms))"
    "\<And>i. image_tokens = PInt i \<Longrightarrow> media = nat i"
    "\<And>ns p hs. 1 \<le> length ns \<Longrightarrow> length ns \<le> 10000 \<Longrightarrow> list_all is_dict ns \<Longrightarrow> isOk (bounded_structure 0 0 (PList ns))
      \<Longrightarrow> groups_of ns = Inr (p, hs) \<Longrightarrow> hs \<noteq> [] \<Longrightarrow>
      select_working_context (PList ns) context_tokens reserve_tokens image_tokens = Inr (choose_groups media budget p hs)"
proof -
  from assms obtain total reserve media m prefix gs where args: "bounded_integer context_tokens ''context_tokens'' 256 (2 ^ 24) = Inr total"
    "bounded_integer reserve_tokens ''reserve_tokens'' 0 (total - 1) = Inr reserve"
    "bounded_integer image_tokens ''image_tokens'' 1 65536 = Inr media"
    and ms: "1 \<le> length ms" "length ms \<le> 10000" "list_all is_dict ms" "bounded_structure 0 0 (PList ms) = Inr m"
    and gs: "groups_of ms = Inr (prefix, gs)" "gs \<noteq> []" "choose_groups (nat media) (total - reserve) prefix gs = r"
    by (auto simp: select_working_context_def message_list_def simp del: bounded_structure.simps)
  show thesis
  proof (rule that [OF gs ms(1-3)])
    show "isOk (bounded_structure 0 0 (PList ms))" using ms(4) by (auto simp: isOk_iff simp del: bounded_structure.simps)
    show "nat media = nat i" if "image_tokens = PInt i" for i using args(3) that by (simp add: bounded_integer_def split: if_splits)
    show "select_working_context (PList ns) context_tokens reserve_tokens image_tokens = Inr (choose_groups (nat media) (total - reserve) p hs)"
      if "1 \<le> length ns" "length ns \<le> 10000" "list_all is_dict ns" "isOk (bounded_structure 0 0 (PList ns))" "groups_of ns = Inr (p, hs)" "hs \<noteq> []"
      for ns p hs
      using that args by (auto simp: select_working_context_def message_list_def isOk_iff simp del: bounded_structure.simps)
  qed
qed

lemma select_stable:
  assumes run: "select_working_context (PList ms) context_tokens reserve_tokens image_tokens = Inr r" and fits: "sl_fits r"
  shows "\<exists>r'. select_working_context (PList (sl_messages r)) context_tokens reserve_tokens image_tokens = Inr r'
    \<and> sl_messages r' = sl_messages r \<and> sl_fits r' \<and> sl_dropped r' = 0"
proof -
  obtain budget media prefix gs where gs: "groups_of ms = Inr (prefix, gs)" "gs \<noteq> []" "choose_groups media budget prefix gs = r"
    and ms: "1 \<le> length ms" "length ms \<le> 10000" "list_all is_dict ms" "isOk (bounded_structure 0 0 (PList ms))"
    and "\<And>i. image_tokens = PInt i \<Longrightarrow> media = nat i" and again: "\<And>ns p hs. 1 \<le> length ns \<Longrightarrow> length ns \<le> 10000 \<Longrightarrow> list_all is_dict ns \<Longrightarrow> isOk (bounded_structure 0 0 (PList ns))
      \<Longrightarrow> groups_of ns = Inr (p, hs) \<Longrightarrow> hs \<noteq> [] \<Longrightarrow>
      select_working_context (PList ns) context_tokens reserve_tokens image_tokens = Inr (choose_groups media budget p hs)"
    by (rule selectE [OF run], rule that; assumption)
  note sound = groups_sound [OF gs(1)] and chosen = choose_groups_result [OF gs(3)]
  let ?d = "sl_dropped r" and ?sel = "sl_messages r"
  have d: "?d < length gs" using chosen(2) gs(2) by (cases gs) auto
  have ms_eq: "ms = prefix @ concat (take ?d gs) @ concat (drop ?d gs)"
    using sound(1) by (metis append_take_drop_id concat_append)
  have "isOk (bounded_structure 0 0 (PList ?sel))"
    using structure_part [of prefix "concat (take ?d gs)" "concat (drop ?d gs)"] ms(4) unfolding ms_eq chosen(1) isOk_iff by blast
  moreover obtain g where "g \<in> set (drop ?d gs)" "exchange g" using d sound(3) by (metis Cons_nth_drop_Suc list.set_intros(1) nth_mem)
  then have "?sel \<noteq> []" unfolding chosen(1) by (auto simp: exchange_def)
  then have "1 \<le> length ?sel" by (cases ?sel) simp_all
  moreover have "length ?sel \<le> 10000" "list_all is_dict ?sel" using ms(2,3) unfolding ms_eq chosen(1) by simp_all
  moreover have "groups_of ?sel = Inr (prefix, drop ?d gs)" unfolding chosen(1) by (rule groups_suffix [OF _ d]) (use gs(1) sound(1) in simp)
  ultimately have second: "select_working_context (PList ?sel) context_tokens reserve_tokens image_tokens
      = Inr (choose_groups media budget prefix (drop ?d gs))" using again d by simp
  let ?r = "choose_groups media budget prefix (drop ?d gs)"
  note chosen' = choose_groups_result [OF refl, of media budget prefix "drop ?d gs"]
  have "length (drop ?d gs) - 2 + ?d = length gs - 2" using chosen(2) unfolding length_drop by arith
  then have "drop (length (drop ?d gs) - 2) (drop ?d gs) = drop (length gs - 2) gs" by (simp only: drop_drop)
  then have fits': "sl_fits ?r" using chosen'(5) chosen(5) fits by simp
  have "sl_dropped ?r = 0"
  proof (rule ccontr)
    assume "sl_dropped ?r \<noteq> 0"
    with chosen'(6) [OF fits'] have "budget < int (message_cost media (prefix @ concat (drop (sl_dropped ?r - 1) (drop ?d gs))))" by blast
    also have "\<dots> \<le> int (message_cost media ?sel)"
      using sum_list_drop_le [of "sl_dropped ?r - 1" "map (message_cost media) (drop ?d gs)"]
      unfolding chosen(1) message_cost_append message_cost_concat drop_map by linarith
    finally show False using chosen(3,6) fits by simp
  qed
  with chosen'(1) fits' second chosen(1) show ?thesis by auto
qed

lemma oset_twice: "oset k v (oset k v d) = oset k v d"
  by (induction d) auto

section \<open>A short conversation\<close>

definition demo_message :: "string \<Rightarrow> (string \<times> pyval) list \<Rightarrow> pyval" where
  "demo_message role kvs = mkdict ((''role'', PStr (lit role)) # kvs)"

definition demo_chat :: "pyval list" where
  "demo_chat =
     [demo_message ''system'' [], demo_message ''user'' [(''content'', PStr (lit ''log?''))],
      demo_message ''assistant'' [(''tool_calls'', PList [mkdict [(''id'', PStr (lit ''c1'')),
        (''function'', mkdict [(''name'', PStr (lit ''find'')), (''arguments'', PStr (lit ''{}''))])]])],
      demo_message ''tool'' [(''tool_call_id'', PStr (lit ''c1'')), (''content'', PStr (lit ''x''))],
      demo_message ''user'' [(''content'', PStr (lit ''ok''))], demo_message ''user'' [(''content'', PStr (lit ''bye''))]]"

definition demo_selection :: "py_error + selection" where
  "demo_selection = select_working_context (PList demo_chat) (PInt 256) (PInt 200) (PInt 1024)"

abbreviation demo_groups :: "pyval list list" where
  "demo_groups \<equiv> [take 3 (drop 1 demo_chat), [demo_chat ! 4], [demo_chat ! 5]]"

lemma demo_grouped: "groups_of demo_chat = Inr (take 1 demo_chat, demo_groups)"
  by (simp add: groups_of_def demo_chat_def demo_message_def group_step_def role_of_def tool_calls_def tool_call_def
      require_text_def dget_or_def add_message_def Let_def numeral_eq_Suc) (simp add: lit_def py_strip_def py_space_def utf8_ok_def surrogate_def mkdict_def)

lemma demo_structure: "isOk (bounded_structure 0 0 (PList demo_chat))"
  by (simp add: demo_chat_def demo_message_def mkdict_def structure_bounds_def structure_leaf_def utf8_ok_def) (simp add: lit_def surrogate_def)

lemma demo_selected: "demo_selection = Inr (choose_groups 1024 56 (take 1 demo_chat) demo_groups)"
proof -
  have "message_list (PList demo_chat) = Inr demo_chat" by (simp add: message_list_def demo_chat_def demo_message_def mkdict_def)
  then show ?thesis
    using demo_grouped demo_structure by (auto simp: demo_selection_def select_working_context_def bounded_integer_def isOk_iff)
qed

lemma tokens_object:
  assumes "map_of kvs ''type'' = None"
  shows "tokens media (mkdict kvs) = 2 + sum_list (map (\<lambda>(k, v). tokens media (PStr (lit k)) + tokens media v) kvs)"
proof -
  have "dget (PDict (map (\<lambda>(k, v). (PStr (lit k), v)) kvs)) ''type'' = None" using assms by (simp flip: mkdict_def)
  then have "\<not> is_media (map (\<lambda>(k, v). (PStr (lit k), v)) kvs)" by (simp add: is_media_def)
  then show ?thesis by (simp add: mkdict_def o_def case_prod_unfold del: tokens.simps(1))
qed

lemma starts_with_lit: "starts_with (lit s) p \<longleftrightarrow> take (length p) s = p"
proof -
  have "take n (lit s) = lit (take n s)" for n by (simp add: lit_def take_map)
  then show ?thesis by (simp add: starts_with_def)
qed

lemma tokens_text: "take 5 s \<noteq> ''data:'' \<Longrightarrow> tokens media (PStr (lit s)) = (length s + 3) div 4"
proof -
  assume plain: "take 5 s \<noteq> ''data:''"
  have "take 11 s \<noteq> x" if "take 5 x = ''data:''" for x
  proof
    assume eq: "take 11 s = x"
    have "take 5 s = take 5 (take 11 s)" by simp
    with plain that show False unfolding eq by metis
  qed
  then have "take 11 s \<noteq> ''data:image/''" "take 11 s \<noteq> ''data:audio/''" "take 11 s \<noteq> ''data:video/''" by simp_all
  then have "\<not> data_url (lit s)" by (simp add: data_url_def starts_with_lit numeral_eq_Suc)
  then show ?thesis by (simp add: lit_def)
qed

lemma demo_costs: "message_cost 1024 (take 1 demo_chat) = 9" "map (message_cost 1024) demo_groups = [55, 11, 11]"
  by (simp_all add: demo_chat_def demo_message_def message_cost_def tokens_object tokens_text del: tokens.simps(1,3))

lemma demo_dropped: "sl_fits (choose_groups 1024 56 (take 1 demo_chat) demo_groups)"
  "sl_dropped (choose_groups 1024 56 (take 1 demo_chat) demo_groups) = 1"
  unfolding choose_groups_def Let_def demo_costs by simp_all

section \<open>Properties\<close>

text \<open>C21 What a working context is.  The messages a successful selection returns are the stable prefix followed by the newest groups of the
  conversation, whole and in order: each begins with a user message, and every tool call in it is answered exactly once, before the
  next assistant message.  The latest two groups are always among them.  If these fit the budget, the whole selection does, and no
  further group would have fitted; otherwise nothing older is added.\<close>

theorem working_context_whole:
  assumes "select_working_context (PList ms) context_tokens reserve_tokens (PInt media) = Inr r"
  shows "\<exists>prefix gs. ms = prefix @ concat gs \<and> stable_prefix prefix \<and> gs \<noteq> [] \<and> (\<forall>g\<in>set gs. exchange g)
    \<and> sl_messages r = prefix @ concat (drop (sl_dropped r) gs) \<and> sl_dropped r \<le> length gs - 2
    \<and> sl_output r = message_cost (nat media) (sl_messages r)
    \<and> (if sl_fits r then int (sl_output r) \<le> sl_available r
          \<and> (sl_dropped r \<noteq> 0 \<longrightarrow> sl_available r < int (message_cost (nat media) (prefix @ concat (drop (sl_dropped r - 1) gs))))
        else sl_dropped r = length gs - 2)"
proof -
  from assms obtain budget prefix gs where gs: "groups_of ms = Inr (prefix, gs)" "gs \<noteq> []" "choose_groups (nat media) budget prefix gs = r"
    by (auto simp: select_working_context_def message_list_def bounded_integer_def split: if_splits)
  with groups_sound [OF gs(1)] choose_groups_result [OF gs(3)] show ?thesis
    by (intro exI [of _ prefix] exI [of _ gs]) simp
qed

theorem working_context_whole_witness:
  "\<exists>r prefix gs. demo_selection = Inr r \<and> sl_dropped r = 1 \<and> demo_chat = prefix @ concat gs \<and> sl_messages r = prefix @ concat (drop 1 gs)
     \<and> (\<forall>g\<in>set gs. exchange g) \<and> int (sl_output r) \<le> 56"
proof -
  note run = demo_selected [unfolded demo_selection_def]
  from working_context_whole [OF run] demo_dropped show ?thesis
    unfolding demo_selected choose_groups_result(4) [OF refl] by auto
qed

text \<open>C34 A prepared request is stable.  Preparing a request changes nothing but its messages, and preparing the result again, with the same
  limits, gives the same request: the selection is a fixed point, with nothing more to drop.\<close>

theorem prepared_request_stable:
  assumes "prepare_working_chat_request request context_tokens reserve_tokens image_tokens = Inr (prepared, info)"
  shows "(\<forall>k. k \<noteq> PStr (lit ''messages'') \<longrightarrow> oget (entries prepared) k = oget (entries request) k)
    \<and> (\<exists>info'. prepare_working_chat_request prepared context_tokens reserve_tokens image_tokens = Inr (prepared, info')
         \<and> dget info' ''dropped_groups'' = Some (PInt 0))"
proof -
  let ?k = "PStr (lit ''messages'')"
  from assms obtain r where req: "is_dict request" "is_list (dget_or request ''messages'' PNone)"
    and run: "select_working_context (dget_or request ''messages'' PNone) context_tokens reserve_tokens image_tokens = Inr r" "sl_fits r"
    and prepared: "prepared = PDict (oset ?k (PList (sl_messages r)) (entries request))"
    by (auto simp: prepare_working_chat_request_def Let_def)
  from req(2) obtain ms where ms: "dget_or request ''messages'' PNone = PList ms" by (cases "dget_or request ''messages'' PNone") auto
  from select_stable [OF run(1) [unfolded ms] run(2)] obtain r' where
    r': "select_working_context (PList (sl_messages r)) context_tokens reserve_tokens image_tokens = Inr r'" "sl_messages r' = sl_messages r"
    "sl_fits r'" "sl_dropped r' = 0" by blast
  have "dget_or prepared ''messages'' PNone = PList (sl_messages r)" by (simp add: prepared dget_or_def dget_def)
  with r' have "prepare_working_chat_request prepared context_tokens reserve_tokens image_tokens
      = Inr (prepared, mkdict (filter (\<lambda>kv. fst kv \<noteq> ''messages'') (selection_report image_tokens r')))"
    by (simp add: prepare_working_chat_request_def prepared oset_twice)
  moreover have "dget (mkdict (filter (\<lambda>kv. fst kv \<noteq> ''messages'') (selection_report image_tokens r'))) ''dropped_groups'' = Some (PInt 0)"
    by (simp add: selection_report_def r'(4))
  ultimately show ?thesis by (auto simp: prepared)
qed

theorem prepared_request_stable_witness:
  "\<exists>prepared info. prepare_working_chat_request (mkdict [(''model'', PStr (lit ''m'')), (''messages'', PList demo_chat)]) (PInt 256) (PInt 200) (PInt 1024)
       = Inr (prepared, info) \<and> dget prepared ''model'' = Some (PStr (lit ''m''))
     \<and> (\<exists>info'. prepare_working_chat_request prepared (PInt 256) (PInt 200) (PInt 1024) = Inr (prepared, info'))"
proof -
  obtain prepared info where run: "prepare_working_chat_request (mkdict [(''model'', PStr (lit ''m'')), (''messages'', PList demo_chat)])
      (PInt 256) (PInt 200) (PInt 1024) = Inr (prepared, info)"
    using demo_selected demo_dropped(1) by (auto simp: prepare_working_chat_request_def demo_selection_def dget_or_def Let_def)
      (simp_all add: mkdict_def)
  from prepared_request_stable [OF run] run show ?thesis by (auto simp: dget_def mkdict_def)
qed

end
