(* ===== verification/Spec2Isabelle.thy ===== *)
theory Spec2Isabelle
  imports Temporal_Facts Coordination Queue_Safety Authority_Runs Working_Context
begin

text \<open>
  Verification development for the memory core of Epic Continuum (\<open>src/src/continuum/core\<close>).

  \<^bold>\<open>The program.\<close>  Epic Continuum keeps the memory of AI agents in one SQLite database per root.  Its authority is the
  Scroll, an append-only history of events.  Everything else is derived from it or cites it: Cards (notes, with a
  supersession history and conflict groups), typed knowledge records (facts, handoffs, collections), project checkpoints, and a
  queue of maintenance jobs.  Librarian passes detect groups of conflicting Cards; a reviewer resolves a conflict by
  promoting one Card or by dismissing the conflict, and a receipt binds the decision.  An integrity report checks the whole
  temporal authority.  A context selection cuts a conversation to a token budget.

  \<^bold>\<open>Conventions.\<close>  A Python function that may raise returns a sum of an error and a value, with \<open>bindE\<close>, \<open>ensure\<close>,
  \<open>mapE\<close> and \<open>foldE\<close> for sequencing, guards and loops.  Strings are lists of code points, dynamically typed values the datatype
  \<open>pyval\<close>, insertion-ordered dictionaries association lists.  A table is a list of rows in insertion order; a transaction is a function
  from a database to an error or a new database, so a rollback is the error and leaves the old database.  SQL constraints, triggers and unique
  indexes are guards of the operation that would violate them.  Clocks, random identifiers, secret redaction, the full case folding and
  everything outside the modelled modules are arguments of the definitions that use them.

  \<^bold>\<open>Shared vocabulary.\<close>  \<open>Continuum_Prelude\<close> holds exceptions, strings, UTF-8 sizes and \<open>pyval\<close>; \<open>Py_Json\<close> the JSON writer and
  reader, \<open>Json_Roundtrip\<close> that canonical text reads back; \<open>Py_Time\<close> the part of \<open>datetime\<close> in use; \<open>Py_Hash\<close> SHA-256 on words of
  32 bits with wrap-around.

  \<^bold>\<open>Text and packets.\<close>  \<open>Text_Budget\<close> (\<open>store.py\<close>: \<open>estimate_tokens\<close>, \<open>truncate_to_token_budget\<close>, \<open>chunk_text\<close>; \<open>tool_outputs.py\<close>)
  shows that chunks and slices lose no text and that the chunker ends.  \<open>Packet_Budget\<close> (\<open>bounded_results\<close>, \<open>_fit_packet\<close>) treats packets that contain their
  own size.  \<open>Working_Context\<close> (\<open>working_context.py\<close>: \<open>select_working_context\<close>, \<open>prepare_working_chat_request\<close>) shows that a selection is made of whole groups, as many
  as fit, and is a fixed point.

  \<^bold>\<open>The Scroll and its records.\<close>  \<open>Scroll\<close> (\<open>append_scroll_event_once\<close>, \<open>roll_scroll_segment\<close> of \<open>store.py\<close>): append-only, sequence numbers without gaps, segments that
  tile a session, visibility partitions.  \<open>Knowledge_Records\<close> is \<open>knowledge_records.py\<close>; on it rest \<open>Temporal_Facts\<close> (\<open>temporal_facts.py\<close>: histories of corrections) and
  \<open>Coordination\<close> (\<open>coordination.py\<close>: leases of handoffs, versions of collections).  \<open>Head_Cas\<close> is their common contract, a locale of histories in which each record
  names the head it follows; both interpret it.  The locale \<open>replayed_kinds\<close> of \<open>Knowledge_Records\<close> is the contract of a module that replays its
  kinds of records after every append: facts, handoffs and collections interpret it.

  \<^bold>\<open>The queue.\<close>  \<open>Queue_Table\<close> and \<open>Work_Queue\<close> model \<open>enqueue_job\<close> (\<open>store.py\<close>) and the lease protocol of \<open>workers.py\<close>; \<open>Queue_Safety\<close> takes the operations
  as the steps of a state machine and proves its invariant, the exclusiveness of a live lease and the bound on passing over.

  \<^bold>\<open>Checkpoints.\<close>  \<open>Project_State\<close> (\<open>project_state.py\<close>) has the limits of a checkpoint, \<open>Checkpoint_Integrity\<close> (\<open>store.py\<close>:
  \<open>_project_state_card_integrity_error\<close> and what it calls) the verdict on a stored one.

  \<^bold>\<open>Temporal authority.\<close>  \<open>Cycle_Components\<close> and \<open>Authority_Report\<close> model \<open>temporal_authority.py\<close>; \<open>Authority_Graph\<close>, \<open>Conflict_Receipts\<close> and
  \<open>Conflict_Resolution\<close> the graph checks, the receipts and \<open>resolve_conflict\<close> of \<open>workers.py\<close>.  \<open>Authority_Invariant\<close> shows that a resolution keeps the report clean.
  \<open>Conflict_Budget\<close>, \<open>Conflict_Signals\<close>, \<open>Conflict_Candidates\<close> and \<open>Conflict_Detection\<close> model \<open>detect_conflicts\<close>: its work budget, the signatures it compares, the rows it
  selects, and its transaction.  Nine theories prove what a pass promises: \<open>Conflict_Grouping\<close> (the abstract groupings, with the locale \<open>group_names\<close>
  for names generated from a member), \<open>Conflict_Regrouping\<close> (what may change without affecting the report), \<open>Conflict_Components\<close> (the
  components are the classes of the conflict graph), \<open>Detection_Steps\<close>, \<open>Detection_Stages\<close> and \<open>Detection_Invariant\<close> (a pass refines the abstract grouping steps),
  \<open>Detection_Budget\<close> and \<open>Detection_Bounds\<close> (what a pass uses and may touch), \<open>Detection_Answers\<close> (it cannot fail).  \<open>Detection_Claims\<close> states the
  results for the whole function, and \<open>Authority_Runs\<close> composes passes and resolutions into runs: a clean store stays clean.

  \<^bold>\<open>Bounds.\<close>  All functions are total; no theorem rests on fuel that may run out.  Loops that are not structural have termination
  proofs (the chunker, the graph traversals, the topological check, the closure of a selection, the components of a pass).  The counted loops of
  \<open>Packet_Budget\<close> are the counted loops of the code.  Integers are unbounded as in Python, apart from the words of SHA-256.

  \<^bold>\<open>Assumptions.\<close>  Where a result needs something of an argument, it is a named hypothesis: a clock that does not run backwards
  (\<open>mono\<close>), fresh identifiers of audit events (\<open>fresh_audits\<close>), a redaction that leaves values which can be stored (\<open>storing\<close>) or leaves a receipt as it is
  (\<open>faithful_receipt\<close>).  Collisions of the 64-bit names of groups are not excluded: the theorem has them as its other case.

  \<^bold>\<open>Not modelled.\<close>  SQLite itself (isolation is a transaction as a function, busy retries are left out), full-text search and floating-point ranking,
  files (sidecars, archives, snapshots, bundles, storage tiers), HTTP (embeddings, local models, the review relay), operating system
  permissions and locks, the command line and MCP interfaces, and the adapters to other hosts: their behaviour is that of systems outside the
  program.  Of the core's own logic, the context planner, search, the recording and repair of checkpoints, the processors of
  the queue, and the record kinds for experiences, investigations and project files are left out; the manifest names each
  with its reason.
\<close>

end
